(* ===== verification/Prelude.thy ===== *)
theory Prelude
  imports Complex_Main "HOL-Library.Word" "HOL-Library.Finite_Map" "HOL-Library.Multiset"
begin

text \<open>
  The shared vocabulary of the development: machine integers, Go's fixed-size byte arrays
  \<open>[N]byte\<close> as the type \<open>'n barray\<close>, big-endian integers, Go's \<open>encoding/binary\<close> uvarints
  with their canonical form, results with errors, and the interface every wire codec of the
  program is held to (locale \<open>canonical_codec\<close>).
\<close>

unbundle bit_operations_syntax

section \<open>Bytes, words and results\<close>

type_synonym byte = "8 word"
type_synonym bytes = "8 word list"
type_synonym u8 = "8 word"
type_synonym u16 = "16 word"
type_synonym u32 = "32 word"
type_synonym u64 = "64 word"

text \<open>Simplification rules of the codecs, collected so that component proofs can name them.\<close>

named_theorems codec_simps
named_theorems wire_defs

text \<open>Sequencing of fallible steps: the first error is the result.\<close>

definition res_bind :: "'e + 'a \<Rightarrow> ('a \<Rightarrow> 'e + 'b) \<Rightarrow> 'e + 'b" where
  "res_bind r f = (case r of Inl e \<Rightarrow> Inl e | Inr a \<Rightarrow> f a)"

definition guard_res :: "bool \<Rightarrow> 'e \<Rightarrow> 'e + unit" where
  "guard_res c e = (if c then Inr () else Inl e)"

section \<open>Fixed-size byte arrays\<close>

text \<open>
  Go's \<open>[N]byte\<close>. The length is part of the type, so no operation has to carry it as an
  invariant; \<open>copy_array\<close> is \<open>var a [N]byte; copy(a[:], xs)\<close>, which keeps the zero value of
  whatever the source does not reach and drops what does not fit.
\<close>

typedef (overloaded) ('n::len) barray = "{xs :: bytes. length xs = LENGTH('n)}"
  morphisms array_bytes Abs_barray
proof
  show "replicate LENGTH('n) 0 \<in> {xs :: bytes. length xs = LENGTH('n)}" by simp
qed

definition copy_array :: "bytes \<Rightarrow> ('n::len) barray" where
  "copy_array xs = Abs_barray (take LENGTH('n) (xs @ replicate LENGTH('n) 0))"

definition zero_array :: "('n::len) barray" where
  "zero_array = copy_array []"

text \<open>Go's array equality and the byte-wise comparison loops of the sources.\<close>

fun bytes_less :: "bytes \<Rightarrow> bytes \<Rightarrow> bool" where
  "bytes_less (a # as) (b # bs) = (if a \<noteq> b then a < b else bytes_less as bs)"
| "bytes_less _ _ = False"

instantiation barray :: (len) linorder
begin

definition less_barray :: "'a barray \<Rightarrow> 'a barray \<Rightarrow> bool" where
  "less_barray a b \<longleftrightarrow> bytes_less (array_bytes a) (array_bytes b)"

definition less_eq_barray :: "'a barray \<Rightarrow> 'a barray \<Rightarrow> bool" where
  "less_eq_barray a b \<longleftrightarrow> a = b \<or> bytes_less (array_bytes a) (array_bytes b)"

instance
proof
  have irrefl: "\<not> bytes_less xs xs" for xs
    by (induction xs) auto
  have asym: "bytes_less xs ys \<Longrightarrow> \<not> bytes_less ys xs" for xs ys
    by (induction xs ys rule: bytes_less.induct) (auto split: if_splits)
  have trans: "bytes_less xs ys \<Longrightarrow> bytes_less ys zs \<Longrightarrow> bytes_less xs zs" for xs ys zs
  proof (induction xs ys arbitrary: zs rule: bytes_less.induct)
    case (1 a as b bs)
    then show ?case by (cases zs) (auto split: if_splits)
  qed auto
  have total: "length xs = length ys \<Longrightarrow> xs = ys \<or> bytes_less xs ys \<or> bytes_less ys xs" for xs ys
    by (induction xs ys rule: list_induct2) (auto simp: not_less_iff_gr_or_eq)
  have len: "length (array_bytes a) = LENGTH('a)" for a :: "'a barray"
    using array_bytes [of a] by simp
  fix x y z :: "'a barray"
  show "(x < y) = (x \<le> y \<and> \<not> y \<le> x)"
    using asym irrefl by (auto simp: less_barray_def less_eq_barray_def)
  show "x \<le> x" by (simp add: less_eq_barray_def)
  show "x \<le> y \<Longrightarrow> y \<le> z \<Longrightarrow> x \<le> z"
    using trans by (auto simp: less_eq_barray_def)
  show "x \<le> y \<Longrightarrow> y \<le> x \<Longrightarrow> x = y"
    using asym by (auto simp: less_eq_barray_def)
  show "x \<le> y \<or> y \<le> x"
    using total [of "array_bytes x" "array_bytes y"]
    by (auto simp: less_eq_barray_def len array_bytes_inject)
qed

end

section \<open>Big-endian integers\<close>

text \<open>\<open>binary.BigEndian\<close>: \<open>AppendUint16/32\<close>, \<open>PutUint64\<close> and their readers.\<close>

definition put_u16 :: "u16 \<Rightarrow> bytes" where
  "put_u16 x = [ucast (drop_bit 8 x), ucast x]"

fun get_u16 :: "bytes \<Rightarrow> u16" where
  "get_u16 (a # b # _) = push_bit 8 (ucast a) OR ucast b"
| "get_u16 _ = 0"

definition put_u32 :: "u32 \<Rightarrow> bytes" where
  "put_u32 x = [ucast (drop_bit 24 x), ucast (drop_bit 16 x), ucast (drop_bit 8 x), ucast x]"

fun get_u32 :: "bytes \<Rightarrow> u32" where
  "get_u32 (a # b # c # d # _) =
     push_bit 24 (ucast a) OR push_bit 16 (ucast b) OR push_bit 8 (ucast c) OR ucast d"
| "get_u32 _ = 0"

definition put_u64 :: "u64 \<Rightarrow> bytes" where
  "put_u64 x = put_u32 (ucast (drop_bit 32 x)) @ put_u32 (ucast x)"

section \<open>Uvarints\<close>

text \<open>\<open>binary.AppendUvarint(nil, x)\<close>: seven bits at a time, low bits first.\<close>

function append_uvarint :: "u64 \<Rightarrow> bytes" where
  "append_uvarint x =
     (if x \<ge> 0x80 then (ucast x OR 0x80) # append_uvarint (drop_bit 7 x) else [ucast x])"
  by pat_completeness auto
termination
proof (relation "measure unat")
  fix x :: u64
  assume "x \<ge> 0x80"
  then have "0x80 \<le> unat x" by (simp add: word_le_nat_alt)
  then show "(drop_bit 7 x, x) \<in> measure unat"
    by (simp add: unat_drop_bit_eq drop_bit_eq_div [of 7 "unat x"])
qed simp

declare append_uvarint.simps [simp del]

text \<open>
  \<open>binary.Uvarint\<close>: the value and the number of bytes read, \<open>0\<close> when the buffer is too
  small and a negative count when the value overflows 64 bits.
\<close>

fun uvarint_loop :: "nat \<Rightarrow> u64 \<Rightarrow> nat \<Rightarrow> bytes \<Rightarrow> u64 \<times> int" where
  "uvarint_loop i x s [] = (0, 0)"
| "uvarint_loop i x s (b # bs) =
     (if i = 10 then (0, - int (i + 1))
      else if b < 0x80 then
        (if i = 9 \<and> b > 1 then (0, - int (i + 1))
         else (x OR push_bit s (ucast b), int (i + 1)))
      else uvarint_loop (i + 1) (x OR push_bit s (ucast (b AND 0x7f))) (s + 7) bs)"

definition uvarint :: "bytes \<Rightarrow> u64 \<times> int" where
  "uvarint b = uvarint_loop 0 0 0 b"

datatype varint_error = VarintTruncated | VarintNonCanonical

text \<open>
  The \<open>canonicalUvarint\<close> of the version-vector and gossip packages: only the shortest
  encoding of a value is accepted.
\<close>

definition canonical_uvarint :: "bytes \<Rightarrow> varint_error + u64 \<times> nat" where
  "canonical_uvarint b =
     (let (val, n) = uvarint b
      in if n \<le> 0 then Inl VarintTruncated
         else if int (length (append_uvarint val)) \<noteq> n then Inl VarintNonCanonical
         else Inr (val, nat n))"

section \<open>Lemmas on results, arrays and integers\<close>

lemma res_bind_simps [simp]:
  "res_bind (Inl e) f = Inl e"
  "res_bind (Inr a) f = f a"
  by (simp_all add: res_bind_def)

lemma res_bind_eq_Inr [simp]:
  "res_bind r f = Inr b \<longleftrightarrow> (\<exists>a. r = Inr a \<and> f a = Inr b)"
  by (auto simp: res_bind_def split: sum.splits)

lemma guard_res_eq_Inr [simp]: "guard_res c e = Inr u \<longleftrightarrow> c"
  by (simp add: guard_res_def)

lemma guard_res_eq_Inl [simp]: "guard_res c e = Inl f \<longleftrightarrow> \<not> c \<and> f = e"
  by (auto simp: guard_res_def)

lemma guard_res_True [simp]: "guard_res True e = Inr ()"
  by (simp add: guard_res_def)

lemma guard_res_False [simp]: "guard_res False e = Inl e"
  by (simp add: guard_res_def)

lemma length_array_bytes [simp]: "length (array_bytes (a :: 'n::len barray)) = LENGTH('n)"
  using array_bytes [of a] by simp

lemma array_bytes_copy_array [simp]:
  "array_bytes (copy_array xs :: 'n::len barray) = take LENGTH('n) (xs @ replicate LENGTH('n) 0)"
  by (simp add: copy_array_def Abs_barray_inverse)

lemma copy_array_exact [simp]:
  "length xs = LENGTH('n) \<Longrightarrow> array_bytes (copy_array xs :: 'n::len barray) = xs"
  by simp

lemma copy_array_bytes [simp]: "copy_array (array_bytes a) = a"
  by (simp add: array_bytes_inject [symmetric])

lemma copy_array_append [simp]: "copy_array (array_bytes (a :: 'n::len barray) @ xs) = a"
  by (simp add: array_bytes_inject [symmetric])

lemma array_eq_iff: "a = b \<longleftrightarrow> array_bytes a = array_bytes b"
  by (simp add: array_bytes_inject)

lemma copy_array_eq_iff:
  "length xs = LENGTH('n) \<Longrightarrow> copy_array xs = (a :: 'n::len barray) \<longleftrightarrow> xs = array_bytes a"
  by (auto simp: array_eq_iff)

lemma array_bytes_take:
  "LENGTH('n) \<le> length b \<Longrightarrow> array_bytes (copy_array (take LENGTH('n) b) :: 'n::len barray) = take LENGTH('n) b"
  by simp

lemma array_bytes_take8: "8 \<le> length b \<Longrightarrow> array_bytes (copy_array (take 8 b) :: 8 barray) = take 8 b"
  by simp

lemma array_bytes_take4: "4 \<le> length b \<Longrightarrow> array_bytes (copy_array (take 4 b) :: 4 barray) = take 4 b"
  by simp

lemma unat_u64_less: "unat (x :: u64) < 18446744073709551616"
proof -
  have "unat x < 2 ^ LENGTH(64)" by (rule unsigned_less)
  then show ?thesis by simp
qed

lemma array_bytes_not_Nil [simp]: "array_bytes (a :: 'n::len barray) \<noteq> []"
  using length_array_bytes [of a] by force

instantiation barray :: (len) equal
begin

definition equal_barray :: "'a barray \<Rightarrow> 'a barray \<Rightarrow> bool" where
  "equal_barray a b \<longleftrightarrow> array_bytes a = array_bytes b"

instance by standard (simp add: equal_barray_def array_eq_iff)

end

lemma Abs_barray_abstype [code abstype]: "Abs_barray (array_bytes a) = a"
  by (rule array_bytes_inverse)

lemma copy_array_abstract [code abstract]:
  "array_bytes (copy_array xs :: 'n::len barray) = take LENGTH('n) (xs @ replicate LENGTH('n) 0)"
  by simp

lemma length_put_u16 [simp]: "length (put_u16 x) = 2"
  by (simp add: put_u16_def)

lemma length_put_u32 [simp]: "length (put_u32 x) = 4"
  by (simp add: put_u32_def)

lemma length_put_u64 [simp]: "length (put_u64 x) = 8"
  by (simp add: put_u64_def)

lemma get_put_u16 [simp]: "get_u16 (put_u16 x @ rest) = x"
proof -
  have "push_bit 8 (ucast (ucast (drop_bit 8 x) :: u8)) OR ucast (ucast x :: u8) = x"
    by (rule bit_word_eqI)
      (auto simp: bit_push_bit_iff bit_or_iff bit_ucast_iff bit_drop_bit_eq dest: bit_imp_le_length)
  then show ?thesis by (simp add: put_u16_def)
qed

lemma get_put_u32 [simp]: "get_u32 (put_u32 x @ rest) = x"
proof -
  have "push_bit 24 (ucast (ucast (drop_bit 24 x) :: u8)) OR push_bit 16 (ucast (ucast (drop_bit 16 x) :: u8))
     OR push_bit 8 (ucast (ucast (drop_bit 8 x) :: u8)) OR ucast (ucast x :: u8) = x" (is "?l = _")
  proof (rule bit_word_eqI)
    fix n :: nat
    assume "n < LENGTH(32)"
    then consider "n < 8" | "8 \<le> n \<and> n < 16" | "16 \<le> n \<and> n < 24" | "24 \<le> n \<and> n < 32"
      by fastforce
    then show "bit ?l n \<longleftrightarrow> bit x n"
      by cases (auto simp: bit_push_bit_iff bit_or_iff bit_ucast_iff bit_drop_bit_eq)
  qed
  then show ?thesis by (simp add: put_u32_def)
qed

lemma put_get_u16: "length bs = 2 \<Longrightarrow> put_u16 (get_u16 bs) = bs"
proof -
  have "ucast (drop_bit 8 (push_bit 8 (ucast a) OR ucast b :: u16)) = a"
    "ucast (push_bit 8 (ucast a) OR ucast b :: u16) = b" for a b :: u8
    by (rule bit_word_eqI, auto simp: bit_push_bit_iff bit_or_iff bit_ucast_iff bit_drop_bit_eq
        dest: bit_imp_le_length)+
  then show "length bs = 2 \<Longrightarrow> put_u16 (get_u16 bs) = bs"
    by (auto simp: put_u16_def numeral_2_eq_2 length_Suc_conv)
qed

lemma put_get_u32: "length bs = 4 \<Longrightarrow> put_u32 (get_u32 bs) = bs"
proof -
  let ?w = "\<lambda>a b c d :: u8. push_bit 24 (ucast a) OR push_bit 16 (ucast b) OR push_bit 8 (ucast c) OR ucast d :: u32"
  have "ucast (drop_bit 24 (?w a b c d)) = a" "ucast (drop_bit 16 (?w a b c d)) = b"
    "ucast (drop_bit 8 (?w a b c d)) = c" "ucast (?w a b c d) = d" for a b c d :: u8
    by (rule bit_word_eqI, auto simp: bit_push_bit_iff bit_or_iff bit_ucast_iff bit_drop_bit_eq
        dest: bit_imp_le_length)+
  then show "length bs = 4 \<Longrightarrow> put_u32 (get_u32 bs) = bs"
    by (auto simp: put_u32_def numeral_eq_Suc length_Suc_conv)
qed

lemma put_u16_inj [simp]: "put_u16 x = put_u16 y \<longleftrightarrow> x = y"
  by (metis get_put_u16)

lemma put_u32_inj [simp]: "put_u32 x = put_u32 y \<longleftrightarrow> x = y"
  by (metis get_put_u32)

section \<open>Lemmas on uvarints\<close>

lemma append_uvarint_small: "x < 0x80 \<Longrightarrow> append_uvarint x = [ucast x]"
  by (subst append_uvarint.simps) (simp add: linorder_not_le [symmetric])

lemma append_uvarint_big:
  "x \<ge> 0x80 \<Longrightarrow> append_uvarint x = (ucast x OR 0x80) # append_uvarint (drop_bit 7 x)"
  by (subst append_uvarint.simps) simp

lemma append_uvarint_not_Nil [simp]: "append_uvarint x \<noteq> []"
  by (subst append_uvarint.simps) simp

lemma append_uvarint_length_pos [simp]: "0 < length (append_uvarint x)"
  by simp

lemma unat_shift7: "unat (drop_bit 7 (x :: u64)) = unat x div 128"
  by (simp add: unat_drop_bit_eq drop_bit_eq_div [of 7 "unat x"])

lemma append_uvarint_length_bound:
  "unat x < 2 ^ (7 * n) \<Longrightarrow> 0 < n \<Longrightarrow> length (append_uvarint x) \<le> n"
proof (induction n arbitrary: x)
  case (Suc n)
  show ?case
  proof (cases "x \<ge> 0x80")
    case True
    then have big: "128 \<le> unat x" by (simp add: word_le_nat_alt)
    have "0 < n" using big Suc.prems by (cases n) auto
    moreover have "unat (drop_bit 7 x) < 2 ^ (7 * n)"
      using Suc.prems(1) by (simp add: unat_shift7 power_add less_mult_imp_div_less mult.commute)
    ultimately show ?thesis using Suc.IH [of "drop_bit 7 x"] True by (simp add: append_uvarint_big)
  next
    case False
    then show ?thesis by (simp add: append_uvarint_small not_le)
  qed
qed simp

text \<open>A uvarint of 64 bits never takes more than \<open>binary.MaxVarintLen64 = 10\<close> bytes.\<close>

lemma append_uvarint_max: "length (append_uvarint x) \<le> 10"
proof -
  have "unat x < 2 ^ 64" using unsigned_less [of x] by simp
  then have "unat x < 2 ^ (7 * 10)" by simp
  then show ?thesis by (rule append_uvarint_length_bound) simp
qed

text \<open>Reading back what \<open>AppendUvarint\<close> wrote, wherever the reader already is.\<close>

lemma mask7_u64: "(0x7f :: u64) = mask 7"
  by (simp add: mask_eq_exp_minus_1)

lemma mask7_u8: "(0x7f :: u8) = mask 7"
  by (simp add: mask_eq_exp_minus_1)

lemma bit7_u8: "bit (0x80 :: u8) n \<longleftrightarrow> n = 7"
proof -
  have "(0x80 :: u8) = push_bit 7 1" by simp
  then have "bit (0x80 :: u8) n \<longleftrightarrow> bit (push_bit 7 1 :: u8) n" by (simp only:)
  then show ?thesis by (simp only: bit_push_bit_iff) (auto simp: bit_1_iff)
qed

lemma bit7_u64: "bit (0x80 :: u64) n \<longleftrightarrow> n = 7"
proof -
  have "(0x80 :: u64) = push_bit 7 1" by simp
  then have "bit (0x80 :: u64) n \<longleftrightarrow> bit (push_bit 7 1 :: u64) n" by (simp only:)
  then show ?thesis by (simp only: bit_push_bit_iff) (auto simp: bit_1_iff)
qed

lemmas word_bit_simps = bit7_u64 bit_or_iff bit_and_iff bit_push_bit_iff bit_drop_bit_eq bit_ucast_iff
  bit_mask_iff mask7_u64 mask7_u8 bit7_u8

lemma low7_or_high: "(y :: u64) AND 0x7f OR push_bit 7 (drop_bit 7 y) = y"
proof (rule bit_word_eqI)
  fix n
  show "bit (y AND 0x7f OR push_bit 7 (drop_bit 7 y)) n \<longleftrightarrow> bit y n" if "n < LENGTH(64)"
    using that by (cases "n < 7") (simp_all add: word_bit_simps)
qed

lemma continuation_byte: "ucast ((ucast (y :: u64) OR 0x80 :: u8) AND 0x7f) = y AND 0x7f"
proof -
  have "(ucast y OR 0x80 :: u8) AND 0x7f = ucast y AND 0x7f"
    by (rule bit_word_eqI, simp only: bit_and_iff bit_or_iff bit7_u8 mask7_u8 bit_mask_iff) auto
  moreover have "ucast (ucast y AND 0x7f :: u8) = y AND 0x7f"
    by (rule bit_word_eqI) (auto simp: word_bit_simps)
  ultimately show ?thesis by (simp only:)
qed

lemma continuation_big: "\<not> (ucast (y :: u64) OR 0x80 :: u8) < 0x80"
proof -
  have "(0x80 :: u8) = 0x80 AND (ucast y OR 0x80)"
    by (rule bit_word_eqI) (auto simp: word_bit_simps)
  then show ?thesis by (metis not_less word_and_le1)
qed

lemma ucast_small_byte: "(y :: u64) < 0x80 \<Longrightarrow> ucast (ucast y :: u8) = y \<and> (ucast y :: u8) < 0x80"
  by (auto simp: word_less_nat_alt unsigned_ucast_eq take_bit_eq_mod word_unat_eq_iff unat_mod_distrib)

lemma ucast_u64_byte [simp]: "ucast (ucast (b :: u8) :: u64) = b"
  by (rule bit_word_eqI) (simp add: bit_ucast_iff)

lemma uvarint_loop_append:
  "unat y < 2 ^ (64 - 7 * i) \<Longrightarrow> i \<le> 9 \<Longrightarrow>
   uvarint_loop i x (7 * i) (append_uvarint y @ rest) =
     (x OR push_bit (7 * i) y, int (i + length (append_uvarint y)))"
proof (induction y arbitrary: i x rule: append_uvarint.induct)
  case (1 y)
  show ?case
  proof (cases "y \<ge> 0x80")
    case True
    have big: "128 \<le> unat y" using True by (simp add: word_le_nat_alt)
    have i8: "i \<le> 8"
    proof (rule ccontr)
      assume "\<not> i \<le> 8"
      then have "i = 9" using "1.prems"(2) by simp
      then show False using "1.prems"(1) big by simp
    qed
    have "2 ^ (64 - 7 * i) = (2 :: nat) ^ (64 - 7 * (i + 1)) * 128"
    proof -
      have "64 - 7 * i = 64 - 7 * (i + 1) + 7" using i8 by simp
      then show ?thesis by (simp only: power_add) simp
    qed
    then have small: "unat (drop_bit 7 y) < 2 ^ (64 - 7 * (i + 1))"
      using "1.prems"(1) by (simp add: unat_shift7 less_mult_imp_div_less)
    have or: "(x OR push_bit (7 * i) (y AND 0x7f)) OR push_bit (7 * (i + 1)) (drop_bit 7 y)
        = x OR push_bit (7 * i) y"
    proof -
      have "push_bit (7 * (i + 1)) (drop_bit 7 y) = push_bit (7 * i) (push_bit 7 (drop_bit 7 y))"
        by (simp add: push_bit_push_bit algebra_simps)
      then have "push_bit (7 * i) (y AND 0x7f) OR push_bit (7 * (i + 1)) (drop_bit 7 y)
          = push_bit (7 * i) (y AND 0x7f OR push_bit 7 (drop_bit 7 y))"
        by (simp only: push_bit_or)
      then show ?thesis by (simp only: low7_or_high or.assoc)
    qed
    show ?thesis
      using "1.IH" [OF True small, of "x OR push_bit (7 * i) (y AND 0x7f)"] i8 or
      by (simp add: append_uvarint_big [OF True] continuation_byte continuation_big algebra_simps)
  next
    case False
    then have small: "y < 0x80" by simp
    have "i = 9 \<Longrightarrow> unat (ucast y :: u8) \<le> 1"
      using "1.prems"(1) by (simp add: unsigned_ucast_eq take_bit_eq_mod)
    then have "\<not> (i = 9 \<and> (ucast y :: u8) > 1)"
      by (auto simp: word_less_nat_alt)
    then show ?thesis
      using ucast_small_byte [OF small] "1.prems"(2) by (simp add: append_uvarint_small [OF small])
  qed
qed

lemma uvarint_append [simp]: "uvarint (append_uvarint y @ rest) = (y, int (length (append_uvarint y)))"
  using uvarint_loop_append [of y 0 0 rest] unsigned_less [of y] by (simp add: uvarint_def)

text \<open>
  Every accepted byte string is either the shortest encoding of the value read or longer
  than it: the length test of \<open>canonicalUvarint\<close> is therefore enough.
\<close>

lemma push_bit_or_split: "push_bit s (a :: u64) OR push_bit (s + 7) b = push_bit s (a OR push_bit 7 b)"
  by (simp add: push_bit_or push_bit_push_bit add.commute)

lemma byte_and7: "ucast ((b :: u8) AND 0x7f) = (ucast b AND 0x7f :: u64)"
  by (rule bit_word_eqI) (auto simp: word_bit_simps)

lemma shift7_of_or:
  assumes "unat (z :: u64) < 2 ^ 57"
  shows "drop_bit 7 ((ucast (b :: u8) AND 0x7f) OR push_bit 7 z) = z"
proof (rule bit_word_eqI)
  fix n
  assume n: "n < LENGTH(64)"
  have "\<not> bit z n" if "57 \<le> n"
  proof -
    have "take_bit 57 z = z" using assms 
      by (simp add: word_unat_eq_iff unsigned_take_bit_eq take_bit_nat_eq_self_iff)
    then have "bit z n \<longleftrightarrow> bit (take_bit 57 z) n" by simp
    then show ?thesis using that by (simp add: bit_take_bit_iff)
  qed
  then show "bit (drop_bit 7 ((ucast b AND 0x7f) OR push_bit 7 z)) n \<longleftrightarrow> bit z n"
    using n by (cases "57 \<le> n") (simp_all add: word_bit_simps)
qed

lemma high_bit_u8: "\<not> (b :: u8) < 0x80 \<Longrightarrow> bit b 7"
proof -
  assume "\<not> b < 0x80"
  then have "128 \<le> unat b" by (simp add: word_less_nat_alt not_less)
  moreover have "unat b < 256" using unsigned_less [of b] by simp
  ultimately have "unat b div 2 ^ 7 = 1" by (simp add: div_nat_eqI)
  then have "bit (unat b) 7" by (simp add: bit_iff_odd)
  then show "bit b 7" by (simp add: bit_unsigned_iff)
qed

lemma continuation_of_big:
  assumes "\<not> (b :: u8) < 0x80"
  shows "b = ucast ((ucast b AND 0x7f) OR push_bit 7 z :: u64) OR 0x80"
proof (rule bit_word_eqI)
  fix n
  assume "n < LENGTH(8)"
  then consider "n = 7" | "n < 7" by fastforce
  then show "bit b n \<longleftrightarrow> bit (ucast ((ucast b AND 0x7f) OR push_bit 7 z :: u64) OR 0x80 :: u8) n"
    using high_bit_u8 [OF assms]
    by cases (simp_all only: bit_or_iff bit7_u8, auto simp: word_bit_simps)
qed

lemma uvarint_loop_sound:
  assumes "uvarint_loop i x (7 * i) bs = (v, n)" and "0 < n" and "i \<le> 9"
  shows "\<exists>y k. unat y < 2 ^ (64 - 7 * i) \<and> v = x OR push_bit (7 * i) y \<and> n = int (i + k) \<and>
     k \<le> length bs \<and> (take k bs = append_uvarint y \<or> length (append_uvarint y) < k)"
  using assms
proof (induction bs arbitrary: i x)
  case (Cons b bs)
  show ?case
  proof (cases "b < 0x80")
    case True
    let ?y = "ucast b :: u64"
    have small: "?y < 0x80" using True by (simp add: word_less_nat_alt unsigned_ucast_eq take_bit_eq_mod)
    have noov: "\<not> (i = 9 \<and> b > 1)" using Cons.prems True by (auto split: if_splits)
    have "unat ?y < 2 ^ (64 - 7 * i)"
    proof (cases "i = 9")
      case i9: True
      with noov have "unat b \<le> 1" by (simp add: word_less_nat_alt not_less)
      with i9 show ?thesis by (simp add: unsigned_ucast_eq take_bit_eq_mod)
    next
      case False
      then have "(7::nat) \<le> 64 - 7 * i" using Cons.prems(3) by arith
      then have "(2::nat) ^ 7 \<le> 2 ^ (64 - 7 * i)" by (rule power_increasing) simp
      moreover have "unat ?y < 2 ^ 7" using small by (simp add: word_less_nat_alt)
      ultimately show ?thesis by linarith
    qed
    moreover have "append_uvarint ?y = [b]"
      by (simp add: append_uvarint_small [OF small])
    ultimately show ?thesis
      using Cons.prems True noov by (intro exI [of _ ?y] exI [of _ 1]) (auto split: if_splits)
  next
    case False
    have i8: "i \<le> 8" using Cons.prems False by (cases bs) (auto split: if_splits)
    have rec: "uvarint_loop (i + 1) (x OR push_bit (7 * i) (ucast (b AND 0x7f))) (7 * (i + 1)) bs = (v, n)"
      using Cons.prems False by (auto simp: algebra_simps split: if_splits)
    obtain z k where z: "unat z < 2 ^ (64 - 7 * (i + 1))"
      and v: "v = (x OR push_bit (7 * i) (ucast (b AND 0x7f))) OR push_bit (7 * (i + 1)) z"
      and n: "n = int (i + 1 + k)" and k: "k \<le> length bs"
      and alt: "take k bs = append_uvarint z \<or> length (append_uvarint z) < k"
      using Cons.IH [OF rec Cons.prems(2)] i8 by auto
    let ?y = "(ucast b AND 0x7f) OR push_bit 7 z :: u64"
    have "64 - 7 * (i + 1) \<le> 57" by simp
    then have "(2::nat) ^ (64 - 7 * (i + 1)) \<le> 2 ^ 57" by (rule power_increasing) simp
    then have z57: "unat z < 2 ^ 57" using z by linarith
    have sh: "drop_bit 7 ?y = z" by (rule shift7_of_or [OF z57])
    have vy: "v = x OR push_bit (7 * i) ?y"
      using v push_bit_or_split [of "7 * i" "ucast b AND 0x7f" z]
      by (simp only: byte_and7 or.assoc) (simp add: algebra_simps)
    have ybound: "unat ?y < 2 ^ (64 - 7 * i)"
    proof -
      have "unat ?y div 128 < 2 ^ (64 - 7 * (i + 1))"
        using z sh unat_shift7 [of ?y] by simp
      then have "unat ?y < 2 ^ (64 - 7 * (i + 1)) * 128"
        by (simp add: div_less_iff_less_mult)
      moreover have "(2::nat) ^ (64 - 7 * (i + 1)) * 128 = 2 ^ (64 - 7 * (i + 1) + 7)"
        by (simp add: power_add)
      moreover have "64 - 7 * (i + 1) + 7 = 64 - 7 * i" using i8 by simp
      ultimately show ?thesis by metis
    qed
    have "take (Suc k) (b # bs) = append_uvarint ?y \<or> length (append_uvarint ?y) < Suc k"
    proof (cases "?y \<ge> 0x80")
      case True
      have "b = ucast ?y OR 0x80" by (rule continuation_of_big [OF False])
      then show ?thesis using alt sh by (auto simp: append_uvarint_big [OF True])
    next
      case small: False
      then have "z = 0" using sh unat_shift7 [of ?y]
        by (simp add: not_le word_less_nat_alt unat_eq_zero [symmetric] del: unat_eq_zero)
      then have "0 < k" using alt by (cases k) (use append_uvarint_not_Nil [of 0] in auto)
      then show ?thesis using small by (simp add: append_uvarint_small not_le)
    qed
    then show ?thesis
      using ybound vy n k by (intro exI [of _ ?y] exI [of _ "Suc k"]) auto
  qed
qed simp

lemma canonical_uvarint_append [simp]:
  "canonical_uvarint (append_uvarint v @ rest) = Inr (v, length (append_uvarint v))"
  by (simp add: canonical_uvarint_def not_le)

lemma canonical_uvarint_eq_Inr:
  "canonical_uvarint b = Inr (v, n) \<longleftrightarrow> n = length (append_uvarint v) \<and> take n b = append_uvarint v"
proof
  assume ok: "canonical_uvarint b = Inr (v, n)"
  then have u: "uvarint_loop 0 0 (7 * 0) b = (v, int n)" "0 < int n"
    and len: "length (append_uvarint v) = n"
    by (auto simp: canonical_uvarint_def uvarint_def split: prod.splits if_splits)
  from uvarint_loop_sound [OF u] len
  show "n = length (append_uvarint v) \<and> take n b = append_uvarint v" by auto
next
  assume *: "n = length (append_uvarint v) \<and> take n b = append_uvarint v"
  then have "b = append_uvarint v @ drop n b" by (metis append_take_drop_id)
  then show "canonical_uvarint b = Inr (v, n)" using * by (metis canonical_uvarint_append)
qed

lemma canonical_uvarint_split:
  "canonical_uvarint b = Inr (v, n) \<Longrightarrow> b = append_uvarint v @ drop n b"
  by (metis append_take_drop_id canonical_uvarint_eq_Inr)

lemma append_uvarint_inj: "append_uvarint x = append_uvarint y \<Longrightarrow> x = y"
  using canonical_uvarint_append [of x "[]"] canonical_uvarint_append [of y "[]"] by simp

section \<open>The contract of a wire codec\<close>

text \<open>
  Every format of the program promises the same thing: what is well formed survives the
  round trip, and the decoder accepts nothing but the encoder's own output. The second law
  is the one the sources insist on: one logical value has one wire form, since identifiers
  and digests are hashes over the bytes.
\<close>

locale canonical_codec =
  fixes wf :: "'a \<Rightarrow> bool"
    and enc :: "'a \<Rightarrow> bytes"
    and dec :: "bytes \<Rightarrow> 'e + 'a"
  assumes dec_enc: "wf x \<Longrightarrow> dec (enc x) = Inr x"
    and enc_dec: "dec b = Inr x \<Longrightarrow> wf x \<and> enc x = b"
begin

lemma accepts_iff: "dec b = Inr x \<longleftrightarrow> wf x \<and> enc x = b"
  by (metis dec_enc enc_dec)

lemma enc_injective: "wf x \<Longrightarrow> wf y \<Longrightarrow> enc x = enc y \<Longrightarrow> x = y"
  by (metis dec_enc sum.inject(2))

lemma one_wire_form: "dec b = Inr x \<Longrightarrow> dec c = Inr x \<Longrightarrow> b = c"
  using enc_dec by blast

lemma dec_injective: "dec b = Inr x \<Longrightarrow> dec c = Inr y \<Longrightarrow> b \<noteq> c \<Longrightarrow> x \<noteq> y"
  using enc_dec by blast

lemma rejects_other: "wf x \<Longrightarrow> b \<noteq> enc x \<Longrightarrow> dec b \<noteq> Inr x"
  using enc_dec by blast

end

text \<open>
  A codec with a fallible encoder (the record bodies validate before writing) is the same
  contract with well-formedness read off the encoder's success.
\<close>

locale checked_codec =
  fixes mar :: "'a \<Rightarrow> 'e + bytes"
    and unmar :: "bytes \<Rightarrow> 'e + 'a"
  assumes unmar_mar: "mar x = Inr b \<Longrightarrow> unmar b = Inr x"
    and mar_unmar: "unmar b = Inr x \<Longrightarrow> mar x = Inr b"
begin

lemma mar_injective: "mar x = Inr b \<Longrightarrow> mar y = Inr b \<Longrightarrow> x = y"
  using unmar_mar [of x b] unmar_mar [of y b] by simp

lemma unmar_injective: "unmar b = Inr x \<Longrightarrow> unmar c = Inr x \<Longrightarrow> b = c"
  using mar_unmar [of b x] mar_unmar [of c x] by simp

lemma mar_iff_unmar: "mar x = Inr b \<longleftrightarrow> unmar b = Inr x"
  using unmar_mar [of x b] mar_unmar [of b x] by auto

end

sublocale checked_codec \<subseteq> canonical_codec "\<lambda>x. \<exists>b. mar x = Inr b"
    "\<lambda>x. case mar x of Inl _ \<Rightarrow> [] | Inr b \<Rightarrow> b" unmar
proof unfold_locales
  fix x
  assume "\<exists>b. mar x = Inr b"
  then obtain b where "mar x = Inr b" by blast
  then show "unmar (case mar x of Inl _ \<Rightarrow> [] | Inr b \<Rightarrow> b) = Inr x"
    by (simp add: unmar_mar)
next
  fix b x
  assume "unmar b = Inr x"
  then show "(\<exists>b. mar x = Inr b) \<and> (case mar x of Inl _ \<Rightarrow> [] | Inr b \<Rightarrow> b) = b"
    by (simp add: mar_unmar)
qed

end
