(* ===== verification/GoMaps.thy ===== *)
theory GoMaps
  imports Prelude
begin

text \<open>
  Go maps as finite maps. A loop \<open>for k, v := range m\<close> visits the entries in an order the
  language leaves open; \<open>fmap_items\<close> fixes the ascending one, which is also the order of the
  sorted walks the sources use wherever a result depends on it. Where a loop's result does not
  depend on the order, the component proves it.
\<close>

definition fmap_items :: "('k::linorder, 'v) fmap \<Rightarrow> ('k \<times> 'v) list" where
  "fmap_items m = map (\<lambda>k. (k, the (fmlookup m k))) (sorted_list_of_fset (fmdom m))"

text \<open>Go's map read with the zero value for an absent key, as used for integer maps.\<close>

definition fmget :: "('k, 'v::zero) fmap \<Rightarrow> 'k \<Rightarrow> 'v" where
  "fmget m k = (case fmlookup m k of None \<Rightarrow> 0 | Some v \<Rightarrow> v)"

abbreviation ascending :: "('k::linorder) list \<Rightarrow> bool" where
  "ascending ks \<equiv> sorted_wrt (<) ks"

section \<open>Ascending lists\<close>

lemma ascending_distinct: "ascending xs \<Longrightarrow> distinct (xs :: 'a::linorder list)"
  by (induction xs) auto

lemma ascending_unique:
  assumes "ascending (xs :: 'a::linorder list)" and "ascending ys" and "set xs = set ys"
  shows "xs = ys"
proof -
  have "sorted xs" "distinct xs" "sorted ys" "distinct ys"
    using assms(1,2) by (auto simp: strict_sorted_iff)
  then show ?thesis using assms(3) by (simp add: sorted_distinct_set_unique)
qed

lemma fset_sorted_list [simp]: "set (sorted_list_of_fset S) = fset S"
  by (simp add: sorted_list_of_fset.rep_eq)

lemma ascending_sorted_list [simp]: "ascending (sorted_list_of_fset S)"
  by (simp add: sorted_list_of_fset.rep_eq strict_sorted_list_of_set)

lemma length_sorted_list [simp]: "length (sorted_list_of_fset S) = fcard S"
  by (simp add: sorted_list_of_fset.rep_eq fcard.rep_eq)

section \<open>Items\<close>

lemma map_fst_fmap_items [simp]: "map fst (fmap_items m) = sorted_list_of_fset (fmdom m)"
  by (simp add: fmap_items_def comp_def)

lemma ascending_fmap_items: "ascending (map fst (fmap_items m))"
  by simp

lemma distinct_fmap_items: "distinct (map fst (fmap_items m))"
  by (rule ascending_distinct) simp

lemma length_fmap_items [simp]: "length (fmap_items m) = fcard (fmdom m)"
  by (simp add: fmap_items_def)

lemma in_fmap_items [simp]: "(k, v) \<in> set (fmap_items m) \<longleftrightarrow> fmlookup m k = Some v"
  by (force simp: fmap_items_def image_iff intro: fmdomI dest: fmdomE)

lemma map_of_fmap_items: "map_of (fmap_items m) k = fmlookup m k"
proof (cases "fmlookup m k")
  case None
  then have "k \<notin> fst ` set (fmap_items m)" by auto
  then show ?thesis using None by (simp add: map_of_eq_None_iff)
next
  case (Some v)
  then have "(k, v) \<in> set (fmap_items m)" by simp
  then show ?thesis using Some map_of_is_SomeI [OF distinct_fmap_items] by metis
qed

lemma fmap_of_list_items [simp]: "fmap_of_list (fmap_items m) = m"
  by (rule fmap_ext) (simp add: fmlookup_of_list map_of_fmap_items)

lemma fmap_items_of_list:
  assumes "ascending (map fst xs)"
  shows "fmap_items (fmap_of_list xs) = xs"
proof -
  have d: "distinct (map fst xs)" using assms by (rule ascending_distinct)
  have keys: "sorted_list_of_fset (fmdom (fmap_of_list xs)) = map fst xs"
  proof (rule ascending_unique)
    show "set (sorted_list_of_fset (fmdom (fmap_of_list xs))) = set (map fst xs)"
      by (simp add: fset_of_list.rep_eq)
  qed (use assms in simp_all)
  have "the (fmlookup (fmap_of_list xs) (fst p)) = snd p" if "p \<in> set xs" for p
    using d that by (cases p) (simp add: fmlookup_of_list)
  then show ?thesis
    by (simp add: fmap_items_def keys map_idI comp_def del: fmdom_fmap_of_list)
qed

lemma fold_fmupd_items:
  "distinct (map fst xs) \<Longrightarrow>
   fmlookup (fold (\<lambda>(k, v). fmupd k v) xs m) k = (case map_of xs k of None \<Rightarrow> fmlookup m k | Some v \<Rightarrow> Some v)"
  by (induction xs arbitrary: m) (auto split: option.splits dest: map_of_SomeD simp: rev_image_eqI)

lemma fold_fmupd_of_list:
  "distinct (map fst xs) \<Longrightarrow> fold (\<lambda>(k, v). fmupd k v) xs fmempty = fmap_of_list xs"
  by (rule fmap_ext) (simp add: fold_fmupd_items fmlookup_of_list split: option.splits)

lemma fmget_fmupd [simp]: "fmget (fmupd k v m) k' = (if k = k' then v else fmget m k')"
  by (simp add: fmget_def)

lemma fmget_empty [simp]: "fmget fmempty k = 0"
  by (simp add: fmget_def)

lemma fmget_Some [simp]: "fmlookup m k = Some v \<Longrightarrow> fmget m k = v"
  by (simp add: fmget_def)

lemma fmget_None [simp]: "fmlookup m k = None \<Longrightarrow> fmget m k = 0"
  by (simp add: fmget_def)

lemma fmget_map_of: "distinct (map fst xs) \<Longrightarrow> (k, v) \<in> set xs \<Longrightarrow> fmget (fmap_of_list xs) k = v"
  by (simp add: fmlookup_of_list)

end
