(* ===== verification/VersionVector.thy ===== *)
theory VersionVector
  imports GoMaps
begin

text \<open>
  Package \<open>internal/vv\<close>: version vectors for anti-entropy. A vector maps each origin to the
  highest contiguous sequence number held from it. The theory models every operation of the
  package and its wire form, shows that \<open>Merge\<close> is a join on the vectors the package builds
  (so exchanges may be reordered and repeated), that \<open>Missing\<close> names exactly the records a
  peer lacks, and that the encoding is canonical.

  A nil \<open>*Vector\<close> behaves as the empty vector in every method that tests for it, so the model
  has no nil; a nil entry map reads as the empty one. BLAKE3 is not part of the repository:
  \<open>vv_hash\<close> takes the 32-byte digest function as its argument.
\<close>

type_synonym node_id = "8 barray"
type_synonym hash4 = "4 barray"

section \<open>The vector and its operations\<close>

record vector =
  entries :: "(node_id, u64) fmap"

definition vv_new :: vector where
  "vv_new = \<lparr>entries = fmempty\<rparr>"

definition vv_from_map :: "(node_id, u64) fmap \<Rightarrow> vector" where
  "vv_from_map m =
     fold (\<lambda>(k, s) v. if s > 0 then v\<lparr>entries := fmupd k s (entries v)\<rparr> else v) (fmap_items m) vv_new"

definition vv_get :: "vector \<Rightarrow> node_id \<Rightarrow> u64" where
  "vv_get v origin = fmget (entries v) origin"

definition vv_set :: "vector \<Rightarrow> node_id \<Rightarrow> u64 \<Rightarrow> vector" where
  "vv_set v origin seq =
     (if seq > fmget (entries v) origin then v\<lparr>entries := fmupd origin seq (entries v)\<rparr> else v)"

definition vv_len :: "vector \<Rightarrow> nat" where
  "vv_len v = fcard (fmdom (entries v))"

definition vv_origins :: "vector \<Rightarrow> node_id list" where
  "vv_origins v = sorted_list_of_fset (fmdom (entries v))"

definition vv_clone :: "vector \<Rightarrow> vector" where
  "vv_clone v = fold (\<lambda>(k, s) out. out\<lparr>entries := fmupd k s (entries out)\<rparr>) (fmap_items (entries v)) vv_new"

text \<open>One turn of \<open>Merge\<close>'s loop, and the loop over an enumeration of the other vector.\<close>

definition vv_merge_entry :: "node_id \<times> u64 \<Rightarrow> vector \<Rightarrow> vector" where
  "vv_merge_entry e v =
     (case e of (k, s) \<Rightarrow> if s > fmget (entries v) k then v\<lparr>entries := fmupd k s (entries v)\<rparr> else v)"

definition vv_merge :: "vector \<Rightarrow> vector \<Rightarrow> vector" where
  "vv_merge v other = fold vv_merge_entry (fmap_items (entries other)) v"

definition vv_merged :: "vector \<Rightarrow> vector \<Rightarrow> vector" where
  "vv_merged a b = vv_merge (vv_clone a) b"

definition vv_equal :: "vector \<Rightarrow> vector \<Rightarrow> bool" where
  "vv_equal v other \<longleftrightarrow>
     vv_len v = vv_len other \<and> (\<forall>(k, s) \<in> set (fmap_items (entries v)). fmget (entries other) k = s)"

definition vv_dominates :: "vector \<Rightarrow> vector \<Rightarrow> bool" where
  "vv_dominates v other \<longleftrightarrow> (\<forall>(k, s) \<in> set (fmap_items (entries other)). \<not> vv_get v k < s)"

record vv_range =
  rg_origin :: node_id
  rg_from :: u64
  rg_to :: u64

definition vv_missing :: "vector \<Rightarrow> vector \<Rightarrow> vv_range list" where
  "vv_missing v other =
     concat (map (\<lambda>origin.
       let theirs = vv_get other origin; mine = vv_get v origin
       in if theirs > mine
          then [\<lparr>rg_origin = origin, rg_from = mine + 1, rg_to = theirs\<rparr>] else [])
       (vv_origins other))"

definition vv_count :: "vector \<Rightarrow> u64" where
  "vv_count v = fold (\<lambda>(_, s) n. n + s) (fmap_items (entries v)) 0"

definition vv_hash :: "(bytes \<Rightarrow> bytes) \<Rightarrow> vector \<Rightarrow> hash4" where
  "vv_hash blake3 v =
     copy_array (blake3 (concat (map (\<lambda>origin. array_bytes origin @ put_u64 (vv_get v origin)) (vv_origins v))))"

section \<open>Wire form\<close>

definition MaxOrigins :: nat where
  "MaxOrigins = 512"

datatype vv_error =
    VvTruncated
  | VvNonCanonicalVarint
  | VvTooManyOrigins u64
  | VvNotAscending
  | VvTrailing nat

fun vv_varint_error :: "varint_error \<Rightarrow> vv_error" where
  "vv_varint_error VarintTruncated = VvTruncated"
| "vv_varint_error VarintNonCanonical = VvNonCanonicalVarint"

definition vv_encode_entry :: "node_id \<times> u64 \<Rightarrow> bytes" where
  "vv_encode_entry e = array_bytes (fst e) @ append_uvarint (snd e)"

definition vv_encode :: "vector \<Rightarrow> bytes" where
  "vv_encode v =
     (let origins = vv_origins v
      in append_uvarint (of_nat (length origins)) @
         concat (map (\<lambda>o'. vv_encode_entry (o', vv_get v o')) origins))"

text \<open>
  The loop of \<open>Decode\<close> on the unread suffix: \<open>n\<close> entries still to read, the previous origin
  (none at index zero), the entries so far.
\<close>

fun vv_decode_loop ::
  "nat \<Rightarrow> node_id option \<Rightarrow> (node_id, u64) fmap \<Rightarrow> bytes \<Rightarrow> vv_error + (node_id, u64) fmap \<times> bytes"
where
  "vv_decode_loop 0 prev acc b = Inr (acc, b)"
| "vv_decode_loop (Suc n) prev acc b =
     (if length b < 8 then Inl VvTruncated
      else let origin = copy_array (take 8 b); b' = drop 8 b
        in case canonical_uvarint b' of
             Inl e \<Rightarrow> Inl (vv_varint_error e)
           | Inr (seq, read) \<Rightarrow>
               if (case prev of None \<Rightarrow> False | Some p \<Rightarrow> \<not> p < origin) then Inl VvNotAscending
               else vv_decode_loop n (Some origin) (fmupd origin seq acc) (drop read b'))"

definition vv_decode :: "bytes \<Rightarrow> vv_error + vector" where
  "vv_decode b =
     (case canonical_uvarint b of
        Inl e \<Rightarrow> Inl (vv_varint_error e)
      | Inr (n, read) \<Rightarrow>
          if n > of_nat MaxOrigins then Inl (VvTooManyOrigins n)
          else case vv_decode_loop (unat n) None fmempty (drop read b) of
                 Inl e \<Rightarrow> Inl e
               | Inr (acc, rest) \<Rightarrow>
                   if rest \<noteq> [] then Inl (VvTrailing (length rest)) else Inr \<lparr>entries = acc\<rparr>)"

text \<open>
  The vectors the package builds hold no zero entry: \<open>Set\<close>, \<open>Merge\<close> and \<open>FromMap\<close> only store
  a sequence above what was there.
\<close>

definition vv_wf :: "vector \<Rightarrow> bool" where
  "vv_wf v \<longleftrightarrow> (\<forall>(k, s) \<in> set (fmap_items (entries v)). 0 < s)"

section \<open>Reading a vector\<close>

lemma vector_eqI: "(\<And>k. fmlookup (entries v) k = fmlookup (entries w) k) \<Longrightarrow> v = (w :: vector)"
  by (cases v; cases w) (auto intro: fmap_ext)

lemma vv_wf_lookup: "vv_wf v \<longleftrightarrow> (\<forall>k s. fmlookup (entries v) k = Some s \<longrightarrow> 0 < s)"
  by (auto simp: vv_wf_def)

lemma vv_wf_eqI:
  assumes "vv_wf v" and "vv_wf w" and "\<And>k. vv_get v k = vv_get w k"
  shows "v = w"
proof (rule vector_eqI)
  fix k
  show "fmlookup (entries v) k = fmlookup (entries w) k"
    using assms(3) [of k] assms(1,2)
    by (cases "fmlookup (entries v) k"; cases "fmlookup (entries w) k")
      (auto simp: vv_get_def vv_wf_lookup)
qed

lemma vv_get_new [simp]: "vv_get vv_new k = 0"
  by (simp add: vv_get_def vv_new_def)

lemma vv_wf_new [simp]: "vv_wf vv_new"
  by (simp add: vv_wf_lookup vv_new_def)

lemma vv_get_set [simp]: "vv_get (vv_set v o' s) k = (if k = o' then max (vv_get v k) s else vv_get v k)"
  by (auto simp: vv_set_def vv_get_def max_def)

lemma vv_wf_set: "vv_wf v \<Longrightarrow> vv_wf (vv_set v o' s)"
  by (auto simp: vv_set_def vv_wf_lookup intro: le_less_trans)

lemma vv_merge_entry_eq_set: "vv_merge_entry (k, s) v = vv_set v k s"
  by (simp add: vv_merge_entry_def vv_set_def)

lemma vv_get_fold_merge:
  "distinct (map fst xs) \<Longrightarrow>
   vv_get (fold vv_merge_entry xs v) k =
     (case map_of xs k of None \<Rightarrow> vv_get v k | Some s \<Rightarrow> max (vv_get v k) s)"
proof (induction xs arbitrary: v)
  case (Cons e xs)
  obtain k' s where e: "e = (k', s)" by (cases e)
  have "map_of xs k' = None" using Cons.prems e by (simp add: map_of_eq_None_iff)
  then show ?case
    using Cons.IH [of "vv_set v k' s"] Cons.prems e by (auto simp: vv_merge_entry_eq_set split: option.splits)
qed simp

lemma vv_get_merge [simp]: "vv_get (vv_merge v w) k = max (vv_get v k) (vv_get w k)"
proof -
  have "vv_get (vv_merge v w) k = (case fmlookup (entries w) k of None \<Rightarrow> vv_get v k | Some s \<Rightarrow> max (vv_get v k) s)"
    unfolding vv_merge_def by (simp only: vv_get_fold_merge distinct_fmap_items map_of_fmap_items)
  then show ?thesis by (cases "fmlookup (entries w) k") (simp_all add: vv_get_def)
qed

lemma vv_wf_fold_merge: "vv_wf v \<Longrightarrow> vv_wf (fold vv_merge_entry xs v)"
  by (induction xs arbitrary: v) (auto simp: vv_merge_entry_eq_set vv_wf_set)

lemma vv_wf_merge: "vv_wf v \<Longrightarrow> vv_wf (vv_merge v w)"
  by (simp add: vv_merge_def vv_wf_fold_merge)

lemma vv_clone_eq [simp]: "vv_clone v = v"
proof -
  have fold_entries: "entries (fold (\<lambda>(k, s) out. out\<lparr>entries := fmupd k s (entries out)\<rparr>) xs w) =
    fold (\<lambda>(k, s). fmupd k s) xs (entries w)" for xs and w :: vector
    by (induction xs arbitrary: w) auto
  have "entries (vv_clone v) = fold (\<lambda>(k, s). fmupd k s) (fmap_items (entries v)) fmempty"
    by (simp only: vv_clone_def fold_entries) (simp add: vv_new_def)
  also have "\<dots> = entries v"
    by (simp only: fold_fmupd_of_list distinct_fmap_items fmap_of_list_items)
  finally show ?thesis by simp
qed

section \<open>Merge as a join\<close>

text \<open>
  The contract anti-entropy rests on: a merge of states that is closed, commutative,
  associative and idempotent on the well-formed ones. Any two runs that have merged the same
  states agree, whatever the order and the number of repetitions.
\<close>

locale merge_laws =
  fixes wf :: "'s \<Rightarrow> bool"
    and merge :: "'s \<Rightarrow> 's \<Rightarrow> 's"
  assumes merge_closed: "wf a \<Longrightarrow> wf b \<Longrightarrow> wf (merge a b)"
    and merge_comm: "wf a \<Longrightarrow> wf b \<Longrightarrow> merge a b = merge b a"
    and merge_assoc: "wf a \<Longrightarrow> wf b \<Longrightarrow> wf c \<Longrightarrow> merge (merge a b) c = merge a (merge b c)"
    and merge_idem: "wf a \<Longrightarrow> merge a a = a"
begin

definition merge_all :: "'s list \<Rightarrow> 's \<Rightarrow> 's" where
  "merge_all xs s = fold (\<lambda>x acc. merge acc x) xs s"

lemma merge_all_wf: "wf s \<Longrightarrow> list_all wf xs \<Longrightarrow> wf (merge_all xs s)"
  unfolding merge_all_def by (induction xs arbitrary: s) (auto simp: merge_closed)

lemma merge_all_Cons: "merge_all (x # xs) s = merge_all xs (merge s x)"
  by (simp add: merge_all_def)

lemma merge_absorb: "wf a \<Longrightarrow> wf b \<Longrightarrow> merge (merge a b) b = merge a b"
  by (simp add: merge_assoc merge_idem)

lemma merge_all_keeps:
  "wf s \<Longrightarrow> list_all wf xs \<Longrightarrow> wf t \<Longrightarrow> merge s t = s \<Longrightarrow> merge (merge_all xs s) t = merge_all xs s"
proof (induction xs arbitrary: s)
  case Nil
  then show ?case by (simp add: merge_all_def)
next
  case (Cons x xs)
  then have x: "wf x" "list_all wf xs" by simp_all
  have "merge (merge s x) t = merge s x"
    using Cons.prems x by (metis merge_assoc merge_comm)
  then show ?case using Cons.IH [of "merge s x"] Cons.prems x by (simp add: merge_all_Cons merge_closed)
qed

lemma merge_all_contains:
  "wf s \<Longrightarrow> list_all wf xs \<Longrightarrow> x \<in> set xs \<Longrightarrow> merge (merge_all xs s) x = merge_all xs s"
proof (induction xs arbitrary: s)
  case (Cons y ys)
  then have y: "wf y" "list_all wf ys" by simp_all
  show ?case
  proof (cases "x = y")
    case True
    then show ?thesis
      using Cons.prems y merge_all_keeps [of "merge s y" ys y] by (simp add: merge_all_Cons merge_closed merge_absorb)
  next
    case False
    then show ?thesis using Cons y by (simp add: merge_all_Cons merge_closed)
  qed
qed simp

lemma merge_all_least:
  "wf s \<Longrightarrow> list_all wf xs \<Longrightarrow> wf u \<Longrightarrow> merge u s = u \<Longrightarrow> (\<forall>x \<in> set xs. merge u x = u) \<Longrightarrow>
   merge u (merge_all xs s) = u"
proof (induction xs arbitrary: s)
  case Nil
  then show ?case by (simp add: merge_all_def)
next
  case (Cons x xs)
  then have x: "wf x" "merge u x = u" by simp_all
  then have "merge u (merge s x) = u" using Cons.prems merge_assoc [of u s x] by simp
  then show ?case using Cons by (simp add: merge_all_Cons merge_closed)
qed

lemma merge_all_le:
  assumes "wf s" and "list_all wf xs" and "list_all wf ys" and "set xs \<subseteq> set ys"
  shows "merge (merge_all ys s) (merge_all xs s) = merge_all ys s"
proof (rule merge_all_least)
  show "merge (merge_all ys s) s = merge_all ys s"
    using assms by (simp add: merge_all_keeps merge_idem)
  show "\<forall>x \<in> set xs. merge (merge_all ys s) x = merge_all ys s"
    using assms by (auto intro: merge_all_contains)
qed (use assms merge_all_wf in auto)

lemma convergence:
  assumes "wf s" and "list_all wf xs" and "list_all wf ys" and "set xs = set ys"
  shows "merge_all xs s = merge_all ys s"
proof -
  have "merge (merge_all ys s) (merge_all xs s) = merge_all ys s"
    and "merge (merge_all xs s) (merge_all ys s) = merge_all xs s"
    using assms merge_all_le by auto
  then show ?thesis using assms merge_all_wf merge_comm by metis
qed

end

interpretation vvm: merge_laws vv_wf vv_merge
  by unfold_locales (auto intro!: vv_wf_eqI vv_wf_merge simp: max.commute max.assoc max.left_commute)

text \<open>
  Anti-entropy converges: a node that merges the vectors of a set of peers reaches the
  same vector whatever the order in which they arrive and however often each is repeated.
\<close>

theorem vv_merge_converges:
  assumes "vv_wf v" and "list_all vv_wf xs" and "list_all vv_wf ys" and "set xs = set ys"
  shows "fold (\<lambda>w acc. vv_merge acc w) xs v = fold (\<lambda>w acc. vv_merge acc w) ys v"
  using vvm.convergence [OF assms] by (simp add: vvm.merge_all_def)

definition vv_sample :: "byte \<Rightarrow> u64 \<Rightarrow> vector" where
  "vv_sample b s = \<lparr>entries = fmupd (copy_array [b]) s fmempty\<rparr>"

lemma vv_sample_wf [simp]: "vv_wf (vv_sample b s) \<longleftrightarrow> 0 < s"
  by (auto simp: vv_sample_def vv_wf_lookup)

theorem vv_merge_converges_witness:
  "fold (\<lambda>w acc. vv_merge acc w) [vv_sample 1 5, vv_sample 2 3, vv_sample 1 5] (vv_sample 1 2) =
   fold (\<lambda>w acc. vv_merge acc w) [vv_sample 2 3, vv_sample 1 5] (vv_sample 1 2)"
  by (rule vv_merge_converges) auto

text \<open>
  The result of \<open>Merge\<close> does not depend on the order in which Go enumerates the other
  vector's entry map.
\<close>

lemma vv_merge_entry_commute: "vv_merge_entry e \<circ> vv_merge_entry f = vv_merge_entry f \<circ> vv_merge_entry e"
proof
  fix v
  obtain k s l t where ef: "e = (k, s)" "f = (l, t)" by (cases e; cases f)
  show "(vv_merge_entry e \<circ> vv_merge_entry f) v = (vv_merge_entry f \<circ> vv_merge_entry e) v"
    unfolding ef by (rule vector_eqI) (auto simp: vv_merge_entry_def fmget_def split: option.splits)
qed

theorem vv_merge_any_order:
  assumes "mset order = mset (fmap_items (entries other))"
  shows "fold vv_merge_entry order v = vv_merge v other"
proof -
  have "fold vv_merge_entry order = fold vv_merge_entry (fmap_items (entries other))"
    using assms vv_merge_entry_commute by (intro fold_multiset_equiv) auto
  then show ?thesis by (simp add: vv_merge_def)
qed

theorem vv_merge_any_order_witness:
  "fold vv_merge_entry [(copy_array [7], 9)] vv_new = vv_merge vv_new (vv_sample 7 9)"
  by (rule vv_merge_any_order) (simp add: vv_sample_def fmap_items_def sorted_list_of_fset.rep_eq)

section \<open>Comparison and the delta request\<close>

lemma vv_dominates_iff: "vv_dominates v w \<longleftrightarrow> (\<forall>k. vv_get w k \<le> vv_get v k)"
proof
  assume d: "vv_dominates v w"
  show "\<forall>k. vv_get w k \<le> vv_get v k"
  proof
    fix k
    show "vv_get w k \<le> vv_get v k"
      using d by (cases "fmlookup (entries w) k") (auto simp: vv_dominates_def vv_get_def not_less)
  qed
next
  assume le: "\<forall>k. vv_get w k \<le> vv_get v k"
  have "s \<le> vv_get v k" if "fmlookup (entries w) k = Some s" for k s
    using le [rule_format, of k] that by (simp add: vv_get_def)
  then show "vv_dominates v w" by (auto simp: vv_dominates_def not_less)
qed

lemma vv_origins_set: "k \<in> set (vv_origins v) \<longleftrightarrow> (\<exists>s. fmlookup (entries v) k = Some s)"
  by (auto simp: vv_origins_def fmlookup_dom_iff)

lemma vv_get_pos_origin: "0 < vv_get v k \<Longrightarrow> k \<in> set (vv_origins v)"
  by (cases "fmlookup (entries v) k") (auto simp: vv_origins_set vv_get_def)

lemma vv_missing_member:
  "r \<in> set (vv_missing v w) \<longleftrightarrow>
     vv_get v (rg_origin r) < vv_get w (rg_origin r) \<and>
     rg_from r = vv_get v (rg_origin r) + 1 \<and> rg_to r = vv_get w (rg_origin r)"
  (is "?l \<longleftrightarrow> ?r")
proof
  assume ?l
  then show ?r by (auto simp: vv_missing_def Let_def split: if_splits)
next
  assume r: ?r
  then have "0 < vv_get w (rg_origin r)" by (meson le_less_trans word_zero_le)
  then have "rg_origin r \<in> set (vv_origins w)" by (rule vv_get_pos_origin)
  then show ?l using r by (force simp: vv_missing_def Let_def)
qed

lemma word_plus1_le: "(a :: u64) < b \<Longrightarrow> a + 1 \<le> q \<longleftrightarrow> a < q"
proof -
  assume "a < b"
  then have "unat a + 1 < 18446744073709551616"
    using unat_u64_less [of b] by (simp add: word_less_nat_alt)
  then have "unat (a + 1) = unat a + 1" by (simp add: unat_word_ariths)
  then show ?thesis by (simp add: word_less_nat_alt word_le_nat_alt Suc_le_eq)
qed

text \<open>
  The delta request names exactly the records the requester lacks and the peer holds: a
  sequence number lies in one of the ranges of \<open>Missing\<close> just when it is above the
  requester's mark and not above the peer's.
\<close>

theorem vv_missing_exact:
  "(\<exists>r \<in> set (vv_missing v other). rg_origin r = k \<and> rg_from r \<le> q \<and> q \<le> rg_to r)
     = (vv_get v k < q \<and> q \<le> vv_get other k)"
proof
  assume "\<exists>r \<in> set (vv_missing v other). rg_origin r = k \<and> rg_from r \<le> q \<and> q \<le> rg_to r"
  then show "vv_get v k < q \<and> q \<le> vv_get other k"
    by (auto simp: vv_missing_member word_plus1_le)
next
  assume q: "vv_get v k < q \<and> q \<le> vv_get other k"
  then have lt: "vv_get v k < vv_get other k" by (meson less_le_trans)
  let ?r = "\<lparr>rg_origin = k, rg_from = vv_get v k + 1, rg_to = vv_get other k\<rparr>"
  have "?r \<in> set (vv_missing v other)" using lt by (simp add: vv_missing_member)
  moreover have "rg_from ?r \<le> q" "q \<le> rg_to ?r" using q lt by (simp_all add: word_plus1_le)
  ultimately show "\<exists>r \<in> set (vv_missing v other). rg_origin r = k \<and> rg_from r \<le> q \<and> q \<le> rg_to r"
    by (metis vv_range.select_convs(1))
qed

text \<open>
  A node that obtains every range of \<open>Missing\<close> and records it ends up dominating the
  peer, and a node asks for nothing exactly when it dominates already.
\<close>

definition vv_apply_ranges :: "vv_range list \<Rightarrow> vector \<Rightarrow> vector" where
  "vv_apply_ranges rs v = fold (\<lambda>r acc. vv_set acc (rg_origin r) (rg_to r)) rs v"

lemma vv_apply_ranges_mono: "vv_get v k \<le> vv_get (vv_apply_ranges rs v) k"
  unfolding vv_apply_ranges_def
proof (induction rs arbitrary: v)
  case (Cons r rs)
  have "vv_get v k \<le> vv_get (vv_set v (rg_origin r) (rg_to r)) k" by simp
  also note Cons.IH [of "vv_set v (rg_origin r) (rg_to r)"]
  finally show ?case by simp
qed simp

lemma vv_apply_ranges_ge: "r \<in> set rs \<Longrightarrow> rg_to r \<le> vv_get (vv_apply_ranges rs v) (rg_origin r)"
proof (induction rs arbitrary: v)
  case (Cons x xs)
  show ?case
  proof (cases "r = x")
    case True
    have "rg_to r \<le> vv_get (vv_set v (rg_origin x) (rg_to x)) (rg_origin r)" using True by simp
    also have "\<dots> \<le> vv_get (vv_apply_ranges xs (vv_set v (rg_origin x) (rg_to x))) (rg_origin r)"
      by (rule vv_apply_ranges_mono)
    finally show ?thesis by (simp add: vv_apply_ranges_def)
  next
    case False
    then show ?thesis using Cons by (simp add: vv_apply_ranges_def)
  qed
qed simp

theorem vv_missing_heals:
  "vv_dominates (vv_apply_ranges (vv_missing v other) v) other \<and>
   ((vv_missing v other = []) = vv_dominates v other)"
proof
  show "vv_dominates (vv_apply_ranges (vv_missing v other) v) other"
    unfolding vv_dominates_iff
  proof
    fix k
    let ?r = "\<lparr>rg_origin = k, rg_from = vv_get v k + 1, rg_to = vv_get other k\<rparr>"
    show "vv_get other k \<le> vv_get (vv_apply_ranges (vv_missing v other) v) k"
    proof (cases "vv_get v k < vv_get other k")
      case True
      then have "?r \<in> set (vv_missing v other)" by (simp add: vv_missing_member)
      from vv_apply_ranges_ge [OF this, of v] show ?thesis by simp
    next
      case False
      then show ?thesis using vv_apply_ranges_mono [of v k] by (meson dual_order.trans not_less)
    qed
  qed
  have "vv_missing v other = [] \<longleftrightarrow> (\<forall>k. \<not> vv_get v k < vv_get other k)"
  proof
    assume "\<forall>k. \<not> vv_get v k < vv_get other k"
    then have "r \<notin> set (vv_missing v other)" for r by (simp add: vv_missing_member)
    then show "vv_missing v other = []" by (cases "vv_missing v other") auto
  next
    assume e: "vv_missing v other = []"
    show "\<forall>k. \<not> vv_get v k < vv_get other k"
    proof (rule allI, rule notI)
      fix k
      assume "vv_get v k < vv_get other k"
      then have "\<lparr>rg_origin = k, rg_from = vv_get v k + 1, rg_to = vv_get other k\<rparr> \<in> set (vv_missing v other)"
        by (simp add: vv_missing_member)
      then show False using e by simp
    qed
  qed
  then show "(vv_missing v other = []) = vv_dominates v other"
    by (simp add: vv_dominates_iff not_less)
qed

section \<open>The wire form is canonical\<close>

lemma vv_items_encode:
  "concat (map (\<lambda>o'. vv_encode_entry (o', vv_get v o')) (vv_origins v)) =
   concat (map vv_encode_entry (fmap_items (entries v)))"
proof -
  have "map (\<lambda>o'. vv_encode_entry (o', vv_get v o')) (vv_origins v) = map vv_encode_entry (fmap_items (entries v))"
    by (auto simp: vv_origins_def fmap_items_def vv_get_def fmget_def fmlookup_dom_iff)
  then show ?thesis by simp
qed

lemma vv_encode_entries_Cons:
  "concat (map vv_encode_entry ((k, s) # xs)) = array_bytes k @ append_uvarint s @ concat (map vv_encode_entry xs)"
  by (simp add: vv_encode_entry_def)

lemma vv_decode_loop_encode:
  assumes "ascending (map fst xs)" and "\<And>p. prev = Some p \<Longrightarrow> xs \<noteq> [] \<Longrightarrow> p < fst (hd xs)"
  shows "vv_decode_loop (length xs) prev acc (concat (map vv_encode_entry xs) @ rest)
    = Inr (fold (\<lambda>(k, s). fmupd k s) xs acc, rest)"
  using assms
proof (induction xs arbitrary: prev acc)
  case (Cons e xs)
  obtain k s where e: "e = (k, s)" by (cases e)
  have "vv_decode_loop (length xs) (Some k) (fmupd k s acc) (concat (map vv_encode_entry xs) @ rest)
    = Inr (fold (\<lambda>(k, s). fmupd k s) xs (fmupd k s acc), rest)"
    using Cons.prems(1) e by (intro Cons.IH) (cases xs; auto)+
  moreover have "\<not> (case prev of None \<Rightarrow> False | Some p \<Rightarrow> \<not> p < k)"
    using Cons.prems(2) e by (auto split: option.splits)
  ultimately show ?case by (simp only: e vv_encode_entries_Cons append_assoc) simp
qed simp

lemma vv_decode_loop_sound:
  assumes "vv_decode_loop n prev acc b = Inr (acc', rest)"
  shows "\<exists>xs. length xs = n \<and> ascending (map fst xs) \<and>
     (\<forall>p. prev = Some p \<longrightarrow> xs \<noteq> [] \<longrightarrow> p < fst (hd xs)) \<and>
     b = concat (map vv_encode_entry xs) @ rest \<and> acc' = fold (\<lambda>(k, s). fmupd k s) xs acc"
  using assms
proof (induction n arbitrary: prev acc b)
  case (Suc n)
  let ?o = "copy_array (take 8 b) :: node_id"
  obtain s read where len: "8 \<le> length b" and c: "canonical_uvarint (drop 8 b) = Inr (s, read)"
    and asc: "\<not> (case prev of None \<Rightarrow> False | Some p \<Rightarrow> \<not> p < ?o)"
    and rec: "vv_decode_loop n (Some ?o) (fmupd ?o s acc) (drop read (drop 8 b)) = Inr (acc', rest)"
    using Suc.prems by (auto simp: Let_def split: if_splits sum.splits prod.splits)
  obtain xs where xs: "length xs = n" "ascending (map fst xs)"
    "\<forall>p. Some ?o = Some p \<longrightarrow> xs \<noteq> [] \<longrightarrow> p < fst (hd xs)"
    "drop read (drop 8 b) = concat (map vv_encode_entry xs) @ rest"
    "acc' = fold (\<lambda>(k, s). fmupd k s) xs (fmupd ?o s acc)"
    using Suc.IH [OF rec] by blast
  have "drop 8 b = append_uvarint s @ drop read (drop 8 b)" by (rule canonical_uvarint_split [OF c])
  then have "drop 8 b = append_uvarint s @ concat (map vv_encode_entry xs) @ rest"
    using xs(4) by (simp only:)
  then have "b = array_bytes ?o @ append_uvarint s @ concat (map vv_encode_entry xs) @ rest"
    using array_bytes_take8 [OF len] append_take_drop_id [of 8 b] by metis
  moreover have "ascending (map fst ((?o, s) # xs))"
    using xs(2,3) by (cases xs) auto
  ultimately show ?case
    using xs(1,5) asc
    by (intro exI [of _ "(?o, s) # xs"])
      (simp only: vv_encode_entries_Cons append_assoc, auto split: option.splits)
qed simp


lemma vv_len_items: "vv_len v = length (fmap_items (entries v))"
  by (simp add: vv_len_def)

lemma vv_encode_items:
  "vv_encode v = append_uvarint (of_nat (vv_len v)) @ concat (map vv_encode_entry (fmap_items (entries v)))"
  by (simp only: vv_encode_def Let_def vv_items_encode) (simp add: vv_len_def vv_origins_def)

lemma of_nat_le_MaxOrigins:
  "n \<le> MaxOrigins \<Longrightarrow> \<not> of_nat n > (of_nat MaxOrigins :: u64) \<and> unat (of_nat n :: u64) = n"
  by (simp add: MaxOrigins_def word_less_nat_alt unat_of_nat)

lemma vv_decode_encode:
  assumes "vv_len v \<le> MaxOrigins"
  shows "vv_decode (vv_encode v) = Inr v"
proof -
  let ?xs = "fmap_items (entries v)"
  have "vv_decode_loop (length ?xs) None fmempty (concat (map vv_encode_entry ?xs) @ [])
      = Inr (fold (\<lambda>(k, s). fmupd k s) ?xs fmempty, [])"
    by (rule vv_decode_loop_encode) simp_all
  then have "vv_decode_loop (vv_len v) None fmempty (concat (map vv_encode_entry ?xs)) = Inr (entries v, [])"
    by (simp only: fold_fmupd_of_list distinct_fmap_items fmap_of_list_items vv_len_items append_Nil2)
  then show ?thesis
    using of_nat_le_MaxOrigins [OF assms] by (simp add: vv_decode_def vv_encode_items)
qed

lemma vv_encode_decode:
  assumes "vv_decode b = Inr v"
  shows "vv_len v \<le> MaxOrigins \<and> vv_encode v = b"
proof -
  obtain n read acc where c: "canonical_uvarint b = Inr (n, read)" and n: "\<not> n > of_nat MaxOrigins"
    and l: "vv_decode_loop (unat n) None fmempty (drop read b) = Inr (acc, [])" and v: "v = \<lparr>entries = acc\<rparr>"
    using assms by (auto simp: vv_decode_def split: sum.splits prod.splits if_splits)
  obtain xs where xs: "length xs = unat n" "ascending (map fst xs)"
    "drop read b = concat (map vv_encode_entry xs) @ []" "acc = fold (\<lambda>(k, s). fmupd k s) xs fmempty"
    using vv_decode_loop_sound [OF l] by blast
  have acc: "acc = fmap_of_list xs"
    using xs(2,4) fold_fmupd_of_list ascending_distinct by metis
  have items: "fmap_items (entries v) = xs" using xs(2) v acc by (simp add: fmap_items_of_list)
  have "b = append_uvarint n @ concat (map vv_encode_entry xs)"
    using canonical_uvarint_split [OF c] xs(3) by simp
  moreover have len: "vv_len v = unat n" using items xs(1) by (simp only: vv_len_items)
  ultimately show ?thesis
    using n by (simp add: vv_encode_items items MaxOrigins_def not_less word_le_nat_alt)
qed

interpretation vvc: canonical_codec "\<lambda>v. vv_len v \<le> MaxOrigins" vv_encode vv_decode
  by unfold_locales (auto simp: vv_decode_encode dest: vv_encode_decode)

text \<open>
  The vector encoding is canonical: a byte string decodes to a vector just when it is
  that vector's own encoding, for every vector within the decoder's limit of 512 origins.
  Overlong varints, unsorted or repeated origins and trailing bytes are all rejected.
\<close>

theorem vv_codec_canonical: "(vv_decode b = Inr v) = (vv_len v \<le> MaxOrigins \<and> vv_encode v = b)"
  by (rule vvc.accepts_iff)

section \<open>Equality and zero entries\<close>

lemma vv_equal_iff:
  "vv_equal v w \<longleftrightarrow> vv_len v = vv_len w \<and>
     (\<forall>k s. fmlookup (entries v) k = Some s \<longrightarrow> fmget (entries w) k = s)"
  by (force simp: vv_equal_def)

lemma vv_equal_wf:
  assumes "vv_wf v" and "vv_wf w"
  shows "vv_equal v w \<longleftrightarrow> v = w"
proof
  assume eq: "vv_equal v w"
  have sub: "fmlookup (entries w) k = Some s" if "fmlookup (entries v) k = Some s" for k s
  proof -
    have "fmget (entries w) k = s" "0 < s" using eq that assms(1) by (auto simp: vv_equal_iff vv_wf_lookup)
    then show ?thesis by (cases "fmlookup (entries w) k") auto
  qed
  then have "fmdom (entries v) |\<subseteq>| fmdom (entries w)"
    by (auto simp: fmlookup_dom_iff)
  moreover have "fcard (fmdom (entries v)) = fcard (fmdom (entries w))"
    using eq by (simp add: vv_equal_def vv_len_def)
  ultimately have "fmdom (entries v) = fmdom (entries w)"
    by (simp add: fcard_seteq)
  then show "v = w"
    by (intro vector_eqI) (metis sub fmdom_notI fmlookup_dom_iff option.exhaust)
qed (auto simp: vv_equal_def)

text \<open>
  \<open>Equal\<close> decides equality of the vectors the package itself builds, those with no zero
  entry.
\<close>

theorem vv_equal_decides:
  assumes "vv_wf v" and "vv_wf w"
  shows "vv_equal v w = (v = w)"
  by (rule vv_equal_wf [OF assms])

theorem vv_equal_decides_witness: "vv_equal (vv_sample 1 4) (vv_sample 2 4) = (vv_sample 1 4 = vv_sample 2 4)"
  by (rule vv_equal_decides) simp_all

text \<open>
  The decoder accepts an explicit zero sequence. Such a vector reads like one without the
  origin and the two dominate each other, yet their wire forms (and so the bytes their
  digests hash) differ, and \<open>Equal\<close> is not symmetric on it: it finds the decoded vector equal
  to one that holds records, and that one different from it.
\<close>

lemma vv_zero_sample:
  "vv_len (vv_sample b s) = 1" "vv_get (vv_sample b s) k = (if k = copy_array [b] then s else 0)"
  "fmlookup (entries (vv_sample b s)) k = (if k = copy_array [b] then Some s else None)"
  by (auto simp: vv_sample_def vv_len_def vv_get_def fcard_finsert_if)

theorem vv_decode_zero_entry:
  "\<exists>b v. vv_decode b = Inr v \<and> vv_dominates v vv_new \<and> vv_dominates vv_new v \<and>
     vv_encode v \<noteq> vv_encode vv_new \<and>
     (\<exists>w. vv_wf w \<and> vv_equal v w \<and> \<not> vv_equal w v)"
proof -
  let ?v = "vv_sample 1 0" and ?w = "vv_sample 2 5"
  have dec: "vv_decode (vv_encode ?v) = Inr ?v"
    by (rule vv_decode_encode) (simp add: vv_zero_sample MaxOrigins_def)
  have "vv_decode (vv_encode vv_new) = Inr vv_new"
    by (rule vv_decode_encode) (simp add: vv_len_def vv_new_def fcard.rep_eq)
  moreover have "?v \<noteq> vv_new" by (simp add: vv_sample_def vv_new_def)
  ultimately have "vv_encode ?v \<noteq> vv_encode vv_new" using dec by auto
  moreover have "copy_array [1] \<noteq> (copy_array [2] :: node_id)" by (simp add: array_eq_iff numeral_eq_Suc)
  moreover have "\<exists>w. vv_wf w \<and> vv_equal ?v w \<and> \<not> vv_equal w ?v"
    using calculation(2) by (intro exI [of _ ?w]) (auto simp: vv_equal_iff vv_zero_sample fmget_def)
  ultimately show ?thesis
    using dec by (intro exI [of _ "vv_encode ?v"] exI [of _ ?v]) (auto simp: vv_dominates_iff vv_zero_sample)
qed

end
