(* ===== verification/GossipWire.thy ===== *)
theory GossipWire
  imports VersionVector "HOL-Library.Product_Lexorder"
begin

text \<open>
  The gossip wire formats of \<open>internal/gossip/digest.go\<close> and \<open>wire.go\<close>: the broadcast digest
  and the three unicast messages, their encoders, their decoders with every rejection, and
  \<open>FitRanges\<close>. Each format is shown canonical (one message, one byte string), control messages
  are shown to fit one mesh packet, and the limits the encoder does not enforce are stated.

  Go's \<open>sort.Slice\<close> is modelled by the stable \<open>sort_key\<close>; the two agree on lists without
  repeated keys, which is what the decoders accept.
\<close>

type_synonym area_tag = "4 barray"

section \<open>Constants and errors\<close>

definition GossipFormatVersion :: u8 where "GossipFormatVersion = 2"

definition MsgDigest :: u8 where "MsgDigest = 1"
definition MsgVectorReq :: u8 where "MsgVectorReq = 2"
definition MsgVector :: u8 where "MsgVector = 3"
definition MsgRangeReq :: u8 where "MsgRangeReq = 4"

definition msg_valid :: "u8 \<Rightarrow> bool" where
  "msg_valid m \<longleftrightarrow> m \<in> {MsgDigest, MsgVectorReq, MsgVector, MsgRangeReq}"

definition MeshMTU :: nat where "MeshMTU = 233"
definition TransportOverhead :: nat where "TransportOverhead = 9"
definition MaxControlMessage :: nat where "MaxControlMessage = MeshMTU - TransportOverhead"
definition digestHeader :: nat where "digestHeader = 4"
definition MaxAreas :: nat where "MaxAreas = (MaxControlMessage - digestHeader) div 10"
definition MaxRanges :: nat where "MaxRanges = 32"

lemmas gossip_consts = GossipFormatVersion_def MsgDigest_def MsgVectorReq_def MsgVector_def MsgRangeReq_def
  MeshMTU_def TransportOverhead_def MaxControlMessage_def digestHeader_def MaxAreas_def MaxRanges_def

text \<open>
  The sentinel errors, the unstructured ones by what they report, and a version vector's own
  error. \<open>GPeekVersion\<close> is \<open>PeekType\<close>'s plain \<open>fmt.Errorf\<close>, which does not wrap
  \<open>ErrUnsupportedVersion\<close>.
\<close>

datatype gossip_error =
    GTruncated
  | GTooMany nat
  | GNotCanonical
  | GUnsupportedVersion u8
  | GPeekVersion u8
  | GUnknownType u8
  | GWrongType u8
  | GVector vv_error
  | GRangeFromZero
  | GTrailing nat

fun gossip_varint_error :: "varint_error \<Rightarrow> gossip_error" where
  "gossip_varint_error VarintTruncated = GTruncated"
| "gossip_varint_error VarintNonCanonical = GNotCanonical"

definition peek_type :: "bytes \<Rightarrow> gossip_error + u8" where
  "peek_type b =
     (if length b < 2 then Inl GTruncated
      else if \<not> msg_valid (b ! 0) then Inl (GUnknownType (b ! 0))
      else if b ! 1 \<noteq> GossipFormatVersion then Inl (GPeekVersion (b ! 1))
      else Inr (b ! 0))"

section \<open>The digest\<close>

record area_state =
  as_tag :: area_tag
  as_hash :: hash4
  as_count :: u16

definition saturating_count :: "u64 \<Rightarrow> u16" where
  "saturating_count n = (if n > 0xFFFF then 0xFFFF else ucast n)"

definition area_state_from :: "(bytes \<Rightarrow> bytes) \<Rightarrow> area_tag \<Rightarrow> vector \<Rightarrow> area_state" where
  "area_state_from blake3 tag v =
     \<lparr>as_tag = tag, as_hash = vv_hash blake3 v, as_count = saturating_count (vv_count v)\<rparr>"

record digest =
  dg_dictionary :: u8
  dg_areas :: "area_state list"

definition new_digest :: "(bytes \<Rightarrow> bytes) \<Rightarrow> (area_tag, vector) fmap \<Rightarrow> digest" where
  "new_digest blake3 areas =
     \<lparr>dg_dictionary = 0,
      dg_areas = sort_key as_tag (map (\<lambda>(tag, v). area_state_from blake3 tag v) (fmap_items areas))\<rparr>"

definition digest_get :: "digest \<Rightarrow> area_tag \<Rightarrow> area_state option" where
  "digest_get d tag = find (\<lambda>a. as_tag a = tag) (dg_areas d)"

definition digest_size :: "digest \<Rightarrow> nat" where
  "digest_size d = digestHeader + 10 * length (dg_areas d)"

definition area_bytes :: "area_state \<Rightarrow> bytes" where
  "area_bytes a = array_bytes (as_tag a) @ array_bytes (as_hash a) @ put_u16 (as_count a)"

text \<open>\<open>Encode\<close> sorts the digest's own slice in place before writing it.\<close>

definition digest_encode :: "digest \<Rightarrow> bytes" where
  "digest_encode d =
     (let areas = sort_key as_tag (dg_areas d)
      in [MsgDigest, GossipFormatVersion, dg_dictionary d, of_nat (length areas)] @
         concat (map area_bytes areas))"

fun decode_areas :: "nat \<Rightarrow> area_tag option \<Rightarrow> bytes \<Rightarrow> gossip_error + area_state list" where
  "decode_areas 0 prev b = Inr []"
| "decode_areas (Suc n) prev b =
     (let a = \<lparr>as_tag = copy_array (take 4 b), as_hash = copy_array (take 4 (drop 4 b)),
               as_count = get_u16 (take 2 (drop 8 b))\<rparr>
      in if (case prev of None \<Rightarrow> False | Some p \<Rightarrow> \<not> p < as_tag a) then Inl GNotCanonical
         else res_bind (decode_areas n (Some (as_tag a)) (drop 10 b)) (\<lambda>as. Inr (a # as)))"

definition decode_digest :: "bytes \<Rightarrow> gossip_error + digest" where
  "decode_digest b =
     (if length b < 2 then Inl GTruncated
      else if b ! 0 \<noteq> MsgDigest then Inl (GWrongType (b ! 0))
      else if b ! 1 \<noteq> GossipFormatVersion then Inl (GUnsupportedVersion (b ! 1))
      else if length b < digestHeader then Inl GTruncated
      else let n = unat (b ! 3)
        in if n > MaxAreas then Inl (GTooMany n)
           else if length b \<noteq> digestHeader + 10 * n then Inl GTruncated
           else res_bind (decode_areas n None (drop digestHeader b))
                  (\<lambda>as. Inr \<lparr>dg_dictionary = b ! 2, dg_areas = as\<rparr>))"

section \<open>The vector request\<close>

record vector_req =
  vr_areas :: "area_tag list"

definition vector_req_encode :: "vector_req \<Rightarrow> bytes" where
  "vector_req_encode r =
     (let tags = sort (vr_areas r)
      in [MsgVectorReq, GossipFormatVersion, of_nat (length tags)] @ concat (map array_bytes tags))"

fun decode_tags :: "nat \<Rightarrow> area_tag option \<Rightarrow> bytes \<Rightarrow> gossip_error + area_tag list" where
  "decode_tags 0 prev b = Inr []"
| "decode_tags (Suc n) prev b =
     (let t = copy_array (take 4 b)
      in if (case prev of None \<Rightarrow> False | Some p \<Rightarrow> \<not> p < t) then Inl GNotCanonical
         else res_bind (decode_tags n (Some t) (drop 4 b)) (\<lambda>ts. Inr (t # ts)))"

definition decode_vector_req :: "bytes \<Rightarrow> gossip_error + vector_req" where
  "decode_vector_req b =
     (if length b < 2 then Inl GTruncated
      else if b ! 0 \<noteq> MsgVectorReq then Inl (GWrongType (b ! 0))
      else if b ! 1 \<noteq> GossipFormatVersion then Inl (GUnsupportedVersion (b ! 1))
      else if length b < 3 then Inl GTruncated
      else let n = unat (b ! 2)
        in if n > MaxAreas then Inl (GTooMany n)
           else if length b \<noteq> 3 + 4 * n then Inl GTruncated
           else res_bind (decode_tags n None (drop 3 b)) (\<lambda>ts. Inr \<lparr>vr_areas = ts\<rparr>))"

section \<open>The vector message\<close>

record vector_msg =
  vm_area :: area_tag
  vm_vector :: vector

definition vector_msg_encode :: "vector_msg \<Rightarrow> bytes" where
  "vector_msg_encode m =
     [MsgVector, GossipFormatVersion] @ array_bytes (vm_area m) @ vv_encode (vm_vector m)"

definition decode_vector_msg :: "bytes \<Rightarrow> gossip_error + vector_msg" where
  "decode_vector_msg b =
     (if length b < 2 then Inl GTruncated
      else if b ! 0 \<noteq> MsgVector then Inl (GWrongType (b ! 0))
      else if b ! 1 \<noteq> GossipFormatVersion then Inl (GUnsupportedVersion (b ! 1))
      else if length b < 6 then Inl GTruncated
      else case vv_decode (drop 6 b) of
             Inl e \<Rightarrow> Inl (GVector e)
           | Inr v \<Rightarrow> Inr \<lparr>vm_area = copy_array (take 4 (drop 2 b)), vm_vector = v\<rparr>)"

section \<open>The range request\<close>

record range_req =
  rr_area :: area_tag
  rr_ranges :: "vv_range list"

definition range_key :: "vv_range \<Rightarrow> node_id \<times> u64" where
  "range_key r = (rg_origin r, rg_from r)"

definition range_bytes :: "vv_range \<Rightarrow> bytes" where
  "range_bytes rg = array_bytes (rg_origin rg) @ append_uvarint (rg_from rg) @ append_uvarint (rg_to rg - rg_from rg)"

definition range_req_encode :: "range_req \<Rightarrow> bytes" where
  "range_req_encode r =
     (let ranges = sort_key range_key (rr_ranges r)
      in [MsgRangeReq, GossipFormatVersion] @ array_bytes (rr_area r) @ [of_nat (length ranges)] @
         concat (map range_bytes ranges))"

text \<open>The order check of the decoder's loop, from its second turn on.\<close>

definition range_order_ok :: "vv_range option \<Rightarrow> vv_range \<Rightarrow> bool" where
  "range_order_ok prev rg =
     (case prev of
        None \<Rightarrow> True
      | Some p \<Rightarrow> \<not> (rg_origin rg = rg_origin p \<and> rg_from rg \<le> rg_from p) \<and>
                  \<not> (rg_origin rg \<noteq> rg_origin p \<and> \<not> rg_origin p < rg_origin rg))"

fun decode_ranges :: "nat \<Rightarrow> vv_range option \<Rightarrow> bytes \<Rightarrow> gossip_error + vv_range list \<times> bytes" where
  "decode_ranges 0 prev b = Inr ([], b)"
| "decode_ranges (Suc n) prev b =
     (if length b < 8 then Inl GTruncated
      else let origin = copy_array (take 8 b); b1 = drop 8 b
        in case canonical_uvarint b1 of
             Inl e \<Rightarrow> Inl (gossip_varint_error e)
           | Inr (from, read1) \<Rightarrow>
             (case canonical_uvarint (drop read1 b1) of
                Inl e \<Rightarrow> Inl (gossip_varint_error e)
              | Inr (sp, read2) \<Rightarrow>
                  if from = 0 then Inl GRangeFromZero
                  else let rg = \<lparr>rg_origin = origin, rg_from = from, rg_to = from + sp\<rparr>
                    in if \<not> range_order_ok prev rg then Inl GNotCanonical
                       else res_bind (decode_ranges n (Some rg) (drop read2 (drop read1 b1)))
                              (\<lambda>(rgs, rest). Inr (rg # rgs, rest))))"

definition decode_range_req :: "bytes \<Rightarrow> gossip_error + range_req" where
  "decode_range_req b =
     (if length b < 2 then Inl GTruncated
      else if b ! 0 \<noteq> MsgRangeReq then Inl (GWrongType (b ! 0))
      else if b ! 1 \<noteq> GossipFormatVersion then Inl (GUnsupportedVersion (b ! 1))
      else if length b < 7 then Inl GTruncated
      else let n = unat (b ! 6)
        in if n > MaxRanges then Inl (GTooMany n)
           else case decode_ranges n None (drop 7 b) of
                  Inl e \<Rightarrow> Inl e
                | Inr (rgs, rest) \<Rightarrow>
                    if rest \<noteq> [] then Inl (GTrailing (length rest))
                    else Inr \<lparr>rr_area = copy_array (take 4 (drop 2 b)), rr_ranges = rgs\<rparr>)"

text \<open>\<open>FitRanges\<close>: try ever shorter prefixes until one fits.\<close>

fun fit_ranges_loop :: "area_tag \<Rightarrow> vv_range list \<Rightarrow> nat \<Rightarrow> nat \<Rightarrow> vv_range list" where
  "fit_ranges_loop area ranges maxBytes 0 = []"
| "fit_ranges_loop area ranges maxBytes (Suc n) =
     (if length (range_req_encode \<lparr>rr_area = area, rr_ranges = take (Suc n) ranges\<rparr>) \<le> maxBytes
      then take (Suc n) ranges
      else fit_ranges_loop area ranges maxBytes n)"

definition fit_ranges :: "area_tag \<Rightarrow> vv_range list \<Rightarrow> nat \<Rightarrow> vv_range list" where
  "fit_ranges area ranges maxBytes =
     (let rs = (if length ranges > MaxRanges then take MaxRanges ranges else ranges)
      in fit_ranges_loop area rs maxBytes (length rs))"

section \<open>What the decoders accept\<close>

definition digest_wf :: "digest \<Rightarrow> bool" where
  "digest_wf d \<longleftrightarrow> length (dg_areas d) \<le> MaxAreas \<and> ascending (map as_tag (dg_areas d))"

definition vector_req_wf :: "vector_req \<Rightarrow> bool" where
  "vector_req_wf r \<longleftrightarrow> length (vr_areas r) \<le> MaxAreas \<and> ascending (vr_areas r)"

definition vector_msg_wf :: "vector_msg \<Rightarrow> bool" where
  "vector_msg_wf m \<longleftrightarrow> vv_len (vm_vector m) \<le> MaxOrigins"

definition range_req_wf :: "range_req \<Rightarrow> bool" where
  "range_req_wf r \<longleftrightarrow> length (rr_ranges r) \<le> MaxRanges \<and>
     ascending (map range_key (rr_ranges r)) \<and> (\<forall>rg \<in> set (rr_ranges r). rg_from rg \<noteq> 0)"

lemma ascending_sorted_key: "ascending (map f xs) \<Longrightarrow> sort_key f xs = xs"
  by (rule sort_key_id_if_sorted) (simp add: strict_sorted_imp_sorted)

lemma ascending_Cons_prev:
  "ascending (x # xs) \<longleftrightarrow> (\<forall>y ys. xs = y # ys \<longrightarrow> x < y) \<and> ascending (xs :: 'a::linorder list)"
  by (cases xs) auto

lemma length_area_bytes [simp]: "length (area_bytes a) = 10"
  by (simp add: area_bytes_def)

lemma length_concat_const: "(\<And>x. x \<in> set xs \<Longrightarrow> length (f x) = n) \<Longrightarrow> length (concat (map f xs)) = n * length xs"
  by (induction xs) auto

lemma unat_of_nat_u8: "n < 256 \<Longrightarrow> unat (of_nat n :: u8) = n"
  by (simp add: unat_of_nat)

lemma decode_areas_encode:
  "ascending (map as_tag as) \<Longrightarrow> (\<And>p. prev = Some p \<Longrightarrow> as \<noteq> [] \<Longrightarrow> p < as_tag (hd as)) \<Longrightarrow>
   decode_areas (length as) prev (concat (map area_bytes as)) = Inr as"
proof (induction "as" arbitrary: prev)
  case (Cons a as)
  have parts: "take 4 (area_bytes a) = array_bytes (as_tag a)"
    "take 4 (drop 4 (area_bytes a)) = array_bytes (as_hash a)"
    "drop 8 (area_bytes a) = put_u16 (as_count a)" "get_u16 (put_u16 (as_count a)) = as_count a"
    using get_put_u16 [of "as_count a" "[]"] by (simp_all add: area_bytes_def)
  have "decode_areas (length as) (Some (as_tag a)) (concat (map area_bytes as)) = Inr as"
    using Cons.prems(1) by (intro Cons.IH) (cases "as"; auto)+
  moreover have "\<not> (case prev of None \<Rightarrow> False | Some p \<Rightarrow> \<not> p < as_tag a)"
    using Cons.prems(2) by (auto split: option.splits)
  ultimately show ?case by (cases prev) (simp_all add: Let_def parts)
qed simp

lemma decode_areas_sound:
  "decode_areas n prev b = Inr as \<Longrightarrow> length b = 10 * n \<Longrightarrow>
   length as = n \<and> ascending (map as_tag as) \<and>
   (\<forall>p. prev = Some p \<longrightarrow> as \<noteq> [] \<longrightarrow> p < as_tag (hd as)) \<and> concat (map area_bytes as) = b"
proof (induction n arbitrary: prev b "as")
  case (Suc n)
  let ?a = "\<lparr>as_tag = copy_array (take 4 b), as_hash = copy_array (take 4 (drop 4 b)),
               as_count = get_u16 (take 2 (drop 8 b))\<rparr> :: area_state"
  obtain as' where ord: "\<not> (case prev of None \<Rightarrow> False | Some p \<Rightarrow> \<not> p < as_tag ?a)"
    and rec: "decode_areas n (Some (as_tag ?a)) (drop 10 b) = Inr as'" and as_eq: "as = ?a # as'"
    using Suc.prems(1) by (auto simp: Let_def split: if_splits)
  have len: "length (drop 10 b) = 10 * n" using Suc.prems(2) by simp
  note IH = Suc.IH [OF rec len]
  have "area_bytes ?a = take 4 b @ take 4 (drop 4 b) @ take 2 (drop 8 b)"
    using Suc.prems(2) by (simp add: area_bytes_def put_get_u16 array_bytes_take4)
  also have "\<dots> = take 10 b"
    using take_add [of 4 6 b] take_add [of 4 2 "drop 4 b"] by (simp add: add.commute)
  finally have "concat (map area_bytes as) = b"
    using IH as_eq by simp
  moreover have "ascending (map as_tag as)"
    using IH as_eq by (simp only: list.map ascending_Cons_prev) (cases as'; simp)
  moreover have "\<forall>p. prev = Some p \<longrightarrow> as \<noteq> [] \<longrightarrow> p < as_tag (hd as)"
    using ord as_eq by (auto split: option.splits)
  ultimately show ?case using IH as_eq by simp
qed simp

lemma digest_decode_encode: "digest_wf d \<Longrightarrow> decode_digest (digest_encode d) = Inr d"
proof -
  assume wf: "digest_wf d"
  let ?as = "dg_areas d"
  have n: "length ?as \<le> 22" and asc: "ascending (map as_tag ?as)"
    using wf by (simp_all add: digest_wf_def gossip_consts)
  have "decode_areas (length ?as) None (concat (map area_bytes ?as)) = Inr ?as"
    by (rule decode_areas_encode [OF asc]) simp
  moreover have "length (concat (map area_bytes ?as)) = 10 * length ?as"
    by (rule length_concat_const) simp
  moreover have "unat (of_nat (length ?as) :: u8) = length ?as" using n by (simp add: unat_of_nat_u8)
  ultimately show ?thesis
    using n by (simp add: decode_digest_def digest_encode_def ascending_sorted_key [OF asc] gossip_consts Let_def)
qed

text \<open>A byte string is its first bytes and the rest.\<close>

lemma split_head2: "2 \<le> length b \<Longrightarrow> b = b ! 0 # b ! 1 # drop 2 b"
  by (cases b rule: list.exhaust; cases "tl b") auto

lemma split_head3: "3 \<le> length b \<Longrightarrow> b = b ! 0 # b ! 1 # b ! 2 # drop 3 b"
  using split_head2 [of b] Cons_nth_drop_Suc [of 2 b] by (simp add: numeral_3_eq_3 numeral_2_eq_2)

lemma split_head4: "4 \<le> length b \<Longrightarrow> b = b ! 0 # b ! 1 # b ! 2 # b ! 3 # drop 4 b"
  using split_head3 [of b] Cons_nth_drop_Suc [of 3 b] by (simp add: numeral_eq_Suc)

lemma split_head6:
  "6 \<le> length b \<Longrightarrow> b = b ! 0 # b ! 1 # array_bytes (copy_array (take 4 (drop 2 b)) :: area_tag) @ drop 6 b"
  using split_head2 [of b] append_take_drop_id [of 4 "drop 2 b"] by simp

lemma digest_encode_decode: "decode_digest b = Inr d \<Longrightarrow> digest_wf d \<and> digest_encode d = b"
proof -
  assume ok: "decode_digest b = Inr d"
  define n where "n = unat (b ! 3)"
  obtain as where hd: "b ! 0 = MsgDigest" "b ! 1 = GossipFormatVersion" and n: "n \<le> MaxAreas"
    and len: "length b = 4 + 10 * n" and dec: "decode_areas n None (drop 4 b) = Inr as"
    and d: "d = \<lparr>dg_dictionary = b ! 2, dg_areas = as\<rparr>"
    using ok by (auto simp: decode_digest_def n_def Let_def digestHeader_def split: if_splits)
  have as_ok: "length as = n" "ascending (map as_tag as)" "concat (map area_bytes as) = drop 4 b"
    using decode_areas_sound [OF dec] len by auto
  have "b = [b ! 0, b ! 1, b ! 2, b ! 3] @ drop 4 b" using split_head4 [of b] len by simp
  moreover have "of_nat (length as) = b ! 3" using as_ok(1) by (simp add: n_def)
  ultimately show ?thesis
    using hd n d as_ok by (simp add: digest_wf_def digest_encode_def ascending_sorted_key)
qed

interpretation dgc: canonical_codec digest_wf digest_encode decode_digest
  by unfold_locales (auto simp: digest_decode_encode dest: digest_encode_decode)

lemma decode_tags_encode:
  "ascending ts \<Longrightarrow> (\<And>p. prev = Some p \<Longrightarrow> ts \<noteq> [] \<Longrightarrow> p < hd ts) \<Longrightarrow>
   decode_tags (length ts) prev (concat (map array_bytes ts)) = Inr ts"
proof (induction ts arbitrary: prev)
  case (Cons t ts)
  have "decode_tags (length ts) (Some t) (concat (map array_bytes ts)) = Inr ts"
    using Cons.prems(1) by (intro Cons.IH) (cases ts; auto)+
  moreover have "\<not> (case prev of None \<Rightarrow> False | Some p \<Rightarrow> \<not> p < t)"
    using Cons.prems(2) by (auto split: option.splits)
  ultimately show ?case by (cases prev) (simp_all add: Let_def)
qed simp

lemma decode_tags_sound:
  "decode_tags n prev b = Inr ts \<Longrightarrow> length b = 4 * n \<Longrightarrow>
   length ts = n \<and> ascending ts \<and> (\<forall>p. prev = Some p \<longrightarrow> ts \<noteq> [] \<longrightarrow> p < hd ts) \<and>
   concat (map array_bytes ts) = b"
proof (induction n arbitrary: prev b ts)
  case (Suc n)
  let ?t = "copy_array (take 4 b) :: area_tag"
  obtain ts' where ord: "\<not> (case prev of None \<Rightarrow> False | Some p \<Rightarrow> \<not> p < ?t)"
    and rec: "decode_tags n (Some ?t) (drop 4 b) = Inr ts'" and ts_eq: "ts = ?t # ts'"
    using Suc.prems(1) by (auto simp: Let_def split: if_splits)
  have len: "length (drop 4 b) = 4 * n" using Suc.prems(2) by simp
  note IH = Suc.IH [OF rec len]
  have "array_bytes ?t = take 4 b" using Suc.prems(2) by (simp add: array_bytes_take4)
  then have "concat (map array_bytes ts) = b" using IH ts_eq by simp
  moreover have "ascending ts"
    using IH ts_eq by (simp only: ascending_Cons_prev) (cases ts'; simp)
  moreover have "\<forall>p. prev = Some p \<longrightarrow> ts \<noteq> [] \<longrightarrow> p < hd ts"
    using ord ts_eq by (auto split: option.splits)
  ultimately show ?case using IH ts_eq by simp
qed simp

lemma ascending_sort_id: "ascending xs \<Longrightarrow> sort xs = xs"
  using ascending_sorted_key [of "\<lambda>x. x" xs] by simp

lemma vector_req_decode_encode: "vector_req_wf r \<Longrightarrow> decode_vector_req (vector_req_encode r) = Inr r"
proof -
  assume wf: "vector_req_wf r"
  let ?ts = "vr_areas r"
  have n: "length ?ts \<le> 22" and asc: "ascending ?ts"
    using wf by (simp_all add: vector_req_wf_def gossip_consts)
  have "decode_tags (length ?ts) None (concat (map array_bytes ?ts)) = Inr ?ts"
    by (rule decode_tags_encode [OF asc]) simp
  moreover have "length (concat (map array_bytes ?ts)) = 4 * length ?ts"
    by (rule length_concat_const) simp
  moreover have "unat (of_nat (length ?ts) :: u8) = length ?ts" using n by (simp add: unat_of_nat_u8)
  ultimately show ?thesis
    using n by (simp add: decode_vector_req_def vector_req_encode_def ascending_sort_id [OF asc] gossip_consts Let_def)
qed

lemma vector_req_encode_decode: "decode_vector_req b = Inr r \<Longrightarrow> vector_req_wf r \<and> vector_req_encode r = b"
proof -
  assume ok: "decode_vector_req b = Inr r"
  define n where "n = unat (b ! 2)"
  obtain ts where hd: "b ! 0 = MsgVectorReq" "b ! 1 = GossipFormatVersion" and n: "n \<le> MaxAreas"
    and len: "length b = 3 + 4 * n" and dec: "decode_tags n None (drop 3 b) = Inr ts"
    and r: "r = \<lparr>vr_areas = ts\<rparr>"
    using ok by (auto simp: decode_vector_req_def n_def Let_def split: if_splits)
  have ts_ok: "length ts = n" "ascending ts" "concat (map array_bytes ts) = drop 3 b"
    using decode_tags_sound [OF dec] len by auto
  have "b = [b ! 0, b ! 1, b ! 2] @ drop 3 b" using split_head3 [of b] len by simp
  moreover have "of_nat (length ts) = b ! 2" using ts_ok(1) by (simp add: n_def)
  ultimately show ?thesis
    using hd n r ts_ok by (simp add: vector_req_wf_def vector_req_encode_def ascending_sort_id)
qed

interpretation vrc: canonical_codec vector_req_wf vector_req_encode decode_vector_req
  by unfold_locales (auto simp: vector_req_decode_encode dest: vector_req_encode_decode)

lemma vector_msg_decode_encode: "vector_msg_wf m \<Longrightarrow> decode_vector_msg (vector_msg_encode m) = Inr m"
  by (simp add: decode_vector_msg_def vector_msg_encode_def vector_msg_wf_def vv_decode_encode gossip_consts)

lemma vector_msg_encode_decode: "decode_vector_msg b = Inr m \<Longrightarrow> vector_msg_wf m \<and> vector_msg_encode m = b"
proof -
  assume ok: "decode_vector_msg b = Inr m"
  obtain v where hd: "b ! 0 = MsgVector" "b ! 1 = GossipFormatVersion" and len: "6 \<le> length b"
    and dec: "vv_decode (drop 6 b) = Inr v"
    and m: "m = \<lparr>vm_area = copy_array (take 4 (drop 2 b)), vm_vector = v\<rparr>"
    using ok by (auto simp: decode_vector_msg_def split: if_splits sum.splits)
  have v: "vv_len v \<le> MaxOrigins" "vv_encode v = drop 6 b" using vv_encode_decode [OF dec] by simp_all
  have "b = b ! 0 # b ! 1 # array_bytes (vm_area m) @ drop 6 b"
    using split_head6 [OF len] by (simp only: m vector_msg.select_convs)
  then show ?thesis
    using hd v m by (simp add: vector_msg_wf_def vector_msg_encode_def)
qed

interpretation vmc: canonical_codec vector_msg_wf vector_msg_encode decode_vector_msg
  by unfold_locales (auto simp: vector_msg_decode_encode dest: vector_msg_encode_decode)

section \<open>Range requests\<close>

lemma range_order_ok_iff:
  "range_order_ok prev rg \<longleftrightarrow> (\<forall>p. prev = Some p \<longrightarrow> range_key p < range_key rg)"
  by (cases prev) (auto simp: range_order_ok_def range_key_def less_prod_simp not_le not_less)

lemma range_bytes_Cons:
  "concat (map range_bytes (rg # rgs)) @ rest =
   array_bytes (rg_origin rg) @ append_uvarint (rg_from rg) @ append_uvarint (rg_to rg - rg_from rg) @
   concat (map range_bytes rgs) @ rest"
  by (simp add: range_bytes_def)

lemma decode_ranges_encode:
  "ascending (map range_key rgs) \<Longrightarrow> \<forall>rg \<in> set rgs. rg_from rg \<noteq> 0 \<Longrightarrow>
   (\<And>p. prev = Some p \<Longrightarrow> rgs \<noteq> [] \<Longrightarrow> range_key p < range_key (hd rgs)) \<Longrightarrow>
   decode_ranges (length rgs) prev (concat (map range_bytes rgs) @ rest) = Inr (rgs, rest)"
proof (induction rgs arbitrary: prev)
  case (Cons rg rgs)
  have "decode_ranges (length rgs) (Some rg) (concat (map range_bytes rgs) @ rest) = Inr (rgs, rest)"
    using Cons.prems(1,2) by (intro Cons.IH) (cases rgs; auto)+
  moreover have "range_order_ok prev rg"
    using Cons.prems(3) by (auto simp: range_order_ok_iff)
  ultimately show ?case
    using Cons.prems(2) by (simp only: range_bytes_Cons) (cases rg, simp add: Let_def)
qed simp

lemma decode_ranges_sound:
  "decode_ranges n prev b = Inr (rgs, rest) \<Longrightarrow>
   length rgs = n \<and> ascending (map range_key rgs) \<and> (\<forall>rg \<in> set rgs. rg_from rg \<noteq> 0) \<and>
   (\<forall>p. prev = Some p \<longrightarrow> rgs \<noteq> [] \<longrightarrow> range_key p < range_key (hd rgs)) \<and>
   b = concat (map range_bytes rgs) @ rest"
proof (induction n arbitrary: prev b rgs)
  case (Suc n)
  let ?o = "copy_array (take 8 b) :: node_id"
  obtain fr read1 sp read2 rgs' where len: "8 \<le> length b"
    and c1: "canonical_uvarint (drop 8 b) = Inr (fr, read1)"
    and c2: "canonical_uvarint (drop read1 (drop 8 b)) = Inr (sp, read2)" and nz: "fr \<noteq> 0"
    and ord: "range_order_ok prev \<lparr>rg_origin = ?o, rg_from = fr, rg_to = fr + sp\<rparr>"
    and rec: "decode_ranges n (Some \<lparr>rg_origin = ?o, rg_from = fr, rg_to = fr + sp\<rparr>)
        (drop read2 (drop read1 (drop 8 b))) = Inr (rgs', rest)"
    and rgs: "rgs = \<lparr>rg_origin = ?o, rg_from = fr, rg_to = fr + sp\<rparr> # rgs'"
    using Suc.prems by (auto simp: Let_def not_less split: if_splits sum.splits prod.splits)
  note IH = Suc.IH [OF rec]
  have "b = array_bytes ?o @ append_uvarint fr @ append_uvarint sp @ concat (map range_bytes rgs') @ rest"
    using canonical_uvarint_split [OF c1] canonical_uvarint_split [OF c2] IH
      array_bytes_take8 [OF len] append_take_drop_id [of 8 b] by metis
  then have "b = concat (map range_bytes rgs) @ rest"
    unfolding rgs by (simp only: range_bytes_Cons vv_range.select_convs add_diff_cancel_left')
  moreover have "ascending (map range_key rgs)"
    using IH rgs by (simp only: list.map ascending_Cons_prev) (cases rgs'; simp)
  ultimately show ?case using IH nz ord rgs by (simp add: range_order_ok_iff)
qed simp

lemma range_req_decode_encode: "range_req_wf r \<Longrightarrow> decode_range_req (range_req_encode r) = Inr r"
proof -
  assume wf: "range_req_wf r"
  let ?rs = "rr_ranges r"
  have n: "length ?rs \<le> 32" and asc: "ascending (map range_key ?rs)" and nz: "\<forall>rg \<in> set ?rs. rg_from rg \<noteq> 0"
    using wf by (simp_all add: range_req_wf_def gossip_consts)
  have "decode_ranges (length ?rs) None (concat (map range_bytes ?rs) @ []) = Inr (?rs, [])"
    by (rule decode_ranges_encode [OF asc nz]) simp
  moreover have "unat (of_nat (length ?rs) :: u8) = length ?rs" using n by (simp add: unat_of_nat_u8)
  ultimately show ?thesis
    using n by (simp add: decode_range_req_def range_req_encode_def ascending_sorted_key [OF asc]
        gossip_consts nth_append Let_def)
qed

lemma range_req_encode_decode: "decode_range_req b = Inr r \<Longrightarrow> range_req_wf r \<and> range_req_encode r = b"
proof -
  assume ok: "decode_range_req b = Inr r"
  define n where "n = unat (b ! 6)"
  obtain rgs where hd: "b ! 0 = MsgRangeReq" "b ! 1 = GossipFormatVersion" and len: "7 \<le> length b"
    and n: "n \<le> MaxRanges" and dec: "decode_ranges n None (drop 7 b) = Inr (rgs, [])"
    and r: "r = \<lparr>rr_area = copy_array (take 4 (drop 2 b)), rr_ranges = rgs\<rparr>"
    using ok by (auto simp: decode_range_req_def n_def Let_def split: if_splits sum.splits prod.splits)
  have ok': "length rgs = n" "ascending (map range_key rgs)" "\<forall>rg \<in> set rgs. rg_from rg \<noteq> 0"
    "drop 7 b = concat (map range_bytes rgs)"
    using decode_ranges_sound [OF dec] by auto
  have six: "drop 6 b = b ! 6 # drop 7 b" using Cons_nth_drop_Suc [of 6 b] len by simp
  have "b = b ! 0 # b ! 1 # array_bytes (rr_area r) @ drop 6 b"
    using split_head6 [of b] len by (simp only: r range_req.select_convs)
  moreover have "of_nat (length rgs) = b ! 6" using ok'(1) by (simp add: n_def)
  ultimately have "b = [MsgRangeReq, GossipFormatVersion] @ array_bytes (rr_area r) @
      [of_nat (length rgs)] @ concat (map range_bytes rgs)"
    using hd ok'(4) six by (metis append_Cons append_Nil)
  then show ?thesis
    using n ok'(1,2,3) r by (simp add: range_req_wf_def range_req_encode_def ascending_sorted_key)
qed

interpretation rrc: canonical_codec range_req_wf range_req_encode decode_range_req
  by unfold_locales (auto simp: range_req_decode_encode dest: range_req_encode_decode)

section \<open>Properties of the formats\<close>

text \<open>
  C34. All four gossip formats are canonical: a byte string decodes to a message exactly when
  it is that message's own encoding and the message respects the format's limits (at most 22
  areas in ascending tag order, 512 origins, 32 ranges in ascending order starting above
  sequence zero). No message has a second wire form.
\<close>

theorem gossip_codecs_canonical:
  "((decode_digest b = Inr d) = (digest_wf d \<and> digest_encode d = b)) \<and>
   ((decode_vector_req b = Inr vr) = (vector_req_wf vr \<and> vector_req_encode vr = b)) \<and>
   ((decode_vector_msg b = Inr vm) = (vector_msg_wf vm \<and> vector_msg_encode vm = b)) \<and>
   ((decode_range_req b = Inr rr) = (range_req_wf rr \<and> range_req_encode rr = b))"
  by (intro conjI) (rule dgc.accepts_iff vrc.accepts_iff vmc.accepts_iff rrc.accepts_iff)+

lemma length_digest_encode: "length (digest_encode d) = digest_size d"
proof -
  have "length (concat (map area_bytes (sort_key as_tag (dg_areas d)))) = 10 * length (sort_key as_tag (dg_areas d))"
    by (rule length_concat_const) simp
  then show ?thesis by (simp add: digest_encode_def Let_def digest_size_def digestHeader_def)
qed

lemma length_vector_req_encode: "length (vector_req_encode r) = 3 + 4 * length (vr_areas r)"
proof -
  have "length (concat (map array_bytes (sort (vr_areas r)))) = 4 * length (sort (vr_areas r))"
    by (rule length_concat_const) simp
  then show ?thesis by (simp add: vector_req_encode_def Let_def)
qed

text \<open>
  A digest always encodes to the size \<open>Size\<close> announces; one within the area limit fits a
  single mesh packet, but \<open>NewDigest\<close> and \<open>Encode\<close> do not apply that limit: a node that
  federates more than 22 areas broadcasts a digest every receiver rejects with \<open>ErrTooMany\<close>.
\<close>

theorem digest_limit:
  "length (digest_encode d) = digest_size d \<and>
   (length (dg_areas d) \<le> MaxAreas \<longrightarrow> length (digest_encode d) \<le> MaxControlMessage) \<and>
   (MaxAreas < length (dg_areas d) \<and> length (dg_areas d) < 256 \<longrightarrow>
      decode_digest (digest_encode d) = Inl (GTooMany (length (dg_areas d))))"
proof (intro conjI impI)
  show "length (digest_encode d) = digest_size d" by (rule length_digest_encode)
  show "length (dg_areas d) \<le> MaxAreas \<Longrightarrow> length (digest_encode d) \<le> MaxControlMessage"
    by (simp add: length_digest_encode digest_size_def gossip_consts)
  show "MaxAreas < length (dg_areas d) \<and> length (dg_areas d) < 256 \<Longrightarrow>
     decode_digest (digest_encode d) = Inl (GTooMany (length (dg_areas d)))"
    by (simp add: decode_digest_def digest_encode_def Let_def gossip_consts unat_of_nat_u8)
qed

definition digest_sample :: "nat \<Rightarrow> digest" where
  "digest_sample n = \<lparr>dg_dictionary = 0,
     dg_areas = map (\<lambda>i. \<lparr>as_tag = copy_array [of_nat i], as_hash = copy_array [], as_count = 0\<rparr>) [0..<n]\<rparr>"

theorem digest_limit_witness:
  "length (digest_encode (digest_sample 3)) \<le> MaxControlMessage \<and>
   decode_digest (digest_encode (digest_sample 23)) = Inl (GTooMany 23)"
  using digest_limit [of "digest_sample 3"] digest_limit [of "digest_sample 23"]
  by (simp add: digest_sample_def gossip_consts)

text \<open>
  A decoded range may run backwards: the span is added to the start modulo \<open>2^64\<close>, so a
  well-formed request can name a range whose end lies below its start. Decoding checks only
  that the start is not zero.
\<close>

theorem range_req_wraps:
  "\<exists>b r rg. decode_range_req b = Inr r \<and> rg \<in> set (rr_ranges r) \<and> rg_to rg < rg_from rg"
proof -
  let ?rg = "\<lparr>rg_origin = copy_array [1], rg_from = 2, rg_to = 1\<rparr> :: vv_range"
  let ?r = "\<lparr>rr_area = copy_array [], rr_ranges = [?rg]\<rparr>"
  have "range_req_wf ?r" by (simp add: range_req_wf_def gossip_consts)
  then have "decode_range_req (range_req_encode ?r) = Inr ?r" by (rule range_req_decode_encode)
  moreover have "?rg \<in> set (rr_ranges ?r)" "rg_to ?rg < rg_from ?rg" by simp_all
  ultimately show ?thesis by blast
qed

section \<open>Fitting ranges into one packet\<close>

lemma length_concat_sort: "length (concat (map f (sort_key k xs))) = length (concat (map f xs))"
  by (simp add: length_concat sum_mset_sum_list [symmetric] flip: mset_map) (simp add: mset_map)

lemma length_range_req_encode:
  "length (range_req_encode \<lparr>rr_area = a, rr_ranges = rs\<rparr>) = 7 + length (concat (map range_bytes rs))"
  by (simp add: range_req_encode_def Let_def length_concat_sort)

lemma length_range_bytes: "length (range_bytes rg) \<le> 28"
  using append_uvarint_max [of "rg_from rg"] append_uvarint_max [of "rg_to rg - rg_from rg"]
  by (simp add: range_bytes_def)

lemma fit_ranges_loop_longest:
  "\<exists>k \<le> n. fit_ranges_loop a rs m n = take k rs \<and>
     (0 < k \<longrightarrow> length (range_req_encode \<lparr>rr_area = a, rr_ranges = take k rs\<rparr>) \<le> m) \<and>
     (\<forall>j. k < j \<and> j \<le> n \<longrightarrow> m < length (range_req_encode \<lparr>rr_area = a, rr_ranges = take j rs\<rparr>))"
proof (induction n)
  case (Suc n)
  show ?case
  proof (cases "length (range_req_encode \<lparr>rr_area = a, rr_ranges = take (Suc n) rs\<rparr>) \<le> m")
    case True
    then show ?thesis by (intro exI [of _ "Suc n"]) auto
  next
    case False
    with Suc.IH obtain k where "k \<le> n" "fit_ranges_loop a rs m n = take k rs"
      "0 < k \<longrightarrow> length (range_req_encode \<lparr>rr_area = a, rr_ranges = take k rs\<rparr>) \<le> m"
      "\<forall>j. k < j \<and> j \<le> n \<longrightarrow> m < length (range_req_encode \<lparr>rr_area = a, rr_ranges = take j rs\<rparr>)"
      by blast
    with False show ?thesis by (intro exI [of _ k]) (auto simp: le_Suc_eq not_le)
  qed
qed simp

text \<open>
  \<open>FitRanges\<close> returns the longest prefix of the ranges whose request fits the byte
  limit, never more than 32 of them: the result's own request fits, and every longer prefix
  within the count limit does not.
\<close>

theorem fit_ranges_longest:
  "\<exists>k \<le> min (length ranges) MaxRanges. fit_ranges area ranges maxBytes = take k ranges \<and>
     (0 < k \<longrightarrow> length (range_req_encode \<lparr>rr_area = area, rr_ranges = take k ranges\<rparr>) \<le> maxBytes) \<and>
     (\<forall>j. k < j \<and> j \<le> min (length ranges) MaxRanges \<longrightarrow>
        maxBytes < length (range_req_encode \<lparr>rr_area = area, rr_ranges = take j ranges\<rparr>))"
proof -
  let ?n = "min (length ranges) MaxRanges"
  let ?rs = "take MaxRanges ranges"
  have "fit_ranges area ranges maxBytes = fit_ranges_loop area ?rs maxBytes ?n"
    by (simp add: fit_ranges_def Let_def min_def)
  moreover obtain k where "k \<le> ?n" "fit_ranges_loop area ?rs maxBytes ?n = take k ?rs"
    "0 < k \<longrightarrow> length (range_req_encode \<lparr>rr_area = area, rr_ranges = take k ?rs\<rparr>) \<le> maxBytes"
    "\<forall>j. k < j \<and> j \<le> ?n \<longrightarrow> maxBytes < length (range_req_encode \<lparr>rr_area = area, rr_ranges = take j ?rs\<rparr>)"
    using fit_ranges_loop_longest [of ?n area ?rs maxBytes] by blast
  moreover have "take j ?rs = take j ranges" if "j \<le> ?n" for j
    using that by (simp add: min_absorb1)
  ultimately show ?thesis by (intro exI [of _ k]) simp
qed

theorem fit_ranges_longest_witness:
  "\<exists>k \<le> min 0 MaxRanges. fit_ranges (copy_array []) [] 224 = take k [] \<and>
     (0 < k \<longrightarrow> length (range_req_encode \<lparr>rr_area = copy_array [], rr_ranges = take k []\<rparr>) \<le> 224) \<and>
     (\<forall>j. k < j \<and> j \<le> min 0 MaxRanges \<longrightarrow>
        224 < length (range_req_encode \<lparr>rr_area = copy_array [], rr_ranges = take j []\<rparr>))"
  using fit_ranges_longest [of "[]" "copy_array []" 224] by (simp only: list.size)

lemma fit_ranges_progress:
  assumes "ranges \<noteq> []" and "35 \<le> maxBytes"
  shows "fit_ranges area ranges maxBytes \<noteq> []"
proof
  assume "fit_ranges area ranges maxBytes = []"
  moreover obtain k where k: "fit_ranges area ranges maxBytes = take k ranges"
    "\<forall>j. k < j \<and> j \<le> min (length ranges) MaxRanges \<longrightarrow>
        maxBytes < length (range_req_encode \<lparr>rr_area = area, rr_ranges = take j ranges\<rparr>)"
    using fit_ranges_loop_longest [of "min (length ranges) MaxRanges" area "take MaxRanges ranges" maxBytes]
    by (auto simp: fit_ranges_def Let_def min_def split: if_splits)
  ultimately have "k = 0" using assms(1) by simp
  moreover obtain r rs where "ranges = r # rs" using assms(1) by (cases ranges) auto
  ultimately have "maxBytes < length (range_req_encode \<lparr>rr_area = area, rr_ranges = [r]\<rparr>)"
    using k(2) [rule_format, of 1] by (simp add: MaxRanges_def)
  then show False using assms(2) length_range_bytes [of r] by (simp add: length_range_req_encode)
qed

lemma unat_saturating_count: "unat (saturating_count n) = min (unat n) 65535"
  by (auto simp: saturating_count_def word_less_nat_alt unsigned_ucast_eq take_bit_eq_mod not_less)

end
