(* ===== verification/Labels.thy ===== *)
theory Labels
  imports Prelude
begin

text \<open>
  Text fields of records. Go strings are byte sequences; \<open>utf8_decode_rune\<close> is the standard
  library's \<open>utf8.DecodeRuneInString\<close>, on which \<open>utf8.ValidString\<close>, \<open>strings.IndexFunc\<close> and
  \<open>range\<close> over a string rest. \<open>validate_label\<close> is \<open>validateLabel\<close> of
  \<open>internal/record/node.go\<close>, the filter every name, nick, tag and description passes on its
  way in and out. Shown: what it accepts exactly, that no accepted label holds a C0 control
  byte or DEL, and that the C1 control characters do pass.
\<close>

section \<open>UTF-8\<close>

definition cont_byte :: "nat \<Rightarrow> nat \<Rightarrow> byte \<Rightarrow> bool" where
  "cont_byte lo hi b \<longleftrightarrow> lo \<le> unat b \<and> unat b \<le> hi"

definition rune_error :: nat where "rune_error = 0xFFFD"

text \<open>
  The first rune of a nonempty string and its width. An ill-formed sequence gives the
  replacement rune and width one. The masks of the library are written as remainders.
\<close>

definition utf8_decode_rune :: "bytes \<Rightarrow> nat \<times> nat" where
  "utf8_decode_rune s =
     (case s of
        [] \<Rightarrow> (rune_error, 0)
      | b0 # r \<Rightarrow>
          let c = unat b0
          in if c < 0x80 then (c, 1)
             else if c < 0xC2 \<or> 0xF4 < c then (rune_error, 1)
             else (case r of
                 [] \<Rightarrow> (rune_error, 1)
               | b1 # r1 \<Rightarrow>
                   let lo = (if c = 0xE0 then 0xA0 else if c = 0xF0 then 0x90 else 0x80);
                       hi = (if c = 0xED then 0x9F else if c = 0xF4 then 0x8F else 0xBF)
                   in if \<not> cont_byte lo hi b1 then (rune_error, 1)
                      else if c < 0xE0 then (c mod 32 * 64 + unat b1 mod 64, 2)
                      else (case r1 of
                          [] \<Rightarrow> (rune_error, 1)
                        | b2 # r2 \<Rightarrow>
                            if \<not> cont_byte 0x80 0xBF b2 then (rune_error, 1)
                            else if c < 0xF0 then
                              (c mod 16 * 4096 + unat b1 mod 64 * 64 + unat b2 mod 64, 3)
                            else (case r2 of
                                [] \<Rightarrow> (rune_error, 1)
                              | b3 # r3 \<Rightarrow>
                                  if \<not> cont_byte 0x80 0xBF b3 then (rune_error, 1)
                                  else (c mod 8 * 262144 + unat b1 mod 64 * 4096 +
                                        unat b2 mod 64 * 64 + unat b3 mod 64, 4)))))"

lemma utf8_decode_width: "s \<noteq> [] \<Longrightarrow> 0 < snd (utf8_decode_rune s) \<and> snd (utf8_decode_rune s) \<le> length s"
  by (cases s) (auto simp: utf8_decode_rune_def Let_def split: list.splits)

text \<open>The runes of a string with their byte offsets, in the order \<open>range\<close> visits them.\<close>

function runes_at :: "nat \<Rightarrow> bytes \<Rightarrow> (nat \<times> nat \<times> nat) list" where
  "runes_at i s =
     (if s = [] then []
      else let (r, w) = utf8_decode_rune s in (i, r, w) # runes_at (i + w) (drop w s))"
  by pat_completeness auto
termination
proof (relation "measure (\<lambda>(i, s). length s)")
  fix i s x and r w :: nat
  assume "s \<noteq> []" "x = utf8_decode_rune s" "(r, w) = x"
  then show "((i + w, drop w s), i, s) \<in> measure (\<lambda>(i, s). length s)"
    using utf8_decode_width [of s] by (auto simp: prod_eq_iff)
qed simp

declare runes_at.simps [simp del]

definition utf8_valid_string :: "bytes \<Rightarrow> bool" where
  "utf8_valid_string s = list_all (\<lambda>(i, r, w). \<not> (r = rune_error \<and> w = 1)) (runes_at 0 s)"

text \<open>\<open>strings.IndexFunc\<close>: the byte offset of the first rune satisfying the test.\<close>

definition index_func :: "(nat \<Rightarrow> bool) \<Rightarrow> bytes \<Rightarrow> nat option" where
  "index_func f s = map_option fst (find (\<lambda>(i, r, w). f r) (runes_at 0 s))"

definition contains_rune :: "nat \<Rightarrow> bytes \<Rightarrow> bool" where
  "contains_rune c s = list_ex (\<lambda>(i, r, w). r = c) (runes_at 0 s)"

section \<open>Labels\<close>

datatype label_error = LabelTooLong nat nat | LabelNotUtf8 | LabelControl nat

definition validate_label :: "bytes \<Rightarrow> nat \<Rightarrow> label_error option" where
  "validate_label s mx =
     (if length s > mx then Some (LabelTooLong (length s) mx)
      else if \<not> utf8_valid_string s then Some LabelNotUtf8
      else case index_func (\<lambda>r. r < 0x20 \<or> r = 0x7F) s of
             Some i \<Rightarrow> Some (LabelControl i)
           | None \<Rightarrow> None)"

definition control_byte :: "byte \<Rightarrow> bool" where
  "control_byte b \<longleftrightarrow> b < 0x20 \<or> b = 0x7F"

lemma runes_at_Nil [simp]: "runes_at i [] = []"
  by (simp add: runes_at.simps)

lemma runes_at_rec:
  "s \<noteq> [] \<Longrightarrow> runes_at i s =
     (i, utf8_decode_rune s) # runes_at (i + snd (utf8_decode_rune s)) (drop (snd (utf8_decode_rune s)) s)"
  by (subst runes_at.simps) (simp add: split_beta)

lemma control_byte_unat: "control_byte b \<longleftrightarrow> unat b < 0x20 \<or> unat b = 0x7F"
  by (auto simp: control_byte_def word_less_nat_alt word_unat_eq_iff)

text \<open>A rune of more than one byte is above the ASCII range, and so is each of its bytes.\<close>

lemma mod_in_block: "k * m \<le> c \<Longrightarrow> c < Suc k * m \<Longrightarrow> c mod m = c - k * (m :: nat)"
  by (metis div_nat_eqI minus_div_mult_eq_mod mult.commute)

lemma utf8_two: "0xC2 \<le> c \<Longrightarrow> c < 0xE0 \<Longrightarrow> 0x80 \<le> c mod 32 * 64 + (x :: nat)"
  using mod_in_block [of 6 32 c] by simp

lemma utf8_three:
  "0xE0 \<le> c \<Longrightarrow> c < 0xF0 \<Longrightarrow> (if c = 0xE0 then 0xA0 else 0x80) \<le> x \<Longrightarrow> x \<le> 0xBF \<Longrightarrow>
   0x80 \<le> c mod 16 * 4096 + x mod 64 * 64 + (y :: nat)"
  using mod_in_block [of 14 16 c] mod_in_block [of 2 64 x] by (cases "c = 0xE0") simp_all

lemma utf8_four:
  "0xF0 \<le> c \<Longrightarrow> c \<le> 0xF4 \<Longrightarrow> (if c = 0xF0 then 0x90 else 0x80) \<le> x \<Longrightarrow> x \<le> 0xBF \<Longrightarrow>
   0x80 \<le> c mod 8 * 262144 + x mod 64 * 4096 + y + (z :: nat)"
  using mod_in_block [of 30 8 c] mod_in_block [of 2 64 x] by (cases "c = 0xF0") simp_all

definition utf8_ok :: "bytes \<Rightarrow> bool" where
  "utf8_ok s \<longleftrightarrow> utf8_decode_rune s \<noteq> (rune_error, 1)"

lemma utf8_multi_cases:
  assumes ok: "utf8_ok (b0 # r)" and hi: "0x80 \<le> unat b0"
  obtains
    b1 r1 where "r = b1 # r1" "0xC2 \<le> unat b0" "unat b0 < 0xE0" "cont_byte 0x80 0xBF b1"
      "utf8_decode_rune (b0 # r) = (unat b0 mod 32 * 64 + unat b1 mod 64, 2)"
  | b1 b2 r2 where "r = b1 # b2 # r2" "0xE0 \<le> unat b0" "unat b0 < 0xF0"
      "cont_byte (if unat b0 = 0xE0 then 0xA0 else 0x80) 0xBF b1" "cont_byte 0x80 0xBF b2"
      "utf8_decode_rune (b0 # r) = (unat b0 mod 16 * 4096 + unat b1 mod 64 * 64 + unat b2 mod 64, 3)"
  | b1 b2 b3 r3 where "r = b1 # b2 # b3 # r3" "0xF0 \<le> unat b0" "unat b0 \<le> 0xF4"
      "cont_byte (if unat b0 = 0xF0 then 0x90 else 0x80) 0xBF b1" "cont_byte 0x80 0xBF b2"
      "cont_byte 0x80 0xBF b3"
      "utf8_decode_rune (b0 # r) =
         (unat b0 mod 8 * 262144 + unat b1 mod 64 * 4096 + unat b2 mod 64 * 64 + unat b3 mod 64, 4)"
proof -
  let ?c = "unat b0"
  have "\<not> (?c < 0xC2 \<or> 0xF4 < ?c)"
  proof
    assume "?c < 0xC2 \<or> 0xF4 < ?c"
    then have "utf8_decode_rune (b0 # r) = (rune_error, 1)"
      using hi by (simp add: utf8_decode_rune_def)
    then show False using ok by (simp add: utf8_ok_def)
  qed
  then have c: "0xC2 \<le> ?c" "?c \<le> 0xF4" by simp_all
  obtain b1 r1 where r: "r = b1 # r1"
    using ok hi c by (cases r) (simp_all add: utf8_ok_def utf8_decode_rune_def)
  let ?lo = "if ?c = 0xE0 then 0xA0 else if ?c = 0xF0 then 0x90 else 0x80"
  let ?hi = "if ?c = 0xED then 0x9F else if ?c = 0xF4 then 0x8F else 0xBF"
  have b1: "cont_byte ?lo ?hi b1"
    using ok hi c by (rule_tac ccontr) (simp add: utf8_ok_def utf8_decode_rune_def r Let_def)
  then have b1': "cont_byte ?lo 0xBF b1" by (simp add: cont_byte_def split: if_splits)
  consider "?c < 0xE0" | "0xE0 \<le> ?c" "?c < 0xF0" | "0xF0 \<le> ?c" by linarith
  then show thesis
  proof cases
    case 1
    then show thesis using that(1) [of b1 r1] hi c b1 b1'
      by (simp add: utf8_decode_rune_def r Let_def)
  next
    case 2
    obtain b2 r2 where r2: "r1 = b2 # r2"
      using ok hi c b1 2 by (cases r1) (simp_all add: utf8_ok_def utf8_decode_rune_def r Let_def)
    have "cont_byte 0x80 0xBF b2"
      using ok hi c b1 2 by (rule_tac ccontr) (simp add: utf8_ok_def utf8_decode_rune_def r r2 Let_def)
    moreover have "cont_byte (if ?c = 0xE0 then 0xA0 else 0x80) 0xBF b1"
      using b1' 2 by (cases "?c = 0xE0") simp_all
    ultimately show thesis using that(2) [of b1 b2 r2] 2 hi c b1
      by (simp add: utf8_decode_rune_def r r2 Let_def)
  next
    case 3
    obtain b2 r2 where r2: "r1 = b2 # r2"
      using ok hi c b1 3 by (cases r1) (simp_all add: utf8_ok_def utf8_decode_rune_def r Let_def)
    have b2: "cont_byte 0x80 0xBF b2"
      using ok hi c b1 3 by (rule_tac ccontr) (simp add: utf8_ok_def utf8_decode_rune_def r r2 Let_def)
    obtain b3 r3 where r3: "r2 = b3 # r3"
      using ok hi c b1 b2 3 by (cases r2) (simp_all add: utf8_ok_def utf8_decode_rune_def r r2 Let_def)
    have "cont_byte 0x80 0xBF b3"
      using ok hi c b1 b2 3
      by (rule_tac ccontr) (simp add: utf8_ok_def utf8_decode_rune_def r r2 r3 Let_def)
    moreover have "cont_byte (if ?c = 0xF0 then 0x90 else 0x80) 0xBF b1"
      using b1' 3 by (cases "?c = 0xF0") simp_all
    ultimately show thesis using that(3) [of b1 b2 b3 r3] 3 hi c b1 b2
      by (simp add: utf8_decode_rune_def r r2 r3 Let_def)
  qed
qed

lemma utf8_multibyte:
  assumes "utf8_ok (b0 # r)" and hi: "0x80 \<le> unat b0"
  shows "0x80 \<le> fst (utf8_decode_rune (b0 # r))"
    and "b \<in> set (take (snd (utf8_decode_rune (b0 # r))) (b0 # r)) \<Longrightarrow> 0x80 \<le> unat b"
proof -
  show "0x80 \<le> fst (utf8_decode_rune (b0 # r))"
    using assms by (cases rule: utf8_multi_cases)
      (simp_all only: fst_conv cont_byte_def utf8_two utf8_three utf8_four)
  have cont: "0x80 \<le> unat x" if "cont_byte (if P then y else 0x80) 0xBF x" "0x80 \<le> y" for P x y
    using that by (cases P) (simp_all add: cont_byte_def)
  have cont': "0x80 \<le> unat x" if "cont_byte 0x80 0xBF x" for x
    using that by (simp add: cont_byte_def)
  show "b \<in> set (take (snd (utf8_decode_rune (b0 # r))) (b0 # r)) \<Longrightarrow> 0x80 \<le> unat b"
    using assms(1) hi
  proof (cases rule: utf8_multi_cases)
    case (1 b1 r1)
    assume "b \<in> set (take (snd (utf8_decode_rune (b0 # r))) (b0 # r))"
    then have "b \<in> {b0, b1}" unfolding 1(5) unfolding 1(1) by simp
    then show ?thesis using hi cont' [OF 1(4)] by blast
  next
    case (2 b1 b2 r2)
    assume "b \<in> set (take (snd (utf8_decode_rune (b0 # r))) (b0 # r))"
    then have "b \<in> {b0, b1, b2}" unfolding 2(6) unfolding 2(1) by simp
    then show ?thesis using hi cont [OF 2(4)] cont' [OF 2(5)] by auto
  next
    case (3 b1 b2 b3 r3)
    assume "b \<in> set (take (snd (utf8_decode_rune (b0 # r))) (b0 # r))"
    then have "b \<in> {b0, b1, b2, b3}" unfolding 3(7) unfolding 3(1) by simp
    then show ?thesis using hi cont [OF 3(4)] cont' [OF 3(5)] cont' [OF 3(6)] by auto
  qed
qed

lemma utf8_ascii: "s \<noteq> [] \<Longrightarrow> unat (hd s) < 0x80 \<Longrightarrow> utf8_decode_rune s = (unat (hd s), 1)"
  by (cases s) (simp_all add: utf8_decode_rune_def)

section \<open>What a label may hold\<close>

lemma list_all_runes_at:
  "list_all (\<lambda>(i, r, w). P r w) (runes_at i s) = list_all (\<lambda>(i, r, w). P r w) (runes_at j s)"
proof (induction "length s" arbitrary: s i j rule: less_induct)
  case less
  show ?case
  proof (cases "s = []")
    case False
    then have "length (drop (snd (utf8_decode_rune s)) s) < length s"
      using utf8_decode_width [of s] by simp
    from less [OF this, of "i + snd (utf8_decode_rune s)" "j + snd (utf8_decode_rune s)"]
    show ?thesis using False by (simp add: runes_at_rec split_beta)
  qed simp
qed

lemma find_None_list_all: "find P xs = None \<longleftrightarrow> list_all (\<lambda>x. \<not> P x) xs"
  by (auto simp: find_None_iff list_all_iff)

text \<open>A string all of whose runes are well formed and pass the control test.\<close>

definition clean_rune :: "nat \<Rightarrow> nat \<Rightarrow> bool" where
  "clean_rune r w \<longleftrightarrow> \<not> (r = rune_error \<and> w = 1) \<and> \<not> (r < 0x20 \<or> r = 0x7F)"

lemma validate_label_None:
  "validate_label s mx = None \<longleftrightarrow> length s \<le> mx \<and> list_all (\<lambda>(i, r, w). clean_rune r w) (runes_at 0 s)"
proof -
  have "list_all (\<lambda>(i, r, w). clean_rune r w) rs \<longleftrightarrow>
      list_all (\<lambda>(i, r, w). \<not> (r = rune_error \<and> w = 1)) rs \<and>
      find (\<lambda>(i, r, w). r < 0x20 \<or> r = 0x7F) rs = None" for rs
    unfolding find_None_list_all by (induction rs) (auto simp: clean_rune_def)
  from this [of "runes_at 0 s"] show ?thesis
    by (cases "find (\<lambda>(i, r, w). r < 0x20 \<or> r = 0x7F) (runes_at 0 s)")
      (auto simp: validate_label_def utf8_valid_string_def index_func_def)
qed

lemma clean_head:
  assumes "s \<noteq> []"
  shows "clean_rune (fst (utf8_decode_rune s)) (snd (utf8_decode_rune s)) \<longleftrightarrow>
     utf8_ok s \<and> (\<forall>b \<in> set (take (snd (utf8_decode_rune s)) s). \<not> control_byte b)"
proof -
  obtain b0 r where s: "s = b0 # r" using assms by (cases s) auto
  have cp: "clean_rune (fst (utf8_decode_rune s)) (snd (utf8_decode_rune s)) \<longleftrightarrow>
      utf8_ok s \<and> \<not> (fst (utf8_decode_rune s) < 0x20 \<or> fst (utf8_decode_rune s) = 0x7F)"
    by (auto simp: clean_rune_def utf8_ok_def prod_eq_iff)
  show ?thesis
  proof (cases "unat b0 < 0x80")
    case True
    then have "utf8_decode_rune s = (unat b0, 1)" using utf8_ascii [of s] s by simp
    then show ?thesis using cp s by (simp add: control_byte_unat)
  next
    case False
    then have "0x80 \<le> unat b0" by simp
    then have "utf8_ok s \<Longrightarrow> 0x80 \<le> fst (utf8_decode_rune s)"
      "utf8_ok s \<Longrightarrow> b \<in> set (take (snd (utf8_decode_rune s)) s) \<Longrightarrow> 0x80 \<le> unat b" for b
      using utf8_multibyte [of b0 r] s by blast+
    then show ?thesis using cp by (fastforce simp: control_byte_unat)
  qed
qed

lemma clean_runes:
  "list_all (\<lambda>(i, r, w). clean_rune r w) (runes_at i s) \<longleftrightarrow>
   utf8_valid_string s \<and> (\<forall>b \<in> set s. \<not> control_byte b)"
proof (induction "length s" arbitrary: s i rule: less_induct)
  case less
  show ?case
  proof (cases "s = []")
    case False
    let ?w = "snd (utf8_decode_rune s)"
    have "length (drop ?w s) < length s" using False utf8_decode_width [of s] by simp
    from less [OF this, of "i + ?w"]
    have "list_all (\<lambda>(i, r, w). clean_rune r w) (runes_at i s) \<longleftrightarrow>
        utf8_ok s \<and> (\<forall>b \<in> set (take ?w s). \<not> control_byte b) \<and>
        utf8_valid_string (drop ?w s) \<and> (\<forall>b \<in> set (drop ?w s). \<not> control_byte b)"
      using False clean_head [OF False] by (simp add: runes_at_rec split_beta)
    moreover have "utf8_valid_string s \<longleftrightarrow> utf8_ok s \<and> utf8_valid_string (drop ?w s)"
      using False list_all_runes_at [of "\<lambda>r w. \<not> (r = rune_error \<and> w = 1)" ?w "drop ?w s" 0]
      by (simp add: utf8_valid_string_def runes_at_rec utf8_ok_def prod_eq_iff split_beta)
    moreover have "set s = set (take ?w s) \<union> set (drop ?w s)"
      by (metis append_take_drop_id set_append)
    ultimately show ?thesis by blast
  qed (simp add: utf8_valid_string_def)
qed

lemma validate_label_ok_iff:
  "validate_label s mx = None \<longleftrightarrow>
     length s \<le> mx \<and> utf8_valid_string s \<and> (\<forall>b \<in> set s. \<not> control_byte b)"
  by (simp add: validate_label_None clean_runes)

lemma validate_label_Nil [simp]: "validate_label [] mx = None"
  by (simp add: validate_label_ok_iff utf8_valid_string_def)

text \<open>
  \<open>validateLabel\<close> decides exactly this: the text fits its limit, is valid UTF-8, and no
  byte of it is below \<open>0x20\<close> or equal to \<open>0x7F\<close>. In particular no ESC, newline or NUL byte
  reaches a terminal through an accepted label, also not inside a multi-byte sequence. The C1
  controls are outside the test: the one-character CSI, U+009B, is accepted.
\<close>

theorem validate_label_exact:
  "(validate_label s mx = None \<longleftrightarrow>
      length s \<le> mx \<and> utf8_valid_string s \<and> \<not> (\<exists>b. b \<in> set s \<and> control_byte b)) \<and>
   validate_label [0xC2, 0x9B] 32 = None"
proof
  show "validate_label s mx = None \<longleftrightarrow>
      length s \<le> mx \<and> utf8_valid_string s \<and> \<not> (\<exists>b. b \<in> set s \<and> control_byte b)"
    by (auto simp: validate_label_ok_iff)
  show "validate_label [0xC2, 0x9B] 32 = None"
    by (simp add: validate_label_def utf8_valid_string_def index_func_def runes_at_rec
        utf8_decode_rune_def cont_byte_def rune_error_def)
qed

lemma validate_label_length: "validate_label s mx = None \<Longrightarrow> length s \<le> mx"
  by (simp add: validate_label_ok_iff)

end
