(* ===== verification/RecordBodies.thy ===== *)
theory RecordBodies
  imports Labels VersionVector
begin

text \<open>
  The type-specific payloads of \<open>internal/record\<close>: NODE (\<open>node.go\<close>), SUCCESSION
  (\<open>succession.go\<close>), PROFILE (\<open>profile.go\<close>), FILE (\<open>file.go\<close>) and DOOR_EVENT
  (\<open>door_event.go\<close>), each with its encoder, its decoder, every check in the order the code
  makes it and the error it gives. The bodies are held to the \<open>checked_codec\<close> contract: what
  the encoder writes is read back, and what the decoder accepts is what the encoder writes.
  PROFILE meets it only for flags without reserved bits, which its encoder does not check.

  Strings are byte lists. BLAKE3 is an argument (\<open>blake3\<close>).
\<close>

section \<open>Errors and shared readers\<close>

datatype record_error =
    RTruncated string
  | RLabel string label_error
  | RKeyLen nat
  | RTrailing nat
  | REmpty string
  | RZero string
  | RKeyMismatch
  | RFileName
  | RTooMany nat
  | RBodyLen nat
  | RReservedFlags u8
  | RTargetNode
  | RPayloadLen nat
  | RReencode record_error
  | RNonCanonical
  | RVersion u8
  | RUnknownType u8
  | RUnknownFlags u8
  | RNoOrigin
  | RWrongOrigin
  | RBadVarint string
  | RNotCatalogEntry record_error
  | RNotEventBatch record_error
  | RNoSignedBytes
  | RBadSignature
  | RIdMismatch
  | RWrongType u8
  | RSelfSuccession
  | RInBody record_error

definition check_label :: "string \<Rightarrow> bytes \<Rightarrow> nat \<Rightarrow> record_error + unit" where
  "check_label what s mx = (case validate_label s mx of None \<Rightarrow> Inr () | Some e \<Rightarrow> Inl (RLabel what e))"

text \<open>The \<open>take\<close> closure of the FILE and DOOR_EVENT parsers: \<open>n\<close> bytes and what follows.\<close>

definition take_bytes :: "nat \<Rightarrow> string \<Rightarrow> bytes \<Rightarrow> record_error + bytes \<times> bytes" where
  "take_bytes n what rest =
     (if length rest < n then Inl (RTruncated what) else Inr (take n rest, drop n rest))"

text \<open>A one-byte length and that many bytes, as the FILE and DOOR_EVENT parsers read them.\<close>

definition take_prefixed :: "string \<Rightarrow> string \<Rightarrow> bytes \<Rightarrow> record_error + bytes \<times> bytes" where
  "take_prefixed lenwhat what rest =
     res_bind (take_bytes 1 lenwhat rest) (\<lambda>(l, rest1). take_bytes (unat (hd l)) what rest1)"

definition prefixed :: "bytes \<Rightarrow> bytes" where
  "prefixed s = of_nat (length s) # s"

section \<open>NODE\<close>

definition PublicKeySize :: nat where "PublicKeySize = 32"
definition MaxDisplayNameLen :: nat where "MaxDisplayNameLen = 32"
definition MaxSysopContactLen :: nat where "MaxSysopContactLen = 64"

definition node_id_from_public_key :: "(bytes \<Rightarrow> bytes) \<Rightarrow> bytes \<Rightarrow> node_id" where
  "node_id_from_public_key blake3 pub = copy_array (take 8 (blake3 pub))"

definition node_id_matches :: "(bytes \<Rightarrow> bytes) \<Rightarrow> node_id \<Rightarrow> bytes \<Rightarrow> bool" where
  "node_id_matches blake3 nid pub \<longleftrightarrow> nid = node_id_from_public_key blake3 pub"

record node_body =
  nb_public_key :: bytes
  nb_display_name :: bytes
  nb_sysop_contact :: bytes
  nb_incarnation :: u32

definition marshal_node_body :: "node_body \<Rightarrow> record_error + bytes" where
  "marshal_node_body n =
     res_bind (guard_res (length (nb_public_key n) = PublicKeySize) (RKeyLen (length (nb_public_key n)))) (\<lambda>_.
     res_bind (check_label ''display name'' (nb_display_name n) MaxDisplayNameLen) (\<lambda>_.
     res_bind (check_label ''sysop contact'' (nb_sysop_contact n) MaxSysopContactLen) (\<lambda>_.
     Inr (nb_public_key n @ put_u32 (nb_incarnation n) @
          of_nat (length (nb_display_name n)) # nb_display_name n @
          of_nat (length (nb_sysop_contact n)) # nb_sysop_contact n))))"

text \<open>The \<open>readStr\<close> closure of \<open>UnmarshalNodeBody\<close>, on what is left from \<open>p\<close>.\<close>

definition read_str :: "string \<Rightarrow> nat \<Rightarrow> bytes \<Rightarrow> record_error + bytes \<times> bytes" where
  "read_str what mx b =
     (case b of
        [] \<Rightarrow> Inl (RTruncated what)
      | l # r \<Rightarrow>
          if unat l > length r then Inl (RTruncated what)
          else res_bind (check_label what (take (unat l) r) mx) (\<lambda>_. Inr (take (unat l) r, drop (unat l) r)))"

definition unmarshal_node_body :: "bytes \<Rightarrow> record_error + node_body" where
  "unmarshal_node_body b =
     (if length b < PublicKeySize + 4 + 2 then Inl (RTruncated ''NODE'')
      else
        res_bind (read_str ''display name'' MaxDisplayNameLen (drop (PublicKeySize + 4) b)) (\<lambda>(name, r1).
        res_bind (read_str ''sysop contact'' MaxSysopContactLen r1) (\<lambda>(contact, r2).
        if r2 \<noteq> [] then Inl (RTrailing (length r2))
        else Inr \<lparr>nb_public_key = take PublicKeySize b, nb_display_name = name, nb_sysop_contact = contact,
                  nb_incarnation = get_u32 (drop PublicKeySize b)\<rparr>)))"

section \<open>SUCCESSION\<close>

definition SuccessionBodyLen :: nat where "SuccessionBodyLen = 8 + PublicKeySize + 4"

record succession_body =
  sb_successor :: node_id
  sb_new_public_key :: bytes
  sb_effective :: u32

definition marshal_succession_body :: "(bytes \<Rightarrow> bytes) \<Rightarrow> succession_body \<Rightarrow> record_error + bytes" where
  "marshal_succession_body blake3 s =
     (if length (sb_new_public_key s) \<noteq> PublicKeySize then Inl (RKeyLen (length (sb_new_public_key s)))
      else if node_id_from_public_key blake3 (sb_new_public_key s) \<noteq> sb_successor s then Inl RKeyMismatch
      else if sb_successor s = zero_array then Inl (RZero ''successor'')
      else Inr (array_bytes (sb_successor s) @ sb_new_public_key s @ put_u32 (sb_effective s)))"

definition unmarshal_succession_body :: "(bytes \<Rightarrow> bytes) \<Rightarrow> bytes \<Rightarrow> record_error + succession_body" where
  "unmarshal_succession_body blake3 b =
     (if length b \<noteq> SuccessionBodyLen then Inl (RTruncated ''SUCCESSION'')
      else let s = \<lparr>sb_successor = copy_array (take 8 b), sb_new_public_key = take PublicKeySize (drop 8 b),
                    sb_effective = get_u32 (drop (8 + PublicKeySize) b)\<rparr>
        in if sb_successor s = zero_array then Inl (RZero ''successor'')
           else if node_id_from_public_key blake3 (sb_new_public_key s) \<noteq> sb_successor s then Inl RKeyMismatch
           else Inr s)"

section \<open>PROFILE\<close>

definition MaxNickLen :: nat where "MaxNickLen = 24"
definition X25519KeyLen :: nat where "X25519KeyLen = 32"
definition FlagUnlisted :: u8 where "FlagUnlisted = 1"

record profile_body =
  pb_nick :: bytes
  pb_dm_key :: "32 barray"
  pb_flags :: u8

definition profile_body_len :: "bytes \<Rightarrow> nat" where
  "profile_body_len nick = 1 + length nick + X25519KeyLen + 1"

definition marshal_profile_body :: "profile_body \<Rightarrow> record_error + bytes" where
  "marshal_profile_body p =
     (if pb_nick p = [] then Inl (REmpty ''nick'')
      else res_bind (check_label ''nick'' (pb_nick p) MaxNickLen) (\<lambda>_.
        if pb_dm_key p = zero_array then Inl (RZero ''DM key'')
        else Inr (of_nat (length (pb_nick p)) # pb_nick p @ array_bytes (pb_dm_key p) @ [pb_flags p])))"

definition unmarshal_profile_body :: "bytes \<Rightarrow> record_error + profile_body" where
  "unmarshal_profile_body b =
     (if length b < 1 then Inl (RTruncated ''PROFILE'')
      else let n = unat (hd b)
        in if n = 0 then Inl (REmpty ''nick'')
           else if length b \<noteq> 1 + n + X25519KeyLen + 1 then Inl (RTruncated ''PROFILE'')
           else let nick = take n (drop 1 b); key = copy_array (take X25519KeyLen (drop (1 + n) b)); flags = last b
             in res_bind (check_label ''nick'' nick MaxNickLen) (\<lambda>_.
                  if key = zero_array then Inl (RZero ''DM key'')
                  else if flags AND NOT FlagUnlisted \<noteq> 0 then Inl (RReservedFlags flags)
                  else Inr \<lparr>pb_nick = nick, pb_dm_key = key, pb_flags = flags\<rparr>))"

definition profile_unlisted :: "profile_body \<Rightarrow> bool" where
  "profile_unlisted p \<longleftrightarrow> pb_flags p AND FlagUnlisted \<noteq> 0"

definition profile_size :: "bytes \<Rightarrow> nat" where
  "profile_size nick = 64 + 8 + 8 + 4 + 1 + 4 + profile_body_len nick"

section \<open>FILE\<close>

definition MaxFileNameLen :: nat where "MaxFileNameLen = 64"
definition MaxFileDescLen :: nat where "MaxFileDescLen = 80"
definition MaxFileTags :: nat where "MaxFileTags = 3"
definition MaxFileTagLen :: nat where "MaxFileTagLen = 12"
definition FileHashLen :: nat where "FileHashLen = 16"

record file_body =
  fb_name :: bytes
  fb_size :: u64
  fb_hash :: "16 barray"
  fb_description :: bytes
  fb_tags :: "bytes list"

definition validate_file_description :: "bytes \<Rightarrow> record_error + unit" where
  "validate_file_description s = check_label ''file description'' s MaxFileDescLen"

function uvarint_len :: "u64 \<Rightarrow> nat" where
  "uvarint_len v = (if v \<ge> 0x80 then Suc (uvarint_len (drop_bit 7 v)) else 1)"
  by pat_completeness auto
termination
proof (relation "measure unat")
  fix v :: u64
  assume "v \<ge> 0x80"
  then have "0x80 \<le> unat v" by (simp add: word_le_nat_alt)
  then show "(drop_bit 7 v, v) \<in> measure unat" by (simp add: unat_shift7)
qed simp

declare uvarint_len.simps [simp del]

definition file_body_len :: "file_body \<Rightarrow> nat" where
  "file_body_len f =
     1 + length (fb_name f) + uvarint_len (fb_size f) + FileHashLen + 1 + length (fb_description f) + 1 +
     (\<Sum>t\<leftarrow>fb_tags f. 1 + length t)"

text \<open>
  The rules on a name that the encoder and the decoder both apply, and the loop over the tags
  with the encoder's two checks per tag.
\<close>

definition check_file_name :: "bytes \<Rightarrow> record_error + unit" where
  "check_file_name name =
     res_bind (check_label ''file name'' name MaxFileNameLen) (\<lambda>_.
     if contains_rune 0x2F name \<or> contains_rune 0x5C name then Inl RFileName
     else if name = [0x2E] \<or> name = [0x2E, 0x2E] then Inl RFileName
     else Inr ())"

fun check_file_tags :: "bytes list \<Rightarrow> record_error + unit" where
  "check_file_tags [] = Inr ()"
| "check_file_tags (t # ts) =
     (if t = [] then Inl (REmpty ''file tag'')
      else res_bind (check_label ''file tag'' t MaxFileTagLen) (\<lambda>_. check_file_tags ts))"

definition file_body_bytes :: "file_body \<Rightarrow> bytes" where
  "file_body_bytes f =
     prefixed (fb_name f) @ append_uvarint (fb_size f) @ array_bytes (fb_hash f) @
     prefixed (fb_description f) @ of_nat (length (fb_tags f)) # concat (map prefixed (fb_tags f))"

definition marshal_file_body :: "file_body \<Rightarrow> record_error + bytes" where
  "marshal_file_body f =
     (if fb_name f = [] then Inl (REmpty ''file name'')
      else
        res_bind (check_file_name (fb_name f)) (\<lambda>_.
        res_bind (validate_file_description (fb_description f)) (\<lambda>_.
        if fb_hash f = zero_array then Inl (RZero ''file hash'')
        else if length (fb_tags f) > MaxFileTags then Inl (RTooMany (length (fb_tags f)))
        else res_bind (check_file_tags (fb_tags f)) (\<lambda>_. Inr (file_body_bytes f)))))"

fun take_tags :: "nat \<Rightarrow> bytes \<Rightarrow> record_error + bytes list \<times> bytes" where
  "take_tags 0 rest = Inr ([], rest)"
| "take_tags (Suc n) rest =
     res_bind (take_bytes 1 ''a tag length'' rest) (\<lambda>(l, r1).
     if hd l = 0 then Inl (REmpty ''file tag'')
     else res_bind (take_bytes (unat (hd l)) ''a tag'' r1) (\<lambda>(t, r2).
          res_bind (take_tags n r2) (\<lambda>(ts, r3). Inr (t # ts, r3))))"

fun check_tag_labels :: "bytes list \<Rightarrow> record_error + unit" where
  "check_tag_labels [] = Inr ()"
| "check_tag_labels (t # ts) = res_bind (check_label ''file tag'' t MaxFileTagLen) (\<lambda>_. check_tag_labels ts)"

text \<open>The parse alone, up to the trailing-bytes check, then the checks and the re-encoding.\<close>

definition parse_file_body :: "bytes \<Rightarrow> record_error + file_body" where
  "parse_file_body b =
     res_bind (take_bytes 1 ''the name length'' b) (\<lambda>(nl, r0).
     if hd nl = 0 then Inl (REmpty ''file name'')
     else res_bind (take_bytes (unat (hd nl)) ''the name'' r0) (\<lambda>(name, r1).
       let (size, n) = uvarint r1
       in if n \<le> 0 then Inl (RBadVarint ''size'')
          else res_bind (take_bytes FileHashLen ''the hash'' (drop (nat n) r1)) (\<lambda>(hash, r2).
            res_bind (take_prefixed ''the description length'' ''the description'' r2) (\<lambda>(desc, r3).
            res_bind (take_bytes 1 ''the tag count'' r3) (\<lambda>(cnt, r4).
            if unat (hd cnt) > MaxFileTags then Inl (RTooMany (unat (hd cnt)))
            else res_bind (take_tags (unat (hd cnt)) r4) (\<lambda>(tags, r5).
              if r5 \<noteq> [] then Inl (RTrailing (length r5))
              else Inr \<lparr>fb_name = name, fb_size = size, fb_hash = copy_array hash,
                        fb_description = desc, fb_tags = tags\<rparr>))))))"

definition unmarshal_file_body :: "bytes \<Rightarrow> record_error + file_body" where
  "unmarshal_file_body b =
     res_bind (parse_file_body b) (\<lambda>f.
     res_bind (check_file_name (fb_name f)) (\<lambda>_.
     res_bind (validate_file_description (fb_description f)) (\<lambda>_.
     if fb_hash f = zero_array then Inl (RZero ''file hash'')
     else res_bind (check_tag_labels (fb_tags f)) (\<lambda>_.
       (case marshal_file_body f of
          Inl e \<Rightarrow> Inl (RReencode e)
        | Inr re \<Rightarrow> if re \<noteq> b then Inl RNonCanonical else Inr f)))))"

definition truncate_file_hash :: "bytes \<Rightarrow> record_error + 16 barray" where
  "truncate_file_hash full =
     (if length full < FileHashLen then Inl (RKeyLen (length full)) else Inr (copy_array (take FileHashLen full)))"

definition file_size :: "file_body \<Rightarrow> nat" where
  "file_size f = 64 + 8 + 8 + 4 + 1 + 4 + file_body_len f"

section \<open>Lemmas on the readers\<close>

lemmas body_consts = PublicKeySize_def MaxDisplayNameLen_def MaxSysopContactLen_def SuccessionBodyLen_def
  MaxNickLen_def X25519KeyLen_def FlagUnlisted_def MaxFileNameLen_def MaxFileDescLen_def MaxFileTags_def
  MaxFileTagLen_def FileHashLen_def

lemma check_label_ok [simp]: "check_label what s mx = Inr u \<longleftrightarrow> validate_label s mx = None"
  by (simp add: check_label_def split: option.splits)

lemma check_label_ok' [simp]: "validate_label s mx = None \<Longrightarrow> check_label what s mx = Inr ()"
  by simp

lemma unat_of_nat_byte: "n < 256 \<Longrightarrow> unat (of_nat n :: u8) = n"
  by (simp add: unat_of_nat)

lemma take_bytes_eq:
  "take_bytes n what r = Inr (x, y) \<longleftrightarrow> n \<le> length r \<and> x = take n r \<and> y = drop n r"
  by (auto simp: take_bytes_def)

lemma take_bytes_append [simp]: "length x = n \<Longrightarrow> take_bytes n what (x @ y) = Inr (x, y)"
  by (simp add: take_bytes_def)

lemma take_bytes_one [simp]: "take_bytes 1 what (x # y) = Inr ([x], y)"
  "take_bytes (Suc 0) what (x # y) = Inr ([x], y)"
  by (simp_all add: take_bytes_def)

lemma take_prefixed_append [simp]:
  "length s < 256 \<Longrightarrow> take_prefixed lw w (prefixed s @ r) = Inr (s, r)"
  by (simp add: take_prefixed_def prefixed_def unat_of_nat_byte)

lemma length_prefixed [simp]: "length (prefixed s) = Suc (length s)"
  by (simp add: prefixed_def)

lemma read_str_append:
  "validate_label s mx = None \<Longrightarrow> mx < 256 \<Longrightarrow> read_str what mx (of_nat (length s) # s @ r) = Inr (s, r)"
  using validate_label_length [of s mx] by (simp add: read_str_def unat_of_nat_byte)

lemma read_str_eq:
  "read_str what mx b = Inr (s, r) \<longleftrightarrow>
     validate_label s mx = None \<and> length s < 256 \<and> b = of_nat (length s) # s @ r"
proof
  assume ok: "read_str what mx b = Inr (s, r)"
  then obtain l t where b: "b = l # t" and l: "unat l \<le> length t"
    and s: "s = take (unat l) t" "r = drop (unat l) t" and v: "validate_label s mx = None"
    by (auto simp: read_str_def not_less split: list.splits if_splits)
  have "length s = unat l" using s l by simp
  moreover have "unat l < 256" using unsigned_less [of l] by simp
  ultimately show "validate_label s mx = None \<and> length s < 256 \<and> b = of_nat (length s) # s @ r"
    using b s v by simp
next
  assume "validate_label s mx = None \<and> length s < 256 \<and> b = of_nat (length s) # s @ r"
  then show "read_str what mx b = Inr (s, r)" by (simp add: read_str_def unat_of_nat_byte)
qed

lemma uvarint_len: "uvarint_len v = length (append_uvarint v)"
proof (induction v rule: uvarint_len.induct)
  case (1 v)
  show ?case
  proof (cases "v \<ge> 0x80")
    case True
    then show ?thesis using 1 by (subst uvarint_len.simps) (simp add: append_uvarint_big)
  next
    case False
    then have "uvarint_len v = 1" by (subst uvarint_len.simps) (simp only: if_False)
    then show ?thesis using False by (simp add: append_uvarint_small not_le)
  qed
qed

section \<open>NODE and SUCCESSION bodies are checked codecs\<close>

lemma marshal_node_ok:
  "marshal_node_body n = Inr b \<longleftrightarrow>
     length (nb_public_key n) = 32 \<and> validate_label (nb_display_name n) 32 = None \<and>
     validate_label (nb_sysop_contact n) 64 = None \<and>
     b = nb_public_key n @ put_u32 (nb_incarnation n) @ of_nat (length (nb_display_name n)) # nb_display_name n @
       of_nat (length (nb_sysop_contact n)) # nb_sysop_contact n"
  by (auto simp: marshal_node_body_def body_consts)

interpretation nbc: checked_codec marshal_node_body unmarshal_node_body
proof
  fix n b
  assume "marshal_node_body n = Inr b"
  then have key: "length (nb_public_key n) = 32"
    and l: "validate_label (nb_display_name n) 32 = None" "validate_label (nb_sysop_contact n) 64 = None"
    and b: "b = nb_public_key n @ put_u32 (nb_incarnation n) @ of_nat (length (nb_display_name n)) # nb_display_name n @
       of_nat (length (nb_sysop_contact n)) # nb_sysop_contact n @ []"
    by (simp_all add: marshal_node_ok)
  have d: "drop 36 b = of_nat (length (nb_display_name n)) # nb_display_name n @
       of_nat (length (nb_sysop_contact n)) # nb_sysop_contact n @ []"
    and g: "get_u32 (drop 32 b) = nb_incarnation n" and t: "take 32 b = nb_public_key n"
    and len: "\<not> length b < 38"
    using key by (simp_all add: b)
  have "unmarshal_node_body b = Inr \<lparr>nb_public_key = nb_public_key n, nb_display_name = nb_display_name n,
      nb_sysop_contact = nb_sysop_contact n, nb_incarnation = nb_incarnation n\<rparr>"
    unfolding unmarshal_node_body_def body_consts
    using len by (simp add: d g t read_str_append [OF l(1)] read_str_append [OF l(2), of _ "[]", simplified])
  then show "unmarshal_node_body b = Inr n" by simp
next
  fix b n
  assume "unmarshal_node_body b = Inr n"
  then obtain name contact r1 where len: "38 \<le> length b"
    and r: "read_str ''display name'' 32 (drop 36 b) = Inr (name, r1)"
      "read_str ''sysop contact'' 64 r1 = Inr (contact, [])"
    and n: "n = \<lparr>nb_public_key = take 32 b, nb_display_name = name, nb_sysop_contact = contact,
                  nb_incarnation = get_u32 (drop 32 b)\<rparr>"
    by (auto simp: unmarshal_node_body_def body_consts split: if_splits prod.splits)
  have "drop 32 b = put_u32 (get_u32 (drop 32 b)) @ drop 36 b"
  proof -
    have "get_u32 (drop 32 b) = get_u32 (take 4 (drop 32 b))"
      using len by (auto simp: numeral_eq_Suc take_Suc_conv_app_nth Cons_nth_drop_Suc [symmetric])
    moreover have "put_u32 (get_u32 (take 4 (drop 32 b))) = take 4 (drop 32 b)"
      using len by (intro put_get_u32) simp
    moreover have "drop 32 b = take 4 (drop 32 b) @ drop 36 b"
      using append_take_drop_id [of 4 "drop 32 b"] by simp
    ultimately show ?thesis by metis
  qed
  then have "b = take 32 b @ put_u32 (get_u32 (drop 32 b)) @ drop 36 b"
    by (metis append_take_drop_id)
  then show "marshal_node_body n = Inr b"
    using r len by (simp add: marshal_node_ok n read_str_eq)
qed

lemma get_put_u32' [simp]: "get_u32 (put_u32 x) = x"
  using get_put_u32 [of x "[]"] by simp

interpretation sbc: checked_codec "marshal_succession_body blake3" "unmarshal_succession_body blake3" for blake3
proof
  fix s b
  assume "marshal_succession_body blake3 s = Inr b"
  then have "length (sb_new_public_key s) = 32" "node_id_from_public_key blake3 (sb_new_public_key s) = sb_successor s"
    "sb_successor s \<noteq> zero_array" "b = array_bytes (sb_successor s) @ sb_new_public_key s @ put_u32 (sb_effective s)"
    by (simp_all add: marshal_succession_body_def body_consts split: if_splits)
  then show "unmarshal_succession_body blake3 b = Inr s"
    by (simp add: unmarshal_succession_body_def body_consts Let_def)
next
  fix b s
  assume "unmarshal_succession_body blake3 b = Inr s"
  then have len: "length b = 44"
    and s: "s = \<lparr>sb_successor = copy_array (take 8 b), sb_new_public_key = take 32 (drop 8 b),
                    sb_effective = get_u32 (drop 40 b)\<rparr>"
    and ok: "sb_successor s \<noteq> zero_array" "node_id_from_public_key blake3 (sb_new_public_key s) = sb_successor s"
    by (auto simp: unmarshal_succession_body_def body_consts Let_def split: if_splits)
  have "b = take 8 b @ take 32 (drop 8 b) @ drop 40 b"
    using append_take_drop_id [of 8 b] append_take_drop_id [of 32 "drop 8 b"] by simp
  moreover have "put_u32 (get_u32 (drop 40 b)) = drop 40 b" using len by (intro put_get_u32) simp
  ultimately have "b = array_bytes (sb_successor s) @ sb_new_public_key s @ put_u32 (sb_effective s)"
    using len by (simp add: s)
  then show "marshal_succession_body blake3 s = Inr b"
    using ok len by (simp add: marshal_succession_body_def body_consts s)
qed

section \<open>PROFILE bodies\<close>

text \<open>The encoder with the reserved-bits test that only the decoder makes.\<close>

definition marshal_profile_strict :: "profile_body \<Rightarrow> record_error + bytes" where
  "marshal_profile_strict p =
     res_bind (guard_res (pb_flags p AND NOT FlagUnlisted = 0) (RReservedFlags (pb_flags p)))
       (\<lambda>_. marshal_profile_body p)"

lemma marshal_profile_ok:
  "marshal_profile_body p = Inr b \<longleftrightarrow>
     pb_nick p \<noteq> [] \<and> validate_label (pb_nick p) 24 = None \<and> pb_dm_key p \<noteq> zero_array \<and>
     b = of_nat (length (pb_nick p)) # pb_nick p @ array_bytes (pb_dm_key p) @ [pb_flags p]"
  by (auto simp: marshal_profile_body_def body_consts)

lemma unmarshal_profile_written:
  assumes "marshal_profile_body p = Inr b"
  shows "unmarshal_profile_body b =
     (if pb_flags p AND NOT FlagUnlisted \<noteq> 0 then Inl (RReservedFlags (pb_flags p)) else Inr p)"
proof -
  have ok: "pb_nick p \<noteq> []" "validate_label (pb_nick p) 24 = None" "pb_dm_key p \<noteq> zero_array"
    and b: "b = of_nat (length (pb_nick p)) # pb_nick p @ array_bytes (pb_dm_key p) @ [pb_flags p]"
    using assms by (simp_all add: marshal_profile_ok)
  have n: "unat (of_nat (length (pb_nick p)) :: u8) = length (pb_nick p)"
    using validate_label_length [OF ok(2)] by (intro unat_of_nat_byte) simp
  have "\<lparr>pb_nick = pb_nick p, pb_dm_key = pb_dm_key p, pb_flags = pb_flags p\<rparr> = p" by simp
  then show ?thesis
    using ok by (simp add: unmarshal_profile_body_def body_consts b n Let_def)
qed

interpretation pbc: checked_codec marshal_profile_strict unmarshal_profile_body
proof
  fix p b
  assume "marshal_profile_strict p = Inr b"
  then show "unmarshal_profile_body b = Inr p"
    using unmarshal_profile_written [of p b] by (auto simp: marshal_profile_strict_def)
next
  fix b p
  assume ok: "unmarshal_profile_body b = Inr p"
  define n where "n = unat (hd b)"
  have len: "length b = 34 + n" and n0: "n \<noteq> 0"
    and p: "p = \<lparr>pb_nick = take n (drop 1 b), pb_dm_key = copy_array (take 32 (drop (1 + n) b)), pb_flags = last b\<rparr>"
    and v: "validate_label (pb_nick p) 24 = None" "pb_dm_key p \<noteq> zero_array" "pb_flags p AND NOT FlagUnlisted = 0"
    using ok unfolding unmarshal_profile_body_def n_def [symmetric]
    by (auto simp: Let_def X25519KeyLen_def MaxNickLen_def split: if_splits)
  have "b \<noteq> []" using len by auto
  then have "b = hd b # drop 1 b" by (cases b) simp_all
  moreover have "drop 1 b = take n (drop 1 b) @ drop (1 + n) b"
    using append_take_drop_id [of n "drop 1 b"] by simp
  moreover have "drop (1 + n) b = take 32 (drop (1 + n) b) @ drop (33 + n) b"
    using append_take_drop_id [of 32 "drop (1 + n) b"] by (simp add: algebra_simps)
  moreover have "drop (33 + n) b = [last b]"
    using len \<open>b \<noteq> []\<close> Cons_nth_drop_Suc [of "33 + n" b] by (simp add: last_conv_nth)
  moreover have "hd b = of_nat (length (pb_nick p))" using len by (simp add: p n_def)
  ultimately have "b = of_nat (length (pb_nick p)) # pb_nick p @ array_bytes (pb_dm_key p) @ [pb_flags p]"
    using len by (simp add: p)
  moreover have "pb_nick p \<noteq> []" using n0 len by (auto simp: p)
  ultimately show "marshal_profile_strict p = Inr b"
    using v by (simp add: marshal_profile_strict_def marshal_profile_ok)
qed

section \<open>FILE bodies\<close>

lemma check_file_tags_ok [simp]:
  "check_file_tags ts = Inr u \<longleftrightarrow> (\<forall>t \<in> set ts. t \<noteq> [] \<and> validate_label t MaxFileTagLen = None)"
  by (induction ts) auto

lemma check_tag_labels_ok [simp]:
  "check_tag_labels ts = Inr u \<longleftrightarrow> (\<forall>t \<in> set ts. validate_label t MaxFileTagLen = None)"
  by (induction ts) auto

definition file_body_ok :: "file_body \<Rightarrow> bool" where
  "file_body_ok f \<longleftrightarrow>
     fb_name f \<noteq> [] \<and> check_file_name (fb_name f) = Inr () \<and>
     validate_label (fb_description f) MaxFileDescLen = None \<and> fb_hash f \<noteq> zero_array \<and>
     length (fb_tags f) \<le> MaxFileTags \<and> (\<forall>t \<in> set (fb_tags f). t \<noteq> [] \<and> validate_label t MaxFileTagLen = None)"

lemma check_file_name_length: "check_file_name name = Inr () \<Longrightarrow> length name \<le> 64"
  using validate_label_length [of name 64] by (auto simp: check_file_name_def MaxFileNameLen_def)

lemma file_body_lengths:
  assumes "file_body_ok f"
  shows "length (fb_name f) \<le> 64" "length (fb_description f) \<le> 80" "length (fb_tags f) \<le> 3"
    "\<forall>t \<in> set (fb_tags f). length t \<le> 12"
  using assms check_file_name_length [of "fb_name f"] validate_label_length [of "fb_description f" 80]
    validate_label_length [of _ 12]
  by (simp_all add: file_body_ok_def body_consts)

lemma marshal_file_ok: "marshal_file_body f = Inr b \<longleftrightarrow> file_body_ok f \<and> b = file_body_bytes f"
  by (auto simp: marshal_file_body_def file_body_ok_def validate_file_description_def split: if_splits)

lemma take_tags_prefixed:
  "(\<forall>t \<in> set ts. t \<noteq> [] \<and> length t < 256) \<Longrightarrow>
   take_tags (length ts) (concat (map prefixed ts) @ r) = Inr (ts, r)"
proof (induction ts)
  case (Cons t ts)
  then have n: "unat (of_nat (length t) :: u8) = length t" by (intro unat_of_nat_byte) simp
  moreover have "(of_nat (length t) :: u8) \<noteq> 0" using n Cons.prems by (metis length_0_conv list.set_intros(1) unat_0)
  ultimately show ?case using Cons by (simp add: prefixed_def)
qed simp

lemma parse_file_written: "file_body_ok f \<Longrightarrow> parse_file_body (file_body_bytes f) = Inr f"
proof -
  assume ok: "file_body_ok f"
  have len: "length (fb_name f) < 256" "length (fb_description f) < 256" "length (fb_tags f) \<le> 3"
    and tags: "\<forall>t \<in> set (fb_tags f). t \<noteq> [] \<and> length t < 256"
    using ok file_body_lengths [OF ok] by (auto simp: file_body_ok_def)
  have n: "unat (of_nat (length (fb_name f)) :: u8) = length (fb_name f)" using len(1) by (rule unat_of_nat_byte)
  then have n0: "(of_nat (length (fb_name f)) :: u8) \<noteq> 0"
    using ok by (metis file_body_ok_def length_0_conv unat_0)
  have c: "unat (of_nat (length (fb_tags f)) :: u8) = length (fb_tags f)"
    using len(3) by (intro unat_of_nat_byte) simp
  have "take_tags (length (fb_tags f)) (concat (map prefixed (fb_tags f)) @ []) = Inr (fb_tags f, [])"
    using tags by (rule take_tags_prefixed)
  moreover have "\<lparr>fb_name = fb_name f, fb_size = fb_size f, fb_hash = fb_hash f,
      fb_description = fb_description f, fb_tags = fb_tags f\<rparr> = f" by simp
  ultimately show ?thesis
    using len n0
    by (simp add: parse_file_body_def file_body_bytes_def prefixed_def [of "fb_name f"] n c body_consts not_le)
qed

interpretation fbc: checked_codec marshal_file_body unmarshal_file_body
proof
  fix f b
  assume "marshal_file_body f = Inr b"
  then have ok: "file_body_ok f" and b: "b = file_body_bytes f" by (simp_all add: marshal_file_ok)
  then have "marshal_file_body f = Inr b" by (simp add: marshal_file_ok)
  then show "unmarshal_file_body b = Inr f"
    using ok parse_file_written [OF ok]
    by (simp add: unmarshal_file_body_def b) (auto simp: file_body_ok_def validate_file_description_def)
next
  fix b f
  assume "unmarshal_file_body b = Inr f"
  then show "marshal_file_body f = Inr b"
    by (auto simp: unmarshal_file_body_def split: if_splits sum.splits)
qed

lemma file_body_len: "length (file_body_bytes f) = file_body_len f"
proof -
  have "length (concat (map prefixed ts)) = (\<Sum>t\<leftarrow>ts. 1 + length t)" for ts
    by (induction ts) simp_all
  then show ?thesis by (simp add: file_body_bytes_def file_body_len_def uvarint_len FileHashLen_def)
qed

lemma sum_list_bound: "(\<And>x. x \<in> set xs \<Longrightarrow> f x \<le> k) \<Longrightarrow> (\<Sum>x\<leftarrow>xs. f x) \<le> k * (length xs :: nat)"
  by (induction xs) (auto intro: add_mono)

lemma file_body_bound: "file_body_ok f \<Longrightarrow> file_body_len f \<le> 212"
proof -
  assume ok: "file_body_ok f"
  have "(\<Sum>t\<leftarrow>fb_tags f. 1 + length t) \<le> 13 * length (fb_tags f)"
    using file_body_lengths(4) [OF ok] by (intro sum_list_bound) simp
  moreover note file_body_lengths(1-3) [OF ok]
  moreover have "uvarint_len (fb_size f) \<le> 10" using append_uvarint_max by (simp add: uvarint_len)
  ultimately show ?thesis by (simp add: file_body_len_def FileHashLen_def)
qed

end
