(* ===== verification/DoorEvents.thy ===== *)
theory DoorEvents
  imports RecordBodies
begin

text \<open>
  The DOOR_EVENT payload of \<open>internal/record/door_event.go\<close>: a game name and up to eight
  events, with the validation the encoder and the decoder share. Shown: the body is a checked
  codec, \<open>DoorEventBodyLen\<close> is the encoded length, and the field limits keep every body within
  882 bytes, so the whole-body ceiling never fires.
\<close>

definition MaxDoorGameLen :: nat where "MaxDoorGameLen = 16"
definition MaxDoorEventsPerRecord :: nat where "MaxDoorEventsPerRecord = 8"
definition MaxDoorEventPayloadLen :: nat where "MaxDoorEventPayloadLen = 48"
definition MaxDoorEventBodyLen :: nat where "MaxDoorEventBodyLen = 1024"

lemmas door_consts = MaxDoorGameLen_def MaxDoorEventsPerRecord_def MaxDoorEventPayloadLen_def
  MaxDoorEventBodyLen_def MaxNickLen_def

record door_event =
  de_kind :: u8
  de_actor :: bytes
  de_target :: bytes
  de_target_node :: node_id
  de_payload :: bytes

record door_event_body =
  db_game :: bytes
  db_events :: "door_event list"

definition door_event_len :: "door_event \<Rightarrow> nat" where
  "door_event_len e =
     4 + length (de_actor e) + length (de_payload e) +
     (if de_target e \<noteq> [] then length (de_target e) + 8 else 0)"

definition door_event_body_len :: "door_event_body \<Rightarrow> nat" where
  "door_event_body_len d = 1 + length (db_game d) + 1 + (\<Sum>e\<leftarrow>db_events d. door_event_len e)"

definition validate_door_event :: "door_event \<Rightarrow> record_error + unit" where
  "validate_door_event e =
     (if de_actor e = [] then Inl (REmpty ''actor'')
      else
        res_bind (check_label ''door event actor'' (de_actor e) MaxNickLen) (\<lambda>_.
        res_bind
          (if de_target e = [] then
             (if de_target_node e \<noteq> zero_array then Inl RTargetNode else Inr ())
           else
             res_bind (check_label ''door event target'' (de_target e) MaxNickLen) (\<lambda>_.
             if de_target_node e = zero_array then Inl RTargetNode else Inr ())) (\<lambda>_.
        if length (de_payload e) > MaxDoorEventPayloadLen then Inl (RPayloadLen (length (de_payload e)))
        else Inr ())))"

fun validate_door_events :: "door_event list \<Rightarrow> record_error + unit" where
  "validate_door_events [] = Inr ()"
| "validate_door_events (e # es) = res_bind (validate_door_event e) (\<lambda>_. validate_door_events es)"

definition validate_door_event_body :: "door_event_body \<Rightarrow> record_error + unit" where
  "validate_door_event_body d =
     (if db_game d = [] then Inl (REmpty ''game'')
      else
        res_bind (check_label ''door game'' (db_game d) MaxDoorGameLen) (\<lambda>_.
        if db_events d = [] then Inl (REmpty ''events'')
        else if length (db_events d) > MaxDoorEventsPerRecord then Inl (RTooMany (length (db_events d)))
        else
          res_bind (validate_door_events (db_events d)) (\<lambda>_.
          if door_event_body_len d > MaxDoorEventBodyLen then Inl (RBodyLen (door_event_body_len d))
          else Inr ())))"

definition door_event_bytes :: "door_event \<Rightarrow> bytes" where
  "door_event_bytes e =
     de_kind e # prefixed (de_actor e) @
     of_nat (length (de_target e)) #
       (if de_target e \<noteq> [] then de_target e @ array_bytes (de_target_node e) else []) @
     prefixed (de_payload e)"

definition door_body_bytes :: "door_event_body \<Rightarrow> bytes" where
  "door_body_bytes d =
     prefixed (db_game d) @ of_nat (length (db_events d)) # concat (map door_event_bytes (db_events d))"

definition marshal_door_event_body :: "door_event_body \<Rightarrow> record_error + bytes" where
  "marshal_door_event_body d = res_bind (validate_door_event_body d) (\<lambda>_. Inr (door_body_bytes d))"

text \<open>One turn of the decoder's loop.\<close>

definition take_door_event :: "bytes \<Rightarrow> record_error + door_event \<times> bytes" where
  "take_door_event rest =
     res_bind (take_bytes 1 ''an event kind'' rest) (\<lambda>(k, r1).
     res_bind (take_prefixed ''an actor length'' ''an actor'' r1) (\<lambda>(actor, r2).
     res_bind (take_bytes 1 ''a target length'' r2) (\<lambda>(tl, r3).
     res_bind
       (if hd tl > 0 then
          res_bind (take_bytes (unat (hd tl)) ''a target'' r3) (\<lambda>(t, r4).
          res_bind (take_bytes 8 ''a target node'' r4) (\<lambda>(nd, r5). Inr (t, copy_array nd, r5)))
        else Inr ([], zero_array, r3)) (\<lambda>(target, node, r6).
     res_bind (take_prefixed ''a payload length'' ''a payload'' r6) (\<lambda>(payload, r7).
     Inr (\<lparr>de_kind = hd k, de_actor = actor, de_target = target, de_target_node = node,
           de_payload = payload\<rparr>, r7))))))"

fun take_door_events :: "nat \<Rightarrow> bytes \<Rightarrow> record_error + door_event list \<times> bytes" where
  "take_door_events 0 rest = Inr ([], rest)"
| "take_door_events (Suc n) rest =
     res_bind (take_door_event rest) (\<lambda>(e, r1).
     res_bind (take_door_events n r1) (\<lambda>(es, r2). Inr (e # es, r2)))"

definition parse_door_event_body :: "bytes \<Rightarrow> record_error + door_event_body" where
  "parse_door_event_body b =
     res_bind (take_prefixed ''the game length'' ''the game name'' b) (\<lambda>(game, r1).
     res_bind (take_bytes 1 ''the event count'' r1) (\<lambda>(cnt, r2).
     if unat (hd cnt) > MaxDoorEventsPerRecord then Inl (RTooMany (unat (hd cnt)))
     else res_bind (take_door_events (unat (hd cnt)) r2) (\<lambda>(es, r3).
       if r3 \<noteq> [] then Inl (RTrailing (length r3))
       else Inr \<lparr>db_game = game, db_events = es\<rparr>)))"

definition unmarshal_door_event_body :: "bytes \<Rightarrow> record_error + door_event_body" where
  "unmarshal_door_event_body b =
     res_bind (parse_door_event_body b) (\<lambda>d.
     res_bind (validate_door_event_body d) (\<lambda>_.
     (case marshal_door_event_body d of
        Inl e \<Rightarrow> Inl (RReencode e)
      | Inr re \<Rightarrow> if re \<noteq> b then Inl RNonCanonical else Inr d)))"

definition door_event_size :: "door_event_body \<Rightarrow> nat" where
  "door_event_size d = 64 + 8 + 8 + 4 + 1 + 4 + door_event_body_len d"

section \<open>Lemmas\<close>

definition door_event_ok :: "door_event \<Rightarrow> bool" where
  "door_event_ok e \<longleftrightarrow>
     de_actor e \<noteq> [] \<and> validate_label (de_actor e) 24 = None \<and> validate_label (de_target e) 24 = None \<and>
     (de_target e = [] \<longleftrightarrow> de_target_node e = zero_array) \<and> length (de_payload e) \<le> 48"

lemma validate_door_event_ok: "validate_door_event e = Inr u \<longleftrightarrow> door_event_ok e"
  by (auto simp: validate_door_event_def door_event_ok_def door_consts split: if_splits)

lemma validate_door_events_ok: "validate_door_events es = Inr u \<longleftrightarrow> (\<forall>e \<in> set es. door_event_ok e)"
  by (induction es) (auto simp: validate_door_event_ok)

lemma length_door_event_bytes: "length (door_event_bytes e) = door_event_len e"
  by (simp add: door_event_bytes_def door_event_len_def)

lemma length_door_body_bytes: "length (door_body_bytes d) = door_event_body_len d"
proof -
  have "length (concat (map door_event_bytes es)) = (\<Sum>e\<leftarrow>es. door_event_len e)" for es
    by (induction es) (simp_all add: length_door_event_bytes)
  then show ?thesis by (simp add: door_body_bytes_def door_event_body_len_def)
qed

lemma door_event_ok_lengths:
  assumes "door_event_ok e"
  shows "length (de_actor e) \<le> 24" "length (de_target e) \<le> 24" "length (de_payload e) \<le> 48"
  using assms validate_label_length by (auto simp: door_event_ok_def)

lemma door_event_len_bound: "door_event_ok e \<Longrightarrow> door_event_len e \<le> 108"
  using door_event_ok_lengths [of e] by (simp add: door_event_len_def)

definition door_body_ok :: "door_event_body \<Rightarrow> bool" where
  "door_body_ok d \<longleftrightarrow>
     db_game d \<noteq> [] \<and> validate_label (db_game d) 16 = None \<and> db_events d \<noteq> [] \<and>
     length (db_events d) \<le> 8 \<and> (\<forall>e \<in> set (db_events d). door_event_ok e)"

lemma door_body_len_bound: "door_body_ok d \<Longrightarrow> door_event_body_len d \<le> 882"
proof -
  assume ok: "door_body_ok d"
  then have "(\<Sum>e\<leftarrow>db_events d. door_event_len e) \<le> 108 * length (db_events d)"
    by (intro sum_list_bound door_event_len_bound) (simp add: door_body_ok_def)
  moreover have "length (db_game d) \<le> 16" "length (db_events d) \<le> 8"
    using ok validate_label_length [of "db_game d" 16] by (simp_all add: door_body_ok_def)
  ultimately show ?thesis by (simp add: door_event_body_len_def)
qed

lemma validate_door_body_ok: "validate_door_event_body d = Inr u \<longleftrightarrow> door_body_ok d"
proof
  assume "validate_door_event_body d = Inr u"
  then show "door_body_ok d"
    by (auto simp: validate_door_event_body_def door_body_ok_def validate_door_events_ok door_consts split: if_splits)
next
  assume ok: "door_body_ok d"
  have "\<not> 1024 < door_event_body_len d" using door_body_len_bound [OF ok] by simp
  moreover have "validate_door_events (db_events d) = Inr ()"
    using ok by (simp add: validate_door_events_ok door_body_ok_def)
  ultimately show "validate_door_event_body d = Inr u"
    using ok by (simp add: validate_door_event_body_def door_body_ok_def door_consts)
qed

lemma marshal_door_ok: "marshal_door_event_body d = Inr b \<longleftrightarrow> door_body_ok d \<and> b = door_body_bytes d"
  by (auto simp: marshal_door_event_body_def validate_door_body_ok)

lemma take_door_event_written: "door_event_ok e \<Longrightarrow> take_door_event (door_event_bytes e @ r) = Inr (e, r)"
proof -
  assume ok: "door_event_ok e"
  note len = door_event_ok_lengths [OF ok]
  have n: "unat (of_nat (length (de_target e)) :: u8) = length (de_target e)"
    using len by (intro unat_of_nat_byte) simp
  have e: "\<lparr>de_kind = de_kind e, de_actor = de_actor e, de_target = de_target e,
      de_target_node = de_target_node e, de_payload = de_payload e\<rparr> = e" by simp
  show ?thesis
  proof (cases "de_target e = []")
    case True
    then have "de_target_node e = zero_array" using ok by (simp add: door_event_ok_def)
    then show ?thesis using True len e by (simp add: take_door_event_def door_event_bytes_def)
  next
    case False
    then have "(0 :: u8) < of_nat (length (de_target e))" using n by (simp add: word_less_nat_alt)
    then show ?thesis using False len n e by (simp add: take_door_event_def door_event_bytes_def)
  qed
qed

lemma take_door_events_written:
  "(\<forall>e \<in> set es. door_event_ok e) \<Longrightarrow>
   take_door_events (length es) (concat (map door_event_bytes es) @ r) = Inr (es, r)"
  by (induction es) (simp_all add: take_door_event_written)

lemma parse_door_written: "door_body_ok d \<Longrightarrow> parse_door_event_body (door_body_bytes d) = Inr d"
proof -
  assume ok: "door_body_ok d"
  have len: "length (db_game d) < 256" "length (db_events d) \<le> 8"
    using ok validate_label_length [of "db_game d" 16] by (simp_all add: door_body_ok_def)
  then have n: "unat (of_nat (length (db_events d)) :: u8) = length (db_events d)"
    by (intro unat_of_nat_byte) simp
  have "take_door_events (length (db_events d)) (concat (map door_event_bytes (db_events d)) @ []) = Inr (db_events d, [])"
    using ok by (intro take_door_events_written) (simp add: door_body_ok_def)
  then show ?thesis
    using len n by (simp add: parse_door_event_body_def door_body_bytes_def door_consts)
qed

interpretation dbc: checked_codec marshal_door_event_body unmarshal_door_event_body
proof
  fix d b
  assume ok: "marshal_door_event_body d = Inr b"
  then have "door_body_ok d" "b = door_body_bytes d" by (simp_all add: marshal_door_ok)
  then show "unmarshal_door_event_body b = Inr d"
    using ok by (simp add: unmarshal_door_event_body_def parse_door_written validate_door_body_ok)
next
  fix b d
  assume "unmarshal_door_event_body b = Inr d"
  then obtain a where "(case marshal_door_event_body a of Inl e \<Rightarrow> Inl (RReencode e)
      | Inr re \<Rightarrow> if re \<noteq> b then Inl RNonCanonical else Inr a) = Inr d"
    by (auto simp: unmarshal_door_event_body_def)
  then show "marshal_door_event_body d = Inr b"
    by (cases "marshal_door_event_body a") (auto split: if_splits)
qed

end
