(* ===== verification/Records.thy ===== *)
theory Records
  imports DoorEvents
begin

text \<open>
  The signed record log entry of \<open>internal/record/record.go\<close> and \<open>codec.go\<close>: the canonical
  signable bytes, signing (\<open>New\<close>), parsing (\<open>decodeCanonical\<close>, \<open>Unmarshal\<close>), verification, and
  the constructors and end-to-end verifiers of the typed records. Shown: the wire form is
  canonical, what \<open>New\<close> signs survives the wire and verifies, an accepted record satisfies the
  type-level body rules, and verification binds origin, key and content.

  BLAKE3 and Ed25519 are not part of the repository. They are fields of the record \<open>crypto\<close>
  every definition that uses them takes; what a theorem needs of them is its hypothesis.
\<close>

section \<open>Identifiers, types and keys\<close>

type_synonym record_id = "16 barray"

record crypto =
  blake3 :: "bytes \<Rightarrow> bytes"
  ed_sign :: "bytes \<Rightarrow> bytes \<Rightarrow> bytes"
  ed_verify :: "bytes \<Rightarrow> bytes \<Rightarrow> bytes \<Rightarrow> bool"

record node_key =
  nk_public :: bytes
  nk_private :: bytes

definition node_key_id :: "crypto \<Rightarrow> node_key \<Rightarrow> node_id" where
  "node_key_id c k = node_id_from_public_key (blake3 c) (nk_public k)"

definition node_key_sign :: "crypto \<Rightarrow> node_key \<Rightarrow> bytes \<Rightarrow> bytes" where
  "node_key_sign c k msg = ed_sign c (nk_private k) msg"

definition FormatVersion :: u8 where "FormatVersion = 1"
definition IDLen :: nat where "IDLen = 16"
definition MaxBodyLen :: nat where "MaxBodyLen = 8192"

definition TypePost :: u8 where "TypePost = 1"
definition TypeDM :: u8 where "TypeDM = 2"
definition TypeProfile :: u8 where "TypeProfile = 3"
definition TypeNode :: u8 where "TypeNode = 4"
definition TypeSuccession :: u8 where "TypeSuccession = 5"
definition TypeArea :: u8 where "TypeArea = 6"
definition TypeFile :: u8 where "TypeFile = 7"
definition TypeTombstone :: u8 where "TypeTombstone = 8"
definition TypeVote :: u8 where "TypeVote = 9"
definition TypeDoorEvent :: u8 where "TypeDoorEvent = 10"

lemmas type_consts = TypePost_def TypeDM_def TypeProfile_def TypeNode_def TypeSuccession_def TypeArea_def
  TypeFile_def TypeTombstone_def TypeVote_def TypeDoorEvent_def

definition type_valid :: "u8 \<Rightarrow> bool" where
  "type_valid t \<longleftrightarrow> t \<in> {TypePost, TypeDM, TypeProfile, TypeNode, TypeSuccession, TypeArea, TypeFile,
     TypeTombstone, TypeVote, TypeDoorEvent}"

definition area_tag_for :: "crypto \<Rightarrow> bytes \<Rightarrow> 4 barray" where
  "area_tag_for c name = copy_array (take 4 (blake3 c name))"

definition profile_area :: "crypto \<Rightarrow> 4 barray" where
  "profile_area c = area_tag_for c (map (\<lambda>ch. of_nat (of_char ch)) ''_directory'')"

definition dm_area :: "crypto \<Rightarrow> 4 barray" where
  "dm_area c = area_tag_for c (map (\<lambda>ch. of_nat (of_char ch)) ''_mail'')"

section \<open>The record\<close>

record rec =
  r_origin :: node_id
  r_seq :: u64
  r_ts :: u32
  r_type :: u8
  r_area :: "4 barray"
  r_parent :: record_id
  r_body :: bytes
  r_id :: record_id
  r_signed :: bytes
  r_sig :: "64 barray"

definition has_parent :: "rec \<Rightarrow> bool" where
  "has_parent r \<longleftrightarrow> r_parent r \<noteq> zero_array"

definition flagHasParent :: u8 where "flagHasParent = 1"

definition canonical_layout :: "rec \<Rightarrow> bytes" where
  "canonical_layout r =
     [FormatVersion, (if has_parent r then flagHasParent else 0), r_type r] @ array_bytes (r_origin r) @
     append_uvarint (r_seq r) @ put_u32 (r_ts r) @ array_bytes (r_area r) @
     (if has_parent r then array_bytes (r_parent r) else []) @
     append_uvarint (of_nat (length (r_body r))) @ r_body r"

definition canonical_bytes :: "rec \<Rightarrow> record_error + bytes" where
  "canonical_bytes r =
     (if \<not> type_valid (r_type r) then Inl (RUnknownType (r_type r))
      else if length (r_body r) > MaxBodyLen then Inl (RBodyLen (length (r_body r)))
      else if r_origin r = zero_array then Inl RNoOrigin
      else Inr (canonical_layout r))"

definition derive_id :: "crypto \<Rightarrow> bytes \<Rightarrow> record_id" where
  "derive_id c canonical = copy_array (take IDLen (blake3 c canonical))"

definition check_no_file_content :: "rec \<Rightarrow> record_error + unit" where
  "check_no_file_content r =
     (if r_type r \<noteq> TypeFile then Inr ()
      else case unmarshal_file_body (r_body r) of Inl e \<Rightarrow> Inl (RNotCatalogEntry e) | Inr _ \<Rightarrow> Inr ())"

definition check_door_event_body :: "rec \<Rightarrow> record_error + unit" where
  "check_door_event_body r =
     (if r_type r \<noteq> TypeDoorEvent then Inr ()
      else case unmarshal_door_event_body (r_body r) of Inl e \<Rightarrow> Inl (RNotEventBatch e) | Inr _ \<Rightarrow> Inr ())"

definition record_new :: "crypto \<Rightarrow> node_key \<Rightarrow> rec \<Rightarrow> record_error + rec" where
  "record_new c key r0 =
     (let r = (if r_origin r0 = zero_array then r0\<lparr>r_origin := node_key_id c key\<rparr> else r0)
      in if r_origin r \<noteq> node_key_id c key then Inl RWrongOrigin
         else
           res_bind (canonical_bytes r) (\<lambda>canonical.
           res_bind (check_no_file_content r) (\<lambda>_.
           res_bind (check_door_event_body r) (\<lambda>_.
           Inr (r\<lparr>r_signed := canonical, r_id := derive_id c canonical,
                 r_sig := copy_array (node_key_sign c key canonical)\<rparr>)))))"

definition verify_sig :: "crypto \<Rightarrow> bytes \<Rightarrow> bytes \<Rightarrow> bytes \<Rightarrow> bool" where
  "verify_sig c pub msg sig \<longleftrightarrow> (if length pub \<noteq> PublicKeySize then False else ed_verify c pub msg sig)"

definition record_verify :: "crypto \<Rightarrow> rec \<Rightarrow> bytes \<Rightarrow> record_error + unit" where
  "record_verify c r pub =
     (if length (r_signed r) = 0 then Inl RNoSignedBytes
      else if \<not> node_id_matches (blake3 c) (r_origin r) pub then Inl RKeyMismatch
      else if \<not> verify_sig c pub (r_signed r) (array_bytes (r_sig r)) then Inl RBadSignature
      else if derive_id c (r_signed r) \<noteq> r_id r then Inl RIdMismatch
      else Inr ())"

section \<open>The wire form\<close>

definition record_marshal :: "rec \<Rightarrow> bytes" where
  "record_marshal r = r_signed r @ array_bytes (r_sig r)"

text \<open>
  The fields from a given offset on: \<open>need\<close> is the test on what is left, and the remaining
  bytes replace the source's cursor \<open>p\<close>. A record that has only been parsed has the zero value
  in its derived fields.
\<close>

definition parse_body :: "rec \<Rightarrow> bytes \<Rightarrow> record_error + rec" where
  "parse_body r b =
     (let (bodyLen, n) = uvarint b
      in if n \<le> 0 then Inl (RBadVarint ''body length'')
         else let rest = drop (nat n) b
           in if unat bodyLen > MaxBodyLen then Inl (RBodyLen (unat bodyLen))
              else if length rest < unat bodyLen then Inl (RTruncated ''body'')
              else if length rest \<noteq> unat bodyLen then Inl (RTrailing (length rest - unat bodyLen))
              else Inr (r\<lparr>r_body := rest\<rparr>))"

definition decode_canonical :: "bytes \<Rightarrow> record_error + rec" where
  "decode_canonical b =
     (if length b < 3 then Inl (RTruncated ''header'')
      else if b ! 0 \<noteq> FormatVersion then Inl (RVersion (b ! 0))
      else if \<not> type_valid (b ! 2) then Inl (RUnknownType (b ! 2))
      else if b ! 1 AND NOT flagHasParent \<noteq> 0 then Inl (RUnknownFlags (b ! 1 AND NOT flagHasParent))
      else let b1 = drop 3 b
        in if length b1 < 8 then Inl (RTruncated ''origin'')
        else let b2 = drop 8 b1; (seq, n) = uvarint b2
          in if n \<le> 0 then Inl (RBadVarint ''seq'')
          else let b3 = drop (nat n) b2
            in if length b3 < 4 then Inl (RTruncated ''ts'')
            else let b4 = drop 4 b3
              in if length b4 < 4 then Inl (RTruncated ''area'')
              else let b5 = drop 4 b4;
                     r = \<lparr>r_origin = copy_array (take 8 b1), r_seq = seq, r_ts = get_u32 b3, r_type = b ! 2,
                          r_area = copy_array (take 4 b4), r_parent = zero_array, r_body = [],
                          r_id = zero_array, r_signed = [], r_sig = zero_array\<rparr>
                in if b ! 1 AND flagHasParent \<noteq> 0 then
                     (if length b5 < IDLen then Inl (RTruncated ''parent'')
                      else parse_body (r\<lparr>r_parent := copy_array (take IDLen b5)\<rparr>) (drop IDLen b5))
                   else parse_body r b5)"

definition record_unmarshal :: "crypto \<Rightarrow> bytes \<Rightarrow> record_error + rec" where
  "record_unmarshal c b =
     (if length b < 64 + 8 then Inl (RTruncated ''record'')
      else let sigOff = length b - 64; canonical = take sigOff b
        in res_bind (decode_canonical canonical) (\<lambda>r.
           res_bind (canonical_bytes r) (\<lambda>reencoded.
           if reencoded \<noteq> canonical then Inl RNonCanonical
           else
             res_bind (check_no_file_content r) (\<lambda>_.
             res_bind (check_door_event_body r) (\<lambda>_.
             Inr (r\<lparr>r_signed := canonical, r_id := derive_id c canonical,
                   r_sig := copy_array (drop sigOff b)\<rparr>))))))"

section \<open>Typed records\<close>

definition blank_record :: "node_id \<Rightarrow> u64 \<Rightarrow> u32 \<Rightarrow> u8 \<Rightarrow> 4 barray \<Rightarrow> bytes \<Rightarrow> rec" where
  "blank_record origin seq ts typ area body =
     \<lparr>r_origin = origin, r_seq = seq, r_ts = ts, r_type = typ, r_area = area, r_parent = zero_array,
      r_body = body, r_id = zero_array, r_signed = [], r_sig = zero_array\<rparr>"

definition new_node_record ::
  "crypto \<Rightarrow> node_key \<Rightarrow> u64 \<Rightarrow> u32 \<Rightarrow> bytes \<Rightarrow> bytes \<Rightarrow> u32 \<Rightarrow> record_error + rec" where
  "new_node_record c key seq ts name contact incarnation =
     res_bind (marshal_node_body \<lparr>nb_public_key = nk_public key, nb_display_name = name,
                 nb_sysop_contact = contact, nb_incarnation = incarnation\<rparr>)
       (\<lambda>body. record_new c key (blank_record (node_key_id c key) seq ts TypeNode zero_array body))"

definition verify_node_record :: "crypto \<Rightarrow> rec \<Rightarrow> record_error + node_body" where
  "verify_node_record c r =
     (if r_type r \<noteq> TypeNode then Inl (RWrongType (r_type r))
      else case unmarshal_node_body (r_body r) of
             Inl e \<Rightarrow> Inl (RInBody e)
           | Inr body \<Rightarrow>
               if \<not> node_id_matches (blake3 c) (r_origin r) (nb_public_key body) then Inl RKeyMismatch
               else res_bind (record_verify c r (nb_public_key body)) (\<lambda>_. Inr body))"

definition new_succession_record ::
  "crypto \<Rightarrow> node_key \<Rightarrow> u64 \<Rightarrow> u32 \<Rightarrow> node_id \<Rightarrow> bytes \<Rightarrow> u32 \<Rightarrow> record_error + rec" where
  "new_succession_record c oldKey seq ts successor newPub effective =
     (if successor = node_key_id c oldKey then Inl RSelfSuccession
      else res_bind (marshal_succession_body (blake3 c)
               \<lparr>sb_successor = successor, sb_new_public_key = newPub, sb_effective = effective\<rparr>)
             (\<lambda>body. record_new c oldKey (blank_record (node_key_id c oldKey) seq ts TypeSuccession zero_array body)))"

definition verify_succession_record :: "crypto \<Rightarrow> rec \<Rightarrow> bytes \<Rightarrow> record_error + succession_body" where
  "verify_succession_record c r predecessorPub =
     (if r_type r \<noteq> TypeSuccession then Inl (RWrongType (r_type r))
      else case unmarshal_succession_body (blake3 c) (r_body r) of
             Inl e \<Rightarrow> Inl (RInBody e)
           | Inr body \<Rightarrow>
               if \<not> node_id_matches (blake3 c) (r_origin r) predecessorPub then Inl RKeyMismatch
               else if sb_successor body = r_origin r then Inl RSelfSuccession
               else (case record_verify c r predecessorPub of Inl e \<Rightarrow> Inl (RInBody e) | Inr _ \<Rightarrow> Inr body))"

definition new_profile_record ::
  "crypto \<Rightarrow> node_key \<Rightarrow> u64 \<Rightarrow> u32 \<Rightarrow> profile_body \<Rightarrow> record_error + rec" where
  "new_profile_record c key seq ts p =
     res_bind (marshal_profile_body p)
       (\<lambda>body. record_new c key (blank_record (node_key_id c key) seq ts TypeProfile (profile_area c) body))"

definition new_file_record ::
  "crypto \<Rightarrow> node_key \<Rightarrow> u64 \<Rightarrow> u32 \<Rightarrow> 4 barray \<Rightarrow> file_body \<Rightarrow> record_error + rec" where
  "new_file_record c key seq ts area f =
     res_bind (marshal_file_body f)
       (\<lambda>body. record_new c key (blank_record (node_key_id c key) seq ts TypeFile area body))"

definition new_door_event_record ::
  "crypto \<Rightarrow> node_key \<Rightarrow> u64 \<Rightarrow> u32 \<Rightarrow> 4 barray \<Rightarrow> door_event_body \<Rightarrow> record_error + rec" where
  "new_door_event_record c key seq ts area d =
     res_bind (marshal_door_event_body d)
       (\<lambda>body. record_new c key (blank_record (node_key_id c key) seq ts TypeDoorEvent area body))"

definition verify_profile_record :: "crypto \<Rightarrow> rec \<Rightarrow> bytes \<Rightarrow> record_error + profile_body" where
  "verify_profile_record c r originPub =
     (if r_type r \<noteq> TypeProfile then Inl (RWrongType (r_type r))
      else case unmarshal_profile_body (r_body r) of
             Inl e \<Rightarrow> Inl (RInBody e)
           | Inr body \<Rightarrow>
               (case record_verify c r originPub of Inl e \<Rightarrow> Inl (RInBody e) | Inr _ \<Rightarrow> Inr body))"

definition verify_file_record :: "crypto \<Rightarrow> rec \<Rightarrow> bytes \<Rightarrow> record_error + file_body" where
  "verify_file_record c r originPub =
     (if r_type r \<noteq> TypeFile then Inl (RWrongType (r_type r))
      else case unmarshal_file_body (r_body r) of
             Inl e \<Rightarrow> Inl (RInBody e)
           | Inr body \<Rightarrow>
               (case record_verify c r originPub of Inl e \<Rightarrow> Inl (RInBody e) | Inr _ \<Rightarrow> Inr body))"

definition verify_door_event_record :: "crypto \<Rightarrow> rec \<Rightarrow> bytes \<Rightarrow> record_error + door_event_body" where
  "verify_door_event_record c r originPub =
     (if r_type r \<noteq> TypeDoorEvent then Inl (RWrongType (r_type r))
      else case unmarshal_door_event_body (r_body r) of
             Inl e \<Rightarrow> Inl (RInBody e)
           | Inr body \<Rightarrow>
               (case record_verify c r originPub of Inl e \<Rightarrow> Inl (RInBody e) | Inr _ \<Rightarrow> Inr body))"

section \<open>Reading back the canonical bytes\<close>

text \<open>A record with its derived fields at their zero values: what parsing alone gives.\<close>

definition rec_core :: "rec \<Rightarrow> rec" where
  "rec_core r = r\<lparr>r_id := zero_array, r_signed := [], r_sig := zero_array\<rparr>"

lemma canonical_bytes_ok:
  "canonical_bytes r = Inr b \<longleftrightarrow> type_valid (r_type r) \<and> length (r_body r) \<le> 8192 \<and>
     r_origin r \<noteq> zero_array \<and> b = canonical_layout r"
  by (auto simp: canonical_bytes_def MaxBodyLen_def)

lemma parse_body_written:
  assumes "length body \<le> 8192"
  shows "parse_body r (append_uvarint (of_nat (length body)) @ body) = Inr (r\<lparr>r_body := body\<rparr>)"
proof -
  have "unat (of_nat (length body) :: u64) = length body"
    using assms by (simp add: unat_of_nat)
  then show ?thesis using assms by (simp add: parse_body_def MaxBodyLen_def not_le)
qed

lemma decode_canonical_written:
  assumes "type_valid (r_type r)" and "length (r_body r) \<le> 8192"
  shows "decode_canonical (canonical_layout r) = Inr (rec_core r)"
proof (cases "has_parent r")
  case True
  then show ?thesis
    using assms parse_body_written [OF assms(2)]
    by (simp add: decode_canonical_def canonical_layout_def flagHasParent_def IDLen_def FormatVersion_def
        rec_core_def Let_def not_le)
next
  case False
  then have "r_parent r = zero_array" by (simp add: has_parent_def)
  then show ?thesis
    using assms False parse_body_written [OF assms(2)]
    by (simp add: decode_canonical_def canonical_layout_def flagHasParent_def FormatVersion_def
        rec_core_def Let_def not_le)
qed

lemma canonical_layout_core [simp]: "canonical_layout (rec_core r) = canonical_layout r"
  by (simp add: canonical_layout_def rec_core_def has_parent_def)

lemma canonical_bytes_core [simp]: "canonical_bytes (rec_core r) = canonical_bytes r"
  by (simp add: canonical_bytes_def) (simp add: rec_core_def)

lemma checks_core [simp]:
  "check_no_file_content (rec_core r) = check_no_file_content r"
  "check_door_event_body (rec_core r) = check_door_event_body r"
  by (simp_all add: check_no_file_content_def check_door_event_body_def rec_core_def)

lemma canonical_layout_long: "21 \<le> length (canonical_layout r)"
proof -
  have "1 \<le> length (append_uvarint x)" for x using append_uvarint_length_pos [of x] by linarith
  from this [of "r_seq r"] this [of "of_nat (length (r_body r))"] show ?thesis
    by (simp add: canonical_layout_def)
qed

lemma decode_core: "decode_canonical b = Inr r \<Longrightarrow> rec_core r = r"
  by (auto simp: decode_canonical_def parse_body_def rec_core_def Let_def split: if_splits prod.splits)

text \<open>When \<open>Unmarshal\<close> accepts, and with what.\<close>

definition record_wf :: "crypto \<Rightarrow> rec \<Rightarrow> bool" where
  "record_wf c r \<longleftrightarrow> canonical_bytes r = Inr (r_signed r) \<and> r_id r = derive_id c (r_signed r) \<and>
     check_no_file_content r = Inr () \<and> check_door_event_body r = Inr ()"

lemma record_rebuild:
  "rec_core r\<lparr>r_signed := r_signed r, r_id := r_id r, r_sig := r_sig r\<rparr> = r"
  by (simp add: rec_core_def)

interpretation rcc: canonical_codec "record_wf c" record_marshal "record_unmarshal c" for c
proof
  fix r
  assume wf: "record_wf c r"
  then have ok: "type_valid (r_type r)" "length (r_body r) \<le> 8192" "r_signed r = canonical_layout r"
    by (simp_all add: record_wf_def canonical_bytes_ok)
  have dec: "decode_canonical (r_signed r) = Inr (rec_core r)"
    using ok by (simp add: decode_canonical_written)
  have len: "21 \<le> length (r_signed r)" using ok canonical_layout_long by simp
  then show "record_unmarshal c (record_marshal r) = Inr r"
    using wf record_rebuild [of r]
    by (simp add: record_unmarshal_def record_marshal_def dec record_wf_def)
next
  fix b r
  assume "record_unmarshal c b = Inr r"
  then obtain r0 where len: "72 \<le> length b" and dec: "decode_canonical (take (length b - 64) b) = Inr r0"
    and can: "canonical_bytes r0 = Inr (take (length b - 64) b)"
    and chk: "check_no_file_content r0 = Inr ()" "check_door_event_body r0 = Inr ()"
    and r: "r = r0\<lparr>r_signed := take (length b - 64) b, r_id := derive_id c (take (length b - 64) b),
                   r_sig := copy_array (drop (length b - 64) b)\<rparr>"
    by (auto simp: record_unmarshal_def Let_def split: if_splits)
  have core: "rec_core r = r0" using decode_core [OF dec] unfolding r by (simp add: rec_core_def)
  have "canonical_bytes r = Inr (r_signed r)" "check_no_file_content r = Inr ()" "check_door_event_body r = Inr ()"
    using can chk checks_core [of r] canonical_bytes_core [of r] unfolding core by (simp_all add: r)
  moreover have "array_bytes (r_sig r) = drop (length b - 64) b" using len by (simp add: r)
  ultimately show "record_wf c r \<and> record_marshal r = b"
    using len by (simp add: record_wf_def record_marshal_def) (simp add: r)
qed

lemma record_new_wf: "record_new c key r0 = Inr r \<Longrightarrow> record_wf c r"
proof -
  assume "record_new c key r0 = Inr r"
  then obtain r1 where r: "r = r1\<lparr>r_signed := canonical_layout r1, r_id := derive_id c (canonical_layout r1),
        r_sig := copy_array (node_key_sign c key (canonical_layout r1))\<rparr>"
    and chk: "check_no_file_content r1 = Inr ()" "check_door_event_body r1 = Inr ()"
    and can: "canonical_bytes r1 = Inr (canonical_layout r1)"
    by (auto simp: record_new_def Let_def canonical_bytes_ok split: if_splits)
  have "rec_core r = rec_core r1" by (simp add: r rec_core_def)
  then have "canonical_bytes r = Inr (canonical_layout r1)" "check_no_file_content r = Inr ()"
    "check_door_event_body r = Inr ()"
    using can chk by (metis canonical_bytes_core checks_core)+
  then show ?thesis by (simp add: record_wf_def) (simp add: r)
qed

lemma record_new_result:
  assumes "record_new c key r0 = Inr r"
  shows "r_origin r = node_key_id c key" "r_sig r = copy_array (node_key_sign c key (r_signed r))"
  using assms by (auto simp: record_new_def Let_def split: if_splits)

section \<open>Properties of the log entry\<close>

text \<open>
  C28. The record's wire form is canonical: \<open>Unmarshal\<close> accepts a byte string exactly when it
  is the \<open>Marshal\<close> output of a record whose retained signed bytes are its own canonical
  encoding, whose ID is the hash of those bytes, and whose FILE or DOOR_EVENT body obeys its
  type's rules. One logical record therefore has one wire form and one content address.
\<close>

theorem record_wire_canonical:
  "record_unmarshal c b = Inr r \<longleftrightarrow> record_wf c r \<and> record_marshal r = b"
  by (rule rcc.accepts_iff)

text \<open>
  C29. What \<open>New\<close> signs arrives: the record it returns is read back unchanged from its wire
  form, its origin is the signing key's ID, and it verifies under that key at the receiver.
  Hypotheses: an Ed25519 key has 32 bytes, a signature has 64, and a signature made with the
  private half verifies under the public half.
\<close>

theorem record_new_verifies:
  assumes "record_new c key r0 = Inr r"
    and "length (nk_public key) = 32"
    and "\<And>m. length (ed_sign c (nk_private key) m) = 64"
    and "\<And>m. ed_verify c (nk_public key) m (ed_sign c (nk_private key) m)"
  shows "record_unmarshal c (record_marshal r) = Inr r \<and> r_origin r = node_key_id c key \<and>
    record_verify c r (nk_public key) = Inr ()"
proof -
  have wf: "record_wf c r" by (rule record_new_wf [OF assms(1)])
  note res = record_new_result [OF assms(1)]
  have "r_signed r \<noteq> []" using wf canonical_layout_long [of r] by (auto simp: record_wf_def canonical_bytes_ok)
  then have "record_verify c r (nk_public key) = Inr ()"
    using wf res assms(2-4)
    by (simp add: record_verify_def record_wf_def node_id_matches_def node_key_id_def node_key_sign_def
        verify_sig_def PublicKeySize_def)
  then show ?thesis using wf res by (simp add: rcc.dec_enc)
qed

definition toy_crypto :: crypto where
  "toy_crypto = \<lparr>blake3 = (\<lambda>m. take 32 (1 # m @ replicate 32 0)), ed_sign = (\<lambda>k m. replicate 64 (hd (k @ [7]))),
     ed_verify = (\<lambda>p m s. s = replicate 64 (hd (p @ [7])))\<rparr>"

definition toy_key :: node_key where
  "toy_key = \<lparr>nk_public = replicate 32 5, nk_private = replicate 32 5\<rparr>"

definition toy_post :: rec where
  "toy_post = \<lparr>r_origin = node_key_id toy_crypto toy_key, r_seq = 7, r_ts = 9, r_type = TypePost,
     r_area = zero_array, r_parent = zero_array, r_body = [104, 105],
     r_id = zero_array, r_signed = [], r_sig = zero_array\<rparr>"

lemma toy_origin: "node_key_id toy_crypto toy_key \<noteq> zero_array"
  by (simp add: node_key_id_def node_id_from_public_key_def toy_crypto_def toy_key_def zero_array_def
      array_eq_iff numeral_eq_Suc)

lemma toy_new: "record_new toy_crypto toy_key toy_post =
    Inr (toy_post\<lparr>r_signed := canonical_layout toy_post, r_id := derive_id toy_crypto (canonical_layout toy_post),
           r_sig := copy_array (replicate 64 5)\<rparr>)"
proof -
  have "canonical_bytes toy_post = Inr (canonical_layout toy_post)"
    using toy_origin by (simp add: canonical_bytes_ok type_valid_def) (simp add: toy_post_def)
  moreover have "check_no_file_content toy_post = Inr ()" "check_door_event_body toy_post = Inr ()"
    by (simp_all add: check_no_file_content_def check_door_event_body_def toy_post_def type_consts)
  moreover have "r_origin toy_post = node_key_id toy_crypto toy_key" by (simp add: toy_post_def)
  ultimately show ?thesis
    using toy_origin
    by (simp add: record_new_def Let_def node_key_sign_def) (simp add: toy_crypto_def toy_key_def)
qed

theorem record_new_verifies_witness:
  "\<exists>r. record_new toy_crypto toy_key toy_post = Inr r \<and>
     record_unmarshal toy_crypto (record_marshal r) = Inr r \<and> record_verify toy_crypto r (nk_public toy_key) = Inr ()"
  using toy_new record_new_verifies [OF toy_new]
  by (simp add: toy_crypto_def toy_key_def)

text \<open>
  A signature covers every field: two accepted records with the same signed bytes agree
  in origin, sequence, timestamp, type, area, parent, body and ID, and differ at most in the
  signature itself.
\<close>

theorem record_signed_determines:
  assumes "record_unmarshal c b1 = Inr r1" and "record_unmarshal c b2 = Inr r2"
    and "r_signed r1 = r_signed r2"
  shows "r2 = r1\<lparr>r_sig := r_sig r2\<rparr>"
proof -
  have wf: "record_wf c r1" "record_wf c r2" using assms rcc.enc_dec by blast+
  then have "decode_canonical (r_signed r1) = Inr (rec_core r1)" "decode_canonical (r_signed r2) = Inr (rec_core r2)"
    by (simp_all add: record_wf_def canonical_bytes_ok decode_canonical_written)
  then have "rec_core r1 = rec_core r2" using assms(3) by simp
  moreover have "r_id r1 = r_id r2" using wf assms(3) by (simp add: record_wf_def)
  ultimately show ?thesis using assms(3) by (cases r1, cases r2) (simp add: rec_core_def)
qed

lemma toy_wire: "record_unmarshal toy_crypto (record_marshal
      (toy_post\<lparr>r_signed := canonical_layout toy_post, r_id := derive_id toy_crypto (canonical_layout toy_post),
           r_sig := copy_array (replicate 64 5)\<rparr>)) =
    Inr (toy_post\<lparr>r_signed := canonical_layout toy_post, r_id := derive_id toy_crypto (canonical_layout toy_post),
           r_sig := copy_array (replicate 64 5)\<rparr>)"
  by (rule rcc.dec_enc [OF record_new_wf [OF toy_new]])

theorem record_signed_determines_witness:
  "\<exists>r. record_unmarshal toy_crypto (record_marshal r) = Inr r \<and> r = r\<lparr>r_sig := r_sig r\<rparr>"
  using toy_wire record_signed_determines [OF toy_wire toy_wire refl] by blast

lemma wf_body_bounds:
  assumes "record_wf c r"
  shows "r_type r = TypeFile \<Longrightarrow> \<exists>f. marshal_file_body f = Inr (r_body r) \<and> length (r_body r) \<le> 212"
    and "r_type r = TypeDoorEvent \<Longrightarrow> \<exists>d. marshal_door_event_body d = Inr (r_body r) \<and> length (r_body r) \<le> 882"
proof -
  assume "r_type r = TypeFile"
  then obtain f where "unmarshal_file_body (r_body r) = Inr f"
    using assms by (auto simp: record_wf_def check_no_file_content_def split: sum.splits)
  then have "marshal_file_body f = Inr (r_body r)" by (rule fbc.mar_unmar)
  then show "\<exists>f. marshal_file_body f = Inr (r_body r) \<and> length (r_body r) \<le> 212"
    by (intro exI [of _ f]) (auto simp: marshal_file_ok file_body_len dest: file_body_bound)
next
  assume "r_type r = TypeDoorEvent"
  then obtain d where "unmarshal_door_event_body (r_body r) = Inr d"
    using assms by (auto simp: record_wf_def check_door_event_body_def split: sum.splits)
  then have "marshal_door_event_body d = Inr (r_body r)" by (rule dbc.mar_unmar)
  then show "\<exists>d. marshal_door_event_body d = Inr (r_body r) \<and> length (r_body r) \<le> 882"
    by (intro exI [of _ d]) (auto simp: marshal_door_ok length_door_body_bytes dest: door_body_len_bound)
qed

text \<open>
  No record carries file content: a FILE record that \<open>New\<close> builds or \<open>Unmarshal\<close> accepts
  has a body of at most 212 bytes which is a catalog entry, and a DOOR_EVENT body is a batch of
  at most 882 bytes, although the envelope allows 8 KiB.
\<close>

theorem no_file_content:
  assumes "record_unmarshal c b = Inr r \<or> record_new c key r0 = Inr r"
  shows "(r_type r = TypeFile \<longrightarrow>
      (\<exists>f. marshal_file_body f = Inr (r_body r) \<and> length (r_body r) \<le> 212)) \<and>
    (r_type r = TypeDoorEvent \<longrightarrow>
      (\<exists>d. marshal_door_event_body d = Inr (r_body r) \<and> length (r_body r) \<le> 882))"
proof -
  have "record_wf c r" using assms rcc.enc_dec record_new_wf by blast
  then show ?thesis using wf_body_bounds by blast
qed

definition toy_file :: file_body where
  "toy_file = \<lparr>fb_name = [97], fb_size = 1, fb_hash = copy_array [1], fb_description = [], fb_tags = []\<rparr>"

definition toy_file_record :: rec where
  "toy_file_record = blank_record (node_key_id toy_crypto toy_key) 1 2 TypeFile zero_array (file_body_bytes toy_file)"

lemma toy_file_ok: "marshal_file_body toy_file = Inr (file_body_bytes toy_file)"
proof -
  have "copy_array [1] \<noteq> (zero_array :: 16 barray)"
    by (simp add: zero_array_def array_eq_iff numeral_eq_Suc)
  moreover have "check_file_name [97] = Inr ()"
    by (simp add: check_file_name_def validate_label_ok_iff utf8_valid_string_def contains_rune_def runes_at_rec
        utf8_decode_rune_def rune_error_def control_byte_def MaxFileNameLen_def)
  ultimately show ?thesis
    by (simp add: marshal_file_ok file_body_ok_def) (simp add: toy_file_def)
qed

lemma toy_file_new: "\<exists>r. record_new toy_crypto toy_key toy_file_record = Inr r \<and> r_type r = TypeFile"
proof -
  have "length (file_body_bytes toy_file) \<le> 8192"
    using toy_file_ok file_body_bound by (fastforce simp: marshal_file_ok file_body_len)
  then have "canonical_bytes toy_file_record = Inr (canonical_layout toy_file_record)"
    using toy_origin
    by (simp add: canonical_bytes_ok type_valid_def) (simp add: toy_file_record_def blank_record_def)
  moreover have "check_no_file_content toy_file_record = Inr ()" "check_door_event_body toy_file_record = Inr ()"
    using fbc.unmar_mar [OF toy_file_ok]
    by (simp_all add: check_no_file_content_def check_door_event_body_def toy_file_record_def blank_record_def type_consts)
  moreover have "r_origin toy_file_record = node_key_id toy_crypto toy_key" "r_type toy_file_record = TypeFile"
    by (simp_all add: toy_file_record_def blank_record_def)
  ultimately show ?thesis using toy_origin by (simp add: record_new_def Let_def)
qed

theorem no_file_content_witness:
  "\<exists>r. record_new toy_crypto toy_key toy_file_record = Inr r \<and> r_type r = TypeFile \<and> length (r_body r) \<le> 212"
  using toy_file_new no_file_content [OF disjI2, of toy_crypto toy_key toy_file_record] by blast

text \<open>
  The typed bodies are checked codecs: for NODE, SUCCESSION, FILE and DOOR_EVENT a byte
  string is what the encoder writes for a value exactly when the decoder reads that value from
  it, so no value has two encodings and nothing decodes that could not have been written.
\<close>

theorem record_bodies_canonical:
  "((marshal_node_body n = Inr b) = (unmarshal_node_body b = Inr n)) \<and>
   ((marshal_succession_body h s = Inr b) = (unmarshal_succession_body h b = Inr s)) \<and>
   ((marshal_file_body f = Inr b) = (unmarshal_file_body b = Inr f)) \<and>
   ((marshal_door_event_body d = Inr b) = (unmarshal_door_event_body b = Inr d))"
  by (intro conjI) (rule nbc.mar_iff_unmar sbc.mar_iff_unmar fbc.mar_iff_unmar dbc.mar_iff_unmar)+

text \<open>
  A PROFILE body is read back only without reserved flag bits: the encoder writes any
  flags byte, and the decoder rejects its output exactly when a bit other than
  \<open>FlagUnlisted\<close> is set.
\<close>

theorem profile_reserved_flags:
  assumes "marshal_profile_body p = Inr b"
  shows "unmarshal_profile_body b =
    (if pb_flags p AND NOT FlagUnlisted \<noteq> 0 then Inl (RReservedFlags (pb_flags p)) else Inr p)"
  using assms by (rule unmarshal_profile_written)

definition toy_profile :: "u8 \<Rightarrow> profile_body" where
  "toy_profile fl = \<lparr>pb_nick = [98], pb_dm_key = copy_array [1], pb_flags = fl\<rparr>"

lemma toy_profile_ok: "\<exists>b. marshal_profile_body (toy_profile fl) = Inr b"
proof -
  have "copy_array [1] \<noteq> (zero_array :: 32 barray)"
    by (simp add: zero_array_def array_eq_iff numeral_eq_Suc)
  moreover have "validate_label [98] 24 = None"
    by (simp add: validate_label_ok_iff utf8_valid_string_def runes_at_rec
        utf8_decode_rune_def rune_error_def control_byte_def)
  ultimately show ?thesis by (simp add: marshal_profile_ok) (simp add: toy_profile_def)
qed

theorem profile_reserved_flags_witness:
  "\<exists>b. marshal_profile_body (toy_profile 2) = Inr b \<and> unmarshal_profile_body b = Inl (RReservedFlags 2)"
proof -
  obtain b where "marshal_profile_body (toy_profile 2) = Inr b" using toy_profile_ok by blast
  then show ?thesis
    using profile_reserved_flags [of "toy_profile 2" b] by (auto simp: toy_profile_def FlagUnlisted_def)
qed

section \<open>End-to-end verification\<close>

lemma record_verify_ok:
  "record_verify c r pub = Inr u \<longleftrightarrow> r_signed r \<noteq> [] \<and> r_origin r = node_id_from_public_key (blake3 c) pub \<and>
     length pub = 32 \<and> ed_verify c pub (r_signed r) (array_bytes (r_sig r)) \<and> r_id r = derive_id c (r_signed r)"
  by (auto simp: record_verify_def node_id_matches_def verify_sig_def PublicKeySize_def)

lemma verify_succession_ok:
  assumes "verify_succession_record c r pub = Inr body"
  shows "r_type r = TypeSuccession" "unmarshal_succession_body (blake3 c) (r_body r) = Inr body"
    "sb_successor body \<noteq> r_origin r" "sb_successor body \<noteq> zero_array"
    "sb_successor body = node_id_from_public_key (blake3 c) (sb_new_public_key body)"
    "record_verify c r pub = Inr ()"
proof -
  have u: "unmarshal_succession_body (blake3 c) (r_body r) = Inr body"
    using assms by (auto simp: verify_succession_record_def split: if_splits sum.splits)
  then have "marshal_succession_body (blake3 c) body = Inr (r_body r)" by (rule sbc.mar_unmar)
  then show "sb_successor body \<noteq> zero_array"
    "sb_successor body = node_id_from_public_key (blake3 c) (sb_new_public_key body)"
    by (auto simp: marshal_succession_body_def split: if_splits)
  show "r_type r = TypeSuccession" "unmarshal_succession_body (blake3 c) (r_body r) = Inr body"
    "sb_successor body \<noteq> r_origin r" "record_verify c r pub = Inr ()"
    using assms u by (auto simp: verify_succession_record_def split: if_splits sum.splits)
qed

end
