(* ===== verification/Succession.thy ===== *)
theory Succession
  imports Records
begin

text \<open>
  Package \<open>internal/succession\<close>: the registry of node key rotations with its four guardrails.
  The clock is an argument (\<open>now\<close>, nanoseconds since the Unix epoch; \<open>time.Time\<close> values are
  such integers), as are BLAKE3 and Ed25519 through \<open>crypto\<close>. The reason of a refusal is a
  datatype where the code formats a sentence. Shown over every sequence of operations: the
  accepted hops never form a cycle, every key held for a node hashes to its ID, an accepted
  hop is never changed or removed, and each offer is disclosed by exactly one event.
\<close>

section \<open>State\<close>

definition second :: int where "second = 1000000000"
definition DefaultWindow :: int where "DefaultWindow = 24 * 3600 * second"
definition MaxChain :: nat where "MaxChain = 8"

text \<open>Go's zero \<open>time.Time\<close>, the start of year one.\<close>

definition zero_time :: int where "zero_time = -62135596800 * second"

datatype kind = Followed | Refused | Duplicate

datatype reason =
    NotSuccession
  | UnknownPredecessor
  | BadRecord record_error
  | AlreadySucceeded node_id
  | OutsideWindowFuture
  | OutsideWindowPast
  | WouldCycle
  | ChainTooLong

record event =
  ev_kind :: kind
  ev_predecessor :: node_id
  ev_successor :: node_id
  ev_effective :: int
  ev_at :: int
  ev_reason :: "reason option"

record hop =
  h_successor :: node_id
  h_effective :: int
  h_pubkey :: bytes
  h_record :: record_id

record registry =
  sr_window :: int
  sr_by_predecessor :: "(node_id, hop) fmap"
  sr_keys :: "(node_id, bytes) fmap"
  sr_events :: "event list"

section \<open>Operations\<close>

definition registry_new :: registry where
  "registry_new = \<lparr>sr_window = DefaultWindow, sr_by_predecessor = fmempty, sr_keys = fmempty, sr_events = []\<rparr>"

definition set_window :: "int \<Rightarrow> registry \<Rightarrow> registry" where
  "set_window d r = r\<lparr>sr_window := d\<rparr>"

definition learn_key :: "crypto \<Rightarrow> node_id \<Rightarrow> bytes \<Rightarrow> registry \<Rightarrow> registry" where
  "learn_key c nid pub r =
     (if node_id_matches (blake3 c) nid pub then r\<lparr>sr_keys := fmupd nid pub (sr_keys r)\<rparr> else r)"

definition known_key :: "registry \<Rightarrow> node_id \<Rightarrow> bytes option" where
  "known_key r nid = fmlookup (sr_keys r) nid"

text \<open>\<open>reaches\<close>: nine turns of the loop, the counter running from 0 to \<open>MaxChain\<close>.\<close>

fun reaches_loop :: "nat \<Rightarrow> (node_id, hop) fmap \<Rightarrow> node_id \<Rightarrow> node_id \<Rightarrow> bool" where
  "reaches_loop 0 m cur to \<longleftrightarrow> False"
| "reaches_loop (Suc n) m cur to \<longleftrightarrow>
     (if cur = to then True
      else case fmlookup m cur of None \<Rightarrow> False | Some e \<Rightarrow> reaches_loop n m (h_successor e) to)"

definition reaches :: "registry \<Rightarrow> node_id \<Rightarrow> node_id \<Rightarrow> bool" where
  "reaches r src to = reaches_loop (MaxChain + 1) (sr_by_predecessor r) src to"

text \<open>
  The inner loop of \<open>chainLen\<close> from one predecessor: the count at which it meets the node. The
  first argument is what is left of the loop bound \<open>n \<le> MaxChain\<close>.
\<close>

fun chain_walk :: "nat \<Rightarrow> (node_id, hop) fmap \<Rightarrow> nat \<Rightarrow> node_id \<Rightarrow> node_id \<Rightarrow> nat option" where
  "chain_walk 0 m n cur nid = None"
| "chain_walk (Suc k) m n cur nid =
     (if cur = nid then Some n
      else case fmlookup m cur of None \<Rightarrow> None | Some e \<Rightarrow> chain_walk k m (n + 1) (h_successor e) nid)"

definition chain_len :: "registry \<Rightarrow> node_id \<Rightarrow> nat" where
  "chain_len r nid =
     fold (\<lambda>(pred, _) best.
        case chain_walk (MaxChain + 1) (sr_by_predecessor r) 0 pred nid of
          Some n \<Rightarrow> if n > best then n else best
        | None \<Rightarrow> best) (fmap_items (sr_by_predecessor r)) 0"

definition log_event :: "event \<Rightarrow> registry \<Rightarrow> event \<times> registry" where
  "log_event e r = (e, r\<lparr>sr_events := sr_events r @ [e]\<rparr>)"

definition refuse :: "int \<Rightarrow> node_id \<Rightarrow> node_id \<Rightarrow> int \<Rightarrow> reason \<Rightarrow> registry \<Rightarrow> event \<times> registry" where
  "refuse now pred succ eff why r =
     log_event \<lparr>ev_kind = Refused, ev_predecessor = pred, ev_successor = succ, ev_effective = eff,
                ev_at = now, ev_reason = Some why\<rparr> r"

definition unix_time :: "u32 \<Rightarrow> int" where
  "unix_time s = uint s * second"

text \<open>
  \<open>Offer\<close>, in two parts: the checks before a body is trusted, and the guardrails on a verified
  body in the order the code applies them.
\<close>

definition offer_verified :: "int \<Rightarrow> rec \<Rightarrow> succession_body \<Rightarrow> registry \<Rightarrow> event \<times> registry" where
  "offer_verified now rec body r =
     (let origin = r_origin rec; succ = sb_successor body; effective = unix_time (sb_effective body)
      in case fmlookup (sr_by_predecessor r) origin of
           Some existing \<Rightarrow>
             if h_record existing = r_id rec then
               log_event \<lparr>ev_kind = Duplicate, ev_predecessor = origin, ev_successor = h_successor existing,
                          ev_effective = h_effective existing, ev_at = now, ev_reason = None\<rparr> r
             else refuse now origin succ effective (AlreadySucceeded (h_successor existing)) r
         | None \<Rightarrow>
             if sr_window r > 0 \<and> effective > now + sr_window r then
               refuse now origin succ effective OutsideWindowFuture r
             else if sr_window r > 0 \<and> effective < now - sr_window r then
               refuse now origin succ effective OutsideWindowPast r
             else if reaches r succ origin then refuse now origin succ effective WouldCycle r
             else if chain_len r origin + 1 > MaxChain then refuse now origin succ effective ChainTooLong r
             else
               log_event \<lparr>ev_kind = Followed, ev_predecessor = origin, ev_successor = succ,
                          ev_effective = effective, ev_at = now, ev_reason = None\<rparr>
                 (r\<lparr>sr_by_predecessor := fmupd origin \<lparr>h_successor = succ, h_effective = effective,
                        h_pubkey = sb_new_public_key body, h_record = r_id rec\<rparr> (sr_by_predecessor r),
                     sr_keys := fmupd succ (sb_new_public_key body) (sr_keys r)\<rparr>))"

definition offer :: "crypto \<Rightarrow> int \<Rightarrow> rec option \<Rightarrow> registry \<Rightarrow> event \<times> registry" where
  "offer c now orec r =
     (case orec of
        None \<Rightarrow> refuse now zero_array zero_array zero_time NotSuccession r
      | Some rec \<Rightarrow>
          if r_type rec \<noteq> TypeSuccession then refuse now zero_array zero_array zero_time NotSuccession r
          else case fmlookup (sr_keys r) (r_origin rec) of
            None \<Rightarrow>
              refuse now (r_origin rec)
                (case unmarshal_succession_body (blake3 c) (r_body rec) of
                   Inr body \<Rightarrow> sb_successor body | Inl _ \<Rightarrow> zero_array)
                zero_time UnknownPredecessor r
          | Some pub \<Rightarrow>
              (case verify_succession_record c rec pub of
                 Inl e \<Rightarrow> refuse now (r_origin rec) zero_array zero_time (BadRecord e) r
               | Inr body \<Rightarrow> offer_verified now rec body r))"

fun resolve_loop :: "nat \<Rightarrow> (node_id, hop) fmap \<Rightarrow> node_id \<Rightarrow> node_id" where
  "resolve_loop 0 m cur = cur"
| "resolve_loop (Suc n) m cur =
     (case fmlookup m cur of None \<Rightarrow> cur | Some e \<Rightarrow> resolve_loop n m (h_successor e))"

definition resolve :: "registry \<Rightarrow> node_id \<Rightarrow> node_id" where
  "resolve r nid = resolve_loop MaxChain (sr_by_predecessor r) nid"

fun chain_loop :: "nat \<Rightarrow> (node_id, hop) fmap \<Rightarrow> node_id \<Rightarrow> node_id list" where
  "chain_loop 0 m cur = []"
| "chain_loop (Suc n) m cur =
     (case fmlookup m cur of None \<Rightarrow> [] | Some e \<Rightarrow> h_successor e # chain_loop n m (h_successor e))"

definition chain :: "registry \<Rightarrow> node_id \<Rightarrow> node_id list" where
  "chain r nid = nid # chain_loop MaxChain (sr_by_predecessor r) nid"

definition superseded :: "registry \<Rightarrow> node_id \<Rightarrow> node_id option" where
  "superseded r nid = map_option h_successor (fmlookup (sr_by_predecessor r) nid)"

definition accepts_record :: "registry \<Rightarrow> node_id \<Rightarrow> u32 \<Rightarrow> bool" where
  "accepts_record r origin ts =
     (case fmlookup (sr_by_predecessor r) origin of
        None \<Rightarrow> True
      | Some e \<Rightarrow> if unix_time ts > h_effective e then False else True)"

definition predecessors :: "registry \<Rightarrow> node_id list" where
  "predecessors r = sorted_list_of_fset (fmdom (sr_by_predecessor r))"

section \<open>Walks along the hops\<close>

definition hops :: "(node_id, hop) fmap \<Rightarrow> (node_id \<times> node_id) set" where
  "hops m = {(a, b). \<exists>e. fmlookup m a = Some e \<and> h_successor e = b}"

lemma hops_fun: "(a, b) \<in> hops m \<Longrightarrow> (a, b') \<in> hops m \<Longrightarrow> b = b'"
  by (auto simp: hops_def)

lemma hops_upd: "fmlookup m a = None \<Longrightarrow> hops (fmupd a e m) = insert (a, h_successor e) (hops m)"
  by (auto simp: hops_def split: if_splits)

lemma reaches_loop_path: "(src, to) \<in> hops m ^^ k \<Longrightarrow> k < n \<Longrightarrow> reaches_loop n m src to"
proof (induction n arbitrary: src k)
  case (Suc n)
  show ?case
  proof (cases k)
    case 0
    then show ?thesis using Suc.prems by simp
  next
    case k: (Suc k')
    obtain mid where mid: "(src, mid) \<in> hops m" "(mid, to) \<in> hops m ^^ k'"
      using Suc.prems(1) unfolding k by (rule relpow_Suc_E2)
    then have "reaches_loop n m mid to" using Suc.IH [OF mid(2)] Suc.prems(2) k by simp
    then show ?thesis using mid(1) by (auto simp: hops_def)
  qed
qed simp

lemma chain_walk_path:
  assumes "fmlookup m nid = None"
  shows "(src, nid) \<in> hops m ^^ k \<Longrightarrow> k < n \<Longrightarrow> chain_walk n m i src nid = Some (i + k)"
proof (induction n arbitrary: src k i)
  case (Suc n)
  show ?case
  proof (cases k)
    case 0
    then show ?thesis using Suc.prems by simp
  next
    case k: (Suc k')
    obtain mid where mid: "(src, mid) \<in> hops m" "(mid, nid) \<in> hops m ^^ k'"
      using Suc.prems(1) unfolding k by (rule relpow_Suc_E2)
    moreover have "src \<noteq> nid" using mid(1) assms by (auto simp: hops_def)
    moreover have "chain_walk n m (i + 1) mid nid = Some (i + 1 + k')"
      using Suc.IH [OF mid(2)] Suc.prems(2) k by simp
    ultimately show ?thesis using k by (auto simp: hops_def)
  qed
qed simp

lemma fold_best_ge:
  "(best :: nat) \<le> fold (\<lambda>(p, e) best. case f p of Some n \<Rightarrow> if n > best then n else best | None \<Rightarrow> best) xs best"
proof (induction xs arbitrary: best)
  case (Cons x xs)
  then show ?case by (auto split: option.splits prod.splits intro: le_trans less_imp_le)
qed simp

lemma fold_best_max:
  "(p, e) \<in> set xs \<Longrightarrow> f p = Some n \<Longrightarrow>
   (n :: nat) \<le> fold (\<lambda>(p, e) best. case f p of Some n \<Rightarrow> if n > best then n else best | None \<Rightarrow> best) xs best"
proof (induction xs arbitrary: best)
  case (Cons x xs)
  show ?case
  proof (cases "x = (p, e)")
    case True
    have "n \<le> (if n > best then n else best)" by simp
    also have "\<dots> \<le> fold (\<lambda>(p, e) best. case f p of Some n \<Rightarrow> if n > best then n else best | None \<Rightarrow> best) (x # xs) best"
      using True Cons.prems(2) fold_best_ge [of "if n > best then n else best" f xs] by simp
    finally show ?thesis .
  next
    case False
    then show ?thesis using Cons by simp
  qed
qed simp

lemma chain_len_path:
  assumes "fmlookup (sr_by_predecessor r) nid = None"
    and "(src, nid) \<in> hops (sr_by_predecessor r) ^^ k" and "0 < k" and "k \<le> MaxChain"
  shows "k \<le> chain_len r nid"
proof -
  obtain j where k: "k = Suc j" using assms(3) by (cases k) auto
  obtain mid where "(src, mid) \<in> hops (sr_by_predecessor r)"
    using assms(2) unfolding k by (rule relpow_Suc_E2)
  then obtain e where "(src, e) \<in> set (fmap_items (sr_by_predecessor r))" by (auto simp: hops_def)
  moreover have "chain_walk (MaxChain + 1) (sr_by_predecessor r) 0 src nid = Some k"
    using chain_walk_path [OF assms(1,2), of "MaxChain + 1" 0] assms(4) by simp
  ultimately show ?thesis
    unfolding chain_len_def by (rule fold_best_max)
qed

text \<open>
  The two tests together exclude a path of any length: one of at most eight hops is found by
  \<open>reaches\<close>; on a longer one, the node eight hops before the origin makes \<open>chainLen\<close> eight.
\<close>

lemma no_path_back:
  assumes "fmlookup (sr_by_predecessor r) origin = None"
    and "\<not> reaches r succ origin" and "chain_len r origin + 1 \<le> MaxChain"
  shows "(succ, origin) \<notin> (hops (sr_by_predecessor r))\<^sup>*"
proof
  assume "(succ, origin) \<in> (hops (sr_by_predecessor r))\<^sup>*"
  then obtain k where k: "(succ, origin) \<in> hops (sr_by_predecessor r) ^^ k" by (auto simp: rtrancl_power)
  show False
  proof (cases "k \<le> MaxChain")
    case True
    then show False using reaches_loop_path [OF k, of "MaxChain + 1"] assms(2) by (simp add: reaches_def)
  next
    case False
    then have "(succ, origin) \<in> hops (sr_by_predecessor r) ^^ ((k - MaxChain) + MaxChain)" using k by simp
    then obtain mid where "(mid, origin) \<in> hops (sr_by_predecessor r) ^^ MaxChain"
      unfolding relpow_add by (rule relcompE) blast
    then have "MaxChain \<le> chain_len r origin"
      by (rule chain_len_path [OF assms(1)]) (simp_all add: MaxChain_def)
    then show False using assms(3) by simp
  qed
qed

section \<open>Offers\<close>

lemma log_event_simps [simp]:
  "fst (log_event e r) = e"
  "snd (log_event e r) = r\<lparr>sr_events := sr_events r @ [e]\<rparr>"
  by (simp_all add: log_event_def)

text \<open>The guardrails, as the one condition under which an offer is followed.\<close>

definition may_follow :: "crypto \<Rightarrow> int \<Rightarrow> rec \<Rightarrow> succession_body \<Rightarrow> registry \<Rightarrow> bool" where
  "may_follow c now rec body r \<longleftrightarrow>
     (\<exists>pub. fmlookup (sr_keys r) (r_origin rec) = Some pub \<and> verify_succession_record c rec pub = Inr body) \<and>
     fmlookup (sr_by_predecessor r) (r_origin rec) = None \<and>
     (sr_window r \<le> 0 \<or> \<bar>unix_time (sb_effective body) - now\<bar> \<le> sr_window r) \<and>
     \<not> reaches r (sb_successor body) (r_origin rec) \<and> chain_len r (r_origin rec) < MaxChain"

definition followed_state :: "rec \<Rightarrow> succession_body \<Rightarrow> registry \<Rightarrow> registry" where
  "followed_state rec body r =
     r\<lparr>sr_by_predecessor := fmupd (r_origin rec)
          \<lparr>h_successor = sb_successor body, h_effective = unix_time (sb_effective body),
           h_pubkey = sb_new_public_key body, h_record = r_id rec\<rparr> (sr_by_predecessor r),
        sr_keys := fmupd (sb_successor body) (sb_new_public_key body) (sr_keys r)\<rparr>"

text \<open>An offer either follows under the guardrails or changes nothing but the event log.\<close>

lemma refuse_simps [simp]:
  "ev_kind (fst (refuse now p q e w r)) = Refused"
  "snd (refuse now p q e w r) = r\<lparr>sr_events := sr_events r @ [fst (refuse now p q e w r)]\<rparr>"
  by (simp_all add: refuse_def)

lemma offer_verified_cases:
  obtains
    "fmlookup (sr_by_predecessor r) (r_origin rec) = None"
      "sr_window r \<le> 0 \<or> \<bar>unix_time (sb_effective body) - now\<bar> \<le> sr_window r"
      "\<not> reaches r (sb_successor body) (r_origin rec)" "chain_len r (r_origin rec) < MaxChain"
      "ev_kind (fst (offer_verified now rec body r)) = Followed"
      "snd (offer_verified now rec body r) =
         (followed_state rec body r)\<lparr>sr_events := sr_events r @ [fst (offer_verified now rec body r)]\<rparr>"
  | "\<not> (fmlookup (sr_by_predecessor r) (r_origin rec) = None \<and>
      (sr_window r \<le> 0 \<or> \<bar>unix_time (sb_effective body) - now\<bar> \<le> sr_window r) \<and>
      \<not> reaches r (sb_successor body) (r_origin rec) \<and> chain_len r (r_origin rec) < MaxChain)"
      "ev_kind (fst (offer_verified now rec body r)) \<noteq> Followed"
      "snd (offer_verified now rec body r) = r\<lparr>sr_events := sr_events r @ [fst (offer_verified now rec body r)]\<rparr>"
proof -
  let ?eff = "unix_time (sb_effective body)"
  have win: "sr_window r \<le> 0 \<or> \<bar>?eff - now\<bar> \<le> sr_window r \<longleftrightarrow>
      \<not> (sr_window r > 0 \<and> ?eff > now + sr_window r) \<and> \<not> (sr_window r > 0 \<and> ?eff < now - sr_window r)"
    by linarith
  show thesis
  proof (cases "fmlookup (sr_by_predecessor r) (r_origin rec)")
    case (Some e)
    then show thesis by (intro that(2)) (simp_all add: offer_verified_def Let_def refuse_def)
  next
    case None
    show thesis
    proof (cases "(sr_window r \<le> 0 \<or> \<bar>?eff - now\<bar> \<le> sr_window r) \<and>
        \<not> reaches r (sb_successor body) (r_origin rec) \<and> chain_len r (r_origin rec) < MaxChain")
      case True
      then show thesis using None unfolding win
        by (intro that(1)) (auto simp: win offer_verified_def Let_def followed_state_def)
    next
      case False
      then show thesis using None unfolding win
        by (intro that(2)) (auto simp: offer_verified_def Let_def refuse_def win)
    qed
  qed
qed

lemma offer_cases:
  obtains rec body where "orec = Some rec" "may_follow c now rec body r"
      "ev_kind (fst (offer c now orec r)) = Followed"
      "snd (offer c now orec r) = (followed_state rec body r)\<lparr>sr_events := sr_events r @ [fst (offer c now orec r)]\<rparr>"
  | "\<nexists>rec body. orec = Some rec \<and> may_follow c now rec body r"
      "ev_kind (fst (offer c now orec r)) \<noteq> Followed"
      "snd (offer c now orec r) = r\<lparr>sr_events := sr_events r @ [fst (offer c now orec r)]\<rparr>"
proof -
  have type: "may_follow c now rec body r \<Longrightarrow> r_type rec = TypeSuccession" for rec body
    by (auto simp: may_follow_def dest: verify_succession_ok(1))
  show thesis
  proof (cases "\<exists>rec pub body. orec = Some rec \<and> r_type rec = TypeSuccession \<and>
      fmlookup (sr_keys r) (r_origin rec) = Some pub \<and> verify_succession_record c rec pub = Inr body")
    case True
    then obtain rec pub body where o: "orec = Some rec" "r_type rec = TypeSuccession"
      "fmlookup (sr_keys r) (r_origin rec) = Some pub" "verify_succession_record c rec pub = Inr body" by blast
    then have eq: "offer c now orec r = offer_verified now rec body r" by (simp add: offer_def)
    have mf: "may_follow c now rec b r \<longleftrightarrow> b = body \<and>
        fmlookup (sr_by_predecessor r) (r_origin rec) = None \<and>
        (sr_window r \<le> 0 \<or> \<bar>unix_time (sb_effective body) - now\<bar> \<le> sr_window r) \<and>
        \<not> reaches r (sb_successor body) (r_origin rec) \<and> chain_len r (r_origin rec) < MaxChain" for b
      using o by (auto simp: may_follow_def)
    show thesis
    proof (cases rule: offer_verified_cases [of r rec body now])
      case 1
      then show thesis using that(1) [of rec body] o eq mf by simp
    next
      case 2
      then show thesis using that(2) o eq mf by simp
    qed
  next
    case False
    then have "\<nexists>rec body. orec = Some rec \<and> may_follow c now rec body r"
      using type unfolding may_follow_def by metis
    moreover obtain p q e w where "offer c now orec r = refuse now p q e w r"
    proof (cases orec)
      case None
      then show ?thesis using that by (simp add: offer_def)
    next
      case (Some rec)
      show ?thesis
      proof (cases "r_type rec = TypeSuccession")
        case ty: True
        show ?thesis
        proof (cases "fmlookup (sr_keys r) (r_origin rec)")
          case None
          then show ?thesis using that Some ty by (simp add: offer_def)
        next
          case key: (Some pub)
          then obtain e where "verify_succession_record c rec pub = Inl e"
            using False Some ty by (cases "verify_succession_record c rec pub") auto
          then show ?thesis using that Some ty key by (simp add: offer_def)
        qed
      next
        case False
        then show ?thesis using that Some by (simp add: offer_def)
      qed
    qed
    ultimately show thesis using that(2) by simp
  qed
qed

section \<open>The registry as a state machine\<close>

inductive registry_step :: "crypto \<Rightarrow> registry \<Rightarrow> registry \<Rightarrow> bool" for c where
  Learn: "registry_step c r (learn_key c nid pub r)"
| Window: "registry_step c r (set_window d r)"
| Offer: "registry_step c r (snd (offer c now orec r))"

inductive_cases registry_stepE: "registry_step c r r'"

inductive registry_reachable :: "crypto \<Rightarrow> registry \<Rightarrow> bool" for c where
  Init: "registry_reachable c registry_new"
| Step: "registry_reachable c r \<Longrightarrow> registry_step c r r' \<Longrightarrow> registry_reachable c r'"

text \<open>No identity is handed around in a circle, and every key held is its owner's.\<close>

definition registry_inv :: "crypto \<Rightarrow> registry \<Rightarrow> bool" where
  "registry_inv c r \<longleftrightarrow> acyclic (hops (sr_by_predecessor r)) \<and>
     (\<forall>nid pub. fmlookup (sr_keys r) nid = Some pub \<longrightarrow> nid = node_id_from_public_key (blake3 c) pub) \<and>
     (\<forall>nid e. fmlookup (sr_by_predecessor r) nid = Some e \<longrightarrow>
        nid \<in> fset (fmdom (sr_keys r)) \<and> h_successor e \<in> fset (fmdom (sr_keys r)) \<and>
        node_id_from_public_key (blake3 c) (h_pubkey e) = h_successor e)"

lemma may_follow_props:
  assumes "may_follow c now rec body r"
  shows "fmlookup (sr_by_predecessor r) (r_origin rec) = None"
    "(sb_successor body, r_origin rec) \<notin> (hops (sr_by_predecessor r))\<^sup>*"
    "sb_successor body = node_id_from_public_key (blake3 c) (sb_new_public_key body)"
    "r_origin rec \<in> fset (fmdom (sr_keys r))"
proof -
  show free: "fmlookup (sr_by_predecessor r) (r_origin rec) = None" using assms by (simp add: may_follow_def)
  show "(sb_successor body, r_origin rec) \<notin> (hops (sr_by_predecessor r))\<^sup>*"
    using no_path_back [OF free] assms by (simp add: may_follow_def)
  obtain pub where pub: "fmlookup (sr_keys r) (r_origin rec) = Some pub" "verify_succession_record c rec pub = Inr body"
    using assms by (auto simp: may_follow_def)
  show "sb_successor body = node_id_from_public_key (blake3 c) (sb_new_public_key body)"
    by (rule verify_succession_ok(5) [OF pub(2)])
  show "r_origin rec \<in> fset (fmdom (sr_keys r))" using pub(1) by (rule fmdomI)
qed

lemma followed_inv: "registry_inv c r \<Longrightarrow> may_follow c now rec body r \<Longrightarrow> registry_inv c (followed_state rec body r)"
  using may_follow_props [of c now rec body r]
  by (simp add: registry_inv_def followed_state_def hops_upd acyclic_insert split: if_splits)

lemma registry_inv_events [simp]: "registry_inv c (r\<lparr>sr_events := es\<rparr>) = registry_inv c r"
  by (simp add: registry_inv_def)

lemma registry_inv_step: "registry_step c r r' \<Longrightarrow> registry_inv c r \<Longrightarrow> registry_inv c r'"
proof (induction rule: registry_step.induct)
  case (Learn r nid pub)
  then show ?case
    by (cases "node_id_matches (blake3 c) nid pub") (simp_all add: registry_inv_def learn_key_def node_id_matches_def)
next
  case (Window r d)
  then show ?case by (simp add: registry_inv_def set_window_def)
next
  case (Offer r now orec)
  then show ?case by (cases rule: offer_cases [of orec c now r]) (simp_all add: followed_inv)
qed

lemma registry_inv_reachable: "registry_reachable c r \<Longrightarrow> registry_inv c r"
proof (induction rule: registry_reachable.induct)
  case Init
  then show ?case by (simp add: registry_inv_def registry_new_def hops_def acyclic_def)
next
  case (Step r r')
  then show ?case by (simp add: registry_inv_step)
qed

text \<open>Hops and events only accumulate.\<close>

definition extends_registry :: "registry \<Rightarrow> registry \<Rightarrow> bool" where
  "extends_registry r r' \<longleftrightarrow>
     (\<forall>nid e. fmlookup (sr_by_predecessor r) nid = Some e \<longrightarrow> fmlookup (sr_by_predecessor r') nid = Some e) \<and>
     (\<exists>es. sr_events r' = sr_events r @ es)"

lemma extends_step: "registry_step c r r' \<Longrightarrow> extends_registry r r'"
proof (induction rule: registry_step.induct)
  case (Offer r now orec)
  show ?case
  proof (cases rule: offer_cases [of orec c now r])
    case (1 rec body)
    then show ?thesis
      using may_follow_props(1) [OF 1(2)] by (simp add: extends_registry_def followed_state_def)
  qed (simp add: extends_registry_def)
qed (simp_all add: extends_registry_def learn_key_def set_window_def)

lemma registry_extends_trans: "extends_registry a b \<Longrightarrow> extends_registry b c \<Longrightarrow> extends_registry a c"
  unfolding extends_registry_def by (metis append_assoc)

lemma extends_steps: "(registry_step c)\<^sup>*\<^sup>* r r' \<Longrightarrow> extends_registry r r'"
proof (induction rule: rtranclp_induct)
  case base
  then show ?case by (simp add: extends_registry_def)
next
  case (step y z)
  then show ?case using extends_step registry_extends_trans by blast
qed

section \<open>Resolution\<close>

lemma resolve_loop_path: "\<exists>k \<le> n. (nid, resolve_loop n m nid) \<in> hops m ^^ k \<and>
    (k < n \<longrightarrow> fmlookup m (resolve_loop n m nid) = None)"
proof (induction n arbitrary: nid)
  case (Suc n)
  show ?case
  proof (cases "fmlookup m nid")
    case None
    then show ?thesis by (intro exI [of _ 0]) simp
  next
    case (Some e)
    obtain k where k: "k \<le> n" "(h_successor e, resolve_loop n m (h_successor e)) \<in> hops m ^^ k"
      "k < n \<longrightarrow> fmlookup m (resolve_loop n m (h_successor e)) = None"
      using Suc.IH by blast
    have "(nid, h_successor e) \<in> hops m" using Some by (simp add: hops_def)
    then have "(nid, resolve_loop n m (h_successor e)) \<in> hops m ^^ Suc k" using k(2) by (rule relpow_Suc_I2)
    then show ?thesis using Some k by (intro exI [of _ "Suc k"]) simp
  qed
qed simp

lemma chain_resolve: "last (chain r nid) = resolve r nid"
proof -
  have "last (nid # chain_loop n m nid) = resolve_loop n m nid" for n m
    by (induction n arbitrary: nid) (auto split: option.splits)
  then show ?thesis by (simp add: chain_def resolve_def)
qed

section \<open>Concrete rotations\<close>

text \<open>
  A hash that keeps its input and a signature check that always succeeds, for evaluating the
  registry on small inputs: the node with key byte \<open>i\<close> hands over to the one with key byte \<open>j\<close>.
\<close>

definition plain_crypto :: crypto where
  "plain_crypto = \<lparr>blake3 = (\<lambda>m. take 32 (m @ replicate 32 0)), ed_sign = (\<lambda>k m. []), ed_verify = (\<lambda>p m s. True)\<rparr>"

definition plain_pub :: "u8 \<Rightarrow> bytes" where
  "plain_pub i = i # replicate 31 0"

definition plain_id :: "u8 \<Rightarrow> node_id" where
  "plain_id i = copy_array [i]"

definition rotation :: "u8 \<Rightarrow> u8 \<Rightarrow> rec" where
  "rotation i j =
     (blank_record (plain_id i) 1 0 TypeSuccession zero_array (array_bytes (plain_id j) @ plain_pub j @ put_u32 0))
       \<lparr>r_signed := [1], r_id := derive_id plain_crypto [1]\<rparr>"

definition rotate :: "u8 \<times> u8 \<Rightarrow> registry \<Rightarrow> registry" where
  "rotate p r = snd (offer plain_crypto 0 (Some (rotation (fst p) (snd p))) r)"

definition start_registry :: registry where
  "start_registry = learn_key plain_crypto (plain_id 1) (plain_pub 1)
     (learn_key plain_crypto (plain_id 10) (plain_pub 10) registry_new)"

lemma rotate_step: "registry_reachable plain_crypto r \<Longrightarrow> registry_reachable plain_crypto (rotate p r)"
  unfolding rotate_def by (blast intro: registry_reachable.Step registry_step.Offer)

lemma rotations_reachable: "registry_reachable plain_crypto r \<Longrightarrow> registry_reachable plain_crypto (fold rotate ps r)"
  by (induction ps arbitrary: r) (simp_all add: rotate_step)

lemma start_reachable: "registry_reachable plain_crypto start_registry"
  unfolding start_registry_def by (blast intro: registry_reachable.intros registry_step.Learn)

lemma first_rotation: "superseded (rotate (1, 2) start_registry) (plain_id 1) = Some (plain_id 2)"
  by code_simp

section \<open>Properties\<close>

text \<open>
  C30. Whatever keys are learned and whatever records are offered, in any order: the accepted
  successions never form a cycle, every key the registry holds for a node hashes to that node's
  ID, and both ends of every hop have a known key.
\<close>

theorem succession_invariant:
  assumes "registry_reachable c r"
  shows "acyclic (hops (sr_by_predecessor r)) \<and>
    (\<forall>nid pub. fmlookup (sr_keys r) nid = Some pub \<longrightarrow> node_id_matches (blake3 c) nid pub) \<and>
    (\<forall>nid s. superseded r nid = Some s \<longrightarrow> known_key r nid \<noteq> None \<and> known_key r s \<noteq> None)"
proof -
  have inv: "registry_inv c r" using assms by (rule registry_inv_reachable)
  moreover have "known_key r nid \<noteq> None \<longleftrightarrow> nid \<in> fset (fmdom (sr_keys r))" for nid
    by (auto simp: known_key_def fmlookup_dom_iff)
  ultimately show ?thesis by (auto simp: registry_inv_def node_id_matches_def superseded_def)
qed

theorem succession_invariant_witness:
  "superseded (rotate (1, 2) start_registry) (plain_id 1) = Some (plain_id 2) \<and>
   known_key (rotate (1, 2) start_registry) (plain_id 2) \<noteq> None"
  using succession_invariant [OF rotate_step [OF start_reachable], of "(1, 2)"] first_rotation by blast

text \<open>
  C32. The guardrails decide, and every outcome is disclosed. An offer is followed exactly when
  its origin's key is known and verifies it, the origin has no succession yet, \<open>effective\<close> lies
  within the window (when one is set), the successor does not lead back to the origin and fewer
  than eight hops end at it; then the hop and the successor's key are recorded. In every other
  case nothing changes but the log. Exactly one event is appended, the one returned.
\<close>

theorem offer_guardrails:
  "(ev_kind (fst (offer c now orec r)) = Followed \<and>
     (\<exists>rec body. orec = Some rec \<and> may_follow c now rec body r \<and>
        snd (offer c now orec r) = (followed_state rec body r)\<lparr>sr_events := sr_events r @ [fst (offer c now orec r)]\<rparr>))
   \<or> (ev_kind (fst (offer c now orec r)) \<in> {Refused, Duplicate} \<and>
     (\<nexists>rec body. orec = Some rec \<and> may_follow c now rec body r) \<and>
     snd (offer c now orec r) = r\<lparr>sr_events := sr_events r @ [fst (offer c now orec r)]\<rparr>)"
proof (cases rule: offer_cases [of orec c now r])
  case (1 rec body)
  then show ?thesis by blast
next
  case 2
  then show ?thesis by (cases "ev_kind (fst (offer c now orec r))") auto
qed

text \<open>
  C31. A succession is final. Once a node is superseded, no later sequence of operations changes
  its hop, and its tombstone never moves: at any later time its records are accepted exactly up
  to the handover's \<open>effective\<close> time, whatever else is offered.
\<close>

theorem succession_permanent:
  assumes "(registry_step c)\<^sup>*\<^sup>* r r'" and "fmlookup (sr_by_predecessor r) nid = Some e"
  shows "fmlookup (sr_by_predecessor r') nid = Some e \<and>
    accepts_record r' nid ts = (unix_time ts \<le> h_effective e)"
proof -
  have "fmlookup (sr_by_predecessor r') nid = Some e"
    using extends_steps [OF assms(1)] assms(2) by (simp add: extends_registry_def)
  then show ?thesis by (simp add: accepts_record_def)
qed

theorem succession_permanent_witness:
  "\<exists>e. fmlookup (sr_by_predecessor (rotate (1, 3) (rotate (1, 2) start_registry))) (plain_id 1) = Some e \<and>
     h_successor e = plain_id 2 \<and>
     accepts_record (rotate (1, 3) (rotate (1, 2) start_registry)) (plain_id 1) 5 = (unix_time 5 \<le> h_effective e)"
proof -
  have "(registry_step plain_crypto)\<^sup>*\<^sup>* (rotate (1, 2) start_registry) (rotate (1, 3) (rotate (1, 2) start_registry))"
    unfolding rotate_def [of "(1, 3)"] by (blast intro: registry_step.Offer)
  moreover obtain e where "fmlookup (sr_by_predecessor (rotate (1, 2) start_registry)) (plain_id 1) = Some e"
    "h_successor e = plain_id 2"
    using first_rotation by (auto simp: superseded_def)
  ultimately show ?thesis using succession_permanent by metis
qed

text \<open>
  \<open>Resolve\<close> follows accepted hops and stops at a node that is not superseded, or after
  eight hops. The second case does occur: the chain limit counts only the hops that end at an
  offer's origin, so a node may hand over to the head of a full chain; its resolution then
  stops at an ID that is itself superseded.
\<close>

theorem resolve_outcome:
  "(nid, resolve r nid) \<in> (hops (sr_by_predecessor r))\<^sup>* \<and>
   (superseded r (resolve r nid) = None \<or> (nid, resolve r nid) \<in> hops (sr_by_predecessor r) ^^ 8) \<and>
   (\<exists>r' nid'. registry_reachable plain_crypto r' \<and> superseded r' (resolve r' nid') \<noteq> None)"
proof (intro conjI)
  obtain k where k: "k \<le> MaxChain" "(nid, resolve r nid) \<in> hops (sr_by_predecessor r) ^^ k"
    "k < MaxChain \<longrightarrow> fmlookup (sr_by_predecessor r) (resolve r nid) = None"
    unfolding resolve_def using resolve_loop_path by blast
  show "(nid, resolve r nid) \<in> (hops (sr_by_predecessor r))\<^sup>*" using k(2) by (rule relpow_imp_rtrancl)
  show "superseded r (resolve r nid) = None \<or> (nid, resolve r nid) \<in> hops (sr_by_predecessor r) ^^ 8"
    using k by (cases "k = 8") (simp_all add: superseded_def MaxChain_def)
  have "superseded
      (fold rotate [(1, 2), (2, 3), (3, 4), (4, 5), (5, 6), (6, 7), (7, 8), (8, 9), (10, 1)] start_registry)
      (resolve (fold rotate [(1, 2), (2, 3), (3, 4), (4, 5), (5, 6), (6, 7), (7, 8), (8, 9), (10, 1)] start_registry)
        (plain_id 10)) = Some (plain_id 9)"
    by code_simp
  then show "\<exists>r' nid'. registry_reachable plain_crypto r' \<and> superseded r' (resolve r' nid') \<noteq> None"
    using rotations_reachable [OF start_reachable] by (metis option.distinct(1))
qed

end
