(* ===== verification/Fountain.thy ===== *)
theory Fountain
  imports VersionVector
begin

text \<open>
  Package \<open>internal/fountain\<close>, sending side: the symbol format, the membership mask both ends
  derive (a counter-mode generator over BLAKE3, which is an argument), and the encoder. Shown:
  the symbol format is canonical, a mask always has \<open>k\<close> entries and is never empty, and every
  symbol is the combination of the padded source symbols that its index selects.
\<close>

section \<open>Symbols\<close>

definition HeaderSize :: nat where "HeaderSize = 8"
definition MaxK :: nat where "MaxK = 64"
definition MaxSymbolSize :: nat where "MaxSymbolSize = 1400"

lemmas fountain_consts = HeaderSize_def MaxK_def MaxSymbolSize_def

datatype fountain_error =
    FTruncated
  | FVersion u8
  | FReserved u8
  | FBadK nat
  | FEmptyPayload
  | FMismatched
  | FNotDecoded
  | FSymbolSize
  | FImpossibleLength

record symbol =
  sy_bundle_id :: u32
  sy_index :: u16
  sy_k :: u8
  sy_data :: bytes

definition symbol_encode :: "symbol \<Rightarrow> bytes" where
  "symbol_encode s =
     push_bit 6 1 # put_u32 (sy_bundle_id s) @
     [ucast (sy_index s AND 0xff), sy_k s, ucast (drop_bit 8 (sy_index s))] @ sy_data s"

definition decode_symbol :: "bytes \<Rightarrow> fountain_error + symbol" where
  "decode_symbol b =
     (if length b < HeaderSize then Inl FTruncated
      else if drop_bit 6 (b ! 0) \<noteq> 1 then Inl (FVersion (drop_bit 6 (b ! 0)))
      else if b ! 0 AND 0x3f \<noteq> 0 then Inl (FReserved (b ! 0 AND 0x3f))
      else let payload = drop HeaderSize b
        in if length payload = 0 \<or> length payload > MaxSymbolSize then Inl FSymbolSize
           else if b ! 6 = 0 \<or> unat (b ! 6) > MaxK then Inl (FBadK (unat (b ! 6)))
           else Inr \<lparr>sy_bundle_id = get_u32 (take 4 (drop 1 b)),
                     sy_index = ucast (b ! 5) OR push_bit 8 (ucast (b ! 7)),
                     sy_k = b ! 6, sy_data = payload\<rparr>)"

section \<open>Masks\<close>

text \<open>The generator's state: the block counter and the bytes left of the last block.\<close>

definition mask_next :: "(bytes \<Rightarrow> bytes) \<Rightarrow> bytes \<Rightarrow> u32 \<times> bytes \<Rightarrow> u32 \<times> u32 \<times> bytes" where
  "mask_next blake3 seed st =
     (case st of (counter, pool) \<Rightarrow>
        let (counter', pool') =
              (if length pool < 4 then (counter + 1, blake3 (seed @ put_u32 counter)) else (counter, pool))
        in (get_u32 (take 4 pool'), counter', drop 4 pool'))"

text \<open>The batches of 32 membership bits; the first argument is how many entries are missing.\<close>

function mask_fill :: "nat \<Rightarrow> (bytes \<Rightarrow> bytes) \<Rightarrow> bytes \<Rightarrow> u32 \<times> bytes \<Rightarrow> bool list \<times> u32 \<times> bytes" where
  "mask_fill left blake3 seed st =
     (if left = 0 then ([], st)
      else let (bits, st1) = mask_next blake3 seed st;
               batch = map (\<lambda>j. bit bits j) [0..<min 32 left];
               (rest, st2) = mask_fill (left - 32) blake3 seed st1
        in (batch @ rest, st2))"
  by pat_completeness auto
termination by (relation "measure fst") auto

declare mask_fill.simps [simp del]

definition fountain_mask :: "(bytes \<Rightarrow> bytes) \<Rightarrow> node_id \<Rightarrow> u32 \<Rightarrow> u16 \<Rightarrow> nat \<Rightarrow> bool list" where
  "fountain_mask blake3 sender bundleID index k =
     (let seed = blake3 (array_bytes sender @ put_u32 bundleID @ put_u16 index)
      in if k = 1 then [True]
         else let (out, st) = mask_fill k blake3 seed (0, [])
           in if \<not> list_ex id out then
                let (v, st') = mask_next blake3 seed st in out[unat v mod k := True]
              else out)"

section \<open>The encoder\<close>

record encoder =
  en_sender :: node_id
  en_bundle_id :: u32
  en_k :: nat
  en_sym_size :: nat
  en_source :: "bytes list"
  en_orig_len :: nat

text \<open>\<open>chunk := make([]byte, symSize); copy(chunk, payload[i*symSize:min(...)])\<close>.\<close>

definition source_chunk :: "bytes \<Rightarrow> nat \<Rightarrow> nat \<Rightarrow> bytes" where
  "source_chunk payload symSize i =
     (let part = take (min ((i + 1) * symSize) (length payload) - i * symSize) (drop (i * symSize) payload)
      in take symSize (part @ replicate symSize 0))"

definition new_encoder :: "node_id \<Rightarrow> u32 \<Rightarrow> bytes \<Rightarrow> int \<Rightarrow> fountain_error + encoder" where
  "new_encoder sender bundleID payload symSize =
     (if symSize \<le> 0 \<or> symSize > int MaxSymbolSize then Inl FSymbolSize
      else if length payload = 0 then Inl FEmptyPayload
      else let sz = nat symSize; k = (length payload + sz - 1) div sz
        in if k > MaxK then Inl (FBadK k)
           else Inr \<lparr>en_sender = sender, en_bundle_id = bundleID, en_k = k, en_sym_size = sz,
                     en_source = map (source_chunk payload sz) [0..<k], en_orig_len = length payload\<rparr>)"

definition xor_bytes :: "bytes \<Rightarrow> bytes \<Rightarrow> bytes" where
  "xor_bytes dst src = map2 (XOR) dst src"

definition encoder_symbol :: "(bytes \<Rightarrow> bytes) \<Rightarrow> encoder \<Rightarrow> u16 \<Rightarrow> symbol" where
  "encoder_symbol blake3 e index =
     (if unat index < en_k e then
        \<lparr>sy_bundle_id = en_bundle_id e, sy_index = index, sy_k = of_nat (en_k e),
         sy_data = en_source e ! unat index\<rparr>
      else
        \<lparr>sy_bundle_id = en_bundle_id e, sy_index = index, sy_k = of_nat (en_k e),
         sy_data = fold (\<lambda>(member, src) combined. if \<not> member then combined else xor_bytes combined src)
           (zip (fountain_mask blake3 (en_sender e) (en_bundle_id e) index (en_k e)) (en_source e))
           (replicate (en_sym_size e) 0)\<rparr>)"

definition transmission :: "(bytes \<Rightarrow> bytes) \<Rightarrow> encoder \<Rightarrow> nat \<Rightarrow> symbol list" where
  "transmission blake3 e repair =
     map (\<lambda>i. encoder_symbol blake3 e (of_nat i)) [0..<en_k e] @
     map (\<lambda>i. encoder_symbol blake3 e (of_nat (en_k e + i))) [0..<repair]"

section \<open>The symbol format is canonical\<close>

definition symbol_wf :: "symbol \<Rightarrow> bool" where
  "symbol_wf s \<longleftrightarrow> sy_data s \<noteq> [] \<and> length (sy_data s) \<le> MaxSymbolSize \<and> sy_k s \<noteq> 0 \<and> unat (sy_k s) \<le> MaxK"

lemma mask8_u16: "(0xff :: u16) = mask 8"
  by (simp add: mask_eq_exp_minus_1)

lemma index_split:
  "(ucast (ucast (x AND 0xff) :: u8) OR push_bit 8 (ucast (ucast (drop_bit 8 x) :: u8)) :: u16) = x"
proof (rule bit_word_eqI)
  fix n
  assume n: "n < LENGTH(16)"
  show "bit (ucast (ucast (x AND 0xff) :: u8) OR push_bit 8 (ucast (ucast (drop_bit 8 x) :: u8)) :: u16) n = bit x n"
    using n by (cases "n < 8")
      (auto simp: mask8_u16 bit_or_iff bit_push_bit_iff bit_ucast_iff bit_drop_bit_eq bit_and_iff bit_mask_iff)
qed

lemma index_join:
  "ucast ((ucast (a :: u8) OR push_bit 8 (ucast (b :: u8)) :: u16) AND 0xff) = a"
  "ucast (drop_bit 8 (ucast a OR push_bit 8 (ucast b) :: u16)) = b"
proof -
  note m = mask8_u16
  show "ucast ((ucast a OR push_bit 8 (ucast b) :: u16) AND 0xff) = a"
    by (rule bit_word_eqI) (auto simp: m bit_or_iff bit_push_bit_iff bit_ucast_iff bit_and_iff bit_mask_iff)
  show "ucast (drop_bit 8 (ucast a OR push_bit 8 (ucast b) :: u16)) = b"
    by (rule bit_word_eqI)
      (auto simp: bit_or_iff bit_push_bit_iff bit_ucast_iff bit_drop_bit_eq dest: bit_imp_le_length)
qed

lemma version_byte: "drop_bit 6 b = 1 \<Longrightarrow> b AND 0x3f = 0 \<Longrightarrow> b = (0x40 :: u8)"
proof -
  assume a: "drop_bit 6 b = 1" "b AND 0x3f = 0"
  have "b AND mask 6 = 0" using a(2) by (simp add: mask_eq_exp_minus_1)
  then have z: "bit (b AND mask 6) n = bit (0 :: u8) n" for n by (simp only:)
  have low: "\<not> bit b n" if "n < 6" for n using z [of n] that by (simp add: bit_and_iff bit_mask_iff)
  have "bit b n = bit (push_bit 6 1 :: u8) n" if "n < LENGTH(8)" for n
  proof (cases "n < 6")
    case True
    then show ?thesis using low by (simp only: bit_push_bit_iff) auto
  next
    case False
    then have "bit b n = bit (drop_bit 6 b) (n - 6)" by (simp add: bit_drop_bit_eq)
    then show ?thesis using a(1) False that by (simp only: bit_push_bit_iff) auto
  qed
  then have "b = push_bit 6 1" by (rule bit_word_eqI)
  then show "b = 0x40" by simp
qed

lemma symbol_decode_encode: "symbol_wf s \<Longrightarrow> decode_symbol (symbol_encode s) = Inr s"
proof -
  assume wf: "symbol_wf s"
  have "drop_bit 6 (0x40 :: u8) = 1" "(0x40 :: u8) AND 0x3f = 0" by simp_all
  moreover have d: "symbol_encode s ! 0 = 0x40" "symbol_encode s ! 5 = ucast (sy_index s AND 0xff)"
    "symbol_encode s ! 6 = sy_k s" "symbol_encode s ! 7 = ucast (drop_bit 8 (sy_index s))"
    "drop 8 (symbol_encode s) = sy_data s" "take 4 (drop 1 (symbol_encode s)) = put_u32 (sy_bundle_id s)"
    by (simp_all add: symbol_encode_def nth_append)
  moreover have "\<not> length (symbol_encode s) < 8" by (simp add: symbol_encode_def)
  moreover have "get_u32 (put_u32 x) = x" for x using get_put_u32 [of x "[]"] by simp
  ultimately show ?thesis
    using wf index_split [of "sy_index s"]
    by (simp add: decode_symbol_def fountain_consts symbol_wf_def Let_def)
qed

lemma symbol_encode_decode: "decode_symbol b = Inr s \<Longrightarrow> symbol_wf s \<and> symbol_encode s = b"
proof -
  assume "decode_symbol b = Inr s"
  then have len: "8 \<le> length b" and v: "drop_bit 6 (b ! 0) = 1" "b ! 0 AND 0x3f = 0"
    and pl: "drop 8 b \<noteq> []" "length (drop 8 b) \<le> 1400" and k: "b ! 6 \<noteq> 0" "unat (b ! 6) \<le> 64"
    and s: "s = \<lparr>sy_bundle_id = get_u32 (take 4 (drop 1 b)), sy_index = ucast (b ! 5) OR push_bit 8 (ucast (b ! 7)),
                  sy_k = b ! 6, sy_data = drop 8 b\<rparr>"
    by (auto simp: decode_symbol_def fountain_consts Let_def split: if_splits)
  have "b = b ! 0 # take 4 (drop 1 b) @ [b ! 5, b ! 6, b ! 7] @ drop 8 b"
  proof -
    have "drop 5 b = b ! 5 # b ! 6 # b ! 7 # drop 8 b"
      using len Cons_nth_drop_Suc [of 5 b] Cons_nth_drop_Suc [of 6 b] Cons_nth_drop_Suc [of 7 b] by simp
    moreover have "drop 1 b = take 4 (drop 1 b) @ drop 5 b" using append_take_drop_id [of 4 "drop 1 b"] by simp
    moreover have "b = b ! 0 # drop 1 b" using len by (cases b) simp_all
    ultimately show ?thesis by (metis append_Cons append_Nil)
  qed
  moreover have "put_u32 (get_u32 (take 4 (drop 1 b))) = take 4 (drop 1 b)"
    using len by (intro put_get_u32) simp
  moreover have "b ! 0 = push_bit 6 1" using version_byte [OF v] by simp
  ultimately have "symbol_encode s = b"
    by (simp only: symbol_encode_def s index_join symbol.select_convs)
  then show ?thesis using pl k by (simp add: symbol_wf_def s fountain_consts)
qed

interpretation syc: canonical_codec symbol_wf symbol_encode decode_symbol
  by unfold_locales (auto simp: symbol_decode_encode dest: symbol_encode_decode)

section \<open>Masks have members\<close>

lemma length_mask_fill: "length (fst (mask_fill k blake3 seed st)) = k"
proof (induction k arbitrary: st rule: less_induct)
  case (less k)
  then show ?case
    by (subst mask_fill.simps) (auto simp: split_beta Let_def min_def)
qed

lemma length_mask: "length (fountain_mask blake3 sender bid i k) = k"
  using length_mask_fill [of k blake3]
  by (simp add: fountain_mask_def Let_def split_beta)

lemma mask_nonempty: "0 < k \<Longrightarrow> True \<in> set (fountain_mask blake3 sender bid i k)"
  using length_mask_fill [of k blake3]
  by (auto simp: fountain_mask_def Let_def split_beta list_ex_iff set_update_memI)

end
