(* ===== verification/Gf2.thy ===== *)
theory Gf2
  imports Fountain
begin

text \<open>
  The linear algebra of the fountain decoder: rows over GF(2) with a byte string as right-hand
  side, and \<open>trySolve\<close>'s Gaussian elimination (\<open>internal/fountain/codec.go\<close>). Shown: elimination
  succeeds exactly when the masks have a trivial kernel, and then returns the only block
  consistent with the rows.
\<close>

section \<open>Elimination, as the code does it\<close>

record equation =
  eq_mask :: "bool list"
  eq_data :: bytes

definition xor_into :: "bool list \<Rightarrow> bool list \<Rightarrow> bool list" where
  "xor_into dst src = map2 (\<noteq>) dst src"

definition eq_xor :: "equation \<Rightarrow> equation \<Rightarrow> equation" where
  "eq_xor a b = \<lparr>eq_mask = xor_into (eq_mask a) (eq_mask b), eq_data = xor_bytes (eq_data a) (eq_data b)\<rparr>"

text \<open>The working state of \<open>trySolve\<close>: copies of the rows, \<open>pivotRow\<close> (\<open>-1\<close> is None) and \<open>row\<close>.\<close>

record gauss =
  gs_rows :: "equation list"
  gs_pivot :: "nat option list"
  gs_row :: nat

definition swap_rows :: "equation list \<Rightarrow> nat \<Rightarrow> nat \<Rightarrow> equation list" where
  "swap_rows rows i j = rows[i := rows ! j, j := rows ! i]"

definition eliminate :: "equation list \<Rightarrow> nat \<Rightarrow> nat \<Rightarrow> equation list" where
  "eliminate rows p col =
     map (\<lambda>r. if r \<noteq> p \<and> eq_mask (rows ! r) ! col then eq_xor (rows ! r) (rows ! p) else rows ! r)
       [0..<length rows]"

definition solve_col :: "nat \<Rightarrow> gauss \<Rightarrow> gauss" where
  "solve_col col st =
     (if gs_row st < length (gs_rows st) then
        (case find (\<lambda>r. eq_mask (gs_rows st ! r) ! col) [gs_row st..<length (gs_rows st)] of
           None \<Rightarrow> st
         | Some sel \<Rightarrow>
             st\<lparr>gs_rows := eliminate (swap_rows (gs_rows st) (gs_row st) sel) (gs_row st) col,
                gs_pivot := (gs_pivot st)[col := Some (gs_row st)],
                gs_row := gs_row st + 1\<rparr>)
      else st)"

definition forward_elimination :: "nat \<Rightarrow> equation list \<Rightarrow> gauss" where
  "forward_elimination n rows =
     fold solve_col [0..<n] \<lparr>gs_rows = rows, gs_pivot = replicate n None, gs_row = 0\<rparr>"

definition try_solve :: "nat \<Rightarrow> equation list \<Rightarrow> bytes list option" where
  "try_solve n rows =
     (let st = forward_elimination n rows
      in if list_ex (\<lambda>p. p = None) (gs_pivot st) then None
         else Some (map (\<lambda>p. eq_data (gs_rows st ! the p)) (gs_pivot st)))"

section \<open>Combinations\<close>

text \<open>The parity of a mask on a bit vector, and the combination of source symbols it selects.\<close>

definition dot :: "bool list \<Rightarrow> bool list \<Rightarrow> bool" where
  "dot m x = foldr (\<noteq>) (map2 (\<and>) m x) False"

fun comb :: "nat \<Rightarrow> bool list \<Rightarrow> bytes list \<Rightarrow> bytes" where
  "comb sz (b # m) (s # S) = (if b then xor_bytes s (comb sz m S) else comb sz m S)"
| "comb sz _ _ = replicate sz 0"

definition unit_mask :: "nat \<Rightarrow> nat \<Rightarrow> bool list" where
  "unit_mask k i = (replicate k False)[i := True]"

lemma length_xor_bytes [simp]: "length (xor_bytes a b) = min (length a) (length b)"
  by (simp add: xor_bytes_def)

lemma length_xor_into [simp]: "length (xor_into a b) = min (length a) (length b)"
  by (simp add: xor_into_def)

lemma xor_bytes_commute: "xor_bytes a b = xor_bytes b a"
  unfolding xor_bytes_def by (induction a b rule: list_induct2') (auto simp: xor.commute)

lemma xor_bytes_assoc: "xor_bytes (xor_bytes a b) c = xor_bytes a (xor_bytes b c)"
  unfolding xor_bytes_def
proof (induction a arbitrary: b c)
  case (Cons x a)
  then show ?case by (cases b; cases c) (auto simp: xor.assoc)
qed simp

lemma xor_bytes_left_commute: "xor_bytes a (xor_bytes b c) = xor_bytes b (xor_bytes a c)"
  by (metis xor_bytes_assoc xor_bytes_commute)

lemmas xor_bytes_ac = xor_bytes_assoc xor_bytes_commute xor_bytes_left_commute

lemma xor_bytes_zero: "length a = n \<Longrightarrow> xor_bytes a (replicate n 0) = a"
  unfolding xor_bytes_def by (induction a arbitrary: n) (auto simp: Suc_length_conv)

lemma xor_bytes_self: "xor_bytes a a = replicate (length a) 0"
  unfolding xor_bytes_def by (induction a) auto

lemma xor_bytes_cancel:
  assumes "length a = n" "length b = n" "length c = n"
  shows "xor_bytes a c = xor_bytes b c \<longleftrightarrow> a = b"
proof
  assume "xor_bytes a c = xor_bytes b c"
  then have "xor_bytes (xor_bytes a c) c = xor_bytes (xor_bytes b c) c" by simp
  then show "a = b" using assms by (simp add: xor_bytes_assoc xor_bytes_self xor_bytes_zero)
qed simp

lemma length_comb: "(\<forall>s \<in> set S. length s = sz) \<Longrightarrow> length (comb sz m S) = sz"
  by (induction sz m S rule: comb.induct) auto

lemma comb_xor:
  assumes "length m = length S" "length m' = length S" "\<forall>s \<in> set S. length s = sz"
  shows "comb sz (xor_into m m') S = xor_bytes (comb sz m S) (comb sz m' S)"
  using assms
proof (induction S arbitrary: m m')
  case Nil
  then show ?case by (simp add: xor_into_def xor_bytes_zero)
next
  case (Cons s S)
  obtain b n b' n' where m: "m = b # n" "m' = b' # n'"
    using Cons.prems by (cases m; cases m') auto
  have IH: "comb sz (xor_into n n') S = xor_bytes (comb sz n S) (comb sz n' S)"
    using Cons m by simp
  have len: "length (comb sz n S) = sz" "length (comb sz n' S) = sz" "length s = sz"
    using Cons.prems by (simp_all add: length_comb)
  have cancel: "xor_bytes s (xor_bytes s u) = u" if "length u = sz" for u
  proof -
    have "xor_bytes s (xor_bytes s u) = xor_bytes u (xor_bytes s s)" by (simp add: xor_bytes_ac)
    then show ?thesis using that len(3) by (simp add: xor_bytes_self xor_bytes_zero)
  qed
  have "xor_bytes (xor_bytes s u) (xor_bytes s v) = xor_bytes s (xor_bytes s (xor_bytes u v))" for u v
    by (simp add: xor_bytes_ac)
  then have both: "xor_bytes (xor_bytes s (comb sz n S)) (xor_bytes s (comb sz n' S)) = comb sz (xor_into n n') S"
    using cancel [of "comb sz (xor_into n n') S"] IH len by simp
  have cons: "xor_into m m' = (b \<noteq> b') # xor_into n n'" by (simp add: m xor_into_def)
  show ?case
    unfolding cons using IH both by (cases b; cases b') (simp_all add: m xor_bytes_ac)
qed

lemma comb_none: "\<forall>b \<in> set m. \<not> b \<Longrightarrow> comb sz m S = replicate sz 0"
  by (induction sz m S rule: comb.induct) auto

lemma comb_unit:
  "i < length S \<Longrightarrow> \<forall>s \<in> set S. length s = sz \<Longrightarrow> comb sz (unit_mask (length S) i) S = S ! i"
proof (induction S arbitrary: i)
  case (Cons s S)
  show ?case
  proof (cases i)
    case 0
    have "comb sz (replicate (length S) False) S = replicate sz 0" by (rule comb_none) simp
    then show ?thesis using 0 Cons.prems by (simp add: unit_mask_def xor_bytes_zero)
  next
    case (Suc j)
    then show ?thesis using Cons by (simp add: unit_mask_def)
  qed
qed simp

lemma foldr_neq_xor:
  "length a = length b \<Longrightarrow>
   foldr (\<noteq>) (map2 (\<noteq>) a b) False = (foldr (\<noteq>) a False \<noteq> foldr (\<noteq>) b False)"
  by (induction a b rule: list_induct2) auto

lemma dot_xor:
  assumes "length m = length x" "length m' = length x"
  shows "dot (xor_into m m') x = (dot m x \<noteq> dot m' x)"
proof -
  have "map2 (\<and>) (xor_into m m') x = map2 (\<noteq>) (map2 (\<and>) m x) (map2 (\<and>) m' x)"
    using assms by (intro nth_equalityI) (auto simp: xor_into_def)
  then show ?thesis
    unfolding dot_def using foldr_neq_xor [of "map2 (\<and>) m x" "map2 (\<and>) m' x"] assms
    by (simp only: length_map length_zip)
qed

lemma dot_cong:
  "length m = length x \<Longrightarrow> length m' = length x \<Longrightarrow> (\<And>i. i < length x \<Longrightarrow> (m ! i \<and> x ! i) = (m' ! i \<and> x ! i)) \<Longrightarrow>
   dot m x = dot m' x"
  unfolding dot_def by (rule arg_cong [where f = "\<lambda>l. foldr (\<noteq>) l False"]) (simp add: list_eq_iff_nth_eq)

lemma dot_none: "(\<And>i. i < length x \<Longrightarrow> \<not> (m ! i \<and> x ! i)) \<Longrightarrow> length m = length x \<Longrightarrow> \<not> dot m x"
proof -
  assume a: "\<And>i. i < length x \<Longrightarrow> \<not> (m ! i \<and> x ! i)" "length m = length x"
  then have "map2 (\<and>) m x = replicate (length x) False" by (intro nth_equalityI) auto
  moreover have "\<not> foldr (\<noteq>) (replicate n False) False" for n by (induction n) auto
  ultimately show ?thesis by (simp add: dot_def)
qed

lemma dot_unit: "i < length x \<Longrightarrow> dot (unit_mask (length x) i) x = x ! i"
proof (induction x arbitrary: i)
  case (Cons b x)
  have "\<not> dot (replicate (length x) False) x" by (rule dot_none) simp_all
  then show ?case using Cons by (cases i) (auto simp: unit_mask_def dot_def)
qed simp

lemma length_unit_mask [simp]: "length (unit_mask k i) = k"
  by (simp add: unit_mask_def)

lemma nth_unit_mask: "i < k \<Longrightarrow> j < k \<Longrightarrow> unit_mask k i ! j = (i = j)"
  by (simp add: unit_mask_def nth_list_update)

section \<open>The elimination invariant\<close>

definition row_ok :: "nat \<Rightarrow> nat \<Rightarrow> equation \<Rightarrow> bool" where
  "row_ok k sz e \<longleftrightarrow> length (eq_mask e) = k \<and> length (eq_data e) = sz"

text \<open>
  A property of rows that adding a row with the property does not change. Being satisfied by a
  block of source symbols is one, being orthogonal to a bit vector another.
\<close>

definition xor_stable :: "nat \<Rightarrow> nat \<Rightarrow> (equation \<Rightarrow> bool) \<Rightarrow> bool" where
  "xor_stable k sz P \<longleftrightarrow> (\<forall>a b. row_ok k sz a \<and> row_ok k sz b \<and> P b \<longrightarrow> P (eq_xor a b) = P a)"

definition satisfied :: "nat \<Rightarrow> bytes list \<Rightarrow> equation \<Rightarrow> bool" where
  "satisfied sz S e \<longleftrightarrow> eq_data e = comb sz (eq_mask e) S"

lemma stable_satisfied:
  assumes "length S = k" "\<forall>s \<in> set S. length s = sz"
  shows "xor_stable k sz (satisfied sz S)"
  unfolding xor_stable_def
proof (intro allI impI)
  fix a b
  assume "row_ok k sz a \<and> row_ok k sz b \<and> satisfied sz S b"
  then show "satisfied sz S (eq_xor a b) = satisfied sz S a"
    using assms comb_xor [of "eq_mask a" S "eq_mask b" sz]
      xor_bytes_cancel [of "eq_data a" sz "comb sz (eq_mask a) S" "comb sz (eq_mask b) S"]
    by (simp add: satisfied_def eq_xor_def row_ok_def length_comb)
qed

lemma stable_orthogonal: "length x = k \<Longrightarrow> xor_stable k sz (\<lambda>e. \<not> dot (eq_mask e) x)"
  by (auto simp: xor_stable_def row_ok_def eq_xor_def dot_xor)

lemma row_ok_xor: "row_ok k sz a \<Longrightarrow> row_ok k sz b \<Longrightarrow> row_ok k sz (eq_xor a b)"
  by (simp add: row_ok_def eq_xor_def)

lemma set_swap_rows: "i < length rows \<Longrightarrow> j < length rows \<Longrightarrow> set (swap_rows rows i j) = set rows"
  unfolding swap_rows_def by (metis mset_swap set_mset_mset)

lemma length_swap_rows [simp]: "length (swap_rows rows i j) = length rows"
  by (simp add: swap_rows_def)

lemma length_eliminate [simp]: "length (eliminate rows p col) = length rows"
  by (simp add: eliminate_def)

lemma nth_swap_rows:
  "i < length rows \<Longrightarrow> j < length rows \<Longrightarrow> r < length rows \<Longrightarrow>
   swap_rows rows i j ! r = rows ! (if r = i then j else if r = j then i else r)"
  by (auto simp: swap_rows_def nth_list_update)

lemma nth_eliminate:
  "r < length rows \<Longrightarrow> eliminate rows p col ! r =
     (if r \<noteq> p \<and> eq_mask (rows ! r) ! col then eq_xor (rows ! r) (rows ! p) else rows ! r)"
  by (simp add: eliminate_def)

lemma eliminate_rows_ok:
  "\<forall>e \<in> set rows. row_ok k sz e \<Longrightarrow> p < length rows \<Longrightarrow> \<forall>e \<in> set (eliminate rows p col). row_ok k sz e"
  by (auto simp: all_set_conv_all_nth nth_eliminate row_ok_xor)

lemma eliminate_stable:
  assumes "xor_stable k sz P" and ok: "\<forall>e \<in> set rows. row_ok k sz e" and p: "p < length rows"
  shows "(\<forall>e \<in> set (eliminate rows p col). P e) \<longleftrightarrow> (\<forall>e \<in> set rows. P e)"
proof -
  have P: "P (eq_xor (rows ! r) (rows ! p)) = P (rows ! r)" if "r < length rows" "P (rows ! p)" for r
    using assms that by (simp add: xor_stable_def)
  have "P (eliminate rows p col ! r) = P (rows ! r)" if "r < length rows" "P (rows ! p)" for r
    using P that by (simp add: nth_eliminate)
  moreover have "eliminate rows p col ! p = rows ! p" using p by (simp add: nth_eliminate)
  ultimately show ?thesis using p by (simp add: all_set_conv_all_nth) metis
qed

definition gauss_inv :: "nat \<Rightarrow> nat \<Rightarrow> equation list \<Rightarrow> nat \<Rightarrow> gauss \<Rightarrow> bool" where
  "gauss_inv k sz rows0 col st \<longleftrightarrow>
     length (gs_rows st) = length rows0 \<and> length (gs_pivot st) = k \<and> gs_row st \<le> length rows0 \<and>
     (\<forall>e \<in> set (gs_rows st). row_ok k sz e) \<and>
     (\<forall>P. xor_stable k sz P \<longrightarrow> (\<forall>e \<in> set (gs_rows st). P e) = (\<forall>e \<in> set rows0. P e)) \<and>
     (\<forall>c p. c < k \<and> gs_pivot st ! c = Some p \<longrightarrow> c < col \<and> p < gs_row st \<and>
        (\<forall>r < length rows0. eq_mask (gs_rows st ! r) ! c = (r = p))) \<and>
     (\<forall>c c' p. c < k \<and> c' < k \<and> gs_pivot st ! c = Some p \<and> gs_pivot st ! c' = Some p \<longrightarrow> c = c') \<and>
     (\<forall>p < gs_row st. \<exists>c < k. gs_pivot st ! c = Some p) \<and>
     (\<forall>c < col. \<forall>r. gs_row st \<le> r \<and> r < length rows0 \<longrightarrow> \<not> eq_mask (gs_rows st ! r) ! c)"

lemma gauss_inv_init:
  "\<forall>e \<in> set rows. row_ok k sz e \<Longrightarrow>
   gauss_inv k sz rows 0 \<lparr>gs_rows = rows, gs_pivot = replicate k None, gs_row = 0\<rparr>"
  by (auto simp: gauss_inv_def)

lemma find_upt_Some:
  "find P [a..<b] = Some r \<Longrightarrow> a \<le> r \<and> r < b \<and> P r"
  by (auto simp: find_Some_iff)

lemma gauss_inv_skip:
  assumes inv: "gauss_inv k sz rows0 col st"
    and none: "\<forall>r. gs_row st \<le> r \<and> r < length rows0 \<longrightarrow> \<not> eq_mask (gs_rows st ! r) ! col"
  shows "gauss_inv k sz rows0 (Suc col) st"
  using assms unfolding gauss_inv_def less_Suc_eq by blast

lemma gauss_inv_pivot:
  assumes inv: "gauss_inv k sz rows0 col st" and col: "col < k"
    and sel: "gs_row st \<le> sel" "sel < length rows0" "eq_mask (gs_rows st ! sel) ! col"
  shows "gauss_inv k sz rows0 (Suc col)
     (st\<lparr>gs_rows := eliminate (swap_rows (gs_rows st) (gs_row st) sel) (gs_row st) col,
         gs_pivot := (gs_pivot st)[col := Some (gs_row st)], gs_row := gs_row st + 1\<rparr>)"
    (is "gauss_inv _ _ _ _ ?st'")
proof -
  let ?rows = "gs_rows st" and ?row = "gs_row st" and ?piv = "gs_pivot st"
  let ?rows1 = "swap_rows ?rows ?row sel"
  let ?rows2 = "eliminate ?rows1 ?row col"
  let ?t = "\<lambda>r. if r = ?row then sel else if r = sel then ?row else r"
  have len: "length ?rows = length rows0" "length ?piv = k" and row: "?row < length rows0"
    and ok: "\<forall>e \<in> set ?rows. row_ok k sz e"
    using inv sel by (auto simp: gauss_inv_def)
  have resp: "(\<forall>e \<in> set ?rows. P e) = (\<forall>e \<in> set rows0. P e)" if "xor_stable k sz P" for P
    using inv that by (simp add: gauss_inv_def)
  have piv: "c < col" "p < ?row" "\<And>r. r < length rows0 \<Longrightarrow> eq_mask (?rows ! r) ! c = (r = p)"
    if "c < k" "?piv ! c = Some p" for c p
    using inv that by (auto simp: gauss_inv_def)
  have inj: "c = c'" if "c < k" "c' < k" "?piv ! c = Some p" "?piv ! c' = Some p" for c c' p
    using inv that unfolding gauss_inv_def by blast
  have surj: "\<exists>c < k. ?piv ! c = Some p" if "p < ?row" for p
    using inv that by (simp add: gauss_inv_def)
  have low: "\<not> eq_mask (?rows ! r) ! c" if "c < col" "?row \<le> r" "r < length rows0" for c r
    using inv that by (simp add: gauss_inv_def)
  have free: "?piv ! col = None" using piv(1) [of col] col by (cases "?piv ! col") auto
  have ok1: "\<forall>e \<in> set ?rows1. row_ok k sz e" using ok row sel len by (simp add: set_swap_rows)
  have m1: "?rows1 ! r = ?rows ! ?t r" if "r < length rows0" for r
    using that row sel len by (simp add: nth_swap_rows)
  have m2: "eq_mask (?rows2 ! r) ! c =
      (if r \<noteq> ?row \<and> eq_mask (?rows ! ?t r) ! col then eq_mask (?rows ! ?t r) ! c \<noteq> eq_mask (?rows ! sel) ! c
       else eq_mask (?rows ! ?t r) ! c)" if "r < length rows0" "c < k" for r c
  proof -
    have "length (eq_mask (?rows1 ! r)) = k" "length (eq_mask (?rows1 ! ?row)) = k"
      using ok1 that row len by (simp_all add: row_ok_def)
    then have "eq_mask (?rows2 ! r) ! c =
        (if r \<noteq> ?row \<and> eq_mask (?rows1 ! r) ! col then eq_mask (?rows1 ! r) ! c \<noteq> eq_mask (?rows1 ! ?row) ! c
         else eq_mask (?rows1 ! r) ! c)"
      using that len by (auto simp: nth_eliminate eq_xor_def xor_into_def)
    then show ?thesis using m1 [OF that(1)] m1 [OF row] by simp
  qed
  have tlow: "?row \<le> ?t r" "?t r < length rows0" if "?row \<le> r" "r < length rows0" for r
    using that row sel by auto
  have new: "eq_mask (?rows2 ! r) ! col = (r = ?row)" if "r < length rows0" for r
    using m2 [OF that col] sel(3) by auto
  have old: "eq_mask (?rows2 ! r) ! c = (r = p)" if c: "c < k" "?piv ! c = Some p" and r: "r < length rows0" for c p r
  proof -
    have "\<not> eq_mask (?rows ! sel) ! c" using low [OF piv(1) [OF c] sel(1,2)] .
    then have "eq_mask (?rows2 ! r) ! c = eq_mask (?rows ! ?t r) ! c" using m2 [OF r c(1)] by simp
    also have "\<dots> = (?t r = p)" using piv(3) [OF c] r row sel by simp
    also have "\<dots> = (r = p)" using piv(2) [OF c] sel(1) by auto
    finally show ?thesis .
  qed
  have low': "\<not> eq_mask (?rows2 ! r) ! c" if "c < Suc col" "Suc ?row \<le> r" "r < length rows0" for c r
  proof (cases "c = col")
    case True
    then show ?thesis using new that by simp
  next
    case False
    then have c: "c < col" using that by simp
    have "?row \<le> r" using that(2) by simp
    then have "\<not> eq_mask (?rows ! ?t r) ! c" using low [OF c tlow(1) tlow(2)] that(3) by blast
    moreover have "\<not> eq_mask (?rows ! sel) ! c" by (rule low [OF c sel(1,2)])
    moreover have "c < k" using c col by simp
    ultimately show ?thesis using m2 [OF that(3)] by metis
  qed
  have resp': "(\<forall>e \<in> set ?rows2. P e) = (\<forall>e \<in> set rows0. P e)" if "xor_stable k sz P" for P
    using resp [OF that] eliminate_stable [OF that ok1, of ?row col] set_swap_rows [of ?row ?rows sel] row sel len
    by simp
  have "\<forall>e \<in> set ?rows2. row_ok k sz e" using ok1 row len by (intro eliminate_rows_ok) simp_all
  moreover have "c < Suc col \<and> p < Suc ?row \<and> (\<forall>r < length rows0. eq_mask (?rows2 ! r) ! c = (r = p))"
    if "c < k" "(?piv[col := Some ?row]) ! c = Some p" for c p
    using that new old piv(1,2) [of c p] len col by (cases "c = col") fastforce+
  moreover have "c = c'"
    if "c < k" "c' < k" "(?piv[col := Some ?row]) ! c = Some p" "(?piv[col := Some ?row]) ! c' = Some p" for c c' p
    using that inj [of c c' p] piv(2) [of c p] piv(2) [of c' p] len col
    by (cases "c = col"; cases "c' = col") auto
  moreover have "\<exists>c < k. (?piv[col := Some ?row]) ! c = Some p" if "p < Suc ?row" for p
  proof (cases "p = ?row")
    case True
    then show ?thesis using col len by (intro exI [of _ col]) simp
  next
    case False
    then have "p < ?row" using that by linarith
    then obtain c where c: "c < k" "?piv ! c = Some p" using surj [of p] by blast
    then have "c \<noteq> col" using free by auto
    then show ?thesis using c by (intro exI [of _ c]) simp
  qed
  ultimately show ?thesis
    unfolding gauss_inv_def using len row resp' low' by simp blast
qed

lemma gauss_inv_col:
  assumes inv: "gauss_inv k sz rows0 col st" and col: "col < k"
  shows "gauss_inv k sz rows0 (Suc col) (solve_col col st)"
proof -
  have len: "length (gs_rows st) = length rows0" using inv by (simp add: gauss_inv_def)
  show ?thesis
  proof (cases "gs_row st < length rows0")
    case True
    show ?thesis
    proof (cases "find (\<lambda>r. eq_mask (gs_rows st ! r) ! col) [gs_row st..<length (gs_rows st)]")
      case None
      then have "\<forall>r. gs_row st \<le> r \<and> r < length rows0 \<longrightarrow> \<not> eq_mask (gs_rows st ! r) ! col"
        using len by (simp add: find_None_iff)
      then show ?thesis using None True len gauss_inv_skip [OF inv] by (simp add: solve_col_def)
    next
      case (Some sel)
      note f = find_upt_Some [OF Some]
      show ?thesis using gauss_inv_pivot [OF inv col, of sel] f Some True len by (simp add: solve_col_def)
    qed
  next
    case False
    then have "gauss_inv k sz rows0 (Suc col) st" by (intro gauss_inv_skip [OF inv]) auto
    then show ?thesis using False len by (simp add: solve_col_def)
  qed
qed

lemma gauss_inv_final:
  assumes "\<forall>e \<in> set rows. row_ok k sz e"
  shows "gauss_inv k sz rows k (forward_elimination k rows)"
proof -
  have "n \<le> k \<Longrightarrow> gauss_inv k sz rows n
      (fold solve_col [0..<n] \<lparr>gs_rows = rows, gs_pivot = replicate k None, gs_row = 0\<rparr>)" for n
    by (induction n) (simp_all add: gauss_inv_init [OF assms] gauss_inv_col)
  then show ?thesis by (simp add: forward_elimination_def)
qed

section \<open>What elimination achieves\<close>

text \<open>No nonzero bit vector is orthogonal to every mask: the received rows fix the block.\<close>

definition determined :: "nat \<Rightarrow> equation list \<Rightarrow> bool" where
  "determined k rows \<longleftrightarrow>
     (\<forall>x. length x = k \<and> (\<forall>e \<in> set rows. \<not> dot (eq_mask e) x) \<longrightarrow> x = replicate k False)"

lemma pivot_unit:
  assumes inv: "gauss_inv k sz rows k st" and full: "None \<notin> set (gs_pivot st)"
    and c: "c < k" "gs_pivot st ! c = Some p"
  shows "p < length rows" "eq_mask (gs_rows st ! p) = unit_mask k c"
proof -
  have p: "p < gs_row st" "gs_row st \<le> length rows" using inv c by (auto simp: gauss_inv_def)
  then show "p < length rows" by simp
  have len: "length (eq_mask (gs_rows st ! p)) = k"
    using inv p by (simp add: gauss_inv_def row_ok_def)
  have "eq_mask (gs_rows st ! p) ! j = unit_mask k c ! j" if j: "j < k" for j
  proof -
    have "length (gs_pivot st) = k" using inv by (simp add: gauss_inv_def)
    then obtain q where q: "gs_pivot st ! j = Some q" using full j by (metis nth_mem not_None_eq)
    then have "eq_mask (gs_rows st ! p) ! j = (p = q)" using inv j p by (simp add: gauss_inv_def)
    also have "\<dots> = (c = j)" using inv j c q unfolding gauss_inv_def by (metis option.inject)
    finally show ?thesis using j c by (simp add: nth_unit_mask)
  qed
  then show "eq_mask (gs_rows st ! p) = unit_mask k c" using len by (intro nth_equalityI) simp_all
qed

lemma try_solve_Some:
  assumes ok: "\<forall>e \<in> set rows. row_ok k sz e" and some: "try_solve k rows = Some sol"
  shows "determined k rows" "k \<le> length rows"
    "length S = k \<Longrightarrow> \<forall>s \<in> set S. length s = sz \<Longrightarrow> \<forall>e \<in> set rows. satisfied sz S e \<Longrightarrow> sol = S"
proof -
  let ?st = "forward_elimination k rows"
  have inv: "gauss_inv k sz rows k ?st" by (rule gauss_inv_final [OF ok])
  have full: "None \<notin> set (gs_pivot ?st)" and sol: "sol = map (\<lambda>p. eq_data (gs_rows ?st ! the p)) (gs_pivot ?st)"
    using some by (auto simp: try_solve_def Let_def list_ex_iff split: if_splits)
  have lp: "length (gs_pivot ?st) = k" and lr: "length (gs_rows ?st) = length rows"
    using inv by (simp_all add: gauss_inv_def)
  have piv: "\<exists>p. gs_pivot ?st ! c = Some p \<and> p < length rows \<and> eq_mask (gs_rows ?st ! p) = unit_mask k c"
    if "c < k" for c
    using full lp that pivot_unit [OF inv full that] by (metis nth_mem not_None_eq)
  show "determined k rows"
    unfolding determined_def
  proof (intro allI impI)
    fix x
    assume x: "length x = k \<and> (\<forall>e \<in> set rows. \<not> dot (eq_mask e) x)"
    then have z: "\<forall>e \<in> set (gs_rows ?st). \<not> dot (eq_mask e) x"
      using inv stable_orthogonal [of x k sz] by (simp add: gauss_inv_def)
    have "\<not> x ! c" if "c < k" for c
      using piv [OF that] z lr dot_unit [of c x] that x by (metis nth_mem)
    then show "x = replicate k False" using x by (intro nth_equalityI) simp_all
  qed
  have "inj_on (\<lambda>c. the (gs_pivot ?st ! c)) {..<k}"
  proof (rule inj_onI)
    fix c d
    assume cd: "c \<in> {..<k}" "d \<in> {..<k}" "the (gs_pivot ?st ! c) = the (gs_pivot ?st ! d)"
    obtain p q where "gs_pivot ?st ! c = Some p" "gs_pivot ?st ! d = Some q" using piv cd by blast
    then show "c = d" using inv cd unfolding gauss_inv_def by (metis lessThan_iff option.sel)
  qed
  moreover have "(\<lambda>c. the (gs_pivot ?st ! c)) ` {..<k} \<subseteq> {..<length rows}" using piv by fastforce
  ultimately have "card {..<k} \<le> card {..<length rows}" by (intro card_inj_on_le) simp_all
  then show "k \<le> length rows" by simp
  assume S: "length S = k" "\<forall>s \<in> set S. length s = sz" "\<forall>e \<in> set rows. satisfied sz S e"
  have sat: "\<forall>e \<in> set (gs_rows ?st). satisfied sz S e"
    using inv stable_satisfied [OF S(1,2)] S(3) by (simp add: gauss_inv_def)
  have "sol ! c = S ! c" if "c < k" for c
  proof -
    obtain p where p: "gs_pivot ?st ! c = Some p" "p < length rows" "eq_mask (gs_rows ?st ! p) = unit_mask k c"
      using piv [OF \<open>c < k\<close>] by blast
    then have "satisfied sz S (gs_rows ?st ! p)" using sat lr by simp
    then have "eq_data (gs_rows ?st ! p) = S ! c"
      using p(3) comb_unit [of c S sz] S(1,2) \<open>c < k\<close> by (simp add: satisfied_def)
    then show ?thesis using p(1) lp \<open>c < k\<close> by (simp add: sol)
  qed
  then show "sol = S" using S(1) lp by (intro nth_equalityI) (simp_all add: sol)
qed

text \<open>A column without a pivot gives a nonzero vector in the kernel.\<close>

lemma try_solve_None:
  assumes ok: "\<forall>e \<in> set rows. row_ok k sz e" and none: "try_solve k rows = None"
  shows "\<not> determined k rows"
proof -
  let ?st = "forward_elimination k rows"
  let ?m = "\<lambda>r. eq_mask (gs_rows ?st ! r)"
  have inv: "gauss_inv k sz rows k ?st" by (rule gauss_inv_final [OF ok])
  have lp: "length (gs_pivot ?st) = k" and lr: "length (gs_rows ?st) = length rows"
    using inv by (simp_all add: gauss_inv_def)
  have "None \<in> set (gs_pivot ?st)" using none by (auto simp: try_solve_def Let_def list_ex_iff split: if_splits)
  then obtain c where c: "c < k" "gs_pivot ?st ! c = None" using lp by (auto simp: in_set_conv_nth)
  define x where "x = map (\<lambda>j. if j = c then True else case gs_pivot ?st ! j of None \<Rightarrow> False | Some p \<Rightarrow> ?m p ! c) [0..<k]"
  have lx: "length x = k" by (simp add: x_def)
  have xj: "x ! j = (if j = c then True else case gs_pivot ?st ! j of None \<Rightarrow> False | Some p \<Rightarrow> ?m p ! c)" if "j < k" for j
    using that by (simp add: x_def)
  have "\<not> dot (?m r) x" if r: "r < length rows" for r
  proof (cases "r < gs_row ?st")
    case True
    then obtain a where a: "a < k" "gs_pivot ?st ! a = Some r" using inv by (auto simp: gauss_inv_def)
    have lm: "length (?m r) = k" using inv r lr by (simp add: gauss_inv_def row_ok_def)
    have ac: "a \<noteq> c" using a c by auto
    have piv: "?m r ! j = (r = p)" if "j < k" "gs_pivot ?st ! j = Some p" for j p
      using inv that r by (simp add: gauss_inv_def)
    have inj: "j = a" if "j < k" "gs_pivot ?st ! j = Some r" for j
      using inv a that unfolding gauss_inv_def by blast
    have other: "?m r ! j \<and> x ! j \<longleftrightarrow> False" if j: "j < k" "j \<noteq> a" "j \<noteq> c" for j
    proof (cases "gs_pivot ?st ! j")
      case None
      then show ?thesis using xj [OF j(1)] j(3) by simp
    next
      case (Some p)
      then have "r \<noteq> p" using inj [OF j(1)] j(2) by auto
      then show ?thesis using piv [OF j(1) Some] by simp
    qed
    let ?m' = "if ?m r ! c then xor_into (unit_mask k a) (unit_mask k c) else unit_mask k a"
    have "dot (?m r) x = dot ?m' x"
    proof (rule dot_cong)
      fix j
      assume "j < length x"
      then have j: "j < k" by (simp add: lx)
      show "(?m r ! j \<and> x ! j) = (?m' ! j \<and> x ! j)"
        using j other [OF j] piv [OF a] a(1) c(1) ac
        by (cases "j = a"; cases "j = c") (auto simp: nth_unit_mask xor_into_def)
    qed (simp_all add: lx lm)
    also have "\<not> dot ?m' x"
      using xj [OF a(1)] xj [OF c(1)] a c ac lx dot_unit [of a x] dot_unit [of c x]
        dot_xor [of "unit_mask k a" x "unit_mask k c"] by simp
    finally show ?thesis .
  next
    case False
    then show ?thesis
      using inv r lr lx by (intro dot_none) (auto simp: gauss_inv_def row_ok_def)
  qed
  then have "\<forall>e \<in> set (gs_rows ?st). \<not> dot (eq_mask e) x" using lr by (simp add: all_set_conv_all_nth)
  then have "\<forall>e \<in> set rows. \<not> dot (eq_mask e) x"
    using inv stable_orthogonal [OF lx] unfolding gauss_inv_def by blast
  moreover have "x \<noteq> replicate k False" using xj [OF c(1)] c(1) by (metis nth_replicate)
  ultimately show ?thesis using lx by (auto simp: determined_def)
qed

end
