(* ===== verification/FountainDecoder.thy ===== *)
theory FountainDecoder
  imports Gf2
begin

text \<open>
  The decoder of \<open>internal/fountain/codec.go\<close> and the correctness of the code end to end:
  whatever symbols of a block arrive, in whatever order and however often, the decoder reports
  no error, finishes exactly when the received masks determine the block, and then returns the
  sender's payload.
\<close>

section \<open>The decoder\<close>

record decoder =
  dc_sender :: node_id
  dc_bundle_id :: u32
  dc_k :: nat
  dc_sym_size :: nat
  dc_orig_len :: nat
  dc_rows :: "equation list"
  dc_seen :: "u16 fset"
  dc_solved :: "bytes list"
  dc_done :: bool

definition new_decoder :: "node_id \<Rightarrow> u32 \<Rightarrow> int \<Rightarrow> int \<Rightarrow> int \<Rightarrow> fountain_error + decoder" where
  "new_decoder sender bundleID k symSize origLen =
     (if k \<le> 0 \<or> k > int MaxK then Inl (FBadK (nat k))
      else if symSize \<le> 0 \<or> symSize > int MaxSymbolSize then Inl FSymbolSize
      else if origLen \<le> 0 \<or> origLen > k * symSize then Inl FImpossibleLength
      else Inr \<lparr>dc_sender = sender, dc_bundle_id = bundleID, dc_k = nat k, dc_sym_size = nat symSize,
                dc_orig_len = nat origLen, dc_rows = [], dc_seen = {||}, dc_solved = [], dc_done = False\<rparr>)"

definition decoder_try_solve :: "decoder \<Rightarrow> decoder" where
  "decoder_try_solve d =
     (case try_solve (dc_k d) (dc_rows d) of
        None \<Rightarrow> d
      | Some solved \<Rightarrow> d\<lparr>dc_solved := solved, dc_done := True\<rparr>)"

definition symbol_mask :: "(bytes \<Rightarrow> bytes) \<Rightarrow> node_id \<Rightarrow> u32 \<Rightarrow> nat \<Rightarrow> u16 \<Rightarrow> bool list" where
  "symbol_mask blake3 sender bid k index =
     (if unat index < k then (replicate k False)[unat index := True]
      else fountain_mask blake3 sender bid index k)"

definition decoder_add :: "(bytes \<Rightarrow> bytes) \<Rightarrow> symbol \<Rightarrow> decoder \<Rightarrow> (fountain_error + bool) \<times> decoder" where
  "decoder_add blake3 s d =
     (if dc_done d then (Inr True, d)
      else if sy_bundle_id s \<noteq> dc_bundle_id d \<or> unat (sy_k s) \<noteq> dc_k d then (Inl FMismatched, d)
      else if length (sy_data s) \<noteq> dc_sym_size d then (Inl FSymbolSize, d)
      else if sy_index s |\<in>| dc_seen d then (Inr (dc_done d), d)
      else
        let m = symbol_mask blake3 (dc_sender d) (dc_bundle_id d) (dc_k d) (sy_index s);
            d1 = d\<lparr>dc_seen := finsert (sy_index s) (dc_seen d),
                   dc_rows := dc_rows d @ [\<lparr>eq_mask = m, eq_data = sy_data s\<rparr>]\<rparr>;
            d2 = (if length (dc_rows d1) \<ge> dc_k d1 then decoder_try_solve d1 else d1)
        in (Inr (dc_done d2), d2))"

definition decoder_received :: "decoder \<Rightarrow> nat" where
  "decoder_received d = fcard (dc_seen d)"

definition decoder_payload :: "decoder \<Rightarrow> fountain_error + bytes" where
  "decoder_payload d =
     (if \<not> dc_done d then Inl FNotDecoded else Inr (take (dc_orig_len d) (concat (dc_solved d))))"

section \<open>Symbols are combinations of the source\<close>

lemma fold_combine:
  assumes "length m = length S" "\<forall>s \<in> set S. length s = sz" "length acc = sz"
  shows "fold (\<lambda>(member, src) combined. if \<not> member then combined else xor_bytes combined src) (zip m S) acc =
    xor_bytes acc (comb sz m S)"
  using assms
proof (induction m S arbitrary: acc rule: list_induct2)
  case Nil
  then show ?case by (simp add: xor_bytes_zero)
next
  case (Cons b m s S)
  have "length (comb sz m S) = sz" using Cons.prems by (simp add: length_comb)
  then show ?case using Cons by (simp add: xor_bytes_ac)
qed

lemma length_symbol_mask: "length (symbol_mask blake3 sender bid k i) = k"
  by (simp add: symbol_mask_def length_mask)

definition encoder_ok :: "encoder \<Rightarrow> bool" where
  "encoder_ok e \<longleftrightarrow> length (en_source e) = en_k e \<and> (\<forall>s \<in> set (en_source e). length s = en_sym_size e) \<and>
     0 < en_k e \<and> en_k e \<le> 64"

lemma encoder_symbol_data:
  assumes "encoder_ok e"
  shows "sy_data (encoder_symbol blake3 e i) =
    comb (en_sym_size e) (symbol_mask blake3 (en_sender e) (en_bundle_id e) (en_k e) i) (en_source e)"
proof (cases "unat i < en_k e")
  case True
  then show ?thesis
    using assms comb_unit [of "unat i" "en_source e" "en_sym_size e"]
    by (simp add: encoder_symbol_def symbol_mask_def encoder_ok_def unit_mask_def)
next
  case False
  let ?c = "comb (en_sym_size e) (fountain_mask blake3 (en_sender e) (en_bundle_id e) i (en_k e)) (en_source e)"
  have "length ?c = en_sym_size e" using assms by (simp add: encoder_ok_def length_comb)
  then have "xor_bytes (replicate (en_sym_size e) 0) ?c = ?c"
    using xor_bytes_zero [of ?c] by (simp add: xor_bytes_commute)
  then show ?thesis
    using assms False fold_combine [of "fountain_mask blake3 (en_sender e) (en_bundle_id e) i (en_k e)"
        "en_source e" "en_sym_size e" "replicate (en_sym_size e) 0"]
    by (simp add: encoder_symbol_def symbol_mask_def encoder_ok_def length_mask)
qed

lemma encoder_symbol_fields [simp]:
  "sy_bundle_id (encoder_symbol blake3 e i) = en_bundle_id e"
  "sy_index (encoder_symbol blake3 e i) = i"
  "sy_k (encoder_symbol blake3 e i) = of_nat (en_k e)"
  by (simp_all add: encoder_symbol_def)

section \<open>The padded source block\<close>

lemma source_chunk_eq:
  "source_chunk payload sz i = take sz (drop (i * sz) payload) @ replicate (sz - length (drop (i * sz) payload)) 0"
proof -
  have "take (min ((i + 1) * sz) (length payload) - i * sz) (drop (i * sz) payload) = take sz (drop (i * sz) payload)"
    by (cases "(i + 1) * sz \<le> length payload") (simp_all add: min_def)
  then show ?thesis by (simp add: source_chunk_def Let_def)
qed

lemma length_source_chunk [simp]: "length (source_chunk payload sz i) = sz"
  by (simp add: source_chunk_eq)

lemma concat_chunks:
  "\<exists>pad. concat (map (source_chunk payload sz) [0..<k]) = take (k * sz) payload @ pad"
proof (induction k)
  case (Suc k)
  then obtain pad where IH: "concat (map (source_chunk payload sz) [0..<k]) = take (k * sz) payload @ pad" by blast
  show ?case
  proof (cases "k * sz \<le> length payload")
    case True
    have "length (concat (map (source_chunk payload sz) [0..<k])) = k * sz"
      by (simp add: length_concat comp_def sum_list_triv)
    then have "pad = []" using IH True by (metis append_eq_conv_conj append_Nil2 length_take min.absorb2 take_all_iff drop_all le_refl)
    moreover have "take (Suc k * sz) payload = take (k * sz) payload @ take sz (drop (k * sz) payload)"
      using take_add [of "k * sz" sz payload] by (simp add: add.commute)
    ultimately show ?thesis
      using IH source_chunk_eq [of payload sz k] by simp
  next
    case False
    then have "take (k * sz) payload = payload" "take (Suc k * sz) payload = payload" by simp_all
    then show ?thesis using IH by simp
  qed
qed simp

lemma new_encoder_ok:
  assumes "new_encoder sender bid payload symSize = Inr e"
  shows "encoder_ok e" "en_orig_len e = length payload" "length payload \<le> en_k e * en_sym_size e"
    "en_sym_size e = nat symSize" "0 < symSize" "symSize \<le> 1400" "payload \<noteq> []"
    "take (length payload) (concat (en_source e)) = payload" "en_sender e = sender" "en_bundle_id e = bid"
proof -
  let ?sz = "nat symSize"
  let ?k = "(length payload + ?sz - 1) div ?sz"
  have sz: "0 < symSize" "symSize \<le> 1400" and ne: "payload \<noteq> []" and k64: "?k \<le> 64"
    and e: "e = \<lparr>en_sender = sender, en_bundle_id = bid, en_k = ?k, en_sym_size = ?sz,
                 en_source = map (source_chunk payload ?sz) [0..<?k], en_orig_len = length payload\<rparr>"
    using assms by (auto simp: new_encoder_def Let_def fountain_consts split: if_splits)
  have pos: "0 < ?sz" using sz by simp
  have "0 < length payload" using ne by simp
  then have "?sz \<le> length payload + ?sz - 1" by linarith
  then have k: "0 < ?k" using pos by (simp only: div_greater_zero_iff)
  have len: "length payload \<le> ?k * ?sz"
  proof -
    have "length payload + ?sz - 1 < ?sz + ?k * ?sz"
      using pos by (rule dividend_less_div_times)
    then show ?thesis using pos by linarith
  qed
  show "encoder_ok e" using k k64 by (simp add: encoder_ok_def e)
  obtain pad where "concat (map (source_chunk payload ?sz) [0..<?k]) = take (?k * ?sz) payload @ pad"
    using concat_chunks by blast
  then show "take (length payload) (concat (en_source e)) = payload" using len by (simp add: e)
  show "en_orig_len e = length payload" "length payload \<le> en_k e * en_sym_size e" "en_sym_size e = nat symSize"
    "0 < symSize" "symSize \<le> 1400" "payload \<noteq> []" "en_sender e = sender" "en_bundle_id e = bid"
    using sz ne len by (simp_all add: e)
qed

section \<open>Feeding a block's symbols\<close>

fun feed :: "(bytes \<Rightarrow> bytes) \<Rightarrow> symbol list \<Rightarrow> decoder \<Rightarrow> fountain_error + decoder" where
  "feed blake3 [] d = Inr d"
| "feed blake3 (s # ss) d =
     (case decoder_add blake3 s d of (Inl e, d') \<Rightarrow> Inl e | (Inr _, d') \<Rightarrow> feed blake3 ss d')"

abbreviation enc_mask :: "(bytes \<Rightarrow> bytes) \<Rightarrow> encoder \<Rightarrow> u16 \<Rightarrow> bool list" where
  "enc_mask blake3 e i \<equiv> symbol_mask blake3 (en_sender e) (en_bundle_id e) (en_k e) i"

text \<open>The masks of the given indices leave no nonzero vector undetected.\<close>

definition spans :: "(bytes \<Rightarrow> bytes) \<Rightarrow> encoder \<Rightarrow> u16 set \<Rightarrow> bool" where
  "spans blake3 e I \<longleftrightarrow>
     (\<forall>x. length x = en_k e \<and> (\<forall>i \<in> I. \<not> dot (enc_mask blake3 e i) x) \<longrightarrow> x = replicate (en_k e) False)"

definition decoder_inv :: "(bytes \<Rightarrow> bytes) \<Rightarrow> encoder \<Rightarrow> decoder \<Rightarrow> bool" where
  "decoder_inv blake3 e d \<longleftrightarrow>
     dc_sender d = en_sender e \<and> dc_bundle_id d = en_bundle_id e \<and> dc_k d = en_k e \<and>
     dc_sym_size d = en_sym_size e \<and> dc_orig_len d = en_orig_len e \<and>
     (\<forall>r \<in> set (dc_rows d). row_ok (en_k e) (en_sym_size e) r \<and> satisfied (en_sym_size e) (en_source e) r) \<and>
     eq_mask ` set (dc_rows d) = enc_mask blake3 e ` fset (dc_seen d) \<and>
     dc_done d = spans blake3 e (fset (dc_seen d)) \<and>
     (dc_done d \<longrightarrow> dc_solved d = en_source e)"

lemma spans_mono: "spans blake3 e I \<Longrightarrow> I \<subseteq> J \<Longrightarrow> spans blake3 e J"
  by (auto simp: spans_def)

lemma spans_determined:
  "eq_mask ` set rows = enc_mask blake3 e ` I \<Longrightarrow> spans blake3 e I = determined (en_k e) rows"
proof -
  assume eq: "eq_mask ` set rows = enc_mask blake3 e ` I"
  have "(\<forall>i \<in> I. \<not> dot (enc_mask blake3 e i) x) = (\<forall>m \<in> enc_mask blake3 e ` I. \<not> dot m x)" for x by simp
  then have "(\<forall>i \<in> I. \<not> dot (enc_mask blake3 e i) x) = (\<forall>r \<in> set rows. \<not> dot (eq_mask r) x)" for x
    by (simp add: eq [symmetric])
  then show ?thesis by (simp add: spans_def determined_def)
qed

lemma decoder_try_solve_inv:
  assumes ok: "encoder_ok e" and inv: "\<not> dc_done d" "dc_k d = en_k e"
    and rows: "\<forall>r \<in> set (dc_rows d). row_ok (en_k e) (en_sym_size e) r \<and> satisfied (en_sym_size e) (en_source e) r"
    and d': "d' = (if length (dc_rows d) \<ge> dc_k d then decoder_try_solve d else d)"
  shows "dc_done d' = determined (en_k e) (dc_rows d)" "dc_done d' \<longrightarrow> dc_solved d' = en_source e"
    "d' = d\<lparr>dc_solved := dc_solved d', dc_done := dc_done d'\<rparr>"
proof -
  have rok: "\<forall>r \<in> set (dc_rows d). row_ok (en_k e) (en_sym_size e) r" using rows by blast
  note some = try_solve_Some [OF rok] and none = try_solve_None [OF rok]
  have src: "length (en_source e) = en_k e" "\<forall>s \<in> set (en_source e). length s = en_sym_size e"
    "\<forall>r \<in> set (dc_rows d). satisfied (en_sym_size e) (en_source e) r"
    using ok rows by (auto simp: encoder_ok_def)
  show "dc_done d' = determined (en_k e) (dc_rows d)" "dc_done d' \<longrightarrow> dc_solved d' = en_source e"
    "d' = d\<lparr>dc_solved := dc_solved d', dc_done := dc_done d'\<rparr>"
    using some none some(3) [OF _ src] inv
    by (cases "try_solve (en_k e) (dc_rows d)"; simp add: d' decoder_try_solve_def)+
qed

lemma decoder_add_inv:
  assumes ok: "encoder_ok e" and inv: "decoder_inv blake3 e d"
  shows "\<exists>d'. decoder_add blake3 (encoder_symbol blake3 e i) d = (Inr (dc_done d'), d') \<and> decoder_inv blake3 e d' \<and>
    (dc_done d \<and> d' = d \<or> \<not> dc_done d \<and> fset (dc_seen d') = insert i (fset (dc_seen d)))"
proof (cases "dc_done d \<or> i |\<in>| dc_seen d")
  case True
  have k: "unat (of_nat (en_k e) :: u8) = en_k e" using ok by (simp add: encoder_ok_def unat_of_nat)
  have "length (sy_data (encoder_symbol blake3 e i)) = en_sym_size e"
    using ok encoder_symbol_data [OF ok, of blake3 i] by (simp add: length_comb encoder_ok_def)
  then show ?thesis
    using True inv k by (intro exI [of _ d]) (auto simp: decoder_add_def decoder_inv_def)
next
  case False
  let ?s = "encoder_symbol blake3 e i"
  let ?row = "\<lparr>eq_mask = enc_mask blake3 e i, eq_data = sy_data ?s\<rparr>"
  let ?d1 = "d\<lparr>dc_seen := finsert i (dc_seen d), dc_rows := dc_rows d @ [?row]\<rparr>"
  define d' where "d' = (if length (dc_rows ?d1) \<ge> dc_k ?d1 then decoder_try_solve ?d1 else ?d1)"
  have k: "unat (of_nat (en_k e) :: u8) = en_k e" using ok by (simp add: encoder_ok_def unat_of_nat)
  have data: "sy_data ?s = comb (en_sym_size e) (enc_mask blake3 e i) (en_source e)"
    by (rule encoder_symbol_data [OF ok])
  then have len: "length (sy_data ?s) = en_sym_size e" using ok by (simp add: length_comb encoder_ok_def)
  have add: "decoder_add blake3 ?s d = (Inr (dc_done d'), d')"
    using False inv k len by (simp add: decoder_add_def decoder_inv_def d'_def Let_def)
  have rows: "\<forall>r \<in> set (dc_rows ?d1). row_ok (en_k e) (en_sym_size e) r \<and> satisfied (en_sym_size e) (en_source e) r"
  proof -
    have "row_ok (en_k e) (en_sym_size e) ?row" using len by (simp add: row_ok_def length_symbol_mask)
    moreover have "satisfied (en_sym_size e) (en_source e) ?row" using data by (simp add: satisfied_def)
    moreover have "\<forall>r \<in> set (dc_rows d). row_ok (en_k e) (en_sym_size e) r \<and> satisfied (en_sym_size e) (en_source e) r"
      using inv by (simp add: decoder_inv_def)
    ultimately show ?thesis by simp
  qed
  have "\<not> dc_done ?d1" "dc_k ?d1 = en_k e" using False inv by (simp_all add: decoder_inv_def)
  note res = decoder_try_solve_inv [OF ok this rows d'_def]
  have masks: "eq_mask ` set (dc_rows ?d1) = enc_mask blake3 e ` fset (dc_seen ?d1)"
    using inv by (simp add: decoder_inv_def)
  have fields: "dc_sender d' = en_sender e" "dc_bundle_id d' = en_bundle_id e" "dc_k d' = en_k e"
    "dc_sym_size d' = en_sym_size e" "dc_orig_len d' = en_orig_len e" "dc_rows d' = dc_rows ?d1" "dc_seen d' = dc_seen ?d1"
    using inv by (subst res(3); simp add: decoder_inv_def)+
  have "decoder_inv blake3 e d'"
    unfolding decoder_inv_def fields using res(1,2) rows masks spans_determined [OF masks] by simp
  then show ?thesis using add False fields(7) by (intro exI [of _ d']) simp
qed

lemma feed_inv:
  assumes ok: "encoder_ok e"
  shows "decoder_inv blake3 e d \<Longrightarrow>
    \<exists>d'. feed blake3 (map (encoder_symbol blake3 e) idx) d = Inr d' \<and> decoder_inv blake3 e d' \<and>
      fset (dc_seen d') \<subseteq> fset (dc_seen d) \<union> set idx \<and>
      (dc_done d' \<or> fset (dc_seen d') = fset (dc_seen d) \<union> set idx)"
proof (induction idx arbitrary: d)
  case (Cons i idx)
  obtain d1 where d1: "decoder_add blake3 (encoder_symbol blake3 e i) d = (Inr (dc_done d1), d1)"
    "decoder_inv blake3 e d1"
    "dc_done d \<and> d1 = d \<or> \<not> dc_done d \<and> fset (dc_seen d1) = insert i (fset (dc_seen d))"
    using decoder_add_inv [OF ok Cons.prems] by blast
  obtain d' where d': "feed blake3 (map (encoder_symbol blake3 e) idx) d1 = Inr d'" "decoder_inv blake3 e d'"
    "fset (dc_seen d') \<subseteq> fset (dc_seen d1) \<union> set idx"
    "dc_done d' \<or> fset (dc_seen d') = fset (dc_seen d1) \<union> set idx"
    using Cons.IH [OF d1(2)] by blast
  have done_stays: "dc_done d' " if "dc_done d1"
  proof (rule ccontr)
    assume "\<not> dc_done d'"
    then have "fset (dc_seen d1) \<subseteq> fset (dc_seen d')" using d'(4) by blast
    then show False using that d1(2) d'(2) \<open>\<not> dc_done d'\<close> spans_mono by (auto simp: decoder_inv_def)
  qed
  show ?case using d1 d' done_stays by (intro exI [of _ d']) auto
qed (auto simp: decoder_inv_def)

lemma decoder_inv_init:
  assumes "new_encoder sender bid payload symSize = Inr e"
    and "new_decoder sender bid (int (en_k e)) symSize (int (en_orig_len e)) = Inr d"
  shows "decoder_inv blake3 e d" "dc_seen d = {||}"
proof -
  note enc = new_encoder_ok [OF assms(1)]
  have d: "d = \<lparr>dc_sender = sender, dc_bundle_id = bid, dc_k = en_k e, dc_sym_size = nat symSize,
      dc_orig_len = en_orig_len e, dc_rows = [], dc_seen = {||}, dc_solved = [], dc_done = False\<rparr>"
    using assms(2) by (auto simp: new_decoder_def split: if_splits)
  then show "dc_seen d = {||}" by simp
  have "replicate (en_k e) True \<noteq> replicate (en_k e) False"
    using enc(1) by (cases "en_k e") (simp_all add: encoder_ok_def)
  moreover have "length (replicate (en_k e) True) = en_k e" by simp
  ultimately have "\<not> spans blake3 e {}" unfolding spans_def by blast
  then show "decoder_inv blake3 e d" using enc by (simp add: decoder_inv_def d)
qed

lemma new_decoder_accepts:
  assumes "new_encoder sender bid payload symSize = Inr e"
  shows "\<exists>d. new_decoder sender bid (int (en_k e)) symSize (int (en_orig_len e)) = Inr d"
proof -
  note enc = new_encoder_ok [OF assms]
  have "0 < en_k e" "en_k e \<le> 64" using enc(1) by (simp_all add: encoder_ok_def)
  moreover have "int (en_orig_len e) \<le> int (en_k e) * symSize"
  proof -
    have "int (length payload) \<le> int (en_k e * en_sym_size e)" using enc(3) by (simp only: of_nat_le_iff)
    then show ?thesis using enc by simp
  qed
  moreover have "0 < en_orig_len e" using enc by simp
  ultimately show ?thesis using enc(5,6) by (simp add: new_decoder_def fountain_consts)
qed

lemma spans_systematic:
  assumes "encoder_ok e"
  shows "spans blake3 e (of_nat ` {..<en_k e})"
  unfolding spans_def
proof (intro allI impI)
  fix x
  assume x: "length x = en_k e \<and> (\<forall>i \<in> of_nat ` {..<en_k e}. \<not> dot (enc_mask blake3 e i) x)"
  have "\<not> x ! j" if j: "j < en_k e" for j
  proof -
    have "unat (of_nat j :: u16) = j" using j assms by (simp add: encoder_ok_def unat_of_nat)
    then have "enc_mask blake3 e (of_nat j) = unit_mask (en_k e) j"
      using j by (simp add: symbol_mask_def unit_mask_def)
    moreover have "\<not> dot (enc_mask blake3 e (of_nat j)) x" using x j by blast
    ultimately show ?thesis using dot_unit [of j x] x j by simp
  qed
  then show "x = replicate (en_k e) False" using x by (intro nth_equalityI) simp_all
qed

lemma encoder_symbol_wf:
  assumes "new_encoder sender bid payload symSize = Inr e"
  shows "symbol_wf (encoder_symbol blake3 e i)"
proof -
  note enc = new_encoder_ok [OF assms]
  have k: "unat (of_nat (en_k e) :: u8) = en_k e" "0 < en_k e" "en_k e \<le> 64"
    using enc(1) by (simp_all add: encoder_ok_def unat_of_nat)
  then have "(of_nat (en_k e) :: u8) \<noteq> 0" by (metis less_irrefl unat_0)
  moreover have "length (sy_data (encoder_symbol blake3 e i)) = nat symSize"
    using encoder_symbol_data [OF enc(1), of blake3 i] enc(1,4) by (simp add: length_comb encoder_ok_def)
  ultimately show ?thesis using k enc(5,6) by (auto simp: symbol_wf_def fountain_consts)
qed

lemma decoder_inv_payload:
  assumes "new_encoder sender bid payload symSize = Inr e" "decoder_inv blake3 e d"
  shows "decoder_payload d = (if dc_done d then Inr payload else Inl FNotDecoded)"
  using assms(2) new_encoder_ok [OF assms(1)] by (auto simp: decoder_payload_def decoder_inv_def)

section \<open>Properties\<close>

text \<open>
  C33. The fountain code delivers. For any payload the encoder accepts, a decoder built for the
  block, and any list of symbol indices received (in any order, with repeats and losses): no
  arrival is refused, the block is recovered exactly when the received masks leave no nonzero
  vector undetected, and then the payload is the sender's, padding removed.
\<close>

theorem fountain_delivers:
  assumes "new_encoder sender bid payload symSize = Inr e"
    and "new_decoder sender bid (int (en_k e)) symSize (int (en_orig_len e)) = Inr d0"
  shows "\<exists>d. feed blake3 (map (encoder_symbol blake3 e) idx) d0 = Inr d \<and>
    dc_done d = spans blake3 e (set idx) \<and> decoder_payload d = (if dc_done d then Inr payload else Inl FNotDecoded)"
proof -
  note enc = new_encoder_ok [OF assms(1)] and init = decoder_inv_init [OF assms]
  obtain d where d: "feed blake3 (map (encoder_symbol blake3 e) idx) d0 = Inr d" "decoder_inv blake3 e d"
    "fset (dc_seen d) \<subseteq> set idx" "dc_done d \<or> fset (dc_seen d) = set idx"
    using feed_inv [OF enc(1) init(1), of blake3 idx] init(2) by auto
  have "dc_done d = spans blake3 e (set idx)"
    using d(2-4) spans_mono [of blake3 e "fset (dc_seen d)" "set idx"] by (auto simp: decoder_inv_def)
  moreover have "decoder_payload d = (if dc_done d then Inr payload else Inl FNotDecoded)"
    by (rule decoder_inv_payload [OF assms(1) d(2)])
  ultimately show ?thesis using d(1) by blast
qed

text \<open>
  A receiver that misses nothing pays no coding overhead: once every systematic symbol has
  arrived, whatever else did and in whatever order, the payload is recovered, and the decoder's
  own constructor accepts every block the encoder produces.
\<close>

theorem systematic_prefix_decodes:
  assumes "new_encoder sender bid payload symSize = Inr e" and "of_nat ` {..<en_k e} \<subseteq> set idx"
  shows "\<exists>d0 d. new_decoder sender bid (int (en_k e)) symSize (int (en_orig_len e)) = Inr d0 \<and>
    feed blake3 (map (encoder_symbol blake3 e) idx) d0 = Inr d \<and> decoder_payload d = Inr payload"
proof -
  note enc = new_encoder_ok [OF assms(1)]
  obtain d0 where d0: "new_decoder sender bid (int (en_k e)) symSize (int (en_orig_len e)) = Inr d0"
    using new_decoder_accepts [OF assms(1)] by blast
  note init = decoder_inv_init [OF assms(1) d0]
  obtain d where d: "feed blake3 (map (encoder_symbol blake3 e) idx) d0 = Inr d" "decoder_inv blake3 e d"
    "dc_done d \<or> fset (dc_seen d) = set idx"
    using feed_inv [OF enc(1) init(1), of blake3 idx] init(2) by auto
  have "dc_done d"
    using d(2,3) spans_mono [OF spans_systematic [OF enc(1)] assms(2)] by (auto simp: decoder_inv_def)
  then have "decoder_payload d = Inr payload" using decoder_inv_payload [OF assms(1) d(2)] by simp
  then show ?thesis using d0 d(1) by blast
qed

definition sample_encoder :: encoder where
  "sample_encoder = \<lparr>en_sender = zero_array, en_bundle_id = 7, en_k = 2, en_sym_size = 2,
     en_source = [[1, 2], [3, 0]], en_orig_len = 3\<rparr>"

lemma sample_encoder_new: "new_encoder zero_array 7 [1, 2, 3] 2 = Inr sample_encoder"
  by code_simp

theorem fountain_delivers_witness:
  "\<exists>d0 d. new_decoder zero_array 7 2 2 3 = Inr d0 \<and>
     feed (\<lambda>_. []) (map (encoder_symbol (\<lambda>_. []) sample_encoder) [1, 1, 5, 0]) d0 = Inr d"
proof -
  obtain d0 where d0: "new_decoder zero_array 7 (int (en_k sample_encoder)) 2 (int (en_orig_len sample_encoder)) = Inr d0"
    using new_decoder_accepts [OF sample_encoder_new] by blast
  then show ?thesis
    using fountain_delivers [OF sample_encoder_new d0, of "\<lambda>_. []" "[1, 1, 5, 0]"]
    by (auto simp: sample_encoder_def)
qed

theorem systematic_prefix_decodes_witness:
  "\<exists>d0 d. new_decoder zero_array 7 2 2 3 = Inr d0 \<and>
     feed (\<lambda>_. []) (map (encoder_symbol (\<lambda>_. []) sample_encoder) [1, 1, 0]) d0 = Inr d \<and>
     decoder_payload d = Inr [1, 2, 3]"
proof -
  have "of_nat ` {..<en_k sample_encoder} \<subseteq> set [1, 1, 0 :: u16]"
    by (auto simp: sample_encoder_def less_2_cases_iff)
  then show ?thesis
    using systematic_prefix_decodes [OF sample_encoder_new, of "[1, 1, 0]" "\<lambda>_. []"]
    by (simp add: sample_encoder_def)
qed

text \<open>
  The symbol format is canonical (version bits 01, reserved bits clear, 1 to 1400 payload
  bytes, block size 1 to 64), every symbol an encoder emits is in its domain and so survives
  the wire, and a repair symbol always has at least one member.
\<close>

theorem symbol_format:
  assumes "new_encoder sender bid payload symSize = Inr e"
  shows "decode_symbol (symbol_encode (encoder_symbol blake3 e i)) = Inr (encoder_symbol blake3 e i) \<and>
    (decode_symbol b = Inr s \<longleftrightarrow> symbol_wf s \<and> symbol_encode s = b) \<and>
    True \<in> set (enc_mask blake3 e i)"
proof (intro conjI)
  note enc = new_encoder_ok [OF assms]
  have k: "0 < en_k e" using enc(1) by (simp add: encoder_ok_def)
  show "decode_symbol (symbol_encode (encoder_symbol blake3 e i)) = Inr (encoder_symbol blake3 e i)"
    by (rule syc.dec_enc [OF encoder_symbol_wf [OF assms]])
  show "decode_symbol b = Inr s \<longleftrightarrow> symbol_wf s \<and> symbol_encode s = b" by (rule syc.accepts_iff)
  show "True \<in> set (enc_mask blake3 e i)"
    using k mask_nonempty by (auto simp: symbol_mask_def set_update_memI)
qed

theorem symbol_format_witness:
  "decode_symbol (symbol_encode (encoder_symbol (\<lambda>_. []) sample_encoder 9)) =
     Inr (encoder_symbol (\<lambda>_. []) sample_encoder 9)"
  using symbol_format [OF sample_encoder_new] by blast

end
