(* ===== verification/Float64.thy ===== *)
theory Float64
  imports Prelude "HOL-Library.Log_Nat"
begin

text \<open>
  Go's \<open>float64\<close> arithmetic on the values the scheduler, the governor and the airtime model
  compute with. A float is the rational it denotes; \<open>fl\<close> rounds an exact result to 53 bits,
  nearest, ties to even, which is what each operation of the language does once. Exponent
  limits, infinities and NaN are outside the model: every quantity here is a duration in
  nanoseconds, a ratio or a count, far from them. Shown: rounding is exact on integers up to
  \<open>2^53\<close>, keeps signs and is monotone.
\<close>

section \<open>Rounding\<close>

text \<open>The binary exponent of a positive rational: \<open>2^e \<le> x < 2^(e+1)\<close>.\<close>

definition rexp :: "rat \<Rightarrow> int" where
  "rexp x = (let (n, d) = quotient_of x; k = bitlen n - bitlen d in if 2 powi k \<le> x then k else k - 1)"

definition round_even :: "rat \<Rightarrow> int" where
  "round_even x =
     (let f = \<lfloor>x\<rfloor>; r = x - of_int f
      in if r < 1/2 then f else if r > 1/2 then f + 1 else if even f then f else f + 1)"

definition fl :: "rat \<Rightarrow> rat" where
  "fl x =
     (if x = 0 then 0
      else let e = rexp \<bar>x\<bar> - 52 in sgn x * of_int (round_even (\<bar>x\<bar> / 2 powi e)) * 2 powi e)"

text \<open>\<open>time.Duration(f)\<close> and \<open>int(f)\<close>: truncation towards zero.\<close>

definition trunc :: "rat \<Rightarrow> int" where
  "trunc x = (if x \<ge> 0 then \<lfloor>x\<rfloor> else \<lceil>x\<rceil>)"

section \<open>Lemmas\<close>

lemma powi_mono: "a \<le> b \<Longrightarrow> (2 :: rat) powi a \<le> 2 powi b"
  by (rule power_int_increasing) simp_all

lemma powi_pos [simp]: "(0 :: rat) < 2 powi a"
  by (rule zero_less_power_int) simp

lemma bitlen_powi:
  assumes "0 < n"
  shows "(2 :: rat) powi (bitlen n - 1) \<le> of_int n" "(of_int n :: rat) < 2 powi bitlen n" "1 \<le> bitlen n"
proof -
  have b: "2 ^ nat (bitlen n - 1) \<le> n" "n < 2 ^ nat (bitlen n)" using bitlen_bounds [OF assms] by auto
  show pos: "1 \<le> bitlen n"
  proof (rule ccontr)
    assume "\<not> 1 \<le> bitlen n"
    then have "nat (bitlen n) = 0" by simp
    then show False using b(2) assms by simp
  qed
  have "(of_int (2 ^ nat (bitlen n - 1)) :: rat) \<le> of_int n" using b(1) by (simp only: of_int_le_iff)
  then show "(2 :: rat) powi (bitlen n - 1) \<le> of_int n" using pos by (simp add: power_int_def)
  have "(of_int n :: rat) < of_int (2 ^ nat (bitlen n))" using b(2) by (simp only: of_int_less_iff)
  then show "(of_int n :: rat) < 2 powi bitlen n" using pos by (simp add: power_int_def)
qed

lemma rexp_bounds:
  assumes "0 < x"
  shows "2 powi (rexp x) \<le> x" "x < 2 powi (rexp x + 1)"
proof -
  obtain n d where q: "quotient_of x = (n, d)" by force
  have d: "0 < d" using quotient_of_denom_pos [OF q] .
  have x: "x = of_int n / of_int d" using quotient_of_div [OF q] .
  have "0 < n" using assms d unfolding x by (simp add: zero_less_divide_iff)
  note bn = bitlen_powi [OF this] and bd = bitlen_powi [OF d]
  let ?k = "bitlen n - bitlen d"
  have "2 powi (?k - 1) * of_int d < (2 powi (?k - 1) * 2 powi bitlen d :: rat)"
    using bd(2) by simp
  also have "\<dots> = 2 powi (bitlen n - 1)" by (simp flip: power_int_add)
  finally have lo: "2 powi (?k - 1) \<le> x" using bn(1) d by (simp add: x field_simps)
  have "(2 powi (bitlen n) :: rat) = 2 powi (?k + 1) * 2 powi (bitlen d - 1)" by (simp flip: power_int_add)
  also have "\<dots> \<le> 2 powi (?k + 1) * of_int d" using bd(1) by simp
  finally have hi: "x < 2 powi (?k + 1)" using bn(2) d by (simp add: x field_simps)
  show "2 powi (rexp x) \<le> x" "x < 2 powi (rexp x + 1)"
    using lo hi by (auto simp: rexp_def q Let_def)
qed

lemma rexp_unique:
  assumes "0 < x" "2 powi e \<le> x" "x < 2 powi (e + 1)"
  shows "rexp x = e"
proof -
  have "(2 :: rat) powi e < 2 powi (rexp x + 1)" "(2 :: rat) powi (rexp x) < 2 powi (e + 1)"
    using assms rexp_bounds [OF assms(1)] by linarith+
  then have "e < rexp x + 1" "rexp x < e + 1"
    using powi_mono [of "rexp x + 1" e] powi_mono [of "e + 1" "rexp x"] by (simp_all only: not_le [symmetric]) blast+
  then show ?thesis by simp
qed

lemma rexp_mono: "0 < x \<Longrightarrow> x \<le> y \<Longrightarrow> rexp x \<le> rexp y"
proof (rule ccontr)
  assume a: "0 < x" "x \<le> y" "\<not> rexp x \<le> rexp y"
  then have "2 powi (rexp y + 1) \<le> (2 powi (rexp x) :: rat)" by (intro powi_mono) simp
  then show False using rexp_bounds [of x] rexp_bounds [of y] a by linarith
qed

lemma round_even_bounds: "\<lfloor>x\<rfloor> \<le> round_even x" "round_even x \<le> \<lceil>x\<rceil>"
proof -
  show "\<lfloor>x\<rfloor> \<le> round_even x" by (simp add: round_even_def Let_def)
  show "round_even x \<le> \<lceil>x\<rceil>"
  proof (cases "x = of_int \<lfloor>x\<rfloor>")
    case True
    have "round_even (of_int \<lfloor>x\<rfloor>) = \<lfloor>x\<rfloor>" by (simp add: round_even_def)
    then show ?thesis using True by (metis floor_le_ceiling)
  next
    case False
    then have "\<lceil>x\<rceil> = \<lfloor>x\<rfloor> + 1" by (simp add: ceiling_altdef)
    then show ?thesis by (simp add: round_even_def Let_def)
  qed
qed

lemma round_even_of_int [simp]: "round_even (of_int n) = n"
  by (simp add: round_even_def)

lemma round_even_mono: "x \<le> y \<Longrightarrow> round_even x \<le> round_even y"
proof -
  assume le: "x \<le> y"
  show ?thesis
  proof (cases "\<lfloor>x\<rfloor> = \<lfloor>y\<rfloor>")
    case True
    have "x - of_int \<lfloor>x\<rfloor> \<le> y - of_int \<lfloor>y\<rfloor>" using le True by simp
    then show ?thesis using True by (auto simp: round_even_def Let_def)
  next
    case False
    then have "\<lfloor>x\<rfloor> + 1 \<le> \<lfloor>y\<rfloor>" using floor_mono [OF le] by linarith
    moreover have "round_even x \<le> \<lfloor>x\<rfloor> + 1" by (simp add: round_even_def Let_def)
    moreover have "\<lfloor>y\<rfloor> \<le> round_even y" by (rule round_even_bounds)
    ultimately show ?thesis by linarith
  qed
qed

lemma fl_0 [simp]: "fl 0 = 0"
  by (simp add: fl_def)

text \<open>The mantissa of a positive number: an integer in \<open>[2^52, 2^53]\<close>.\<close>

lemma mantissa_bounds:
  assumes "0 < x"
  shows "2 ^ 52 \<le> round_even (x / 2 powi (rexp x - 52))" "round_even (x / 2 powi (rexp x - 52)) \<le> 2 ^ 53"
proof -
  let ?m = "x / 2 powi (rexp x - 52)"
  have "(2 powi (rexp x) :: rat) = 2 powi (rexp x - 52) * 2 ^ 52"
    "(2 powi (rexp x + 1) :: rat) = 2 powi (rexp x - 52) * 2 ^ 53"
    using power_int_add [of "2 :: rat" "rexp x - 52" 52] power_int_add [of "2 :: rat" "rexp x - 52" 53]
    by (simp_all add: algebra_simps)
  then have "of_int (2 ^ 52) \<le> ?m" "?m \<le> of_int (2 ^ 53)"
    using rexp_bounds [OF assms] by (simp_all add: field_simps)
  then have "round_even (of_int (2 ^ 52)) \<le> round_even ?m" "round_even ?m \<le> round_even (of_int (2 ^ 53))"
    by (simp_all only: round_even_mono)
  then show "2 ^ 52 \<le> round_even ?m" "round_even ?m \<le> 2 ^ 53" by (simp_all only: round_even_of_int)
qed

lemma fl_pos_eq: "0 < x \<Longrightarrow> fl x = of_int (round_even (x / 2 powi (rexp x - 52))) * 2 powi (rexp x - 52)"
  by (simp add: fl_def Let_def)

lemma fl_binade:
  assumes "0 < x"
  shows "2 powi (rexp x) \<le> fl x" "fl x \<le> 2 powi (rexp x + 1)"
proof -
  let ?e = "rexp x - 52"
  have p: "(2 powi (rexp x) :: rat) = 2 ^ 52 * 2 powi ?e" "(2 powi (rexp x + 1) :: rat) = 2 ^ 53 * 2 powi ?e"
    using power_int_add [of "2 :: rat" 52 ?e] power_int_add [of "2 :: rat" 53 ?e] by (simp_all add: algebra_simps)
  have "(of_int (2 ^ 52) :: rat) \<le> of_int (round_even (x / 2 powi ?e))"
    "(of_int (round_even (x / 2 powi ?e)) :: rat) \<le> of_int (2 ^ 53)"
    using mantissa_bounds [OF assms] by (simp_all only: of_int_le_iff)
  then show "2 powi (rexp x) \<le> fl x" "fl x \<le> 2 powi (rexp x + 1)"
    unfolding p fl_pos_eq [OF assms] by (simp_all add: mult_right_mono)
qed

lemma fl_pos: "0 < x \<Longrightarrow> 0 < fl x"
  using fl_binade(1) [of x] powi_pos [of "rexp x"] by linarith

lemma fl_minus: "fl (- x) = - fl x"
  by (simp add: fl_def Let_def sgn_if)

lemma fl_nonneg: "0 \<le> x \<Longrightarrow> 0 \<le> fl x"
  using fl_pos [of x] by (cases "x = 0") auto

lemma fl_mono_pos:
  assumes "0 < x" "x \<le> y"
  shows "fl x \<le> fl y"
proof (cases "rexp x = rexp y")
  case True
  have "x / 2 powi (rexp x - 52) \<le> y / 2 powi (rexp y - 52)" using assms True by (simp add: divide_right_mono)
  then show ?thesis
    using assms True round_even_mono [of "x / 2 powi (rexp x - 52)" "y / 2 powi (rexp y - 52)"]
    by (simp add: fl_pos_eq mult_right_mono)
next
  case False
  then have "rexp x + 1 \<le> rexp y" using rexp_mono [OF assms] by simp
  then have "(2 powi (rexp x + 1) :: rat) \<le> 2 powi (rexp y)" by (rule powi_mono)
  then show ?thesis using fl_binade [of x] fl_binade [of y] assms by linarith
qed

lemma fl_mono: "x \<le> y \<Longrightarrow> fl x \<le> fl y"
proof -
  assume le: "x \<le> y"
  consider "0 < x" | "x \<le> 0" "0 \<le> y" | "y < 0" by linarith
  then show ?thesis
  proof cases
    case 1
    then show ?thesis using le by (rule fl_mono_pos)
  next
    case 2
    then have "0 \<le> fl (- x)" "0 \<le> fl y" by (simp_all add: fl_nonneg)
    then show ?thesis by (simp add: fl_minus)
  next
    case 3
    then have "fl (- y) \<le> fl (- x)" using le by (intro fl_mono_pos) simp_all
    then show ?thesis by (simp add: fl_minus)
  qed
qed

lemma fl_of_int:
  assumes "\<bar>n\<bar> \<le> 2 ^ 53"
  shows "fl (of_int n) = of_int n"
proof -
  have pos: "fl (of_int m) = of_int m" if m: "0 < m" "m \<le> 2 ^ 53" for m
  proof (cases "m = 2 ^ 53")
    case True
    then have "rexp (of_int m) = 53" by (intro rexp_unique) simp_all
    then show ?thesis using m by (simp add: fl_pos_eq power_int_def True round_even_def)
  next
    case False
    then have lt: "m < 2 ^ 53" using m by simp
    let ?e = "52 - rexp (of_int m)"
    have "(2 powi (rexp (of_int m)) :: rat) \<le> of_int m" using m by (intro rexp_bounds) simp
    also have "(of_int m :: rat) < of_int (2 ^ 53)" using lt by (simp only: of_int_less_iff)
    finally have "(2 powi (rexp (of_int m)) :: rat) < 2 powi 53" by simp
    then have "rexp (of_int m) < 53" using powi_mono [of 53 "rexp (of_int m)"] by (meson linorder_not_less)
    then have e: "0 \<le> ?e" by simp
    then obtain j where j: "?e = int j" by (metis nonneg_int_cases)
    then have r: "rexp (of_int m) - 52 = - int j" by simp
    have "(of_int m :: rat) / 2 powi (- int j) = of_int (m * 2 ^ j)"
      by (simp add: power_int_minus divide_inverse)
    then have "fl (of_int m) = of_int (m * 2 ^ j) * 2 powi (- int j)"
      using m fl_pos_eq [of "of_int m"] unfolding r by (simp only: of_int_0_less_iff round_even_of_int)
    also have "\<dots> = of_int m" by (simp add: power_int_minus)
    finally show ?thesis .
  qed
  consider "n = 0" | "0 < n" | "n < 0" by linarith
  then show ?thesis
  proof cases
    case 3
    then have "fl (of_int (- n)) = of_int (- n)" using assms by (intro pos) simp_all
    then show ?thesis by (simp add: fl_minus)
  qed (use assms pos in simp_all)
qed

lemma trunc_of_int [simp]: "trunc (of_int n) = n"
  by (simp add: trunc_def)

lemma trunc_nonneg: "0 \<le> x \<Longrightarrow> 0 \<le> trunc x"
  by (simp add: trunc_def)

lemma trunc_mono: "x \<le> y \<Longrightarrow> trunc x \<le> trunc y"
  by (auto simp: trunc_def floor_mono ceiling_mono intro: order_trans [of _ 0])

text \<open>The relative error of one rounding is at most half a unit in the last place.\<close>

definition ulp_slack :: rat where
  "ulp_slack = 1 + 1 / 2 ^ 53"

lemma ulp_slack_ge1: "1 \<le> ulp_slack"
  by (simp add: ulp_slack_def)

lemma round_even_upper: "of_int (round_even y) \<le> (y :: rat) + 1 / 2"
proof -
  define f where "f = \<lfloor>y\<rfloor>"
  then have "of_int f \<le> y" by simp
  then show ?thesis unfolding round_even_def Let_def f_def [symmetric] by auto
qed

lemma fl_upper:
  assumes "0 \<le> x"
  shows "fl x \<le> x * ulp_slack"
proof (cases "x = 0")
  case False
  then have x: "0 < x" using assms by simp
  let ?u = "(2 :: rat) powi (rexp x - 52)"
  have "(2 powi (rexp x) :: rat) = ?u * 2 ^ 52"
    using power_int_add [of "2 :: rat" "rexp x - 52" 52] by (simp add: algebra_simps)
  then have "?u * 2 ^ 52 \<le> x" using rexp_bounds [OF x] by simp
  then have half: "?u / 2 \<le> x / 2 ^ 53" by (simp add: field_simps)
  have "fl x \<le> (x / ?u + 1 / 2) * ?u"
    unfolding fl_pos_eq [OF x] by (intro mult_right_mono round_even_upper) simp
  also have "\<dots> = x + ?u / 2" by (simp add: field_simps)
  also have "\<dots> \<le> x + x / 2 ^ 53" using half by simp
  finally show ?thesis by (simp add: ulp_slack_def algebra_simps)
qed simp

lemma trunc_le: "0 \<le> x \<Longrightarrow> of_int (trunc x) \<le> x"
  by (simp add: trunc_def)

section \<open>Evaluation\<close>

lemma round_even_unique:
  assumes "2 * \<bar>y - of_int m\<bar> < (1 :: rat)"
  shows "round_even y = m"
proof -
  have "\<bar>y - of_int m\<bar> < 1 / 2" using assms by simp
  then have a: "y - of_int m < 1 / 2" "of_int m - y < 1 / 2" unfolding abs_less_iff by simp_all
  have f: "of_int \<lfloor>y\<rfloor> \<le> y" "y < of_int \<lfloor>y\<rfloor> + 1" using floor_correct [of y] by simp_all
  have "of_int (m - 1) < (of_int (\<lfloor>y\<rfloor> + 1) :: rat)" "(of_int \<lfloor>y\<rfloor> :: rat) < of_int (m + 1)"
    using a f unfolding of_int_add of_int_diff of_int_1 by linarith+
  then have c: "\<lfloor>y\<rfloor> = m \<or> \<lfloor>y\<rfloor> + 1 = m" unfolding of_int_less_iff by linarith
  moreover have "(of_int m :: rat) = of_int \<lfloor>y\<rfloor> + 1" if "\<lfloor>y\<rfloor> + 1 = m" using that by auto
  ultimately have "y - of_int \<lfloor>y\<rfloor> < 1 / 2 \<Longrightarrow> \<lfloor>y\<rfloor> = m" "1 / 2 < y - of_int \<lfloor>y\<rfloor> \<Longrightarrow> \<lfloor>y\<rfloor> + 1 = m"
    "y - of_int \<lfloor>y\<rfloor> \<noteq> 1 / 2" using a f by (auto; linarith)+
  then show ?thesis by (auto simp: round_even_def Let_def not_less less_le)
qed

text \<open>A rounded value is known once its mantissa is.\<close>

lemma fl_value:
  assumes "2 ^ 52 \<le> x * 2 ^ n" "x * 2 ^ n < 2 ^ 53" "2 * \<bar>x * 2 ^ n - of_int m\<bar> < 1"
  shows "fl x = of_int m / 2 ^ n"
proof -
  have x: "0 < x" using assms(1) by (smt (verit) mult_nonpos_nonneg not_le zero_le_power zero_less_power zero_less_numeral zero_le_numeral less_le_trans)
  have p: "(2 :: rat) powi (52 - int n) = 2 ^ 52 / 2 ^ n" "(2 :: rat) powi (52 - int n + 1) = 2 ^ 53 / 2 ^ n"
    "(2 :: rat) powi (- int n) = 1 / 2 ^ n"
    using power_int_diff [of "2 :: rat" 52 "int n"] power_int_diff [of "2 :: rat" 53 "int n"] power_int_minus [of "2 :: rat" "int n"]
    by (simp_all add: field_simps)
  have "rexp x = 52 - int n"
    using assms(1,2) by (intro rexp_unique [OF x]) (simp_all only: p, simp_all add: field_simps)
  then have "fl x = of_int (round_even (x / 2 powi (- int n))) * 2 powi (- int n)"
    using fl_pos_eq [OF x] by simp
  then show ?thesis using round_even_unique [OF assms(3)] by (simp only: p) simp
qed

lemma fl_numeral: "numeral k \<le> (2 ^ 53 :: int) \<Longrightarrow> fl (numeral k) = numeral k"
  using fl_of_int [of "numeral k"] by simp

end
