(* ===== verification/Airtime.thy ===== *)
theory Airtime
  imports Float64
begin

text \<open>
  Package \<open>internal/airtime\<close>: LoRa time on air. Every float operation of \<open>Raw\<close> is rounded
  where the source rounds it (as on amd64; the language lets other targets fuse a
  multiplication and an addition). Shown: on the presets and on every preset \<open>Custom\<close> admits,
  the cost of a packet grows with its size, and a flood multiplier never lowers it.
\<close>

record preset =
  pr_name :: string
  pr_bandwidth :: int
  pr_spread :: int
  pr_coding :: int

definition LongFast :: preset where "LongFast = \<lparr>pr_name = ''LONG_FAST'', pr_bandwidth = 250000, pr_spread = 11, pr_coding = 5\<rparr>"
definition LongSlow :: preset where "LongSlow = \<lparr>pr_name = ''LONG_SLOW'', pr_bandwidth = 125000, pr_spread = 12, pr_coding = 8\<rparr>"
definition MediumFast :: preset where "MediumFast = \<lparr>pr_name = ''MEDIUM_FAST'', pr_bandwidth = 250000, pr_spread = 9, pr_coding = 5\<rparr>"
definition MediumSlow :: preset where "MediumSlow = \<lparr>pr_name = ''MEDIUM_SLOW'', pr_bandwidth = 250000, pr_spread = 10, pr_coding = 5\<rparr>"
definition ShortFast :: preset where "ShortFast = \<lparr>pr_name = ''SHORT_FAST'', pr_bandwidth = 250000, pr_spread = 7, pr_coding = 5\<rparr>"
definition ShortSlow :: preset where "ShortSlow = \<lparr>pr_name = ''SHORT_SLOW'', pr_bandwidth = 250000, pr_spread = 8, pr_coding = 5\<rparr>"
definition ShortTurbo :: preset where "ShortTurbo = \<lparr>pr_name = ''SHORT_TURBO'', pr_bandwidth = 500000, pr_spread = 7, pr_coding = 5\<rparr>"
definition VeryLongSlow :: preset where "VeryLongSlow = \<lparr>pr_name = ''VERY_LONG_SLOW'', pr_bandwidth = 62500, pr_spread = 12, pr_coding = 8\<rparr>"

definition presets :: "preset list" where
  "presets = [LongFast, LongSlow, MediumFast, MediumSlow, ShortFast, ShortSlow, ShortTurbo, VeryLongSlow]"

lemmas preset_defs = LongFast_def LongSlow_def MediumFast_def MediumSlow_def ShortFast_def ShortSlow_def
  ShortTurbo_def VeryLongSlow_def

definition preset_by_name :: "string \<Rightarrow> preset option" where
  "preset_by_name name = find (\<lambda>p. pr_name p = name) presets"

definition HeaderBytes :: int where "HeaderBytes = 256 - 233"

definition nanosecond_rate :: rat where "nanosecond_rate = 1000000000"

text \<open>The number of payload symbols, \<open>8 + max(ceil(num/den) * CR, 0)\<close>, as \<open>Raw\<close> computes it.\<close>

definition payload_symbols :: "preset \<Rightarrow> rat \<Rightarrow> int \<Rightarrow> rat" where
  "payload_symbols p de n =
     (let sf = fl (of_int (pr_spread p));
          num = fl (fl (fl (fl (8 * fl (of_int n)) - fl (4 * sf)) + 28) + 16);
          den = fl (4 * fl (sf - fl (2 * de)))
      in fl (8 + max (fl (of_int \<lceil>fl (num / den)\<rceil> * fl (of_int (pr_coding p)))) 0))"

definition airtime_raw :: "preset \<Rightarrow> int \<Rightarrow> int" where
  "airtime_raw p n =
     (let ts = fl (2 powi (pr_spread p) / fl (of_int (pr_bandwidth p)));
          de = (if ts > fl (1638 / 100000) then 1 else 0);
          tPreamble = fl ((16 + 17 / 4) * ts);
          ps = payload_symbols p de n
      in trunc (fl (fl (tPreamble + fl (ps * ts)) * nanosecond_rate)))"

definition airtime_packet :: "preset \<Rightarrow> int \<Rightarrow> int" where
  "airtime_packet p n = airtime_raw p (n + HeaderBytes)"

definition airtime_cost :: "preset \<Rightarrow> int \<Rightarrow> rat \<Rightarrow> int" where
  "airtime_cost p n floodMultiplier =
     (let f = (if floodMultiplier < 1 then 1 else floodMultiplier)
      in trunc (fl (fl (of_int (airtime_packet p n)) * f)))"

datatype preset_error = BadSpread int | BadCoding int | BadBandwidth int

definition airtime_custom :: "int \<Rightarrow> int \<Rightarrow> int \<Rightarrow> preset_error + preset" where
  "airtime_custom bandwidthHz spreadFactor codingRate =
     (if spreadFactor < 7 \<or> spreadFactor > 12 then Inl (BadSpread spreadFactor)
      else if codingRate < 5 \<or> codingRate > 8 then Inl (BadCoding codingRate)
      else if bandwidthHz \<le> 0 then Inl (BadBandwidth bandwidthHz)
      else Inr \<lparr>pr_name = ''CUSTOM'', pr_bandwidth = bandwidthHz, pr_spread = spreadFactor, pr_coding = codingRate\<rparr>)"

section \<open>Monotonicity\<close>

definition preset_ok :: "preset \<Rightarrow> bool" where
  "preset_ok p \<longleftrightarrow> 7 \<le> pr_spread p \<and> pr_spread p \<le> 12 \<and> 5 \<le> pr_coding p \<and> pr_coding p \<le> 8 \<and> 0 < pr_bandwidth p"

lemma presets_ok: "p \<in> set presets \<Longrightarrow> preset_ok p"
  by (auto simp: presets_def preset_ok_def preset_defs)

lemma custom_ok: "airtime_custom bw sf cr = Inr p \<Longrightarrow> preset_ok p"
  by (auto simp: airtime_custom_def preset_ok_def split: if_splits)

lemma spread_den:
  assumes "preset_ok p" and "de = 0 \<or> de = 1"
  shows "0 < fl (4 * fl (fl (of_int (pr_spread p)) - fl (2 * de)))"
proof -
  have sf: "fl (of_int (pr_spread p)) = of_int (pr_spread p)"
    using assms by (intro fl_of_int) (simp add: preset_ok_def)
  have two: "fl (2 * de) = 2 * de" using assms(2) fl_of_int [of 2] by auto
  have "2 * de < of_int (pr_spread p)" using assms by (auto simp: preset_ok_def)
  then have "0 < fl (of_int (pr_spread p) - 2 * de)" by (intro fl_pos) simp
  then show ?thesis unfolding sf two by (intro fl_pos) simp
qed

lemma payload_symbols_mono:
  assumes "preset_ok p" and "de = 0 \<or> de = 1" and "n \<le> m"
  shows "payload_symbols p de n \<le> payload_symbols p de m"
proof -
  let ?sf = "fl (of_int (pr_spread p))"
  let ?num = "\<lambda>n. fl (fl (fl (fl (8 * fl (of_int n)) - fl (4 * ?sf)) + 28) + 16)"
  let ?den = "fl (4 * fl (?sf - fl (2 * de)))"
  have "?num n \<le> ?num m"
    using assms(3) by (intro fl_mono add_right_mono diff_right_mono mult_left_mono) simp_all
  then have "fl (?num n / ?den) \<le> fl (?num m / ?den)"
    using spread_den [OF assms(1,2)] by (intro fl_mono [of "_ / _"] divide_right_mono) simp_all
  then have "(of_int \<lceil>fl (?num n / ?den)\<rceil> :: rat) \<le> of_int \<lceil>fl (?num m / ?den)\<rceil>"
    by (simp only: of_int_le_iff ceiling_mono)
  moreover have "0 \<le> fl (of_int (pr_coding p))" using assms(1) by (intro fl_nonneg) (simp add: preset_ok_def)
  ultimately have "fl (of_int \<lceil>fl (?num n / ?den)\<rceil> * fl (of_int (pr_coding p))) \<le>
      fl (of_int \<lceil>fl (?num m / ?den)\<rceil> * fl (of_int (pr_coding p)))"
    by (intro fl_mono mult_right_mono)
  then show ?thesis
    unfolding payload_symbols_def Let_def
    by (rule_tac fl_mono, rule_tac add_left_mono, rule_tac max.mono) simp_all
qed

lemma payload_symbols_nonneg: "0 \<le> payload_symbols p de n"
  unfolding payload_symbols_def Let_def by (intro fl_nonneg) simp

lemma airtime_raw_mono:
  assumes "preset_ok p" and "n \<le> m"
  shows "airtime_raw p n \<le> airtime_raw p m" "0 \<le> airtime_raw p n"
proof -
  define ts where "ts = fl (2 powi (pr_spread p) / fl (of_int (pr_bandwidth p)))"
  define de :: rat where "de = (if ts > fl (1638 / 100000) then 1 else 0)"
  have ts: "0 \<le> ts" unfolding ts_def
    using assms(1) by (intro fl_nonneg divide_nonneg_nonneg) (simp_all add: fl_nonneg preset_ok_def)
  have eq: "airtime_raw p k =
      trunc (fl (fl (fl ((16 + 17 / 4) * ts) + fl (payload_symbols p de k * ts)) * nanosecond_rate))" for k
    by (simp add: airtime_raw_def Let_def ts_def de_def)
  have "payload_symbols p de n \<le> payload_symbols p de m"
    using assms by (intro payload_symbols_mono) (simp_all add: de_def)
  then show "airtime_raw p n \<le> airtime_raw p m"
    unfolding eq using ts
    by (intro trunc_mono fl_mono mult_right_mono add_left_mono) (simp_all add: nanosecond_rate_def)
  show "0 \<le> airtime_raw p n"
    unfolding eq using ts payload_symbols_nonneg [of p de n]
    by (intro trunc_nonneg fl_nonneg mult_nonneg_nonneg add_nonneg_nonneg) (simp_all add: nanosecond_rate_def)
qed

text \<open>The longest packet on the default preset takes 2.156544 s.\<close>

lemma longfast_full: "airtime_packet LongFast 233 = 2156544000"
proof -
  have ts: "fl (128 / 15625) = 4722366482869645 / 2 ^ 59" by (rule fl_value [where m = 4722366482869645, simplified]) simp_all
  have pre: "fl (382511685112441245 / 2305843009213693952) = 5976745079881894 / 2 ^ 55" 
    by (rule fl_value [where m = 5976745079881894, simplified]) simp_all
  have body: "fl (1147535055337323735 / 576460752303423488) = 8965117619822842 / 2 ^ 52" 
    by (rule fl_value [where m = 8965117619822842, simplified]) simp_all
  have s: "fl (38848843019232315/18014398509481984) = 4856105377404039 / 2 ^ 51" 
    by (rule fl_value [where m = 4856105377404039, simplified]) simp_all
  have r: "fl (9484580815242263671875/4398046511104) = 4522600562688000 / 2 ^ 21" 
    by (rule fl_value [where m = 4522600562688000, simplified]) simp_all
  have q: "fl (512/11) = 6550690367084358 / 2 ^ 47" 
    by (rule fl_value [where m = 6550690367084358, simplified]) simp_all
  have de: "fl (819/50000) = 4721213561365038 / 2 ^ 58" 
    by (rule fl_value [where m = 4721213561365038, simplified]) simp_all
  have c: "\<lceil>3275345183542179 / 70368744177664 :: rat\<rceil> = 47" by (rule ceiling_unique) simp_all
  show ?thesis
    by (simp add: airtime_packet_def airtime_raw_def payload_symbols_def LongFast_def HeaderBytes_def nanosecond_rate_def Let_def fl_numeral
        ts pre body s r q de c trunc_def)
qed

text \<open>
  Airtime is priced soundly: for every preset of the table and every one \<open>Custom\<close> admits,
  a larger packet never costs less, no cost is negative, and the flooded cost is never below
  the packet's own airtime (up to \<open>2^53\<close> ns, some hundred days), also for a multiplier below
  one, which counts as one.
\<close>

theorem airtime_sound:
  assumes "p \<in> set presets \<or> airtime_custom bw sf cr = Inr p" and "n \<le> m"
  shows "0 \<le> airtime_packet p n \<and> airtime_packet p n \<le> airtime_packet p m \<and>
    airtime_cost p n flood \<le> airtime_cost p m flood \<and>
    (airtime_packet p n \<le> 2 ^ 53 \<longrightarrow> airtime_packet p n \<le> airtime_cost p n flood)"
proof -
  have ok: "preset_ok p" using assms(1) presets_ok custom_ok by blast
  have mono: "airtime_packet p n \<le> airtime_packet p m" and pos: "0 \<le> airtime_packet p n"
    using airtime_raw_mono [OF ok, of "n + HeaderBytes" "m + HeaderBytes"] assms(2) by (simp_all add: airtime_packet_def)
  let ?f = "if flood < 1 then 1 else flood"
  have f: "1 \<le> ?f" by simp
  have "airtime_cost p n flood \<le> airtime_cost p m flood"
    unfolding airtime_cost_def Let_def using mono f
    by (intro trunc_mono fl_mono mult_right_mono) simp_all
  moreover have "airtime_packet p n \<le> airtime_cost p n flood" if "airtime_packet p n \<le> 2 ^ 53"
  proof -
    have fl_id: "fl (of_int (airtime_packet p n)) = of_int (airtime_packet p n)"
      using pos that by (intro fl_of_int) simp
    have "(of_int (airtime_packet p n) :: rat) \<le> of_int (airtime_packet p n) * ?f"
      using pos f by (simp add: mult_le_cancel_left1)
    then have "fl (of_int (airtime_packet p n)) \<le> fl (of_int (airtime_packet p n) * ?f)" by (rule fl_mono)
    then have "trunc (of_int (airtime_packet p n)) \<le> airtime_cost p n flood"
      unfolding airtime_cost_def Let_def fl_id by (rule trunc_mono)
    then show ?thesis by simp
  qed
  ultimately show ?thesis using mono pos by blast
qed

theorem airtime_sound_witness:
  "airtime_packet LongFast 103 \<le> airtime_packet LongFast 233 \<and>
   airtime_cost LongFast 103 4 \<le> airtime_cost LongFast 233 4"
  using airtime_sound [of LongFast 0 0 0 103 233 4] by (simp add: presets_def)

end
