(* ===== verification/Schedule.thy ===== *)
theory Schedule
  imports Float64
begin

text \<open>
  The digest scheduler of \<open>internal/gossip/schedule.go\<close>. Durations and times are integers in
  nanoseconds. The random source is the sequence of values it will return, with the number
  already drawn as its state; the clock's reading and the peer count are arguments. Shown: the
  interval respects its rules and its cap, the next digest is always at least a second away, a
  node that has heard its own state announced stays silent exactly once, and, against the
  comment in the code, the cap lets a large mesh exceed its control share.
\<close>

definition time_second :: int where "time_second = 1000000000"
definition time_minute :: int where "time_minute = 60 * time_second"
definition time_hour :: int where "time_hour = 60 * time_minute"

lemmas time_defs = time_second_def time_minute_def time_hour_def

record schedule_config =
  sg_base :: int
  sg_peer_divisor :: int
  sg_control_share :: rat
  sg_airtime_per_byte :: int
  sg_flood_multiplier :: rat
  sg_jitter_fraction :: rat
  sg_max_interval :: int

definition default_schedule :: schedule_config where
  "default_schedule =
     \<lparr>sg_base = 30 * time_minute, sg_peer_divisor = 5, sg_control_share = fl (1 / 100),
      sg_airtime_per_byte = 8600000, sg_flood_multiplier = 4, sg_jitter_fraction = fl (20 / 100),
      sg_max_interval = 12 * time_hour\<rparr>"

definition digest_airtime :: "schedule_config \<Rightarrow> int \<Rightarrow> int" where
  "digest_airtime c sizeBytes =
     trunc (fl (fl (fl (of_int sizeBytes) * fl (of_int (sg_airtime_per_byte c))) * sg_flood_multiplier c))"

text \<open>The two rules, each on a peer count of at least one.\<close>

definition heuristic_interval :: "schedule_config \<Rightarrow> int \<Rightarrow> int" where
  "heuristic_interval c peers =
     (let d = (if sg_peer_divisor c < 1 then 1 else sg_peer_divisor c);
          scale0 = fl (fl (of_int peers) / fl (of_int d));
          scale = (if scale0 < 1 then 1 else scale0)
      in trunc (fl (fl (of_int (sg_base c)) * scale)))"

definition clamp_interval :: "schedule_config \<Rightarrow> int \<Rightarrow> int \<Rightarrow> int" where
  "clamp_interval c peers sizeBytes =
     (if sg_control_share c > 0 then
        trunc (fl (fl (fl (of_int peers) * fl (of_int (digest_airtime c sizeBytes))) / sg_control_share c))
      else 0)"

definition digest_interval :: "schedule_config \<Rightarrow> int \<Rightarrow> int \<Rightarrow> int" where
  "digest_interval c peers0 sizeBytes =
     (let peers = (if peers0 < 1 then 1 else peers0);
          interval0 = heuristic_interval c peers;
          clamp = clamp_interval c peers sizeBytes;
          interval1 = (if clamp > interval0 then clamp else interval0)
      in if sg_max_interval c > 0 \<and> interval1 > sg_max_interval c then sg_max_interval c else interval1)"

definition control_utilisation :: "schedule_config \<Rightarrow> int \<Rightarrow> int \<Rightarrow> int \<Rightarrow> rat" where
  "control_utilisation c peers sizeBytes interval =
     (if interval \<le> 0 then 1
      else fl (fl (fl (of_int peers) * fl (of_int (digest_airtime c sizeBytes))) / fl (of_int interval)))"

section \<open>The scheduler\<close>

record scheduler =
  sc_cfg :: schedule_config
  sc_last :: int
  sc_due :: int
  sc_heard_matching :: bool
  sc_suppressed :: int
  sc_sent :: int

text \<open>A draw of the source: the value and the source afterwards.\<close>

definition rnd_float64 :: "(nat \<Rightarrow> rat) \<Rightarrow> nat \<Rightarrow> rat \<times> nat" where
  "rnd_float64 rnd k = (rnd k, Suc k)"

definition reschedule :: "int \<Rightarrow> int \<Rightarrow> (nat \<Rightarrow> rat) \<Rightarrow> int \<Rightarrow> scheduler \<times> nat \<Rightarrow> scheduler \<times> nat" where
  "reschedule now peers rnd sizeBytes0 sk =
     (case sk of (s, k) \<Rightarrow>
        let sizeBytes = (if sizeBytes0 \<le> 0 then 103 else sizeBytes0);
            interval0 = digest_interval (sc_cfg s) peers sizeBytes;
            (interval1, k1) =
              (if sg_jitter_fraction (sc_cfg s) > 0 then
                 let span = fl (fl (of_int interval0) * sg_jitter_fraction (sc_cfg s));
                     (u, k1) = rnd_float64 rnd k;
                     offset = fl (fl (fl (u * 2) - 1) * span)
                 in (trunc (fl (fl (of_int interval0) + offset)), k1)
               else (interval0, k));
            interval = (if interval1 < time_second then time_second else interval1)
        in (s\<lparr>sc_due := now + interval\<rparr>, k1))"

definition new_scheduler :: "schedule_config \<Rightarrow> int \<Rightarrow> int \<Rightarrow> (nat \<Rightarrow> rat) \<Rightarrow> nat \<Rightarrow> scheduler \<times> nat" where
  "new_scheduler cfg now peers rnd k =
     reschedule now peers rnd 0
       (\<lparr>sc_cfg = cfg, sc_last = now, sc_due = 0, sc_heard_matching = False, sc_suppressed = 0, sc_sent = 0\<rparr>, k)"

definition note_transmitted :: "int \<Rightarrow> int \<Rightarrow> (nat \<Rightarrow> rat) \<Rightarrow> int \<Rightarrow> scheduler \<times> nat \<Rightarrow> scheduler \<times> nat" where
  "note_transmitted now peers rnd sizeBytes sk =
     (case sk of (s, k) \<Rightarrow> reschedule now peers rnd sizeBytes (s\<lparr>sc_last := now, sc_heard_matching := False\<rparr>, k))"

definition note_heard :: "bool \<Rightarrow> scheduler \<Rightarrow> scheduler" where
  "note_heard matches s = (if matches then s\<lparr>sc_heard_matching := True\<rparr> else s)"

datatype due_reason = NotYetDue | Suppressed | IsDue

definition sched_due :: "int \<Rightarrow> int \<Rightarrow> (nat \<Rightarrow> rat) \<Rightarrow> scheduler \<times> nat \<Rightarrow> (bool \<times> due_reason) \<times> scheduler \<times> nat" where
  "sched_due now peers rnd sk =
     (case sk of (s, k) \<Rightarrow>
        if now < sc_due s then ((False, NotYetDue), s, k)
        else if sc_heard_matching s then
          ((False, Suppressed),
           reschedule now peers rnd 0 (s\<lparr>sc_suppressed := sc_suppressed s + 1, sc_heard_matching := False\<rparr>, k))
        else ((True, IsDue), s, k))"

definition mark_sent :: "int \<Rightarrow> int \<Rightarrow> (nat \<Rightarrow> rat) \<Rightarrow> int \<Rightarrow> scheduler \<times> nat \<Rightarrow> scheduler \<times> nat" where
  "mark_sent now peers rnd sizeBytes sk =
     (case sk of (s, k) \<Rightarrow> note_transmitted now peers rnd sizeBytes (s\<lparr>sc_sent := sc_sent s + 1\<rparr>, k))"

section \<open>Properties\<close>

lemma reschedule_fields:
  "fst (reschedule now peers rnd n (s, k)) = s\<lparr>sc_due := sc_due (fst (reschedule now peers rnd n (s, k)))\<rparr>"
  by (simp add: reschedule_def Let_def split_beta)

lemma reschedule_future: "now + time_second \<le> sc_due (fst (reschedule now peers rnd n sk))"
  by (cases sk) (simp add: reschedule_def Let_def split_beta)

text \<open>
  The digest interval obeys both rules of the code and its cap: unless the cap binds it is
  at least the per-peer heuristic and at least the airtime clamp, and it never exceeds a
  positive \<open>MaxInterval\<close>. The cap is applied last, so it overrides the clamp: at the defaults
  a mesh of 200 nodes spends more than its 1% control share on digests, although the code says
  that whichever rule binds the result is safe.
\<close>

theorem digest_interval_rules:
  "(0 < sg_max_interval c \<longrightarrow> digest_interval c peers n \<le> sg_max_interval c) \<and>
   (digest_interval c peers n = sg_max_interval c \<or>
      heuristic_interval c (max 1 peers) \<le> digest_interval c peers n \<and>
      clamp_interval c (max 1 peers) n \<le> digest_interval c peers n) \<and>
   control_utilisation default_schedule 200 104 (digest_interval default_schedule 200 104) >
     sg_control_share default_schedule"
proof (intro conjI)
  show "0 < sg_max_interval c \<longrightarrow> digest_interval c peers n \<le> sg_max_interval c"
    by (simp add: digest_interval_def Let_def)
  show "digest_interval c peers n = sg_max_interval c \<or>
      heuristic_interval c (max 1 peers) \<le> digest_interval c peers n \<and>
      clamp_interval c (max 1 peers) n \<le> digest_interval c peers n"
    by (simp add: digest_interval_def Let_def max_def not_less)
  show "control_utilisation default_schedule 200 104 (digest_interval default_schedule 200 104) >
     sg_control_share default_schedule"
    by code_simp
qed

theorem digest_interval_rules_witness:
  "digest_interval default_schedule 200 104 \<le> sg_max_interval default_schedule"
  using digest_interval_rules [of default_schedule 200 104] by (simp add: default_schedule_def time_defs)

text \<open>
  Digest suppression is sound. \<open>Due\<close> asks for a digest exactly when its time has come and no
  peer has announced the same state since; a suppressed turn is counted, clears the mark and
  moves the next digest at least a second into the future, so the same announcement silences
  this node once and the scheduler never fires twice at one instant.
\<close>

theorem digest_suppression:
  "(fst (fst (sched_due now peers rnd (s, k))) \<longleftrightarrow> sc_due s \<le> now \<and> \<not> sc_heard_matching s) \<and>
   (let s' = fst (snd (sched_due now peers rnd (s, k)))
    in if sc_due s \<le> now \<and> sc_heard_matching s
       then sc_suppressed s' = sc_suppressed s + 1 \<and> \<not> sc_heard_matching s' \<and> now + time_second \<le> sc_due s'
       else s' = s) \<and>
   now + time_second \<le> sc_due (fst (mark_sent now peers rnd n (s, k))) \<and>
   \<not> sc_heard_matching (fst (mark_sent now peers rnd n (s, k)))"
proof -
  have heard: "sc_heard_matching (fst (reschedule now peers rnd n (s, k))) = sc_heard_matching s" for n s k
    by (subst reschedule_fields) simp
  have supp: "sc_suppressed (fst (reschedule now peers rnd n (s, k))) = sc_suppressed s" for n s k
    by (subst reschedule_fields) simp
  show ?thesis
    using reschedule_future
    by (auto simp: sched_due_def mark_sent_def note_transmitted_def Let_def heard supp)
qed

end
