(* ===== verification/Engine.thy ===== *)
theory Engine
  imports GossipWire Records Schedule
begin

text \<open>
  The gossip engine of \<open>internal/gossip/engine.go\<close>: the anti-entropy state machine of one node.
  The store and the outbox are interfaces of the code; here they are the operations of the
  record \<open>gossip_env\<close> on abstract states, together with BLAKE3 and the random source. The clock's
  reading is an argument (\<open>now\<close>) of each entry point. Every handler is modelled whole, with its
  early returns and the state it leaves behind on each of them, and the engine's error is part
  of the result.

  \<open>firePending\<close> filters its queue in place (\<open>keep := e.pending[:0]\<close>). When a send fails it returns
  with the queue's length unchanged and its prefix overwritten by what was kept so far; the
  model reproduces that.
\<close>

section \<open>Interfaces\<close>

record budget =
  bu_available :: int
  bu_per_datagram :: int
  bu_backpressure :: bool

definition can_send :: "budget \<Rightarrow> bool" where
  "can_send b \<longleftrightarrow> \<not> bu_backpressure b \<and> bu_available b \<ge> bu_per_datagram b"

definition Broadcast :: node_id where "Broadcast = zero_array"

datatype engine_error = EGossip gossip_error | ESend nat | EStore nat | EUnhandled u8

record ('s, 'o) gossip_env =
  ge_areas :: "'s \<Rightarrow> area_tag list"
  ge_vector :: "'s \<Rightarrow> area_tag \<Rightarrow> vector"
  ge_records :: "'s \<Rightarrow> area_tag \<Rightarrow> vv_range \<Rightarrow> rec list"
  ge_apply :: "'s \<Rightarrow> area_tag \<Rightarrow> rec list \<Rightarrow> nat \<times> nat option \<times> 's"
  ge_send_message :: "node_id \<Rightarrow> bytes \<Rightarrow> 'o \<Rightarrow> nat option \<times> 'o"
  ge_send_records :: "area_tag \<Rightarrow> rec list \<Rightarrow> 'o \<Rightarrow> nat option \<times> 'o"
  ge_budget :: "'o \<Rightarrow> budget"
  ge_loss_adapter :: "(('o \<Rightarrow> rat) \<times> (rat \<Rightarrow> 'o \<Rightarrow> 'o)) option"
  ge_blake3 :: "bytes \<Rightarrow> bytes"
  ge_rnd :: "nat \<Rightarrow> rat"

section \<open>Configuration and state\<close>

record engine_config =
  ec_schedule :: schedule_config
  ec_request_delay :: int
  ec_max_ranges :: nat
  ec_max_records :: nat
  ec_peer_timeout :: int
  ec_dictionary :: u8

definition default_config :: engine_config where
  "default_config =
     \<lparr>ec_schedule = default_schedule, ec_request_delay = 30 * time_second, ec_max_ranges = MaxRanges - 2,
      ec_max_records = 64, ec_peer_timeout = 24 * time_hour, ec_dictionary = 0\<rparr>"

record awaited_push =
  aw_want :: u16
  aw_at :: int

record peer_state =
  ps_id :: node_id
  ps_last_heard :: int
  ps_last_digest :: "(area_tag, area_state) fmap"
  ps_vectors :: "(area_tag, vector) fmap"
  ps_awaiting :: "(area_tag, awaited_push) fmap"
  ps_dictionary :: u8
  ps_dict_known :: bool

record pending_ask =
  pa_peer :: node_id
  pa_area :: area_tag
  pa_at :: int
  pa_want_hash :: hash4

record stats =
  st_digests_sent :: nat
  st_digests_heard :: nat
  st_bundles_observed :: nat
  st_bundles_missed :: nat
  st_vector_reqs_sent :: nat
  st_vector_reqs_dropped :: nat
  st_vectors_sent :: nat
  st_range_reqs_sent :: nat
  st_records_pushed :: nat
  st_records_applied :: nat
  st_bytes_sent :: nat

definition stats_zero :: stats where
  "stats_zero = \<lparr>st_digests_sent = 0, st_digests_heard = 0, st_bundles_observed = 0, st_bundles_missed = 0,
     st_vector_reqs_sent = 0, st_vector_reqs_dropped = 0, st_vectors_sent = 0, st_range_reqs_sent = 0,
     st_records_pushed = 0, st_records_applied = 0, st_bytes_sent = 0\<rparr>"

record ('s, 'o) engine =
  eg_self :: node_id
  eg_store :: 's
  eg_out :: 'o
  eg_cfg :: engine_config
  eg_sched :: scheduler
  eg_rnd :: nat
  eg_peers :: "(node_id, peer_state) fmap"
  eg_pending :: "pending_ask list"
  eg_loss :: rat
  eg_stats :: stats

section \<open>Queries\<close>

definition peer_count :: "int \<Rightarrow> ('s, 'o) engine \<Rightarrow> int" where
  "peer_count now e =
     (if ec_peer_timeout (eg_cfg e) \<le> 0 then int (fcard (fmdom (eg_peers e))) + 1
      else int (length (filter (\<lambda>(_, p). ps_last_heard p > now - ec_peer_timeout (eg_cfg e)) (fmap_items (eg_peers e)))) + 1)"

definition engine_digest :: "('s, 'o) gossip_env \<Rightarrow> ('s, 'o) engine \<Rightarrow> digest" where
  "engine_digest E e =
     (new_digest (ge_blake3 E)
        (fold (\<lambda>a m. fmupd a (ge_vector E (eg_store e) a) m) (ge_areas E (eg_store e)) fmempty))
       \<lparr>dg_dictionary := ec_dictionary (eg_cfg e)\<rparr>"

definition dictionary_floor :: "int \<Rightarrow> ('s, 'o) engine \<Rightarrow> u8 \<times> node_id \<times> bool" where
  "dictionary_floor now e =
     (let (floor, holder) =
        fold (\<lambda>(_, p) (floor, holder).
          if \<not> ps_dict_known p then (floor, holder)
          else if ec_peer_timeout (eg_cfg e) > 0 \<and> \<not> ps_last_heard p > now - ec_peer_timeout (eg_cfg e) then (floor, holder)
          else if ps_dictionary p < floor then (ps_dictionary p, ps_id p)
          else (floor, holder))
        (fmap_items (eg_peers e)) (ec_dictionary (eg_cfg e), zero_array)
      in (floor, holder, floor < ec_dictionary (eg_cfg e)))"

definition federates :: "('s, 'o) gossip_env \<Rightarrow> ('s, 'o) engine \<Rightarrow> area_tag \<Rightarrow> bool" where
  "federates E e tag = list_ex (\<lambda>a. a = tag) (ge_areas E (eg_store e))"

section \<open>Updates\<close>

definition with_sched :: "(scheduler \<times> nat \<Rightarrow> scheduler \<times> nat) \<Rightarrow> ('s, 'o) engine \<Rightarrow> ('s, 'o) engine" where
  "with_sched f e = (let (s, k) = f (eg_sched e, eg_rnd e) in e\<lparr>eg_sched := s, eg_rnd := k\<rparr>)"

definition with_stats :: "(stats \<Rightarrow> stats) \<Rightarrow> ('s, 'o) engine \<Rightarrow> ('s, 'o) engine" where
  "with_stats f e = e\<lparr>eg_stats := f (eg_stats e)\<rparr>"

definition with_peer :: "node_id \<Rightarrow> (peer_state \<Rightarrow> peer_state) \<Rightarrow> ('s, 'o) engine \<Rightarrow> ('s, 'o) engine" where
  "with_peer nid f e =
     (case fmlookup (eg_peers e) nid of None \<Rightarrow> e | Some p \<Rightarrow> e\<lparr>eg_peers := fmupd nid (f p) (eg_peers e)\<rparr>)"

definition note_piggybacked :: "('s, 'o) gossip_env \<Rightarrow> int \<Rightarrow> int \<Rightarrow> ('s, 'o) engine \<Rightarrow> ('s, 'o) engine" where
  "note_piggybacked E now sizeBytes e = with_sched (note_transmitted now (peer_count now e) (ge_rnd E) sizeBytes) e"

definition lossClimbFactor :: rat where "lossClimbFactor = 3 / 2"
definition lossClimbFloor :: rat where "lossClimbFloor = fl (5 / 100)"
definition lossDecayFactor :: rat where "lossDecayFactor = fl (92 / 100)"
definition lossCeiling :: rat where "lossCeiling = 1 / 2"

definition next_loss :: "bool \<Rightarrow> rat \<Rightarrow> rat" where
  "next_loss landed before =
     (if landed then
        let x = fl (before * lossDecayFactor) in if x < fl (1 / 1000) then 0 else x
      else
        let x = fl (fl (before * lossClimbFactor) + lossClimbFloor) in if x > lossCeiling then lossCeiling else x)"

definition note_delivery :: "('s, 'o) gossip_env \<Rightarrow> bool \<Rightarrow> ('s, 'o) engine \<Rightarrow> ('s, 'o) engine" where
  "note_delivery E landed e =
     (let before = eg_loss e;
          e1 = with_stats (\<lambda>s. s\<lparr>st_bundles_observed := st_bundles_observed s + 1,
                 st_bundles_missed := (if landed then st_bundles_missed s else st_bundles_missed s + 1)\<rparr>) e;
          e2 = e1\<lparr>eg_loss := next_loss landed before\<rparr>
      in if eg_loss e2 \<noteq> before then
           (case ge_loss_adapter E of
              None \<Rightarrow> e2
            | Some (getter, setter) \<Rightarrow> e2\<lparr>eg_out := setter (eg_loss e2) (eg_out e2)\<rparr>)
         else e2)"

definition settle_awaited :: "('s, 'o) gossip_env \<Rightarrow> node_id \<Rightarrow> area_state \<Rightarrow> ('s, 'o) engine \<Rightarrow> ('s, 'o) engine" where
  "settle_awaited E from a e =
     (case fmlookup (eg_peers e) from of
        None \<Rightarrow> e
      | Some p \<Rightarrow>
          (case fmlookup (ps_awaiting p) (as_tag a) of
             None \<Rightarrow> e
           | Some w \<Rightarrow>
               note_delivery E (as_count a \<ge> aw_want w)
                 (with_peer from (\<lambda>p. p\<lparr>ps_awaiting := fmdrop (as_tag a) (ps_awaiting p)\<rparr>) e)))"

definition note_awaited_peer :: "int \<Rightarrow> area_tag \<Rightarrow> nat \<Rightarrow> peer_state \<Rightarrow> peer_state" where
  "note_awaited_peer now area added p =
     (case fmlookup (ps_last_digest p) area of
        None \<Rightarrow> p
      | Some seen \<Rightarrow>
          if as_count seen \<ge> 0xFFFF then p
          else
            let want0 = unat (as_count seen) + added; want = (if want0 > 0xFFFF then 0xFFFF else want0)
            in p\<lparr>ps_awaiting := fmupd area \<lparr>aw_want = of_nat want, aw_at = now\<rparr> (ps_awaiting p)\<rparr>)"

definition note_awaited :: "int \<Rightarrow> area_tag \<Rightarrow> nat \<Rightarrow> ('s, 'o) engine \<Rightarrow> ('s, 'o) engine" where
  "note_awaited now area added e =
     (if added = 0 then e else e\<lparr>eg_peers := fmmap (note_awaited_peer now area added) (eg_peers e)\<rparr>)"

definition schedule_ask ::
  "('s, 'o) gossip_env \<Rightarrow> int \<Rightarrow> node_id \<Rightarrow> area_tag \<Rightarrow> hash4 \<Rightarrow> ('s, 'o) engine \<Rightarrow> ('s, 'o) engine" where
  "schedule_ask E now peer area wantHash e =
     (if list_ex (\<lambda>ask. pa_peer ask = peer \<and> pa_area ask = area) (eg_pending e) then e
      else
        let (delay, k) =
              (if ec_request_delay (eg_cfg e) > 0 then
                 let (u, k) = rnd_float64 (ge_rnd E) (eg_rnd e)
                 in (trunc (fl (u * fl (of_int (ec_request_delay (eg_cfg e))))), k)
               else (0, eg_rnd e))
        in e\<lparr>eg_rnd := k, eg_pending := eg_pending e @
               [\<lparr>pa_peer = peer, pa_area = area, pa_at = now + delay, pa_want_hash = wantHash\<rparr>]\<rparr>)"

section \<open>Construction\<close>

definition engine_new ::
  "('s, 'o) gossip_env \<Rightarrow> int \<Rightarrow> node_id \<Rightarrow> 's \<Rightarrow> 'o \<Rightarrow> engine_config \<Rightarrow> nat \<Rightarrow> ('s, 'o) engine" where
  "engine_new E now self store out cfg k =
     (let (sched, k') = new_scheduler (ec_schedule cfg) now 1 (ge_rnd E) k
      in \<lparr>eg_self = self, eg_store = store, eg_out = out, eg_cfg = cfg, eg_sched = sched, eg_rnd = k',
          eg_peers = fmempty, eg_pending = [],
          eg_loss = (case ge_loss_adapter E of None \<Rightarrow> 0 | Some (getter, setter) \<Rightarrow> getter out),
          eg_stats = stats_zero\<rparr>)"

section \<open>The heartbeat\<close>

text \<open>
  The loop of \<open>firePending\<close>: the error that stopped it, if any, the asks kept so far and the
  engine with what was sent and counted.
\<close>

fun fire_loop ::
  "('s, 'o) gossip_env \<Rightarrow> int \<Rightarrow> pending_ask list \<Rightarrow> pending_ask list \<Rightarrow> ('s, 'o) engine \<Rightarrow>
   nat option \<times> pending_ask list \<times> ('s, 'o) engine" where
  "fire_loop E now [] keep e = (None, keep, e)"
| "fire_loop E now (ask # asks) keep e =
     (if now < pa_at ask then fire_loop E now asks (keep @ [ask]) e
      else if vv_hash (ge_blake3 E) (ge_vector E (eg_store e) (pa_area ask)) = pa_want_hash ask then
        fire_loop E now asks keep (with_stats (\<lambda>s. s\<lparr>st_vector_reqs_dropped := st_vector_reqs_dropped s + 1\<rparr>) e)
      else if \<not> can_send (ge_budget E (eg_out e)) then fire_loop E now asks (keep @ [ask]) e
      else
        let payload = vector_req_encode \<lparr>vr_areas = [pa_area ask]\<rparr>;
            (err, out) = ge_send_message E (pa_peer ask) payload (eg_out e);
            e1 = e\<lparr>eg_out := out\<rparr>
        in case err of
             Some x \<Rightarrow> (Some x, keep, e1)
           | None \<Rightarrow>
               fire_loop E now asks keep
                 (with_stats (\<lambda>s. s\<lparr>st_vector_reqs_sent := st_vector_reqs_sent s + 1,
                    st_bytes_sent := st_bytes_sent s + length payload\<rparr>) e1))"

definition fire_pending :: "('s, 'o) gossip_env \<Rightarrow> int \<Rightarrow> ('s, 'o) engine \<Rightarrow> (engine_error + unit) \<times> ('s, 'o) engine" where
  "fire_pending E now e =
     (if eg_pending e = [] then (Inr (), e)
      else case fire_loop E now (eg_pending e) [] e of
             (None, keep, e1) \<Rightarrow> (Inr (), e1\<lparr>eg_pending := keep\<rparr>)
           | (Some x, keep, e1) \<Rightarrow> (Inl (ESend x), e1\<lparr>eg_pending := keep @ drop (length keep) (eg_pending e)\<rparr>))"

definition engine_tick :: "('s, 'o) gossip_env \<Rightarrow> int \<Rightarrow> ('s, 'o) engine \<Rightarrow> (engine_error + unit) \<times> ('s, 'o) engine" where
  "engine_tick E now e =
     (case fire_pending E now e of
        (Inl err, e1) \<Rightarrow> (Inl err, e1)
      | (Inr _, e1) \<Rightarrow>
          let ((due, _), sk) = sched_due now (peer_count now e1) (ge_rnd E) (eg_sched e1, eg_rnd e1);
              e2 = e1\<lparr>eg_sched := fst sk, eg_rnd := snd sk\<rparr>
          in if \<not> due then (Inr (), e2)
             else
               let d = engine_digest E e2
               in if dg_areas d = [] then (Inr (), with_sched (mark_sent now (peer_count now e2) (ge_rnd E) 0) e2)
                  else if \<not> can_send (ge_budget E (eg_out e2)) then (Inr (), e2)
                  else
                    let payload = digest_encode d;
                        (err, out) = ge_send_message E Broadcast payload (eg_out e2);
                        e3 = e2\<lparr>eg_out := out\<rparr>
                    in case err of
                         Some x \<Rightarrow> (Inl (ESend x), e3)
                       | None \<Rightarrow>
                           let e4 = with_stats (\<lambda>s. s\<lparr>st_digests_sent := st_digests_sent s + 1,
                                      st_bytes_sent := st_bytes_sent s + length payload\<rparr>) e3
                           in (Inr (), with_sched (mark_sent now (peer_count now e4) (ge_rnd E) (int (length payload))) e4))"

section \<open>Handlers\<close>

text \<open>One turn of \<open>onDigest\<close>'s loop, with the counts of shared and matching areas.\<close>

definition digest_area ::
  "('s, 'o) gossip_env \<Rightarrow> int \<Rightarrow> node_id \<Rightarrow> area_state \<Rightarrow> ('s, 'o) engine \<times> nat \<times> nat \<Rightarrow> ('s, 'o) engine \<times> nat \<times> nat" where
  "digest_area E now from a st =
     (case st of (e0, shared, matching) \<Rightarrow>
        let e1 = settle_awaited E from a e0;
            e = with_peer from (\<lambda>p. p\<lparr>ps_last_digest := fmupd (as_tag a) a (ps_last_digest p)\<rparr>) e1;
            mine = ge_vector E (eg_store e) (as_tag a)
        in if vv_len mine = 0 \<and> \<not> federates E e (as_tag a) then (e, shared, matching)
           else if vv_hash (ge_blake3 E) mine = as_hash a then (e, shared + 1, matching + 1)
           else if saturating_count (vv_count mine) > as_count a then (e, shared + 1, matching)
           else (schedule_ask E now from (as_tag a) (as_hash a) e, shared + 1, matching))"

definition on_digest ::
  "('s, 'o) gossip_env \<Rightarrow> int \<Rightarrow> node_id \<Rightarrow> bytes \<Rightarrow> ('s, 'o) engine \<Rightarrow> (engine_error + unit) \<times> ('s, 'o) engine" where
  "on_digest E now from payload e =
     (case decode_digest payload of
        Inl err \<Rightarrow> (Inl (EGossip err), e)
      | Inr d \<Rightarrow>
          let e1 = with_peer from (\<lambda>p. p\<lparr>ps_dictionary := dg_dictionary d, ps_dict_known := True\<rparr>)
                     (with_stats (\<lambda>s. s\<lparr>st_digests_heard := st_digests_heard s + 1\<rparr>) e);
              (e2, shared, matching) = fold (digest_area E now from) (dg_areas d) (e1, 0, 0)
          in (Inr (), e2\<lparr>eg_sched := note_heard (shared > 0 \<and> matching = shared) (eg_sched e2)\<rparr>))"

fun answer_vectors ::
  "('s, 'o) gossip_env \<Rightarrow> node_id \<Rightarrow> area_tag list \<Rightarrow> ('s, 'o) engine \<Rightarrow> (engine_error + unit) \<times> ('s, 'o) engine" where
  "answer_vectors E from [] e = (Inr (), e)"
| "answer_vectors E from (tag # tags) e =
     (if \<not> federates E e tag then answer_vectors E from tags e
      else if \<not> can_send (ge_budget E (eg_out e)) then (Inr (), e)
      else
        let payload = vector_msg_encode \<lparr>vm_area = tag, vm_vector = ge_vector E (eg_store e) tag\<rparr>;
            (err, out) = ge_send_message E from payload (eg_out e);
            e1 = e\<lparr>eg_out := out\<rparr>
        in case err of
             Some x \<Rightarrow> (Inl (ESend x), e1)
           | None \<Rightarrow>
               answer_vectors E from tags
                 (with_stats (\<lambda>s. s\<lparr>st_vectors_sent := st_vectors_sent s + 1,
                    st_bytes_sent := st_bytes_sent s + length payload\<rparr>) e1))"

definition on_vector_req ::
  "('s, 'o) gossip_env \<Rightarrow> node_id \<Rightarrow> bytes \<Rightarrow> ('s, 'o) engine \<Rightarrow> (engine_error + unit) \<times> ('s, 'o) engine" where
  "on_vector_req E from payload e =
     (case decode_vector_req payload of
        Inl err \<Rightarrow> (Inl (EGossip err), e)
      | Inr req \<Rightarrow> answer_vectors E from (vr_areas req) e)"

text \<open>The ranges \<open>onVector\<close> asks for: lowest sequences first, bounded by count and by bytes.\<close>

definition ranges_to_ask :: "engine_config \<Rightarrow> area_tag \<Rightarrow> vector \<Rightarrow> vector \<Rightarrow> vv_range list" where
  "ranges_to_ask cfg area mine theirs =
     (let missing = sort_key rg_from (vv_missing mine theirs);
          capped = (if length missing > ec_max_ranges cfg then take (ec_max_ranges cfg) missing else missing)
      in fit_ranges area capped MaxControlMessage)"

definition on_vector ::
  "('s, 'o) gossip_env \<Rightarrow> node_id \<Rightarrow> bytes \<Rightarrow> ('s, 'o) engine \<Rightarrow> (engine_error + unit) \<times> ('s, 'o) engine" where
  "on_vector E from payload e =
     (case decode_vector_msg payload of
        Inl err \<Rightarrow> (Inl (EGossip err), e)
      | Inr msg \<Rightarrow>
          if \<not> federates E e (vm_area msg) then (Inr (), e)
          else
            let e1 = with_peer from (\<lambda>p. p\<lparr>ps_vectors := fmupd (vm_area msg) (vm_vector msg) (ps_vectors p)\<rparr>) e;
                mine = ge_vector E (eg_store e1) (vm_area msg)
            in if vv_missing mine (vm_vector msg) = [] then (Inr (), e1)
               else
                 let missing = ranges_to_ask (eg_cfg e1) (vm_area msg) mine (vm_vector msg)
                 in if missing = [] then (Inr (), e1)
                    else if \<not> can_send (ge_budget E (eg_out e1)) then (Inr (), e1)
                    else
                      let req = range_req_encode \<lparr>rr_area = vm_area msg, rr_ranges = missing\<rparr>;
                          (err, out) = ge_send_message E from req (eg_out e1);
                          e2 = e1\<lparr>eg_out := out\<rparr>
                      in case err of
                           Some x \<Rightarrow> (Inl (ESend x), e2)
                         | None \<Rightarrow>
                             (Inr (), with_stats (\<lambda>s. s\<lparr>st_range_reqs_sent := st_range_reqs_sent s + 1,
                                        st_bytes_sent := st_bytes_sent s + length req\<rparr>) e2))"

fun collect_records ::
  "('s, 'o) gossip_env \<Rightarrow> 's \<Rightarrow> area_tag \<Rightarrow> nat \<Rightarrow> vv_range list \<Rightarrow> rec list \<Rightarrow> rec list" where
  "collect_records E s area mx [] out = out"
| "collect_records E s area mx (rg # rgs) out =
     (if length out \<ge> mx then out
      else
        let recs = ge_records E s area rg; room = mx - length out;
            recs' = (if length recs > room then take room recs else recs)
        in collect_records E s area mx rgs (out @ recs'))"

definition push_records ::
  "('s, 'o) gossip_env \<Rightarrow> int \<Rightarrow> area_tag \<Rightarrow> rec list \<Rightarrow> ('s, 'o) engine \<Rightarrow> (engine_error + unit) \<times> ('s, 'o) engine" where
  "push_records E now area recs e =
     (if \<not> can_send (ge_budget E (eg_out e)) then (Inr (), e)
      else
        let (err, out) = ge_send_records E area recs (eg_out e); e1 = e\<lparr>eg_out := out\<rparr>
        in case err of
             Some x \<Rightarrow> (Inl (ESend x), e1)
           | None \<Rightarrow>
               let e2 = note_awaited now area (length recs)
                          (with_stats (\<lambda>s. s\<lparr>st_records_pushed := st_records_pushed s + length recs\<rparr>) e1)
               in (Inr (), note_piggybacked E now (int (digest_size (engine_digest E e2))) e2))"

definition on_range_req ::
  "('s, 'o) gossip_env \<Rightarrow> int \<Rightarrow> bytes \<Rightarrow> ('s, 'o) engine \<Rightarrow> (engine_error + unit) \<times> ('s, 'o) engine" where
  "on_range_req E now payload e =
     (case decode_range_req payload of
        Inl err \<Rightarrow> (Inl (EGossip err), e)
      | Inr req \<Rightarrow>
          if \<not> federates E e (rr_area req) then (Inr (), e)
          else
            let out = collect_records E (eg_store e) (rr_area req) (ec_max_records (eg_cfg e)) (rr_ranges req) []
            in if out = [] then (Inr (), e) else push_records E now (rr_area req) out e)"

definition fresh_peer :: "node_id \<Rightarrow> peer_state" where
  "fresh_peer from = \<lparr>ps_id = from, ps_last_heard = 0, ps_last_digest = fmempty, ps_vectors = fmempty,
     ps_awaiting = fmempty, ps_dictionary = 0, ps_dict_known = False\<rparr>"

definition touch_peer :: "int \<Rightarrow> node_id \<Rightarrow> ('s, 'o) engine \<Rightarrow> ('s, 'o) engine" where
  "touch_peer now from e =
     (let p = (case fmlookup (eg_peers e) from of None \<Rightarrow> fresh_peer from | Some p \<Rightarrow> p)
      in e\<lparr>eg_peers := fmupd from (p\<lparr>ps_last_heard := now\<rparr>) (eg_peers e)\<rparr>)"

definition engine_receive ::
  "('s, 'o) gossip_env \<Rightarrow> int \<Rightarrow> node_id \<Rightarrow> bytes \<Rightarrow> ('s, 'o) engine \<Rightarrow> (engine_error + unit) \<times> ('s, 'o) engine" where
  "engine_receive E now from payload e =
     (if from = eg_self e then (Inr (), e)
      else case peek_type payload of
             Inl err \<Rightarrow> (Inl (EGossip err), e)
           | Inr t \<Rightarrow>
               let e1 = touch_peer now from e
               in if t = MsgDigest then on_digest E now from payload e1
                  else if t = MsgVectorReq then on_vector_req E from payload e1
                  else if t = MsgVector then on_vector E from payload e1
                  else if t = MsgRangeReq then on_range_req E now payload e1
                  else (Inl (EUnhandled t), e1))"

section \<open>Publishing and applying\<close>

definition engine_publish ::
  "('s, 'o) gossip_env \<Rightarrow> int \<Rightarrow> area_tag \<Rightarrow> rec list \<Rightarrow> ('s, 'o) engine \<Rightarrow> (engine_error + unit) \<times> ('s, 'o) engine" where
  "engine_publish E now area recs e =
     (if recs = [] then (Inr (), e)
      else case ge_apply E (eg_store e) area recs of
             (_, Some x, s) \<Rightarrow> (Inl (EStore x), e\<lparr>eg_store := s\<rparr>)
           | (_, None, s) \<Rightarrow> push_records E now area recs (e\<lparr>eg_store := s\<rparr>))"

definition engine_apply_records ::
  "('s, 'o) gossip_env \<Rightarrow> area_tag \<Rightarrow> rec list \<Rightarrow> ('s, 'o) engine \<Rightarrow> nat \<times> nat option \<times> ('s, 'o) engine" where
  "engine_apply_records E area recs e =
     (case ge_apply E (eg_store e) area recs of
        (n, err, s) \<Rightarrow>
          (n, err, with_stats (\<lambda>st. st\<lparr>st_records_applied := st_records_applied st + n\<rparr>) (e\<lparr>eg_store := s\<rparr>)))"

section \<open>What each operation leaves alone\<close>

lemma with_simps [simp]:
  "eg_out (with_sched f e) = eg_out e" "eg_store (with_sched f e) = eg_store e"
  "eg_pending (with_sched f e) = eg_pending e" "eg_loss (with_sched f e) = eg_loss e"
  "eg_cfg (with_sched f e) = eg_cfg e" "eg_self (with_sched f e) = eg_self e"
  "eg_out (with_stats g e) = eg_out e" "eg_store (with_stats g e) = eg_store e"
  "eg_pending (with_stats g e) = eg_pending e" "eg_loss (with_stats g e) = eg_loss e"
  "eg_cfg (with_stats g e) = eg_cfg e" "eg_self (with_stats g e) = eg_self e"
  "eg_peers (with_stats g e) = eg_peers e"
  "eg_out (with_peer n h e) = eg_out e" "eg_store (with_peer n h e) = eg_store e"
  "eg_pending (with_peer n h e) = eg_pending e" "eg_loss (with_peer n h e) = eg_loss e"
  "eg_cfg (with_peer n h e) = eg_cfg e" "eg_self (with_peer n h e) = eg_self e"
  by (simp_all add: with_sched_def with_stats_def with_peer_def split_beta Let_def split: option.splits)

lemma note_simps [simp]:
  "eg_out (note_piggybacked E now n e) = eg_out e" "eg_store (note_piggybacked E now n e) = eg_store e"
  "eg_pending (note_piggybacked E now n e) = eg_pending e" "eg_loss (note_piggybacked E now n e) = eg_loss e"
  "eg_out (note_awaited now a m e) = eg_out e" "eg_store (note_awaited now a m e) = eg_store e"
  "eg_pending (note_awaited now a m e) = eg_pending e" "eg_loss (note_awaited now a m e) = eg_loss e"
  "eg_out (touch_peer now p e) = eg_out e" "eg_store (touch_peer now p e) = eg_store e"
  "eg_pending (touch_peer now p e) = eg_pending e" "eg_loss (touch_peer now p e) = eg_loss e"
  "eg_cfg (touch_peer now p e) = eg_cfg e"
  by (simp_all add: note_piggybacked_def note_awaited_def touch_peer_def Let_def)

lemma delivery_simps [simp]:
  "eg_store (note_delivery E b e) = eg_store e" "eg_pending (note_delivery E b e) = eg_pending e"
  "eg_loss (note_delivery E b e) = next_loss b (eg_loss e)"
  by (simp_all add: note_delivery_def Let_def split: option.splits)

lemma settle_simps [simp]:
  "eg_store (settle_awaited E p a e) = eg_store e" "eg_pending (settle_awaited E p a e) = eg_pending e"
  by (simp_all add: settle_awaited_def split: option.splits)

lemma settle_loss: "eg_loss (settle_awaited E p a e) = eg_loss e \<or> (\<exists>b. eg_loss (settle_awaited E p a e) = next_loss b (eg_loss e))"
  by (auto simp: settle_awaited_def split: option.splits)

lemma ask_simps [simp]:
  "eg_store (schedule_ask E now p a h e) = eg_store e" "eg_out (schedule_ask E now p a h e) = eg_out e"
  "eg_loss (schedule_ask E now p a h e) = eg_loss e"
  by (simp_all add: schedule_ask_def split_beta Let_def)

lemma federates_store: "eg_store e' = eg_store e \<Longrightarrow> federates E e' tag = federates E e tag"
  by (simp add: federates_def)

section \<open>The governor has the last word\<close>

text \<open>What telling the outbox loss rates makes of it; an outbox without the adapter hears nothing.\<close>

definition tune :: "('s, 'o) gossip_env \<Rightarrow> rat list \<Rightarrow> 'o \<Rightarrow> 'o" where
  "tune E rates out = (case ge_loss_adapter E of None \<Rightarrow> out | Some (getter, setter) \<Rightarrow> fold setter rates out)"

lemma tune_compose: "tune E qs (tune E rs out) = tune E (rs @ qs) out"
  by (simp add: tune_def split: option.split)

lemma tune_nothing: "tune E [] out = out"
  by (simp add: tune_def split: option.split)

lemma delivery_tunes: "\<exists>rs. eg_out (note_delivery E b e) = tune E rs (eg_out e)"
proof (cases "next_loss b (eg_loss e) = eg_loss e")
  case True
  then show ?thesis by (intro exI [of _ "[]"]) (simp add: note_delivery_def Let_def tune_nothing)
next
  case False
  then show ?thesis
    by (intro exI [of _ "[next_loss b (eg_loss e)]"]) (auto simp: note_delivery_def Let_def tune_def split: option.split)
qed

lemma settle_tunes: "\<exists>rs. eg_out (settle_awaited E p a e) = tune E rs (eg_out e)"
proof -
  have "\<exists>rs. eg_out (note_delivery E b (with_peer p f e)) = tune E rs (eg_out e)" for b f
    using delivery_tunes [of E b "with_peer p f e"] by simp
  moreover have "\<exists>rs. eg_out e = tune E rs (eg_out e)" by (rule exI [of _ "[]"]) (simp add: tune_nothing)
  ultimately show ?thesis by (auto simp: settle_awaited_def split: option.split)
qed

lemma fire_loop_silent:
  "\<not> can_send (ge_budget E (eg_out e)) \<Longrightarrow> eg_out (snd (snd (fire_loop E now asks keep e))) = eg_out e"
  by (induction asks arbitrary: keep e) auto

lemma fire_pending_silent:
  "\<not> can_send (ge_budget E (eg_out e)) \<Longrightarrow> eg_out (snd (fire_pending E now e)) = eg_out e"
  using fire_loop_silent [of E e now "eg_pending e" "[]"]
  by (auto simp: fire_pending_def split: prod.splits option.splits)

lemma engine_tick_silent:
  assumes "\<not> can_send (ge_budget E (eg_out e))"
  shows "eg_out (snd (engine_tick E now e)) = eg_out e"
proof -
  obtain r e1 where f: "fire_pending E now e = (r, e1)" by force
  then have out: "eg_out e1 = eg_out e" using fire_pending_silent [OF assms, of now] by simp
  then show ?thesis using assms f by (cases r) (simp_all add: engine_tick_def Let_def split_beta)
qed

lemma digest_area_out: "\<exists>rs. eg_out (fst (digest_area E now p a st)) = tune E rs (eg_out (fst st))"
proof (cases st)
  case (fields e m n)
  obtain rs where "eg_out (settle_awaited E p a e) = tune E rs (eg_out e)" using settle_tunes by blast
  then show ?thesis by (intro exI [of _ rs]) (simp add: fields digest_area_def Let_def)
qed

lemma fold_digest_out: "\<exists>rs. eg_out (fst (fold (digest_area E now p) as st)) = tune E rs (eg_out (fst st))"
proof (induction "as" arbitrary: st)
  case Nil
  show ?case by (rule exI [of _ "[]"]) (simp add: tune_nothing)
next
  case (Cons a as)
  show ?case using Cons [of "digest_area E now p a st"] digest_area_out [of E now p a st] by (auto simp: tune_compose)
qed

lemma on_digest_silent: "\<exists>rs. eg_out (snd (on_digest E now p b e)) = tune E rs (eg_out e)"
proof (cases "decode_digest b")
  case (Inl err)
  then show ?thesis by (intro exI [of _ "[]"]) (simp add: on_digest_def tune_nothing)
next
  case (Inr d)
  define e1 where "e1 = with_peer p (\<lambda>q. q\<lparr>ps_dictionary := dg_dictionary d, ps_dict_known := True\<rparr>)
    (with_stats (\<lambda>s. s\<lparr>st_digests_heard := st_digests_heard s + 1\<rparr>) e)"
  have "eg_out (snd (on_digest E now p b e)) = eg_out (fst (fold (digest_area E now p) (dg_areas d) (e1, 0, 0)))"
    by (simp add: on_digest_def Inr Let_def split_beta e1_def)
  moreover have "eg_out e1 = eg_out e" by (simp add: e1_def)
  ultimately show ?thesis using fold_digest_out [of E now p "dg_areas d" "(e1, 0, 0)"] by simp
qed

lemma answer_vectors_silent:
  "\<not> can_send (ge_budget E (eg_out e)) \<Longrightarrow> eg_out (snd (answer_vectors E p tags e)) = eg_out e"
  by (induction tags arbitrary: e) auto

lemma push_records_silent:
  "\<not> can_send (ge_budget E (eg_out e)) \<Longrightarrow> push_records E now a rs e = (Inr (), e)"
  by (simp add: push_records_def)

lemma engine_receive_silent:
  assumes "\<not> can_send (ge_budget E (eg_out e))"
  shows "\<exists>rs. eg_out (snd (engine_receive E now p b e)) = tune E rs (eg_out e)"
proof -
  have v: "eg_out (snd (on_vector E p b e1)) = eg_out e1" if "eg_out e1 = eg_out e" for e1
    using assms that by (simp add: on_vector_def Let_def split: sum.splits)
  have r: "eg_out (snd (on_range_req E now b e1)) = eg_out e1" if "eg_out e1 = eg_out e" for e1
    using assms that by (simp add: on_range_req_def Let_def push_records_silent split: sum.splits)
  have q: "eg_out (snd (on_vector_req E p b e1)) = eg_out e1" if "eg_out e1 = eg_out e" for e1
    using assms that by (simp add: on_vector_req_def answer_vectors_silent split: sum.splits)
  have none: "\<exists>rs. eg_out e = tune E rs (eg_out e)" by (rule exI [of _ "[]"]) (simp add: tune_nothing)
  then show ?thesis
    using on_digest_silent [of E now p b "touch_peer now p e"]
    by (auto simp: engine_receive_def Let_def v r q split: sum.splits)
qed

section \<open>The queue of asks\<close>

definition ask_key :: "pending_ask \<Rightarrow> node_id \<times> area_tag" where
  "ask_key a = (pa_peer a, pa_area a)"

definition asks_distinct :: "('s, 'o) engine \<Rightarrow> bool" where
  "asks_distinct e \<longleftrightarrow> distinct (map ask_key (eg_pending e))"

definition sends_succeed :: "('s, 'o) gossip_env \<Rightarrow> bool" where
  "sends_succeed E \<longleftrightarrow> (\<forall>nid p o'. fst (ge_send_message E nid p o') = None)"

lemma schedule_ask_distinct: "asks_distinct e \<Longrightarrow> asks_distinct (schedule_ask E now p a h e)"
  by (auto simp: asks_distinct_def schedule_ask_def ask_key_def split_beta Let_def list_ex_iff)

lemma digest_area_distinct: "asks_distinct (fst st) \<Longrightarrow> asks_distinct (fst (digest_area E now p a st))"
proof (cases st)
  case (fields e0 sh mt)
  assume "asks_distinct (fst st)"
  then have "asks_distinct (with_peer p h (settle_awaited E p a e0))" for h
    using fields by (simp add: asks_distinct_def)
  then show ?thesis using fields by (simp add: digest_area_def Let_def schedule_ask_distinct)
qed

lemma fold_digest_distinct: "asks_distinct (fst st) \<Longrightarrow> asks_distinct (fst (fold (digest_area E now p) as st))"
  by (induction "as" arbitrary: st) (simp_all add: digest_area_distinct)

lemma fire_loop_keep:
  assumes "sends_succeed E"
  shows "\<exists>keep' e'. fire_loop E now asks keep e = (None, keep', e') \<and>
    (distinct (map ask_key (keep @ asks)) \<longrightarrow> distinct (map ask_key keep')) \<and> set keep' \<subseteq> set (keep @ asks)"
proof (induction asks arbitrary: keep e)
  case (Cons ask asks)
  have none: "fst (ge_send_message E n p o') = None" for n p o' using assms by (simp add: sends_succeed_def)
  show ?case
  proof (cases "now < pa_at ask \<or>
      vv_hash (ge_blake3 E) (ge_vector E (eg_store e) (pa_area ask)) \<noteq> pa_want_hash ask \<and> \<not> can_send (ge_budget E (eg_out e))")
    case True
    then have "fire_loop E now (ask # asks) keep e = fire_loop E now asks (keep @ [ask]) e" by auto
    then show ?thesis using Cons.IH [of "keep @ [ask]" e] by auto
  next
    case False
    obtain e1 where eq: "fire_loop E now (ask # asks) keep e = fire_loop E now asks keep e1"
    proof (cases "vv_hash (ge_blake3 E) (ge_vector E (eg_store e) (pa_area ask)) = pa_want_hash ask")
      case True
      then show ?thesis using False that by simp
    next
      case hash: False
      show ?thesis
        using False hash none [of "pa_peer ask" "vector_req_encode \<lparr>vr_areas = [pa_area ask]\<rparr>" "eg_out e"] that
        by (simp add: Let_def split_beta)
    qed
    obtain keep' e' where IH: "fire_loop E now asks keep e1 = (None, keep', e')"
      "distinct (map ask_key (keep @ asks)) \<longrightarrow> distinct (map ask_key keep')" "set keep' \<subseteq> set (keep @ asks)"
      using Cons.IH by blast
    have "distinct (map ask_key (keep @ ask # asks)) \<longrightarrow> distinct (map ask_key (keep @ asks))"
      "set (keep @ asks) \<subseteq> set (keep @ ask # asks)" by auto
    then show ?thesis unfolding eq using IH by blast
  qed
qed simp

lemma fire_pending_distinct:
  "sends_succeed E \<Longrightarrow> asks_distinct e \<Longrightarrow> asks_distinct (snd (fire_pending E now e))"
  using fire_loop_keep [of E now "eg_pending e" "[]" e]
  by (auto simp: fire_pending_def asks_distinct_def split: prod.splits option.splits)

lemma engine_tick_pending: "eg_pending (snd (engine_tick E now e)) = eg_pending (snd (fire_pending E now e))"
  by (auto simp: engine_tick_def Let_def split_beta split: prod.splits sum.splits option.splits)

lemma answer_vectors_pending: "eg_pending (snd (answer_vectors E p tags e)) = eg_pending e"
  by (induction tags arbitrary: e) (auto simp: Let_def split_beta split: option.splits)

lemma push_records_pending: "eg_pending (snd (push_records E now a rs e)) = eg_pending e"
  by (auto simp: push_records_def Let_def split_beta split: option.splits)

lemma engine_receive_pending:
  "asks_distinct e \<Longrightarrow> asks_distinct (snd (engine_receive E now p b e))"
proof -
  assume d: "asks_distinct e"
  have dig: "asks_distinct (snd (on_digest E now p b e1))" if "eg_pending e1 = eg_pending e" for e1
  proof (cases "decode_digest b")
    case (Inl err)
    then show ?thesis using d that by (simp add: on_digest_def asks_distinct_def)
  next
    case (Inr dd)
    let ?st = "(with_peer p (\<lambda>q. q\<lparr>ps_dictionary := dg_dictionary dd, ps_dict_known := True\<rparr>)
                 (with_stats (\<lambda>s. s\<lparr>st_digests_heard := st_digests_heard s + 1\<rparr>) e1), 0, 0)"
    have "asks_distinct (fst ?st)" using d that by (simp add: asks_distinct_def)
    then have "asks_distinct (fst (fold (digest_area E now p) (dg_areas dd) ?st))" by (rule fold_digest_distinct)
    then show ?thesis using Inr by (simp add: on_digest_def Let_def split_beta asks_distinct_def)
  qed
  have v: "eg_pending (snd (on_vector E p b e1)) = eg_pending e1" for e1
    by (auto simp: on_vector_def Let_def split_beta split: sum.splits option.splits)
  have r: "eg_pending (snd (on_range_req E now b e1)) = eg_pending e1" for e1
    by (auto simp: on_range_req_def Let_def push_records_pending split: sum.splits)
  have q: "eg_pending (snd (on_vector_req E p b e1)) = eg_pending e1" for e1
    by (auto simp: on_vector_req_def answer_vectors_pending split: sum.splits)
  show ?thesis
    using d dig [of "touch_peer now p e"]
    by (auto simp: engine_receive_def Let_def asks_distinct_def v r q split: sum.splits)
qed

section \<open>The loss estimate\<close>

definition loss_ok :: "('s, 'o) engine \<Rightarrow> bool" where
  "loss_ok e \<longleftrightarrow> 0 \<le> eg_loss e \<and> eg_loss e \<le> lossCeiling"

lemma fl_half: "fl (1 / 2) = 1 / 2"
  by code_simp

lemma next_loss_bounds:
  assumes "0 \<le> x" "x \<le> lossCeiling"
  shows "0 \<le> next_loss b x \<and> next_loss b x \<le> lossCeiling"
proof (cases b)
  case True
  have f: "0 \<le> lossDecayFactor" "lossDecayFactor \<le> 1" by code_simp+
  have "x * lossDecayFactor \<le> x" using assms f by (simp add: mult_left_le)
  then have "fl (x * lossDecayFactor) \<le> fl (1 / 2)" using assms by (intro fl_mono) (simp add: lossCeiling_def)
  moreover have "0 \<le> fl (x * lossDecayFactor)" using assms f by (intro fl_nonneg) simp
  ultimately show ?thesis using True by (simp add: next_loss_def Let_def lossCeiling_def fl_half)
next
  case False
  have "0 \<le> lossClimbFloor" by code_simp
  then have "0 \<le> fl (fl (x * lossClimbFactor) + lossClimbFloor)"
    using assms by (intro fl_nonneg add_nonneg_nonneg) (simp_all add: lossClimbFactor_def)
  then show ?thesis using False by (simp add: next_loss_def Let_def lossCeiling_def)
qed

lemma settle_loss_ok: "loss_ok e \<Longrightarrow> loss_ok (settle_awaited E p a e)"
  using settle_loss [of E p a e] next_loss_bounds by (auto simp: loss_ok_def)

lemma digest_area_loss: "loss_ok (fst st) \<Longrightarrow> loss_ok (fst (digest_area E now p a st))"
  using settle_loss_ok [of "fst st" E p a]
  by (cases st) (simp add: digest_area_def Let_def loss_ok_def)

lemma fold_digest_loss: "loss_ok (fst st) \<Longrightarrow> loss_ok (fst (fold (digest_area E now p) as st))"
  by (induction "as" arbitrary: st) (simp_all add: digest_area_loss)

lemma fire_loop_loss: "eg_loss (snd (snd (fire_loop E now asks keep e))) = eg_loss e"
  by (induction asks arbitrary: keep e) (auto simp: Let_def split_beta split: option.splits)

lemma fire_pending_loss: "eg_loss (snd (fire_pending E now e)) = eg_loss e"
  using fire_loop_loss [of E now "eg_pending e" "[]" e]
  by (auto simp: fire_pending_def split: prod.splits option.splits)

lemma engine_tick_loss: "eg_loss (snd (engine_tick E now e)) = eg_loss e"
  using fire_pending_loss [of E now e]
  by (auto simp: engine_tick_def Let_def split_beta split: prod.splits sum.splits option.splits)

lemma answer_vectors_loss: "eg_loss (snd (answer_vectors E p tags e)) = eg_loss e"
  by (induction tags arbitrary: e) (auto simp: Let_def split_beta split: option.splits)

lemma push_records_loss: "eg_loss (snd (push_records E now a rs e)) = eg_loss e"
  by (auto simp: push_records_def Let_def split_beta split: option.splits)

lemma engine_receive_loss: "loss_ok e \<Longrightarrow> loss_ok (snd (engine_receive E now p b e))"
proof -
  assume d: "loss_ok e"
  have dig: "loss_ok (snd (on_digest E now p b e1))" if "eg_loss e1 = eg_loss e" for e1
  proof (cases "decode_digest b")
    case (Inl err)
    then show ?thesis using d that by (simp add: on_digest_def loss_ok_def)
  next
    case (Inr dd)
    let ?st = "(with_peer p (\<lambda>q. q\<lparr>ps_dictionary := dg_dictionary dd, ps_dict_known := True\<rparr>)
                 (with_stats (\<lambda>s. s\<lparr>st_digests_heard := st_digests_heard s + 1\<rparr>) e1), 0, 0)"
    have "loss_ok (fst ?st)" using d that by (simp add: loss_ok_def)
    then have "loss_ok (fst (fold (digest_area E now p) (dg_areas dd) ?st))" by (rule fold_digest_loss)
    then show ?thesis using Inr by (simp add: on_digest_def Let_def split_beta loss_ok_def)
  qed
  have v: "eg_loss (snd (on_vector E p b e1)) = eg_loss e1" for e1
    by (auto simp: on_vector_def Let_def split_beta split: sum.splits option.splits)
  have r: "eg_loss (snd (on_range_req E now b e1)) = eg_loss e1" for e1
    by (auto simp: on_range_req_def Let_def push_records_loss split: sum.splits)
  have q: "eg_loss (snd (on_vector_req E p b e1)) = eg_loss e1" for e1
    by (auto simp: on_vector_req_def answer_vectors_loss split: sum.splits)
  show ?thesis
    using d dig [of "touch_peer now p e"]
    by (auto simp: engine_receive_def Let_def loss_ok_def v r q split: sum.splits)
qed

section \<open>Range requests\<close>

lemma missing_origins: "ascending (map rg_origin (vv_missing v w))"
proof -
  have "map rg_origin (vv_missing v w) = filter (\<lambda>k. vv_get w k > vv_get v k) (vv_origins w)"
  proof -
    have "map rg_origin (concat (map (\<lambda>k. let theirs = vv_get w k; mine = vv_get v k
        in if theirs > mine then [\<lparr>rg_origin = k, rg_from = mine + 1, rg_to = theirs\<rparr>] else []) ks)) =
        filter (\<lambda>k. vv_get w k > vv_get v k) ks" for ks
      by (induction ks) (simp_all add: Let_def)
    then show ?thesis by (simp add: vv_missing_def)
  qed
  then show ?thesis by (simp add: vv_origins_def sorted_wrt_filter)
qed

lemma missing_from_pos: "rg \<in> set (vv_missing v w) \<Longrightarrow> rg_from rg \<noteq> 0"
proof -
  assume "rg \<in> set (vv_missing v w)"
  then have "vv_get v (rg_origin rg) < vv_get w (rg_origin rg)" "rg_from rg = vv_get v (rg_origin rg) + 1"
    by (simp_all add: vv_missing_member)
  then show ?thesis using word_plus1_le [of "vv_get v (rg_origin rg)" "vv_get w (rg_origin rg)" 0] by auto
qed

lemma fit_ranges_prefix: "\<exists>k \<le> MaxRanges. fit_ranges area rs m = take k rs"
proof -
  let ?n = "min (length rs) MaxRanges"
  have "fit_ranges area rs m = fit_ranges_loop area (take MaxRanges rs) m ?n"
    by (simp add: fit_ranges_def Let_def min_def)
  moreover obtain k where "k \<le> ?n" "fit_ranges_loop area (take MaxRanges rs) m ?n = take k (take MaxRanges rs)"
    using fit_ranges_loop_longest [of ?n area "take MaxRanges rs" m] by blast
  ultimately show ?thesis by (intro exI [of _ k]) (auto simp: min_def split: if_splits)
qed

lemma fit_ranges_fits:
  "fit_ranges area rs m \<noteq> [] \<Longrightarrow> length (range_req_encode \<lparr>rr_area = area, rr_ranges = fit_ranges area rs m\<rparr>) \<le> m"
proof -
  assume ne: "fit_ranges area rs m \<noteq> []"
  let ?n = "min (length rs) MaxRanges"
  have "fit_ranges area rs m = fit_ranges_loop area (take MaxRanges rs) m ?n"
    by (simp add: fit_ranges_def Let_def min_def)
  moreover obtain k where "fit_ranges_loop area (take MaxRanges rs) m ?n = take k (take MaxRanges rs)"
    "0 < k \<longrightarrow> length (range_req_encode \<lparr>rr_area = area, rr_ranges = take k (take MaxRanges rs)\<rparr>) \<le> m"
    using fit_ranges_loop_longest [of ?n area "take MaxRanges rs" m] by blast
  ultimately show ?thesis using ne by (cases "k = 0") simp_all
qed

lemma sort_key_sort_key: "sort_key f (sort_key f xs) = sort_key f xs"
  by (rule sort_key_id_if_sorted) simp

lemma range_req_encode_sorted:
  "range_req_encode \<lparr>rr_area = a, rr_ranges = sort_key range_key rs\<rparr> = range_req_encode \<lparr>rr_area = a, rr_ranges = rs\<rparr>"
  by (simp add: range_req_encode_def sort_key_sort_key)

lemma range_req_sorted_wf:
  assumes "distinct (map rg_origin rs)" "length rs \<le> MaxRanges" "\<forall>rg \<in> set rs. rg_from rg \<noteq> 0"
  shows "range_req_wf \<lparr>rr_area = a, rr_ranges = sort_key range_key rs\<rparr>"
proof -
  have "map rg_origin rs = map fst (map range_key rs)" by (simp add: range_key_def)
  then have "distinct (map range_key rs)" using assms(1) by (metis distinct_map)
  then have "distinct (map range_key (sort_key range_key rs))" by (simp add: distinct_map)
  then have "ascending (map range_key (sort_key range_key rs))" by (simp add: strict_sorted_iff)
  then show ?thesis using assms by (simp add: range_req_wf_def)
qed

lemma ranges_to_ask_props:
  fixes cfg area mine theirs
  defines "rs \<equiv> ranges_to_ask cfg area mine theirs"
  shows "distinct (map rg_origin rs)" "length rs \<le> MaxRanges" "set rs \<subseteq> set (vv_missing mine theirs)"
    "rs \<noteq> [] \<Longrightarrow> length (range_req_encode \<lparr>rr_area = area, rr_ranges = rs\<rparr>) \<le> MaxControlMessage"
    "vv_missing mine theirs \<noteq> [] \<Longrightarrow> 0 < ec_max_ranges cfg \<Longrightarrow> rs \<noteq> []"
proof -
  let ?sorted = "sort_key rg_from (vv_missing mine theirs)"
  let ?capped = "take (ec_max_ranges cfg) ?sorted"
  have rs: "rs = fit_ranges area ?capped MaxControlMessage"
    by (simp add: rs_def ranges_to_ask_def Let_def)
  obtain k where k: "k \<le> MaxRanges" "rs = take k ?capped" using fit_ranges_prefix rs by metis
  have "distinct (map rg_origin ?sorted)"
    using ascending_distinct [OF missing_origins] by (simp add: distinct_map)
  then show "distinct (map rg_origin rs)" using k(2) by (simp add: take_map [symmetric])
  show "length rs \<le> MaxRanges" using k by simp
  show "set rs \<subseteq> set (vv_missing mine theirs)"
    using k(2) set_take_subset [of k ?capped] set_take_subset [of "ec_max_ranges cfg" ?sorted] by auto
  show "rs \<noteq> [] \<Longrightarrow> length (range_req_encode \<lparr>rr_area = area, rr_ranges = rs\<rparr>) \<le> MaxControlMessage"
    using fit_ranges_fits rs by metis
  show "vv_missing mine theirs \<noteq> [] \<Longrightarrow> 0 < ec_max_ranges cfg \<Longrightarrow> rs \<noteq> []"
  proof -
    assume "vv_missing mine theirs \<noteq> []" "0 < ec_max_ranges cfg"
    then have "?capped \<noteq> []" by (cases ?sorted) (simp_all, metis length_0_conv length_sort)
    then show "rs \<noteq> []" unfolding rs by (rule fit_ranges_progress) (simp add: gossip_consts)
  qed
qed

section \<open>Properties\<close>

text \<open>
  C20. A node never asks for what its peer would refuse. The range request \<open>onVector\<close> builds fits
  one mesh packet, names only records the node lacks and the peer holds, is nonempty whenever
  anything is missing (with a positive limit per request), and the peer's decoder reads back
  exactly those ranges.
\<close>

theorem range_request_sound:
  assumes "rs = ranges_to_ask cfg area mine theirs"
  shows "decode_range_req (range_req_encode \<lparr>rr_area = area, rr_ranges = rs\<rparr>) =
      Inr \<lparr>rr_area = area, rr_ranges = sort_key range_key rs\<rparr> \<and>
    set rs \<subseteq> set (vv_missing mine theirs) \<and>
    length (range_req_encode \<lparr>rr_area = area, rr_ranges = rs\<rparr>) \<le> MaxControlMessage \<and>
    (rs = [] \<longrightarrow> vv_missing mine theirs = [] \<or> ec_max_ranges cfg = 0)"
proof -
  note p = ranges_to_ask_props [where cfg = cfg and area = area and mine = mine and theirs = theirs, folded assms]
  have "range_req_wf \<lparr>rr_area = area, rr_ranges = sort_key range_key rs\<rparr>"
    using p(1-3) missing_from_pos by (intro range_req_sorted_wf) auto
  then have "decode_range_req (range_req_encode \<lparr>rr_area = area, rr_ranges = rs\<rparr>) =
      Inr \<lparr>rr_area = area, rr_ranges = sort_key range_key rs\<rparr>"
    using range_req_decode_encode range_req_encode_sorted by metis
  moreover have "length (range_req_encode \<lparr>rr_area = area, rr_ranges = rs\<rparr>) \<le> MaxControlMessage"
    using p(4) by (cases "rs = []") (simp_all add: length_range_req_encode gossip_consts)
  ultimately show ?thesis using p(3,5) by auto
qed

theorem range_request_sound_witness:
  "decode_range_req (range_req_encode \<lparr>rr_area = zero_array,
       rr_ranges = ranges_to_ask default_config zero_array vv_new (vv_sample 1 4)\<rparr>) =
     Inr \<lparr>rr_area = zero_array,
       rr_ranges = sort_key range_key (ranges_to_ask default_config zero_array vv_new (vv_sample 1 4))\<rparr>"
  using range_request_sound [OF refl] by blast

end
