(* ===== verification/MemStore.thy ===== *)
theory MemStore
  imports Records VersionVector
begin

text \<open>
  The in-memory record log of \<open>internal/gossiptest/store.go\<close>, the \<open>Store\<close> the gossip engine runs
  on in the federation simulator. Per area it keeps the records by origin and sequence, with
  gaps, and the vector of contiguous high-water marks that peers compare. Shown: the marks
  always describe the log (\<open>mem_store_invariant\<close>), a log only grows and no slot changes its
  record, a repeated delivery changes nothing, and the records one store answers with bring
  another to at least its vector.

  Two loops of the code can run forever: \<open>Records\<close> on a range that ends at the largest sequence,
  and the climb of \<open>advance\<close> on a log with a record at every sequence. Both take fuel, one more
  than the number of turns the data allow, and \<open>None\<close> means the code does not return. A nil
  \<open>*record.Record\<close> is not a value of \<open>rec\<close>, so the nil tests have no counterpart.
\<close>

section \<open>State\<close>

record area_log =
  al_records :: "(node_id, (u64, rec) fmap) fmap"
  al_vector :: vector

record mem_store =
  ms_areas :: "(4 barray, area_log) fmap"
  ms_order :: "4 barray list"
  ms_keys :: "(node_id, bytes) fmap"
  ms_rejected :: nat

datatype mem_error = MNotFederated "4 barray" | MInserted nat nat nat

definition empty_log :: area_log where
  "empty_log = \<lparr>al_records = fmempty, al_vector = vv_new\<rparr>"

definition new_store :: "4 barray list \<Rightarrow> mem_store" where
  "new_store areas =
     \<lparr>ms_areas = fold (\<lambda>a m. fmupd a empty_log m) areas fmempty, ms_order = sort areas,
      ms_keys = fmempty, ms_rejected = 0\<rparr>"

definition trust_key :: "node_id \<Rightarrow> bytes \<Rightarrow> mem_store \<Rightarrow> mem_store" where
  "trust_key nid pub s = s\<lparr>ms_keys := fmupd nid pub (ms_keys s)\<rparr>"

section \<open>Queries\<close>

definition mem_areas :: "mem_store \<Rightarrow> 4 barray list" where
  "mem_areas s = ms_order s"

definition mem_vector :: "mem_store \<Rightarrow> 4 barray \<Rightarrow> vector" where
  "mem_vector s area = (case fmlookup (ms_areas s) area of Some a \<Rightarrow> al_vector a | None \<Rightarrow> vv_new)"

text \<open>The map a read \<open>a.records[origin]\<close> gives; a nil map reads as the empty one.\<close>

definition slots :: "area_log \<Rightarrow> node_id \<Rightarrow> (u64, rec) fmap" where
  "slots a origin = (case fmlookup (al_records a) origin of None \<Rightarrow> fmempty | Some m \<Rightarrow> m)"

fun mem_scan :: "nat \<Rightarrow> (u64, rec) fmap \<Rightarrow> u64 \<Rightarrow> u64 \<Rightarrow> rec list \<Rightarrow> rec list option" where
  "mem_scan 0 m sq to out = None"
| "mem_scan (Suc n) m sq to out =
     (if sq \<le> to then
        mem_scan n m (sq + 1) to (case fmlookup m sq of Some r \<Rightarrow> out @ [r] | None \<Rightarrow> out)
      else Some out)"

definition scan_fuel :: "u64 \<Rightarrow> u64 \<Rightarrow> nat" where
  "scan_fuel lo hi = (unat hi + 2) - unat lo"

definition mem_records :: "mem_store \<Rightarrow> 4 barray \<Rightarrow> vv_range \<Rightarrow> rec list option" where
  "mem_records s area r =
     (case fmlookup (ms_areas s) area of
        None \<Rightarrow> Some []
      | Some a \<Rightarrow>
          (case fmlookup (al_records a) (rg_origin r) of
             None \<Rightarrow> Some []
           | Some byOrigin \<Rightarrow> mem_scan (Suc (scan_fuel (rg_from r) (rg_to r))) byOrigin (rg_from r) (rg_to r) []))"

section \<open>Applying records\<close>

text \<open>One turn of \<open>Apply\<close>'s loop: the log, the count of refusals and the count of admissions.\<close>

definition mem_admit ::
  "crypto \<Rightarrow> (node_id, bytes) fmap \<Rightarrow> 4 barray \<Rightarrow> rec \<Rightarrow> area_log \<times> nat \<times> nat \<Rightarrow> area_log \<times> nat \<times> nat" where
  "mem_admit c keys area r st =
     (case st of (a, rejected, applied) \<Rightarrow>
        if r_seq r = 0 then (a, rejected + 1, applied)
        else case fmlookup keys (r_origin r) of
               None \<Rightarrow> (a, rejected + 1, applied)
             | Some pub \<Rightarrow>
                 if record_verify c r pub \<noteq> Inr () then (a, rejected + 1, applied)
                 else if r_area r \<noteq> area then (a, rejected + 1, applied)
                 else let byOrigin = slots a (r_origin r)
                   in case fmlookup byOrigin (r_seq r) of
                        Some existing \<Rightarrow> (a, (if r_id existing \<noteq> r_id r then rejected + 1 else rejected), applied)
                      | None \<Rightarrow>
                          (a\<lparr>al_records := fmupd (r_origin r) (fmupd (r_seq r) r byOrigin) (al_records a)\<rparr>,
                           rejected, applied + 1))"

fun climb :: "nat \<Rightarrow> (u64, rec) fmap \<Rightarrow> u64 \<Rightarrow> u64 option" where
  "climb 0 m sq = None"
| "climb (Suc n) m sq = (if fmlookup m (sq + 1) \<noteq> None then climb n m (sq + 1) else Some sq)"

definition climb_fuel :: "(u64, rec) fmap \<Rightarrow> nat" where
  "climb_fuel m = Suc (fcard (fmdom m))"

definition advance_entry :: "node_id \<times> (u64, rec) fmap \<Rightarrow> vector option \<Rightarrow> vector option" where
  "advance_entry e vo =
     (case e of (origin, m) \<Rightarrow>
        Option.bind vo (\<lambda>v. map_option (vv_set v origin) (climb (climb_fuel m) m (vv_get v origin))))"

definition mem_advance :: "area_log \<Rightarrow> vector option" where
  "mem_advance a = fold advance_entry (fmap_items (al_records a)) (Some (al_vector a))"

definition mem_apply ::
  "crypto \<Rightarrow> mem_store \<Rightarrow> 4 barray \<Rightarrow> rec list \<Rightarrow> (nat \<times> mem_error option \<times> mem_store) option" where
  "mem_apply c s area recs =
     (case fmlookup (ms_areas s) area of
        None \<Rightarrow> Some (0, Some (MNotFederated area), s)
      | Some a \<Rightarrow>
          let (a1, rejected, applied) = fold (mem_admit c (ms_keys s) area) recs (a, ms_rejected s, 0);
              done = (\<lambda>v. (applied, None,
                s\<lparr>ms_areas := fmupd area (a1\<lparr>al_vector := v\<rparr>) (ms_areas s), ms_rejected := rejected\<rparr>))
          in if applied > 0 then map_option done (mem_advance a1) else Some (done (al_vector a1)))"

definition mem_insert ::
  "crypto \<Rightarrow> mem_store \<Rightarrow> 4 barray \<Rightarrow> rec list \<Rightarrow> ((mem_error + unit) \<times> mem_store) option" where
  "mem_insert c s area recs =
     map_option (\<lambda>(n, err, s').
       (case err of
          Some e \<Rightarrow> Inl e
        | None \<Rightarrow> if n \<noteq> length recs then Inl (MInserted n (length recs) (ms_rejected s' - ms_rejected s)) else Inr (),
        s')) (mem_apply c s area recs)"

section \<open>Reports\<close>

definition mem_total :: "mem_store \<Rightarrow> nat" where
  "mem_total s =
     sum_list (map (\<lambda>(_, a). sum_list (map (\<lambda>(_, m). fcard (fmdom m)) (fmap_items (al_records a))))
       (fmap_items (ms_areas s)))"

record entry =
  en_origin :: node_id
  en_seq :: u64
  en_id :: record_id

definition mem_entries :: "mem_store \<Rightarrow> 4 barray \<Rightarrow> entry list" where
  "mem_entries s area =
     (case fmlookup (ms_areas s) area of
        None \<Rightarrow> []
      | Some a \<Rightarrow> concat (map (\<lambda>(origin, m).
          map (\<lambda>(sq, r). \<lparr>en_origin = origin, en_seq = sq, en_id = r_id r\<rparr>) (fmap_items m))
          (fmap_items (al_records a))))"

definition contiguous_high_water :: "mem_store \<Rightarrow> 4 barray \<Rightarrow> node_id \<Rightarrow> u64 option" where
  "contiguous_high_water s area origin =
     (case fmlookup (ms_areas s) area of
        None \<Rightarrow> Some 0
      | Some a \<Rightarrow> climb (climb_fuel (slots a origin)) (slots a origin) 0)"

datatype verify_fault =
    VNoKey node_id
  | VNotVerified record_id record_error
  | VNotParsed record_id record_error
  | VMutated record_id
  | VMisfiled node_id u64

definition verify_slot :: "crypto \<Rightarrow> bytes \<Rightarrow> node_id \<Rightarrow> u64 \<Rightarrow> rec \<Rightarrow> verify_fault + unit" where
  "verify_slot c pub origin sq r =
     (case record_verify c r pub of
        Inl e \<Rightarrow> Inl (VNotVerified (r_id r) e)
      | Inr _ \<Rightarrow>
          (case record_unmarshal c (record_marshal r) of
             Inl e \<Rightarrow> Inl (VNotParsed (r_id r) e)
           | Inr p \<Rightarrow>
               if r_body p \<noteq> r_body r \<or> r_type p \<noteq> r_type r \<or> r_area p \<noteq> r_area r \<or>
                  r_parent p \<noteq> r_parent r \<or> r_ts p \<noteq> r_ts r then Inl (VMutated (r_id r))
               else if r_origin r \<noteq> origin \<or> r_seq r \<noteq> sq then Inl (VMisfiled origin sq)
               else Inr ()))"

fun verify_slots :: "crypto \<Rightarrow> bytes \<Rightarrow> node_id \<Rightarrow> (u64 \<times> rec) list \<Rightarrow> verify_fault + unit" where
  "verify_slots c pub origin [] = Inr ()"
| "verify_slots c pub origin ((sq, r) # xs) =
     (case verify_slot c pub origin sq r of Inl e \<Rightarrow> Inl e | Inr _ \<Rightarrow> verify_slots c pub origin xs)"

fun verify_origins ::
  "crypto \<Rightarrow> (node_id, bytes) fmap \<Rightarrow> (node_id \<times> (u64, rec) fmap) list \<Rightarrow> verify_fault + unit" where
  "verify_origins c keys [] = Inr ()"
| "verify_origins c keys ((origin, m) # xs) =
     (case fmlookup keys origin of
        None \<Rightarrow> Inl (VNoKey origin)
      | Some pub \<Rightarrow>
          (case verify_slots c pub origin (fmap_items m) of Inl e \<Rightarrow> Inl e | Inr _ \<Rightarrow> verify_origins c keys xs))"

definition verify_all :: "crypto \<Rightarrow> mem_store \<Rightarrow> 4 barray \<Rightarrow> verify_fault + unit" where
  "verify_all c s area =
     (case fmlookup (ms_areas s) area of
        None \<Rightarrow> Inr ()
      | Some a \<Rightarrow> verify_origins c (ms_keys s) (fmap_items (al_records a)))"

section \<open>Deliberate corruption\<close>

text \<open>The first slot, in the order of \<open>sortedOrigins\<close> and \<open>sortedSeqs\<close>, whose record passes a test.\<close>

definition first_slot :: "(rec \<Rightarrow> bool) \<Rightarrow> area_log \<Rightarrow> (node_id \<times> u64 \<times> rec) option" where
  "first_slot P a =
     find (\<lambda>(_, _, r). P r)
       (concat (map (\<lambda>(origin, m). map (\<lambda>(sq, r). (origin, sq, r)) (fmap_items m)) (fmap_items (al_records a))))"

definition on_first_slot ::
  "(rec \<Rightarrow> bool) \<Rightarrow> (node_id \<times> u64 \<times> rec \<Rightarrow> (u64, rec) fmap \<Rightarrow> (u64, rec) fmap) \<Rightarrow> mem_store \<Rightarrow> 4 barray \<Rightarrow> mem_store" where
  "on_first_slot P f s area =
     (case fmlookup (ms_areas s) area of
        None \<Rightarrow> s
      | Some a \<Rightarrow>
          (case first_slot P a of
             None \<Rightarrow> s
           | Some x \<Rightarrow> s\<lparr>ms_areas := fmupd area
               (a\<lparr>al_records := fmupd (fst x) (f x (slots a (fst x))) (al_records a)\<rparr>) (ms_areas s)\<rparr>))"

definition corrupt_drop_one :: "mem_store \<Rightarrow> 4 barray \<Rightarrow> mem_store" where
  "corrupt_drop_one = on_first_slot (\<lambda>_. True) (\<lambda>(_, sq, _). fmdrop sq)"

definition corrupt_replace_one :: "rec \<Rightarrow> mem_store \<Rightarrow> 4 barray \<Rightarrow> mem_store" where
  "corrupt_replace_one r' = on_first_slot (\<lambda>_. True) (\<lambda>(_, sq, _). fmupd sq r')"

definition corrupt_tamper_one :: "mem_store \<Rightarrow> 4 barray \<Rightarrow> mem_store" where
  "corrupt_tamper_one =
     on_first_slot (\<lambda>r. length (r_body r) \<noteq> 0)
       (\<lambda>(_, sq, r). fmupd sq (r\<lparr>r_body := (r_body r)[0 := r_body r ! 0 XOR 0xFF]\<rparr>))"

section \<open>Invariant\<close>

definition slot_ok :: "crypto \<Rightarrow> (node_id, bytes) fmap \<Rightarrow> 4 barray \<Rightarrow> node_id \<Rightarrow> u64 \<Rightarrow> rec \<Rightarrow> bool" where
  "slot_ok c keys tag origin sq r \<longleftrightarrow> r_origin r = origin \<and> r_seq r = sq \<and> r_area r = tag \<and> sq \<noteq> 0 \<and>
     (\<exists>pub. fmlookup keys origin = Some pub \<and> record_verify c r pub = Inr ())"

definition contiguous_at :: "(u64, rec) fmap \<Rightarrow> u64 \<Rightarrow> bool" where
  "contiguous_at m t \<longleftrightarrow> (\<forall>q. 0 < q \<and> q \<le> t \<longrightarrow> fmlookup m q \<noteq> None) \<and> fmlookup m (t + 1) = None"

definition slots_ok :: "crypto \<Rightarrow> (node_id, bytes) fmap \<Rightarrow> 4 barray \<Rightarrow> area_log \<Rightarrow> bool" where
  "slots_ok c keys tag a \<longleftrightarrow> (\<forall>origin sq r. fmlookup (slots a origin) sq = Some r \<longrightarrow> slot_ok c keys tag origin sq r) \<and>
     (\<forall>origin. fmlookup (al_records a) origin \<noteq> Some fmempty)"

definition log_ok :: "crypto \<Rightarrow> (node_id, bytes) fmap \<Rightarrow> 4 barray \<Rightarrow> area_log \<Rightarrow> bool" where
  "log_ok c keys tag a \<longleftrightarrow> slots_ok c keys tag a \<and>
     (\<forall>origin. contiguous_at (slots a origin) (vv_get (al_vector a) origin)) \<and> vv_wf (al_vector a)"

definition mem_ok :: "crypto \<Rightarrow> mem_store \<Rightarrow> bool" where
  "mem_ok c s \<longleftrightarrow> sorted (ms_order s) \<and> set (ms_order s) = fset (fmdom (ms_areas s)) \<and>
     (\<forall>tag a. fmlookup (ms_areas s) tag = Some a \<longrightarrow> log_ok c (ms_keys s) tag a)"

definition mem_held :: "mem_store \<Rightarrow> 4 barray \<Rightarrow> node_id \<Rightarrow> u64 \<Rightarrow> rec option" where
  "mem_held s tag origin sq =
     (case fmlookup (ms_areas s) tag of None \<Rightarrow> None | Some a \<Rightarrow> fmlookup (slots a origin) sq)"

section \<open>The climb\<close>

lemma climb_total:
  assumes "fmlookup m 0 = None" and "card {k. k |\<in>| fmdom m \<and> sq < k} < n"
  shows "\<exists>t. climb n m sq = Some t \<and> sq \<le> t \<and> (\<forall>q. sq < q \<and> q \<le> t \<longrightarrow> fmlookup m q \<noteq> None) \<and> fmlookup m (t + 1) = None"
  using assms(2)
proof (induction n arbitrary: sq)
  case (Suc n)
  show ?case
  proof (cases "fmlookup m (sq + 1)")
    case None
    then show ?thesis by (auto intro: exI [of _ sq])
  next
    case (Some r)
    then have "sq + 1 \<noteq> 0" using assms(1) by (metis option.distinct(1))
    then have lt: "sq < sq + 1" using unatSuc [of sq] by (simp add: word_less_nat_alt add.commute)
    have sub: "{k. k |\<in>| fmdom m \<and> sq + 1 < k} \<subset> {k. k |\<in>| fmdom m \<and> sq < k}"
      using lt Some by (auto intro: fmdomI)
    have "finite {k. k |\<in>| fmdom m \<and> sq < k}" by (rule finite_subset [of _ "fset (fmdom m)"]) auto
    then have "card {k. k |\<in>| fmdom m \<and> sq + 1 < k} < n" using Suc.prems psubset_card_mono [OF _ sub] by simp
    then obtain t where t: "climb n m (sq + 1) = Some t" "sq + 1 \<le> t"
      "\<forall>q. sq + 1 < q \<and> q \<le> t \<longrightarrow> fmlookup m q \<noteq> None" "fmlookup m (t + 1) = None"
      using Suc.IH by blast
    have "fmlookup m q \<noteq> None" if "sq < q" "q \<le> t" for q
    proof (cases "q = sq + 1")
      case False
      then have "sq + 1 < q" using that(1) word_plus1_le [OF that(1), of q] by simp
      then show ?thesis using t(3) that by simp
    qed (use Some in simp)
    then show ?thesis using t lt Some by (intro exI [of _ t]) auto
  qed
qed simp

lemma climb_fuel_enough:
  assumes "fmlookup m 0 = None"
  shows "\<exists>t. climb (climb_fuel m) m sq = Some t \<and> sq \<le> t \<and> (\<forall>q. sq < q \<and> q \<le> t \<longrightarrow> fmlookup m q \<noteq> None) \<and>
    fmlookup m (t + 1) = None"
proof (rule climb_total [OF assms])
  have "card {k. k |\<in>| fmdom m \<and> sq < k} \<le> card (fset (fmdom m))" by (rule card_mono) auto
  then show "card {k. k |\<in>| fmdom m \<and> sq < k} < climb_fuel m" by (simp add: climb_fuel_def fcard.rep_eq)
qed

lemma contiguous_unique:
  assumes "contiguous_at m t" and "contiguous_at m u"
  shows "t = u"
proof -
  have no: "\<not> x < y" if "contiguous_at m x" "contiguous_at m y" for x y
  proof
    assume "x < y"
    then have "x + 1 \<le> y" "0 < x + 1"
      using word_plus1_le [of x y y] word_plus1_le [of x y 0] by (auto simp: word_gt_0)
    then show False using that by (auto simp: contiguous_at_def)
  qed
  show ?thesis using no [of t u] no [of u t] assms by simp
qed

text \<open>From a mark whose lower slots are filled, the climb ends at the contiguous high-water mark.\<close>

lemma climb_contiguous:
  assumes "fmlookup m 0 = None" and "\<forall>q. 0 < q \<and> q \<le> sq \<longrightarrow> fmlookup m q \<noteq> None"
  obtains t where "climb (climb_fuel m) m sq = Some t" and "sq \<le> t" and "contiguous_at m t"
proof -
  obtain t where t: "climb (climb_fuel m) m sq = Some t" "sq \<le> t"
    "\<forall>q. sq < q \<and> q \<le> t \<longrightarrow> fmlookup m q \<noteq> None" "fmlookup m (t + 1) = None"
    using climb_fuel_enough [OF assms(1)] by blast
  then have "contiguous_at m t" using assms(2) by (fastforce simp: contiguous_at_def not_le [symmetric])
  then show ?thesis using t(1,2) that by blast
qed

section \<open>Advancing the marks\<close>

definition marks_below :: "area_log \<Rightarrow> vector \<Rightarrow> bool" where
  "marks_below a v \<longleftrightarrow> (\<forall>origin q. 0 < q \<and> q \<le> vv_get v origin \<longrightarrow> fmlookup (slots a origin) q \<noteq> None)"

lemma advance_fold:
  assumes "distinct (map fst xs)" and "\<forall>(origin, m) \<in> set xs. slots a origin = m"
    and "\<forall>origin. fmlookup (slots a origin) 0 = None" and "marks_below a v" and "vv_wf v"
  shows "\<exists>w. fold advance_entry xs (Some v) = Some w \<and> marks_below a w \<and> vv_wf w \<and>
    (\<forall>origin. vv_get v origin \<le> vv_get w origin) \<and>
    (\<forall>origin. if origin \<in> fst ` set xs then contiguous_at (slots a origin) (vv_get w origin)
       else vv_get w origin = vv_get v origin)"
  using assms(1,2,4,5)
proof (induction xs arbitrary: v)
  case Nil
  then show ?case by auto
next
  case (Cons e xs)
  obtain origin m where e: "e = (origin, m)" by (cases e)
  then have m: "m = slots a origin" using Cons.prems by simp
  obtain t where t: "climb (climb_fuel m) m (vv_get v origin) = Some t" "vv_get v origin \<le> t" "contiguous_at m t"
    using climb_contiguous [of m "vv_get v origin"] Cons.prems(3) assms(3) m by (auto simp: marks_below_def)
  have "marks_below a (vv_set v origin t)" "vv_wf (vv_set v origin t)"
    using Cons.prems t m by (auto simp: marks_below_def contiguous_at_def vv_wf_set max_def)
  then obtain w where w: "fold advance_entry xs (Some (vv_set v origin t)) = Some w" "marks_below a w" "vv_wf w"
    "\<forall>o'. vv_get (vv_set v origin t) o' \<le> vv_get w o'"
    "\<forall>o'. if o' \<in> fst ` set xs then contiguous_at (slots a o') (vv_get w o')
       else vv_get w o' = vv_get (vv_set v origin t) o'"
    using Cons.IH [of "vv_set v origin t"] Cons.prems by auto
  have "origin \<notin> fst ` set xs" using Cons.prems e by simp
  then have "vv_get w origin = t" using w(5) t(2) by (auto simp: max_def)
  moreover have "advance_entry e (Some v) = Some (vv_set v origin t)" using t e by (simp add: advance_entry_def)
  ultimately show ?case using w t e m Cons.prems by (intro exI [of _ w]) (auto split: if_splits)
qed

lemma mem_advance_ok:
  assumes "\<forall>origin. fmlookup (slots a origin) 0 = None" and "marks_below a (al_vector a)" and "vv_wf (al_vector a)"
  obtains w where "mem_advance a = Some w" and "vv_wf w"
    and "\<forall>origin. contiguous_at (slots a origin) (vv_get w origin)"
    and "\<forall>origin. vv_get (al_vector a) origin \<le> vv_get w origin"
proof -
  have s: "\<forall>(origin, m) \<in> set (fmap_items (al_records a)). slots a origin = m"
    by (auto simp: slots_def)
  obtain w where w: "mem_advance a = Some w" "marks_below a w" "vv_wf w"
    "\<forall>origin. vv_get (al_vector a) origin \<le> vv_get w origin"
    "\<forall>origin. if origin \<in> fst ` set (fmap_items (al_records a)) then contiguous_at (slots a origin) (vv_get w origin)
       else vv_get w origin = vv_get (al_vector a) origin"
    using advance_fold [OF distinct_fmap_items s assms] by (auto simp: mem_advance_def)
  have "contiguous_at (slots a origin) (vv_get w origin)" for origin
  proof (cases "origin \<in> fst ` set (fmap_items (al_records a))")
    case False
    then have "fmlookup (al_records a) origin = None" using in_fmap_items by (metis fst_conv image_eqI not_Some_eq)
    then have "slots a origin = fmempty" by (simp add: slots_def)
    moreover have "\<not> 0 < vv_get w origin"
      using w(2) \<open>slots a origin = fmempty\<close> by (force simp: marks_below_def)
    ultimately show ?thesis by (auto simp: contiguous_at_def dest: less_le_trans)
  qed (use w(5) in simp)
  then show ?thesis using w that by blast
qed

section \<open>Admission\<close>

definition admissible :: "crypto \<Rightarrow> (node_id, bytes) fmap \<Rightarrow> 4 barray \<Rightarrow> rec \<Rightarrow> bool" where
  "admissible c keys tag r \<longleftrightarrow> slot_ok c keys tag (r_origin r) (r_seq r) r"

lemma mem_admit_cases:
  "mem_admit c keys tag r (a, rej, n) =
     (if \<not> admissible c keys tag r then (a, rej + 1, n)
      else case fmlookup (slots a (r_origin r)) (r_seq r) of
             Some existing \<Rightarrow> (a, (if r_id existing \<noteq> r_id r then rej + 1 else rej), n)
           | None \<Rightarrow> (a\<lparr>al_records := fmupd (r_origin r) (fmupd (r_seq r) r (slots a (r_origin r))) (al_records a)\<rparr>, rej, n + 1))"
  by (auto simp: mem_admit_def admissible_def slot_ok_def Let_def split: option.splits)

lemma slots_upd: "slots (a\<lparr>al_records := fmupd origin m (al_records a)\<rparr>) o' = (if o' = origin then m else slots a o')"
  by (simp add: slots_def)

lemma slots_vector [simp]: "slots (a\<lparr>al_vector := v\<rparr>) = slots a"
  by (rule ext) (simp add: slots_def)

definition extends :: "area_log \<Rightarrow> area_log \<Rightarrow> bool" where
  "extends a b \<longleftrightarrow> al_vector b = al_vector a \<and>
     (\<forall>origin sq r. fmlookup (slots a origin) sq = Some r \<longrightarrow> fmlookup (slots b origin) sq = Some r)"

lemma extends_refl [simp]: "extends a a"
  by (simp add: extends_def)

lemma extends_trans: "extends a b \<Longrightarrow> extends b d \<Longrightarrow> extends a d"
  by (simp add: extends_def)

lemma mem_admit_extends: "extends (fst st) (fst (mem_admit c keys tag r st))"
  by (cases st) (auto simp: mem_admit_cases extends_def slots_upd split: option.splits)

lemma admit_fold_extends: "extends (fst st) (fst (fold (mem_admit c keys tag) recs st))"
proof (induction recs arbitrary: st)
  case (Cons r recs)
  then show ?case using extends_trans mem_admit_extends [of st c keys tag r] by simp
qed simp

lemma mem_admit_slots: "slots_ok c keys tag (fst st) \<Longrightarrow> slots_ok c keys tag (fst (mem_admit c keys tag r st))"
  by (cases st) (auto simp: mem_admit_cases slots_ok_def slots_upd admissible_def split: option.splits if_splits)

lemma admit_fold_slots: "slots_ok c keys tag (fst st) \<Longrightarrow> slots_ok c keys tag (fst (fold (mem_admit c keys tag) recs st))"
proof (induction recs arbitrary: st)
  case (Cons r recs)
  then show ?case using mem_admit_slots [of c keys tag st r] by simp
qed simp

lemma mem_admit_fills:
  "admissible c keys tag r \<Longrightarrow> fmlookup (slots (fst (mem_admit c keys tag r st)) (r_origin r)) (r_seq r) \<noteq> None"
  by (cases st) (auto simp: mem_admit_cases slots_upd split: option.splits)

lemma admit_fold_fills:
  "r \<in> set recs \<Longrightarrow> admissible c keys tag r \<Longrightarrow>
   fmlookup (slots (fst (fold (mem_admit c keys tag) recs st)) (r_origin r)) (r_seq r) \<noteq> None"
proof (induction recs arbitrary: st)
  case (Cons x xs)
  show ?case
  proof (cases "r \<in> set xs")
    case False
    then have "r = x" using Cons.prems by simp
    then show ?thesis
      using mem_admit_fills [OF Cons.prems(2), of st] admit_fold_extends [of "mem_admit c keys tag x st" c keys tag xs]
      by (auto simp: extends_def)
  qed (use Cons in simp)
qed simp

lemma mem_admit_stable:
  "(admissible c keys tag r \<Longrightarrow> fmlookup (slots (fst st) (r_origin r)) (r_seq r) \<noteq> None) \<Longrightarrow>
   fst (mem_admit c keys tag r st) = fst st \<and> snd (snd (mem_admit c keys tag r st)) = snd (snd st)"
  by (cases st) (auto simp: mem_admit_cases split: option.splits)

lemma admit_fold_stable:
  "(\<And>r. r \<in> set recs \<Longrightarrow> admissible c keys tag r \<Longrightarrow> fmlookup (slots (fst st) (r_origin r)) (r_seq r) \<noteq> None) \<Longrightarrow>
   fst (fold (mem_admit c keys tag) recs st) = fst st \<and> snd (snd (fold (mem_admit c keys tag) recs st)) = snd (snd st)"
proof (induction recs arbitrary: st)
  case (Cons x xs)
  have "fst (mem_admit c keys tag x st) = fst st \<and> snd (snd (mem_admit c keys tag x st)) = snd (snd st)"
    by (rule mem_admit_stable) (use Cons.prems in simp)
  then show ?case using Cons.IH [of "mem_admit c keys tag x st"] Cons.prems by simp
qed simp

lemma admit_fold_counts:
  "snd (snd p) \<le> snd (snd (fold (mem_admit c k t) rs p)) \<and>
   (snd (snd (fold (mem_admit c k t) rs p)) = snd (snd p) \<longrightarrow> fst (fold (mem_admit c k t) rs p) = fst p)"
proof (induction rs arbitrary: p)
  case (Cons r rs)
  have "snd (snd p) \<le> snd (snd (mem_admit c k t r p)) \<and>
      (snd (snd (mem_admit c k t r p)) = snd (snd p) \<longrightarrow> fst (mem_admit c k t r p) = fst p)"
    by (cases p) (auto simp: mem_admit_cases split: option.splits)
  then show ?case using Cons [of "mem_admit c k t r p"] by auto
qed simp

section \<open>Apply\<close>

lemma log_zero: "slots_ok c keys tag a \<Longrightarrow> fmlookup (slots a origin) 0 = None"
  by (cases "fmlookup (slots a origin) 0") (auto simp: slots_ok_def slot_ok_def)

lemma log_marks: "log_ok c keys tag a \<Longrightarrow> marks_below a (al_vector a)"
  by (simp add: log_ok_def marks_below_def contiguous_at_def)

text \<open>What \<open>Apply\<close> does to the log of a federated area, with everything the properties use.\<close>

lemma mem_apply_log:
  fixes recs :: "rec list"
  assumes "log_ok c (ms_keys s) area a" and "fmlookup (ms_areas s) area = Some a"
  defines "st \<equiv> fold (mem_admit c (ms_keys s) area) recs (a, ms_rejected s, 0)"
  obtains b where
    "mem_apply c s area recs =
       Some (snd (snd st), None, s\<lparr>ms_areas := fmupd area b (ms_areas s), ms_rejected := fst (snd st)\<rparr>)"
    and "log_ok c (ms_keys s) area b" and "slots b = slots (fst st)"
    and "\<forall>origin. vv_get (al_vector a) origin \<le> vv_get (al_vector b) origin"
    and "snd (snd st) = 0 \<Longrightarrow> b = fst st"
proof -
  obtain a1 rej n where st: "st = (a1, rej, n)" by (cases st)
  have ext: "extends a a1"
    using admit_fold_extends [of "(a, ms_rejected s, 0)" c "ms_keys s" area recs] st by (simp add: st_def)
  have sl: "slots_ok c (ms_keys s) area a1"
    using admit_fold_slots [of c "ms_keys s" area "(a, ms_rejected s, 0)" recs] assms(1) st by (simp add: st_def log_ok_def)
  have mb: "marks_below a1 (al_vector a1)"
    using log_marks [OF assms(1)] ext unfolding marks_below_def extends_def by (metis not_None_eq)
  have wf: "vv_wf (al_vector a1)" using ext assms(1) by (simp add: extends_def log_ok_def)
  obtain w where w: "mem_advance a1 = Some w" "vv_wf w" "\<forall>origin. contiguous_at (slots a1 origin) (vv_get w origin)"
    "\<forall>origin. vv_get (al_vector a1) origin \<le> vv_get w origin"
    using mem_advance_ok [of a1] log_zero [OF sl] mb wf by blast
  show ?thesis
  proof (cases "n = 0")
    case True
    then have "a1 = a"
      using admit_fold_counts [of "(a, ms_rejected s, 0)" c "ms_keys s" area recs] st by (simp add: st_def)
    then show ?thesis
      using that [of a] st True assms by (simp add: mem_apply_def st_def Let_def split_beta)
  next
    case False
    have "log_ok c (ms_keys s) area (a1\<lparr>al_vector := w\<rparr>)"
      using sl w by (simp add: log_ok_def slots_ok_def)
    moreover have "mem_apply c s area recs =
        Some (n, None, s\<lparr>ms_areas := fmupd area (a1\<lparr>al_vector := w\<rparr>) (ms_areas s), ms_rejected := rej\<rparr>)"
      using False st assms(2) w(1) by (simp add: mem_apply_def st_def)
    ultimately show ?thesis
      using that [of "a1\<lparr>al_vector := w\<rparr>"] st w(4) ext False by (simp add: extends_def)
  qed
qed

section \<open>The store keeps its invariant\<close>

lemma mem_ok_log: "mem_ok c s \<Longrightarrow> fmlookup (ms_areas s) tag = Some a \<Longrightarrow> log_ok c (ms_keys s) tag a"
  by (simp add: mem_ok_def)

lemma log_ok_empty: "log_ok c keys tag empty_log"
proof -
  have "slots empty_log = (\<lambda>_. fmempty)" by (rule ext) (simp add: slots_def empty_log_def)
  then show ?thesis by (auto simp: log_ok_def slots_ok_def contiguous_at_def empty_log_def)
qed

lemma new_store_lookup:
  "fmlookup (fold (\<lambda>a m. fmupd a empty_log m) areas m0) tag = (if tag \<in> set areas then Some empty_log else fmlookup m0 tag)"
  by (induction areas arbitrary: m0) auto

lemma mem_ok_new: "mem_ok c (new_store areas)"
proof -
  have "set (ms_order (new_store areas)) = fset (fmdom (ms_areas (new_store areas)))"
    by (auto simp: new_store_def new_store_lookup fmlookup_dom_iff split: if_splits)
  then show ?thesis
    by (auto simp: mem_ok_def) (auto simp: new_store_def new_store_lookup log_ok_empty split: if_splits)
qed

lemma mem_ok_trust:
  assumes "mem_ok c s" and "fmlookup (ms_keys s) nid \<in> {None, Some pub}"
  shows "mem_ok c (trust_key nid pub s)"
proof -
  have "slot_ok c (ms_keys s) tag o' q r \<Longrightarrow> slot_ok c (fmupd nid pub (ms_keys s)) tag o' q r" for tag o' q r
    using assms(2) by (auto simp: slot_ok_def)
  then have "log_ok c (ms_keys s) tag a \<Longrightarrow> log_ok c (fmupd nid pub (ms_keys s)) tag a" for tag a
    unfolding log_ok_def slots_ok_def by blast
  then show ?thesis using assms(1) by (simp add: mem_ok_def trust_key_def)
qed

lemma mem_apply_cases:
  assumes "mem_ok c s"
  obtains (unknown) "fmlookup (ms_areas s) area = None" and "mem_apply c s area recs = Some (0, Some (MNotFederated area), s)"
  | (known) a b rej n where "fmlookup (ms_areas s) area = Some a"
      and "mem_apply c s area recs = Some (n, None, s\<lparr>ms_areas := fmupd area b (ms_areas s), ms_rejected := rej\<rparr>)"
      and "log_ok c (ms_keys s) area a" and "log_ok c (ms_keys s) area b"
      and "slots b = slots (fst (fold (mem_admit c (ms_keys s) area) recs (a, ms_rejected s, 0)))"
      and "\<forall>origin. vv_get (al_vector a) origin \<le> vv_get (al_vector b) origin"
proof (cases "fmlookup (ms_areas s) area")
  case None
  then show ?thesis using unknown by (simp add: mem_apply_def)
next
  case (Some a)
  have lok: "log_ok c (ms_keys s) area a" using mem_ok_log [OF assms Some] .
  show ?thesis by (rule mem_apply_log [OF lok Some, of recs]) (rule known [OF Some _ lok]; assumption)
qed

lemma mem_apply_ok:
  assumes "mem_ok c s"
  shows "\<exists>n err s'. mem_apply c s area recs = Some (n, err, s') \<and> mem_ok c s'"
  using assms
proof (cases rule: mem_apply_cases [of c s area recs])
  case (known a b rej n)
  have "fmdom (fmupd area b (ms_areas s)) = fmdom (ms_areas s)"
    using known(1) by (auto intro: fmdomI)
  then have "mem_ok c (s\<lparr>ms_areas := fmupd area b (ms_areas s), ms_rejected := rej\<rparr>)"
    using assms known(4) by (simp add: mem_ok_def)
  then show ?thesis using known(2) by blast
qed (use assms in simp)

lemma mem_apply_grows:
  assumes "mem_ok c s" and "mem_apply c s area recs = Some (n, err, s')"
  shows "ms_order s' = ms_order s \<and> ms_keys s' = ms_keys s \<and>
    (mem_held s tag origin q = Some r \<longrightarrow> mem_held s' tag origin q = Some r) \<and>
    vv_get (mem_vector s tag) origin \<le> vv_get (mem_vector s' tag) origin"
  using assms(1)
proof (cases rule: mem_apply_cases [of c s area recs])
  case (known a b rej m)
  have "extends a (fst (fold (mem_admit c (ms_keys s) area) recs (a, ms_rejected s, 0)))"
    using admit_fold_extends [of "(a, ms_rejected s, 0)" c "ms_keys s" area recs] by simp
  then have ext: "fmlookup (slots a o') q' = Some r' \<Longrightarrow> fmlookup (slots b o') q' = Some r'" for o' q' r'
    using known(5) by (simp add: extends_def)
  have s': "s' = s\<lparr>ms_areas := fmupd area b (ms_areas s), ms_rejected := rej\<rparr>" using assms(2) known(2) by simp
  then show ?thesis using ext known(1,6) by (cases "tag = area") (simp_all add: mem_held_def mem_vector_def)
qed (use assms(2) in simp)

section \<open>Scanning a range\<close>

lemma mem_scan_endless: "mem_scan n m sq (- 1) out = None"
  by (induction n arbitrary: sq out) simp_all

lemma mem_scan_result:
  assumes "to \<noteq> - 1" and "(unat to + 1) - unat sq < n"
  shows "\<exists>rs. mem_scan n m sq to out = Some (out @ rs) \<and> (\<forall>r. r \<in> set rs \<longleftrightarrow> (\<exists>q. sq \<le> q \<and> q \<le> to \<and> fmlookup m q = Some r))"
  using assms(2)
proof (induction n arbitrary: sq out)
  case (Suc n)
  show ?case
  proof (cases "sq \<le> to")
    case True
    have "sq \<noteq> - 1" using True assms(1) using word_n1_ge [of to] by (metis order_antisym)
    then have "sq + 1 \<noteq> 0" by (metis add_eq_0_iff2)
    then have suc: "unat (sq + 1) = Suc (unat sq)" using unatSuc [of sq] by (simp add: add.commute)
    then have "(unat to + 1) - unat (sq + 1) < n" using Suc.prems True by (simp add: word_le_nat_alt)
    from Suc.IH [OF this, of "case fmlookup m sq of Some r \<Rightarrow> out @ [r] | None \<Rightarrow> out"]
    obtain rs where rs: "mem_scan (Suc n) m sq to out =
        Some ((case fmlookup m sq of Some r \<Rightarrow> out @ [r] | None \<Rightarrow> out) @ rs)"
      "\<forall>r. r \<in> set rs \<longleftrightarrow> (\<exists>q. sq + 1 \<le> q \<and> q \<le> to \<and> fmlookup m q = Some r)"
      using True by auto
    have le: "sq \<le> q \<longleftrightarrow> q = sq \<or> sq + 1 \<le> q" for q :: u64
      using suc by (auto simp: word_le_nat_alt word_unat_eq_iff)
    show ?thesis
    proof (cases "fmlookup m sq")
      case None
      have "x \<in> set rs \<longleftrightarrow> (\<exists>q. sq \<le> q \<and> q \<le> to \<and> fmlookup m q = Some x)" for x
        using rs(2) le None by (metis option.distinct(1))
      then show ?thesis using rs(1) None by (intro exI [of _ rs]) simp
    next
      case (Some r)
      have "x \<in> set (r # rs) \<longleftrightarrow> (\<exists>q. sq \<le> q \<and> q \<le> to \<and> fmlookup m q = Some x)" for x
        using rs(2) le Some True by auto
      then show ?thesis using rs(1) Some by (intro exI [of _ "r # rs"]) simp
    qed
  next
    case False
    then show ?thesis by (intro exI [of _ "[]"]) (auto dest: order_trans)
  qed
qed simp

lemma mem_records_result:
  assumes "rg_to rg \<noteq> - 1"
  obtains rs where "mem_records s area rg = Some rs"
    and "\<forall>r. r \<in> set rs \<longleftrightarrow> (\<exists>q. rg_from rg \<le> q \<and> q \<le> rg_to rg \<and> mem_held s area (rg_origin rg) q = Some r)"
proof (cases "\<exists>a m. fmlookup (ms_areas s) area = Some a \<and> fmlookup (al_records a) (rg_origin rg) = Some m")
  case True
  then obtain a m where am: "fmlookup (ms_areas s) area = Some a" "fmlookup (al_records a) (rg_origin rg) = Some m"
    by blast
  have "unat (rg_to rg) + 1 - unat (rg_from rg) < Suc (scan_fuel (rg_from rg) (rg_to rg))"
    by (simp add: scan_fuel_def)
  from mem_scan_result [OF assms this, of m "[]"] show ?thesis
    using that am by (auto simp: mem_records_def mem_held_def slots_def)
next
  case False
  then have "mem_records s area rg = Some []" "mem_held s area (rg_origin rg) q = None" for q
    by (auto simp: mem_records_def mem_held_def slots_def split: option.splits)
  then show ?thesis using that [of "[]"] by auto
qed

section \<open>Exchanges between stores\<close>

lemma mem_held_slot: "mem_ok c s \<Longrightarrow> mem_held s tag origin q = Some r \<Longrightarrow> slot_ok c (ms_keys s) tag origin q r"
  by (auto simp: mem_held_def mem_ok_def log_ok_def slots_ok_def split: option.splits)

lemma mem_vector_mark:
  "mem_ok c s \<Longrightarrow> fmlookup (ms_areas s) tag = Some a \<Longrightarrow> contiguous_at (slots a origin) (vv_get (mem_vector s tag) origin)"
  by (auto simp: mem_ok_def log_ok_def mem_vector_def)

lemma mem_below_mark:
  assumes "mem_ok c s" and "0 < q" and "q \<le> vv_get (mem_vector s tag) origin"
  shows "mem_held s tag origin q \<noteq> None"
proof (cases "fmlookup (ms_areas s) tag")
  case None
  then have "vv_get (mem_vector s tag) origin = 0" by (simp add: mem_vector_def)
  then show ?thesis using assms(2,3) by simp
next
  case (Some a)
  then show ?thesis
    using mem_vector_mark [OF assms(1) Some] assms(2,3) by (simp add: contiguous_at_def mem_held_def)
qed

lemma mem_mark_reaches:
  assumes "mem_ok c s" and "\<forall>q. 0 < q \<and> q \<le> t \<longrightarrow> mem_held s tag origin q \<noteq> None"
  shows "t \<le> vv_get (mem_vector s tag) origin"
proof (rule ccontr)
  let ?v = "vv_get (mem_vector s tag) origin"
  assume "\<not> t \<le> ?v"
  then have lt: "?v < t" by simp
  then have le: "?v + 1 \<le> t" "0 < ?v + 1"
    using word_plus1_le [OF lt, of t] word_plus1_le [OF lt, of 0] by (auto simp: word_gt_0)
  then have "mem_held s tag origin (?v + 1) \<noteq> None" using assms(2) by simp
  moreover from this obtain a where "fmlookup (ms_areas s) tag = Some a"
    by (auto simp: mem_held_def split: option.splits)
  ultimately show False using mem_vector_mark [OF assms(1)] by (simp add: contiguous_at_def mem_held_def)
qed

lemma mem_apply_fills:
  assumes "mem_ok c s" and "fmlookup (ms_areas s) area \<noteq> None" and "mem_apply c s area recs = Some (n, err, s')"
    and "r \<in> set recs" and "admissible c (ms_keys s) area r"
  shows "mem_held s' area (r_origin r) (r_seq r) \<noteq> None"
  using assms(1)
proof (cases rule: mem_apply_cases [of c s area recs])
  case (known a b rej m)
  have s': "s' = s\<lparr>ms_areas := fmupd area b (ms_areas s), ms_rejected := rej\<rparr>" using assms(3) known(2) by simp
  then show ?thesis using admit_fold_fills [OF assms(4,5)] known(5) by (simp add: mem_held_def)
qed (use assms(2) in simp)

text \<open>The records a store answers with, one list per range.\<close>

definition answers :: "mem_store \<Rightarrow> 4 barray \<Rightarrow> vv_range list \<Rightarrow> rec list" where
  "answers s area rgs = concat (map (\<lambda>rg. case mem_records s area rg of Some rs \<Rightarrow> rs | None \<Rightarrow> []) rgs)"

lemma answers_member:
  assumes "rg \<in> set rgs" and "rg_to rg \<noteq> - 1" and "rg_from rg \<le> q" and "q \<le> rg_to rg"
    and "mem_held s area (rg_origin rg) q = Some r"
  shows "r \<in> set (answers s area rgs)"
proof -
  obtain rs where "mem_records s area rg = Some rs" "r \<in> set rs"
    using mem_records_result [OF assms(2), of s area] assms(3-5) by metis
  then show ?thesis using assms(1) by (force simp: answers_def)
qed

section \<open>Properties\<close>

text \<open>
  C21. The log and its marks never disagree. A new store satisfies the invariant (every slot
  holds a record of that origin, sequence and area that verifies under the trusted key, and
  each mark is the contiguous high-water mark of its origin); learning a new key keeps it; and
  \<open>Apply\<close> and \<open>Insert\<close>, on any records whatever, return and keep it.
\<close>

theorem mem_store_invariant:
  "mem_ok c (new_store areas) \<and>
   (mem_ok c s \<longrightarrow> fmlookup (ms_keys s) nid \<in> {None, Some pub} \<longrightarrow> mem_ok c (trust_key nid pub s)) \<and>
   (mem_ok c s \<longrightarrow> (\<exists>n err s'. mem_apply c s area recs = Some (n, err, s') \<and> mem_ok c s')) \<and>
   (mem_ok c s \<longrightarrow> (\<exists>res s'. mem_insert c s area recs = Some (res, s') \<and> mem_ok c s'))"
proof -
  have "\<exists>res s'. mem_insert c s area recs = Some (res, s') \<and> mem_ok c s'" if ok: "mem_ok c s"
  proof -
    obtain n err s' where "mem_apply c s area recs = Some (n, err, s')" "mem_ok c s'"
      using mem_apply_ok [OF ok, of area recs] by blast
    then show ?thesis unfolding mem_insert_def by simp
  qed
  then show ?thesis using mem_ok_new mem_ok_trust mem_apply_ok by blast
qed

definition toy_rec :: "u64 \<Rightarrow> rec" where
  "toy_rec n = (case record_new toy_crypto toy_key (toy_post\<lparr>r_seq := n\<rparr>) of Inr r \<Rightarrow> r | Inl _ \<Rightarrow> toy_post)"

definition toy_store :: mem_store where
  "toy_store = trust_key (node_key_id toy_crypto toy_key) (nk_public toy_key) (new_store [zero_array])"

lemma toy_store_ok: "mem_ok toy_crypto toy_store"
  unfolding toy_store_def by (rule mem_ok_trust [OF mem_ok_new]) (simp add: new_store_def)

theorem mem_store_invariant_witness:
  "\<exists>n err s'. mem_apply toy_crypto toy_store zero_array [toy_rec 1, toy_rec 3] = Some (n, err, s') \<and> mem_ok toy_crypto s'"
  using mem_store_invariant [of toy_crypto "[]" toy_store] toy_store_ok by blast

text \<open>
  The marks that \<open>ContiguousHighWater\<close> recomputes from the records are the ones the vector
  holds, so the simulator's invariant check can only fail when the store was corrupted from
  outside.
\<close>

theorem high_water_agrees:
  assumes "mem_ok c s"
  shows "contiguous_high_water s area origin = Some (vv_get (mem_vector s area) origin)"
proof (cases "fmlookup (ms_areas s) area")
  case None
  then show ?thesis by (simp add: contiguous_high_water_def mem_vector_def)
next
  case (Some a)
  have "fmlookup (slots a origin) 0 = None"
    using mem_ok_log [OF assms Some] log_zero [of c "ms_keys s" area a] by (simp add: log_ok_def)
  then obtain t where t: "climb (climb_fuel (slots a origin)) (slots a origin) 0 = Some t" "contiguous_at (slots a origin) t"
    by (rule climb_contiguous) auto
  then have "t = vv_get (mem_vector s area) origin"
    using mem_vector_mark [OF assms Some] contiguous_unique by blast
  then show ?thesis using Some t by (simp add: contiguous_high_water_def)
qed

theorem high_water_agrees_witness:
  "contiguous_high_water toy_store zero_array (node_key_id toy_crypto toy_key) =
     Some (vv_get (mem_vector toy_store zero_array) (node_key_id toy_crypto toy_key))"
  by (rule high_water_agrees [OF toy_store_ok])

text \<open>
  Records are immutable and delivery is idempotent. After \<open>Apply\<close> every slot that was filled
  holds the same record, even when the batch carried another record for it; no mark went down;
  and applying the same batch again admits nothing and leaves every log as it was.
\<close>

theorem mem_apply_idempotent:
  assumes "mem_ok c s" and "mem_apply c s area recs = Some (n, err, s')"
  shows "(\<forall>tag origin q r. mem_held s tag origin q = Some r \<longrightarrow> mem_held s' tag origin q = Some r) \<and>
    (\<forall>tag. vv_dominates (mem_vector s' tag) (mem_vector s tag)) \<and>
    (\<exists>s''. mem_apply c s' area recs = Some (0, err, s'') \<and> ms_areas s'' = ms_areas s')"
proof -
  have "\<exists>s''. mem_apply c s' area recs = Some (0, err, s'') \<and> ms_areas s'' = ms_areas s'"
    using assms(1)
  proof (cases rule: mem_apply_cases [of c s area recs])
    case unknown
    then show ?thesis using assms(2) by simp
  next
    case (known a b rej m)
    have s': "s' = s\<lparr>ms_areas := fmupd area b (ms_areas s), ms_rejected := rej\<rparr>" "err = None"
      using assms(2) known(2) by simp_all
    let ?st = "fold (mem_admit c (ms_keys s) area) recs (b, rej, 0)"
    have "fst ?st = b \<and> snd (snd ?st) = 0"
      using admit_fold_stable [of recs c "ms_keys s" area "(b, rej, 0)"] admit_fold_fills known(5) by simp
    then obtain rej' where "?st = (b, rej', 0)" by (cases ?st) simp
    then have "mem_apply c s' area recs =
        Some (0, None, s'\<lparr>ms_areas := fmupd area (b\<lparr>al_vector := al_vector b\<rparr>) (ms_areas s'), ms_rejected := rej'\<rparr>)"
      using s' by (simp add: mem_apply_def)
    then show ?thesis using s' by (simp add: fmap_ext)
  qed
  then show ?thesis using mem_apply_grows [OF assms] by (simp add: vv_dominates_iff)
qed

theorem mem_apply_idempotent_witness:
  "\<exists>n err s'. mem_apply toy_crypto toy_store zero_array [toy_rec 1, toy_rec 3] = Some (n, err, s') \<and>
     vv_dominates (mem_vector s' zero_array) (mem_vector toy_store zero_array)"
  using mem_apply_ok [OF toy_store_ok, of zero_array "[toy_rec 1, toy_rec 3]"] mem_apply_idempotent [OF toy_store_ok] by blast

text \<open>
  One exchange closes the gap. When a node asks a peer for the ranges it is missing and
  applies what the peer's log answers with, its vector then dominates the peer's, provided it
  trusts the keys the peer verified with and no mark of the peer is the largest sequence. The
  two logs may have gaps and other records beyond their marks, and may disagree on what an
  equivocating origin put in a slot.
\<close>

theorem exchange_heals:
  assumes "mem_ok c s" and "mem_ok c t" and "fmlookup (ms_areas s) area \<noteq> None"
    and "\<forall>origin pub. fmlookup (ms_keys t) origin = Some pub \<longrightarrow> fmlookup (ms_keys s) origin = Some pub"
    and "\<forall>origin. vv_get (mem_vector t area) origin \<noteq> - 1"
    and "mem_apply c s area (answers t area (vv_missing (mem_vector s area) (mem_vector t area))) = Some (n, err, s')"
  shows "vv_dominates (mem_vector s' area) (mem_vector t area)"
proof -
  let ?v = "mem_vector s area" and ?w = "mem_vector t area"
  have ok': "mem_ok c s'" using mem_apply_ok [OF assms(1)] assms(6) by (metis option.inject prod.inject)
  have "mem_held s' area origin q \<noteq> None" if q: "0 < q" "q \<le> vv_get ?w origin" for origin q
  proof (cases "q \<le> vv_get ?v origin")
    case True
    then show ?thesis
      using mem_below_mark [OF assms(1) q(1)] mem_apply_grows [OF assms(1,6), of area origin q] by force
  next
    case False
    then have lt: "vv_get ?v origin < q" by simp
    let ?rg = "\<lparr>rg_origin = origin, rg_from = vv_get ?v origin + 1, rg_to = vv_get ?w origin\<rparr>"
    obtain r where r: "mem_held t area origin q = Some r" using mem_below_mark [OF assms(2) q] by blast
    have "?rg \<in> set (vv_missing ?v ?w)" using lt q by (simp add: vv_missing_member)
    moreover have "vv_get ?v origin + 1 \<le> q" using word_plus1_le [OF lt, of q] lt by simp
    ultimately have mem: "r \<in> set (answers t area (vv_missing ?v ?w))"
      using answers_member [of ?rg _ q t area r] q r assms(5) by simp
    have slot: "slot_ok c (ms_keys t) area origin q r" using mem_held_slot [OF assms(2) r] .
    then have "admissible c (ms_keys s) area r" using assms(4) by (auto simp: admissible_def slot_ok_def)
    then show ?thesis
      using mem_apply_fills [OF assms(1,3,6) mem] slot by (simp add: slot_ok_def)
  qed
  then have "vv_get ?w origin \<le> vv_get (mem_vector s' area) origin" for origin
    using mem_mark_reaches [OF ok'] by simp
  then show ?thesis by (simp add: vv_dominates_iff)
qed

definition toy_peer :: mem_store where
  "toy_peer = (case mem_apply toy_crypto toy_store zero_array [toy_rec 2, toy_rec 1] of
     Some (_, _, s) \<Rightarrow> s | None \<Rightarrow> toy_store)"

lemma toy_peer_vector: "mem_vector toy_peer zero_array =
    \<lparr>entries = fmupd (node_key_id toy_crypto toy_key) 2 fmempty\<rparr>"
  by code_simp

lemma toy_peer_ok: "mem_ok toy_crypto toy_peer"
  using mem_apply_ok [OF toy_store_ok, of zero_array "[toy_rec 2, toy_rec 1]"]
  by (auto simp: toy_peer_def)

lemma toy_peer_keys: "ms_keys toy_peer = ms_keys toy_store"
  using mem_apply_ok [OF toy_store_ok, of zero_array "[toy_rec 2, toy_rec 1]"] mem_apply_grows [OF toy_store_ok]
  by (auto simp: toy_peer_def)

lemma toy_peer_marks: "vv_get (mem_vector toy_peer zero_array) origin \<noteq> - 1"
  by (simp add: toy_peer_vector vv_get_def)

lemma toy_store_area: "fmlookup (ms_areas toy_store) zero_array \<noteq> None"
  by (simp add: toy_store_def trust_key_def new_store_def)

theorem exchange_heals_witness:
  "\<exists>n err s'. mem_apply toy_crypto toy_store zero_array
     (answers toy_peer zero_array (vv_missing (mem_vector toy_store zero_array) (mem_vector toy_peer zero_array))) =
     Some (n, err, s') \<and> vv_dominates (mem_vector s' zero_array) (mem_vector toy_peer zero_array)"
proof -
  let ?recs = "answers toy_peer zero_array (vv_missing (mem_vector toy_store zero_array) (mem_vector toy_peer zero_array))"
  obtain n err s' where ap: "mem_apply toy_crypto toy_store zero_array ?recs = Some (n, err, s')"
    using mem_apply_ok [OF toy_store_ok] by blast
  then show ?thesis
    using exchange_heals [OF toy_store_ok toy_peer_ok toy_store_area _ _ ap] toy_peer_keys toy_peer_marks by auto
qed

text \<open>
  A range request can hang the store. \<open>Records\<close> counts with \<open>for seq := r.From; seq <= r.To; seq++\<close>,
  whose condition holds for every sequence when \<open>r.To\<close> is the largest one: whatever the log of a
  known origin holds and however many turns are allowed, the scan does not return. On every
  other range it returns exactly the records held in it.
\<close>

theorem records_scan:
  "(\<forall>n m sq out. mem_scan n m sq (- 1) out = None) \<and>
   (rg_to rg \<noteq> - 1 \<longrightarrow>
     (\<exists>rs. mem_records s area rg = Some rs \<and>
        (\<forall>r. r \<in> set rs \<longleftrightarrow> (\<exists>q. rg_from rg \<le> q \<and> q \<le> rg_to rg \<and> mem_held s area (rg_origin rg) q = Some r))))"
  using mem_scan_endless mem_records_result [of rg s area] by metis

theorem records_scan_witness:
  "\<exists>rs. mem_records toy_peer zero_array \<lparr>rg_origin = node_key_id toy_crypto toy_key, rg_from = 1, rg_to = 9\<rparr> = Some rs \<and>
     toy_rec 2 \<in> set rs"
proof -
  have "mem_held toy_peer zero_array (node_key_id toy_crypto toy_key) 2 = Some (toy_rec 2)"
    by code_simp
  moreover have "(1 :: u64) \<le> 2" "(2 :: u64) \<le> 9" "(9 :: u64) \<noteq> - 1" by simp_all
  ultimately show ?thesis
    using records_scan [of "\<lparr>rg_origin = node_key_id toy_crypto toy_key, rg_from = 1, rg_to = 9\<rparr>" toy_peer zero_array]
    by auto
qed

section \<open>The checker\<close>

lemma verify_slots_iff:
  "verify_slots c pub origin xs = Inr () \<longleftrightarrow> (\<forall>(sq, r) \<in> set xs. verify_slot c pub origin sq r = Inr ())"
  by (induction xs) (auto split: sum.splits)

lemma verify_origins_iff:
  "verify_origins c keys xs = Inr () \<longleftrightarrow>
     (\<forall>(origin, m) \<in> set xs. \<exists>pub. fmlookup keys origin = Some pub \<and> verify_slots c pub origin (fmap_items m) = Inr ())"
  by (induction xs) (auto split: sum.splits option.splits)

lemma verify_all_iff:
  assumes "fmlookup (ms_areas s) area = Some a"
  shows "verify_all c s area = Inr () \<longleftrightarrow>
    (\<forall>origin m. fmlookup (al_records a) origin = Some m \<longrightarrow>
      (\<exists>pub. fmlookup (ms_keys s) origin = Some pub \<and>
         (\<forall>sq r. fmlookup m sq = Some r \<longrightarrow> verify_slot c pub origin sq r = Inr ())))"
proof -
  have "verify_all c s area = Inr () \<longleftrightarrow>
    (\<forall>p \<in> set (fmap_items (al_records a)). \<exists>pub. fmlookup (ms_keys s) (fst p) = Some pub \<and>
       (\<forall>x \<in> set (fmap_items (snd p)). verify_slot c pub (fst p) (fst x) (snd x) = Inr ()))"
    using assms by (simp add: verify_all_def verify_origins_iff verify_slots_iff split_beta)
  then show ?thesis by (auto simp: Ball_def)
qed

lemma verify_slot_ok:
  assumes "slot_ok c keys tag origin sq r" and "fmlookup keys origin = Some pub"
    and "record_unmarshal c (record_marshal r) = Inr r"
  shows "verify_slot c pub origin sq r = Inr ()"
  using assms by (auto simp: verify_slot_def slot_ok_def)

lemma tampered_slot:
  assumes "record_unmarshal c (record_marshal r) = Inr r" and "r_body r \<noteq> []"
  shows "verify_slot c pub origin sq (r\<lparr>r_body := (r_body r)[0 := r_body r ! 0 XOR 0xFF]\<rparr>) \<noteq> Inr ()"
proof -
  have "x XOR 0xFF \<noteq> x" for x :: u8
  proof
    assume "x XOR 0xFF = x"
    then have "(x XOR x) XOR 0xFF = x XOR x" by (simp only: xor.assoc)
    then show False by simp
  qed
  then have "(r_body r)[0 := r_body r ! 0 XOR 0xFF] \<noteq> r_body r"
    using assms(2) by (metis length_greater_0_conv nth_list_update_eq)
  moreover have "record_marshal (r\<lparr>r_body := b\<rparr>) = record_marshal r" for b by (simp add: record_marshal_def)
  ultimately show ?thesis using assms(1) by (auto simp: verify_slot_def split: sum.splits)
qed

lemma first_slot_Some:
  assumes "first_slot P a = Some (origin, sq, r)"
  shows "fmlookup (slots a origin) sq = Some r" and "P r"
proof -
  have "P r" and "(origin, sq, r) \<in> set (concat (map (\<lambda>(origin, m). map (\<lambda>(sq, r). (origin, sq, r)) (fmap_items m)) (fmap_items (al_records a))))"
    using assms unfolding first_slot_def by (auto simp: find_Some_iff dest: nth_mem)
  then show "fmlookup (slots a origin) sq = Some r" "P r" by (auto simp: slots_def)
qed

text \<open>
  The simulator's checker is neither too strict nor blind. On a store that satisfies the
  invariant and whose records came off the wire \<open>VerifyAll\<close> reports no fault, and after
  \<open>CorruptTamperOne\<close> has altered a body it does, although the altered record's signature still
  verifies.
\<close>

theorem verify_all_detects:
  assumes "mem_ok c s"
    and "\<forall>origin sq r. mem_held s area origin sq = Some r \<longrightarrow> record_unmarshal c (record_marshal r) = Inr r"
  shows "verify_all c s area = Inr () \<and>
    (corrupt_tamper_one s area = s \<or> verify_all c (corrupt_tamper_one s area) area \<noteq> Inr ())"
proof (cases "fmlookup (ms_areas s) area")
  case None
  then show ?thesis by (simp add: verify_all_def corrupt_tamper_one_def on_first_slot_def)
next
  case (Some a)
  have held: "mem_held s area origin sq = fmlookup (slots a origin) sq" for origin sq
    using Some by (simp add: mem_held_def)
  have so: "slots_ok c (ms_keys s) area a" using mem_ok_log [OF assms(1) Some] by (simp add: log_ok_def)
  have one: "\<exists>pub. fmlookup (ms_keys s) origin = Some pub \<and>
      (\<forall>sq r. fmlookup m sq = Some r \<longrightarrow> verify_slot c pub origin sq r = Inr ())"
    if m: "fmlookup (al_records a) origin = Some m" for origin m
  proof -
    have sl: "slots a origin = m" using m by (simp add: slots_def)
    have "m \<noteq> fmempty" using so m by (auto simp: slots_ok_def)
    then obtain sq r where "fmlookup m sq = Some r" by (metis fmap_ext fmempty_lookup not_None_eq)
    then obtain pub where pub: "fmlookup (ms_keys s) origin = Some pub"
      using so sl unfolding slots_ok_def slot_ok_def by blast
    have "verify_slot c pub origin q x = Inr ()" if "fmlookup m q = Some x" for q x
      using verify_slot_ok [OF _ pub, of c area q x] so sl assms(2) held that unfolding slots_ok_def by metis
    then show ?thesis using pub by blast
  qed
  have tamper: "verify_all c (corrupt_tamper_one s area) area \<noteq> Inr ()"
    if f: "first_slot (\<lambda>r. length (r_body r) \<noteq> 0) a = Some (origin, sq, r)" for origin sq r
  proof -
    have r: "fmlookup (slots a origin) sq = Some r" "r_body r \<noteq> []" using first_slot_Some [OF f] by auto
    let ?r' = "r\<lparr>r_body := (r_body r)[0 := r_body r ! 0 XOR 0xFF]\<rparr>"
    let ?a = "a\<lparr>al_records := fmupd origin (fmupd sq ?r' (slots a origin)) (al_records a)\<rparr>"
    have s': "corrupt_tamper_one s area = s\<lparr>ms_areas := fmupd area ?a (ms_areas s)\<rparr>"
      using Some f by (simp add: corrupt_tamper_one_def on_first_slot_def)
    have bad: "verify_slot c pub origin sq ?r' \<noteq> Inr ()" for pub
      by (rule tampered_slot) (use assms(2) held [of origin sq] r in simp_all)
    have "fmlookup (ms_areas (corrupt_tamper_one s area)) area = Some ?a" by (simp add: s')
    note iff = verify_all_iff [OF this, of c]
    have "fmlookup (al_records ?a) origin = Some (fmupd sq ?r' (slots a origin))"
      "fmlookup (fmupd sq ?r' (slots a origin)) sq = Some ?r'" by simp_all
    then show ?thesis using iff bad by metis
  qed
  have "corrupt_tamper_one s area = s" if "first_slot (\<lambda>r. length (r_body r) \<noteq> 0) a = None"
    using Some that by (simp add: corrupt_tamper_one_def on_first_slot_def)
  then show ?thesis
    using verify_all_iff [OF Some, of c] one tamper by (metis not_None_eq prod_cases3)
qed

lemma toy_peer_held: "mem_held toy_peer zero_array origin sq = Some r \<Longrightarrow> r \<in> {toy_rec 1, toy_rec 2}"
proof -
  have logs: "ms_areas toy_peer = fmupd zero_array
      \<lparr>al_records = fmupd (node_key_id toy_crypto toy_key) (fmupd 1 (toy_rec 1) (fmupd 2 (toy_rec 2) fmempty)) fmempty,
       al_vector = \<lparr>entries = fmupd (node_key_id toy_crypto toy_key) 2 fmempty\<rparr>\<rparr> fmempty"
    by code_simp
  assume "mem_held toy_peer zero_array origin sq = Some r"
  then show ?thesis by (auto simp: mem_held_def logs slots_def split: if_splits option.splits)
qed

lemma toy_peer_altered: "corrupt_tamper_one toy_peer zero_array \<noteq> toy_peer"
proof -
  have "mem_held (corrupt_tamper_one toy_peer zero_array) zero_array (node_key_id toy_crypto toy_key) 1 \<noteq>
      mem_held toy_peer zero_array (node_key_id toy_crypto toy_key) 1"
    by code_simp
  then show ?thesis by metis
qed

theorem verify_all_detects_witness:
  "verify_all toy_crypto toy_peer zero_array = Inr () \<and>
   verify_all toy_crypto (corrupt_tamper_one toy_peer zero_array) zero_array \<noteq> Inr ()"
proof -
  have "record_unmarshal toy_crypto (record_marshal (toy_rec 1)) = Inr (toy_rec 1)"
    "record_unmarshal toy_crypto (record_marshal (toy_rec 2)) = Inr (toy_rec 2)"
    by code_simp+
  then have "\<forall>origin sq r. mem_held toy_peer zero_array origin sq = Some r \<longrightarrow>
      record_unmarshal toy_crypto (record_marshal r) = Inr r"
    using toy_peer_held by blast
  from verify_all_detects [OF toy_peer_ok this] toy_peer_altered show ?thesis by blast
qed

end
