(* ===== verification/Exchange.thy ===== *)
theory Exchange
  imports Engine MemStore
begin

text \<open>
  The gossip engine on its store. The interface \<open>Store\<close> of \<open>internal/gossip/engine.go\<close> is the
  locale \<open>gossip_store\<close>: what the engine needs of a store for its runs to keep the log sound and
  growing. The in-memory store interprets it. The engine's entry points are the rules of a step
  relation, and its invariants are proved over every run. The last part follows one complete
  exchange of two engines, from the vector a peer sends to the records applied, and shows that
  it makes progress whatever the limits per message.
\<close>

section \<open>Only apply and publish touch the store\<close>

lemma fire_loop_store: "eg_store (snd (snd (fire_loop E now asks keep e))) = eg_store e"
  by (induction asks arbitrary: keep e) (auto simp: Let_def split_beta split: option.splits)

lemma fire_pending_store: "eg_store (snd (fire_pending E now e)) = eg_store e"
  using fire_loop_store [of E now "eg_pending e" "[]" e]
  by (auto simp: fire_pending_def split: prod.splits option.splits)

lemma engine_tick_store: "eg_store (snd (engine_tick E now e)) = eg_store e"
  using fire_pending_store [of E now e]
  by (auto simp: engine_tick_def Let_def split_beta split: prod.splits sum.splits option.splits)

lemma answer_vectors_store: "eg_store (snd (answer_vectors E p tags e)) = eg_store e"
  by (induction tags arbitrary: e) (auto simp: Let_def split_beta split: option.splits)

lemma push_records_store: "eg_store (snd (push_records E now a rs e)) = eg_store e"
  by (auto simp: push_records_def Let_def split_beta split: option.splits)

lemma digest_area_store: "eg_store (fst (digest_area E now p a st)) = eg_store (fst st)"
  by (cases st) (simp add: digest_area_def Let_def)

lemma fold_digest_store: "eg_store (fst (fold (digest_area E now p) as st)) = eg_store (fst st)"
  by (induction "as" arbitrary: st) (simp_all add: digest_area_store)

lemma engine_receive_store: "eg_store (snd (engine_receive E now p b e)) = eg_store e"
proof -
  have d: "eg_store (snd (on_digest E now p b e1)) = eg_store e1" for e1
    by (simp add: on_digest_def Let_def split_beta fold_digest_store split: sum.splits)
  have v: "eg_store (snd (on_vector E p b e1)) = eg_store e1" for e1
    by (auto simp: on_vector_def Let_def split_beta split: sum.splits option.splits)
  have r: "eg_store (snd (on_range_req E now b e1)) = eg_store e1" for e1
    by (auto simp: on_range_req_def Let_def push_records_store split: sum.splits)
  have q: "eg_store (snd (on_vector_req E p b e1)) = eg_store e1" for e1
    by (auto simp: on_vector_req_def answer_vectors_store split: sum.splits)
  show ?thesis by (auto simp: engine_receive_def Let_def d v r q split: sum.splits)
qed

section \<open>Runs\<close>

inductive engine_step :: "('s, 'o) gossip_env \<Rightarrow> ('s, 'o) engine \<Rightarrow> ('s, 'o) engine \<Rightarrow> bool" for E where
  tick: "engine_step E e (snd (engine_tick E now e))"
| receive: "engine_step E e (snd (engine_receive E now p b e))"
| publish: "engine_step E e (snd (engine_publish E now area recs e))"
| applied: "engine_step E e (snd (snd (engine_apply_records E area recs e)))"

inductive_cases engine_stepE: "engine_step E e e'"

inductive engine_run :: "('s, 'o) gossip_env \<Rightarrow> ('s, 'o) engine \<Rightarrow> ('s, 'o) engine \<Rightarrow> bool" for E where
  start: "engine_run E e e"
| more: "engine_run E e e1 \<Longrightarrow> engine_step E e1 e2 \<Longrightarrow> engine_run E e e2"

lemma publish_store:
  "eg_store (snd (engine_publish E now area recs e)) =
     (if recs = [] then eg_store e else snd (snd (ge_apply E (eg_store e) area recs)))"
  by (auto simp: engine_publish_def push_records_store split: prod.splits option.splits)

lemma apply_records_store:
  "eg_store (snd (snd (engine_apply_records E area recs e))) = snd (snd (ge_apply E (eg_store e) area recs))"
  by (auto simp: engine_apply_records_def split: prod.splits)

text \<open>A step changes the store by at most one \<open>Apply\<close>.\<close>

lemma step_store_apply:
  "engine_step E e e' \<Longrightarrow>
   eg_store e' = eg_store e \<or> (\<exists>area recs. eg_store e' = snd (snd (ge_apply E (eg_store e) area recs)))"
  by (erule engine_stepE)
    (auto simp: engine_tick_store engine_receive_store publish_store apply_records_store)

section \<open>The store's contract\<close>

locale gossip_store =
  fixes E :: "('s, 'o) gossip_env" and inv :: "'s \<Rightarrow> bool"
  assumes apply_inv: "inv s \<Longrightarrow> inv (snd (snd (ge_apply E s area recs)))"
    and apply_grows: "inv s \<Longrightarrow> vv_get (ge_vector E s tag) origin \<le>
          vv_get (ge_vector E (snd (snd (ge_apply E s area recs))) tag) origin"
    and apply_areas: "inv s \<Longrightarrow> ge_areas E (snd (snd (ge_apply E s area recs))) = ge_areas E s"
begin

lemma step_keeps:
  assumes "engine_step E e e'" and "inv (eg_store e)"
  shows "inv (eg_store e') \<and> ge_areas E (eg_store e') = ge_areas E (eg_store e) \<and>
    vv_dominates (ge_vector E (eg_store e') tag) (ge_vector E (eg_store e) tag)"
  using step_store_apply [OF assms(1)] apply_inv apply_grows apply_areas assms(2)
  by (auto simp: vv_dominates_iff)

lemma run_keeps:
  "engine_run E e e' \<Longrightarrow> inv (eg_store e) \<Longrightarrow>
   inv (eg_store e') \<and> ge_areas E (eg_store e') = ge_areas E (eg_store e) \<and>
   vv_dominates (ge_vector E (eg_store e') tag) (ge_vector E (eg_store e) tag)"
proof (induction rule: engine_run.induct)
  case (start e)
  then show ?case by (simp add: vv_dominates_iff)
next
  case (more e e1 e2)
  then show ?case
    using step_keeps [OF more.hyps(2), of tag] by (auto simp: vv_dominates_iff intro: order_trans)
qed

end

text \<open>
  The engine's environment with the in-memory store. A call that does not return has no
  counterpart in the interface; \<open>mem_apply\<close> always returns on a sound store, and \<open>mem_records\<close>
  on every range that does not end at the largest sequence.
\<close>

definition mem_env ::
  "crypto \<Rightarrow> (node_id \<Rightarrow> bytes \<Rightarrow> 'o \<Rightarrow> nat option \<times> 'o) \<Rightarrow> (area_tag \<Rightarrow> rec list \<Rightarrow> 'o \<Rightarrow> nat option \<times> 'o) \<Rightarrow>
   ('o \<Rightarrow> budget) \<Rightarrow> (('o \<Rightarrow> rat) \<times> (rat \<Rightarrow> 'o \<Rightarrow> 'o)) option \<Rightarrow> (nat \<Rightarrow> rat) \<Rightarrow> (mem_store, 'o) gossip_env" where
  "mem_env c send send_recs bud loss rnd =
     \<lparr>ge_areas = mem_areas, ge_vector = mem_vector,
      ge_records = (\<lambda>s area rg. case mem_records s area rg of Some rs \<Rightarrow> rs | None \<Rightarrow> []),
      ge_apply = (\<lambda>s area recs. case mem_apply c s area recs of
         Some (n, err, s') \<Rightarrow> (n, map_option (\<lambda>_. 0) err, s') | None \<Rightarrow> (0, None, s)),
      ge_send_message = send, ge_send_records = send_recs, ge_budget = bud, ge_loss_adapter = loss,
      ge_blake3 = blake3 c, ge_rnd = rnd\<rparr>"

lemma mem_env_sel [simp]:
  "ge_areas (mem_env c send sr bud loss rnd) = mem_areas"
  "ge_vector (mem_env c send sr bud loss rnd) = mem_vector"
  "ge_send_message (mem_env c send sr bud loss rnd) = send"
  "ge_send_records (mem_env c send sr bud loss rnd) = sr"
  "ge_budget (mem_env c send sr bud loss rnd) = bud"
  "ge_loss_adapter (mem_env c send sr bud loss rnd) = loss"
  "ge_blake3 (mem_env c send sr bud loss rnd) = blake3 c"
  by (simp_all add: mem_env_def)

lemma mem_env_apply:
  assumes "mem_ok c s"
  obtains n err s' where "mem_apply c s area recs = Some (n, err, s')" and "mem_ok c s'"
    and "ge_apply (mem_env c send sr bud loss rnd) s area recs = (n, map_option (\<lambda>_. 0) err, s')"
proof -
  obtain n err s' where "mem_apply c s area recs = Some (n, err, s')" "mem_ok c s'"
    using mem_apply_ok [OF assms] by blast
  then show ?thesis using that by (simp add: mem_env_def)
qed

interpretation ms: gossip_store "mem_env c send sr bud loss rnd" "mem_ok c" for c send sr bud loss rnd
proof (unfold_locales, goal_cases)
  case (1 s area recs)
  then show ?case by (rule mem_env_apply [of c s area recs send sr bud loss rnd]) simp
next
  case (2 s tag origin area recs)
  then show ?case
    by (rule mem_env_apply [of c s area recs send sr bud loss rnd]) (use mem_apply_grows [OF 2] in simp)
next
  case (3 s area recs)
  then show ?case
    by (rule mem_env_apply [of c s area recs send sr bud loss rnd])
      (use mem_apply_grows [OF 3] in \<open>simp add: mem_areas_def\<close>)
qed

section \<open>One exchange\<close>

text \<open>An outbox that accepts everything and remembers it.\<close>

datatype sent = SMessage node_id bytes | SRecords area_tag "rec list"

definition log_message :: "node_id \<Rightarrow> bytes \<Rightarrow> sent list \<Rightarrow> nat option \<times> sent list" where
  "log_message nid b out = (None, out @ [SMessage nid b])"

definition log_records :: "area_tag \<Rightarrow> rec list \<Rightarrow> sent list \<Rightarrow> nat option \<times> sent list" where
  "log_records area recs out = (None, out @ [SRecords area recs])"

definition log_env :: "crypto \<Rightarrow> (sent list \<Rightarrow> budget) \<Rightarrow> (nat \<Rightarrow> rat) \<Rightarrow> (mem_store, sent list) gossip_env" where
  "log_env c bud rnd = mem_env c log_message log_records bud None rnd"

lemma log_env_sel [simp]:
  "ge_areas (log_env c bud rnd) = mem_areas" "ge_vector (log_env c bud rnd) = mem_vector"
  "ge_budget (log_env c bud rnd) = bud" "ge_blake3 (log_env c bud rnd) = blake3 c"
  "ge_send_message (log_env c bud rnd) = log_message" "ge_send_records (log_env c bud rnd) = log_records"
  "ge_loss_adapter (log_env c bud rnd) = None"
  by (simp_all add: log_env_def)

lemma federates_log: "mem_ok c (eg_store e) \<Longrightarrow> federates (log_env c bud rnd) e tag \<longleftrightarrow> fmlookup (ms_areas (eg_store e)) tag \<noteq> None"
  by (auto simp: federates_def list_ex_iff mem_areas_def mem_ok_def fmlookup_dom_iff)

lemma mem_records_first:
  assumes "rg_to rg \<noteq> - 1" and "rg_from rg \<le> rg_to rg" and "mem_held s area (rg_origin rg) (rg_from rg) = Some r"
  shows "\<exists>rs. mem_records s area rg = Some (r # rs)"
proof -
  obtain a m where am: "fmlookup (ms_areas s) area = Some a" "fmlookup (al_records a) (rg_origin rg) = Some m"
    "fmlookup m (rg_from rg) = Some r"
    using assms(3) by (auto simp: mem_held_def slots_def split: option.splits)
  let ?n = "scan_fuel (rg_from rg) (rg_to rg)"
  have "rg_from rg + 1 \<noteq> 0" using assms(1,2) word_n1_ge [of "rg_to rg"] by (metis add_eq_0_iff2 order_antisym)
  then have "unat (rg_from rg + 1) = Suc (unat (rg_from rg))" using unatSuc [of "rg_from rg"] by (simp add: add.commute)
  then have "unat (rg_to rg) + 1 - unat (rg_from rg + 1) < ?n"
    using assms(2) by (simp add: scan_fuel_def word_le_nat_alt)
  from mem_scan_result [OF assms(1) this, of m "[r]"] show ?thesis
    using am assms(2) by (auto simp: mem_records_def)
qed

lemma collect_records_prefix: "\<exists>ys. collect_records E s area mx rgs out = out @ ys"
proof (induction rgs arbitrary: out)
  case (Cons rg rgs)
  let ?recs = "ge_records E s area rg" and ?room = "mx - length out"
  obtain ys where "collect_records E s area mx rgs (out @ (if length ?recs > ?room then take ?room ?recs else ?recs)) =
      (out @ (if length ?recs > ?room then take ?room ?recs else ?recs)) @ ys"
    using Cons.IH by meson
  then show ?case by (simp only: collect_records.simps Let_def append.assoc) (auto intro: exI [of _ "[]"])
qed simp

lemma collect_first:
  assumes "0 < mx" and "ge_records E s area rg = r # rs"
  shows "r \<in> set (collect_records E s area mx (rg # rgs) [])"
proof -
  let ?out = "if length (r # rs) > mx then take mx (r # rs) else r # rs"
  obtain ys where "collect_records E s area mx rgs ?out = ?out @ ys" using collect_records_prefix by meson
  moreover have "r \<in> set ?out" using assms(1) by (cases mx) auto
  ultimately show ?thesis using assms by (simp add: Let_def)
qed

lemma peek_vector: "peek_type (vector_msg_encode m) = Inr MsgVector"
  by (simp add: peek_type_def vector_msg_encode_def msg_valid_def gossip_consts)

lemma peek_range: "peek_type (range_req_encode r) = Inr MsgRangeReq"
  by (simp add: peek_type_def range_req_encode_def Let_def msg_valid_def gossip_consts)

lemma range_req_read:
  assumes "rs = ranges_to_ask cfg area mine theirs"
  shows "decode_range_req (range_req_encode \<lparr>rr_area = area, rr_ranges = rs\<rparr>) =
    Inr \<lparr>rr_area = area, rr_ranges = sort_key range_key rs\<rparr>"
proof -
  note p = ranges_to_ask_props [where cfg = cfg and area = area and mine = mine and theirs = theirs, folded assms]
  have "range_req_wf \<lparr>rr_area = area, rr_ranges = sort_key range_key rs\<rparr>"
    using p(1-3) missing_from_pos by (intro range_req_sorted_wf) auto
  then show ?thesis using range_req_decode_encode range_req_encode_sorted by metis
qed

text \<open>Each of the three legs of an exchange, on the entry point that carries it.\<close>

lemma vector_leg:
  assumes "mem_ok c (eg_store a)" and "fmlookup (ms_areas (eg_store a)) tag \<noteq> None" and "peer \<noteq> eg_self a"
    and "vv_len theirs \<le> MaxOrigins" and "vv_missing (mem_vector (eg_store a) tag) theirs \<noteq> []"
    and "0 < ec_max_ranges (eg_cfg a)" and "can_send (bud (eg_out a))"
  defines "req \<equiv> range_req_encode \<lparr>rr_area = tag,
    rr_ranges = ranges_to_ask (eg_cfg a) tag (mem_vector (eg_store a) tag) theirs\<rparr>"
  shows "fst (engine_receive (log_env c bud rnd) now peer (vector_msg_encode \<lparr>vm_area = tag, vm_vector = theirs\<rparr>) a) = Inr ()"
    and "eg_out (snd (engine_receive (log_env c bud rnd) now peer (vector_msg_encode \<lparr>vm_area = tag, vm_vector = theirs\<rparr>) a)) =
      eg_out a @ [SMessage peer req]"
proof -
  let ?E = "log_env c bud rnd" and ?m = "\<lparr>vm_area = tag, vm_vector = theirs\<rparr>"
  have fed: "federates ?E (touch_peer now peer a) tag"
    using assms(1,2) by (simp add: federates_log)
  have ne: "ranges_to_ask (eg_cfg a) tag (mem_vector (eg_store a) tag) theirs \<noteq> []"
    using ranges_to_ask_props(5) assms(5,6) by blast
  have dec: "decode_vector_msg (vector_msg_encode ?m) = Inr ?m"
    by (rule vector_msg_decode_encode) (use assms(4) in \<open>simp add: vector_msg_wf_def\<close>)
  have rcv: "engine_receive ?E now peer (vector_msg_encode ?m) a = on_vector ?E peer (vector_msg_encode ?m) (touch_peer now peer a)"
    using assms(3) by (simp add: engine_receive_def peek_vector Let_def gossip_consts)
  show "fst (engine_receive ?E now peer (vector_msg_encode ?m) a) = Inr ()"
    and "eg_out (snd (engine_receive ?E now peer (vector_msg_encode ?m) a)) = eg_out a @ [SMessage peer req]"
    unfolding rcv using dec fed ne assms(5,7)
    by (simp_all add: on_vector_def Let_def log_message_def req_def)
qed

lemma range_leg:
  assumes "mem_ok c (eg_store b)" and "fmlookup (ms_areas (eg_store b)) tag \<noteq> None" and "peer \<noteq> eg_self b"
    and "decode_range_req req = Inr \<lparr>rr_area = tag, rr_ranges = rgs\<rparr>" and "peek_type req = Inr MsgRangeReq"
    and "can_send (bud (eg_out b))"
    and "recs = collect_records (log_env c bud rnd) (eg_store b) tag (ec_max_records (eg_cfg b)) rgs []"
    and "recs \<noteq> []"
  shows "fst (engine_receive (log_env c bud rnd) now peer req b) = Inr ()"
    and "eg_out (snd (engine_receive (log_env c bud rnd) now peer req b)) = eg_out b @ [SRecords tag recs]"
proof -
  let ?E = "log_env c bud rnd"
  have fed: "federates ?E (touch_peer now peer b) tag" using assms(1,2) by (simp add: federates_log)
  have rcv: "engine_receive ?E now peer req b = on_range_req ?E now req (touch_peer now peer b)"
    using assms(3,5) by (simp add: engine_receive_def Let_def gossip_consts)
  show "fst (engine_receive ?E now peer req b) = Inr ()"
    and "eg_out (snd (engine_receive ?E now peer req b)) = eg_out b @ [SRecords tag recs]"
    unfolding rcv using fed assms(4,6-8)
    by (simp_all add: on_range_req_def push_records_def Let_def log_records_def)
qed

lemma apply_leg:
  assumes "mem_ok c s" and "fmlookup (ms_areas s) tag \<noteq> None"
    and "r \<in> set recs" and "admissible c (ms_keys s) tag r"
    and "r_seq r = vv_get (mem_vector s tag) (r_origin r) + 1"
    and "mem_apply c s tag recs = Some (n, err, s')"
  shows "err = None \<and> vv_get (mem_vector s tag) (r_origin r) < vv_get (mem_vector s' tag) (r_origin r)"
proof -
  let ?o = "r_origin r" and ?v = "vv_get (mem_vector s tag) (r_origin r)"
  have nz: "?v + 1 \<noteq> 0" using assms(4,5) by (simp add: admissible_def slot_ok_def)
  then have lt: "?v < ?v + 1" using unatSuc [of ?v] by (simp add: word_less_nat_alt add.commute)
  have ok': "mem_ok c s'" using mem_apply_ok [OF assms(1)] assms(6) by (metis option.inject prod.inject)
  have "mem_held s' tag ?o q \<noteq> None" if q: "0 < q" "q \<le> ?v + 1" for q
  proof (cases "q \<le> ?v")
    case True
    then show ?thesis
      using mem_below_mark [OF assms(1) q(1)] mem_apply_grows [OF assms(1,6), of tag ?o q] by force
  next
    case False
    then have "q = ?v + 1" using q(2) word_plus1_le [OF lt, of q] by (simp add: order_antisym)
    then show ?thesis using mem_apply_fills [OF assms(1,2,6,3,4)] assms(5) by simp
  qed
  then have "?v + 1 \<le> vv_get (mem_vector s' tag) ?o" using mem_mark_reaches [OF ok'] by blast
  moreover have "err = None"
    using assms(1) by (rule mem_apply_cases [of c s tag recs]) (use assms(2,6) in simp_all)
  ultimately show ?thesis using lt by simp
qed

section \<open>Properties\<close>

text \<open>
  C2. Anti-entropy makes progress. When a peer holds records a node lacks, one round of three
  messages advances the node's vector: on the peer's vector the node sends one range request;
  on that request the peer sends records; and applying them moves a contiguous mark of the node
  strictly up. This holds whatever the limits on ranges per request, records per answer and
  bytes per packet, as long as they allow one; both logs may have gaps; the hypotheses are that
  both nodes carry the area and have budget, that the node trusts the keys the peer verified
  with, and that no mark of the peer is the largest sequence.
\<close>

theorem exchange_progress:
  assumes "mem_ok c (eg_store a)" and "mem_ok c (eg_store b)"
    and "fmlookup (ms_areas (eg_store a)) tag \<noteq> None" and "fmlookup (ms_areas (eg_store b)) tag \<noteq> None"
    and "idb \<noteq> eg_self a" and "ida \<noteq> eg_self b"
    and "\<forall>origin pub. fmlookup (ms_keys (eg_store b)) origin = Some pub \<longrightarrow> fmlookup (ms_keys (eg_store a)) origin = Some pub"
    and "\<forall>origin. vv_get (mem_vector (eg_store b) tag) origin \<noteq> - 1"
    and "vv_len (mem_vector (eg_store b) tag) \<le> MaxOrigins"
    and "0 < ec_max_ranges (eg_cfg a)" and "0 < ec_max_records (eg_cfg b)"
    and "can_send (bud (eg_out a))" and "can_send (bud (eg_out b))"
    and "\<not> vv_dominates (mem_vector (eg_store a) tag) (mem_vector (eg_store b) tag)"
  shows "\<exists>req recs a1 b1 n a2.
    engine_receive (log_env c bud rnd) now1 idb
      (vector_msg_encode \<lparr>vm_area = tag, vm_vector = mem_vector (eg_store b) tag\<rparr>) a = (Inr (), a1) \<and>
    eg_out a1 = eg_out a @ [SMessage idb req] \<and>
    engine_receive (log_env c bud rnd) now2 ida req b = (Inr (), b1) \<and>
    eg_out b1 = eg_out b @ [SRecords tag recs] \<and>
    engine_apply_records (log_env c bud rnd) tag recs a1 = (n, None, a2) \<and>
    vv_dominates (mem_vector (eg_store a2) tag) (mem_vector (eg_store a) tag) \<and>
    (\<exists>origin. vv_get (mem_vector (eg_store a) tag) origin < vv_get (mem_vector (eg_store a2) tag) origin)"
proof -
  let ?E = "log_env c bud rnd" and ?v = "mem_vector (eg_store a) tag" and ?w = "mem_vector (eg_store b) tag"
  let ?vm = "vector_msg_encode \<lparr>vm_area = tag, vm_vector = ?w\<rparr>"
  define rs where "rs = ranges_to_ask (eg_cfg a) tag ?v ?w"
  define req where "req = range_req_encode \<lparr>rr_area = tag, rr_ranges = rs\<rparr>"
  define recs where "recs = collect_records ?E (eg_store b) tag (ec_max_records (eg_cfg b)) (sort_key range_key rs) []"
  obtain a1 where a1: "snd (engine_receive ?E now1 idb ?vm a) = a1" by blast
  obtain b1 where b1: "snd (engine_receive ?E now2 ida req b) = b1" by blast
  have miss: "vv_missing ?v ?w \<noteq> []"
  proof -
    obtain o' where "vv_get ?v o' < vv_get ?w o'" using assms(14) by (auto simp: vv_dominates_iff not_le)
    then have "\<lparr>rg_origin = o', rg_from = vv_get ?v o' + 1, rg_to = vv_get ?w o'\<rparr> \<in> set (vv_missing ?v ?w)"
      by (simp add: vv_missing_member)
    then show ?thesis by auto
  qed
  then have "rs \<noteq> []" unfolding rs_def using assms(10) by (rule ranges_to_ask_props(5))
  then obtain rg rgs where rg: "sort_key range_key rs = rg # rgs" by (metis length_0_conv length_sort neq_Nil_conv)
  then have "rg \<in> set rs" by (metis list.set_intros(1) set_sort)
  then have "rg \<in> set (vv_missing ?v ?w)" using ranges_to_ask_props(3) rs_def by blast
  then have rg': "vv_get ?v (rg_origin rg) < vv_get ?w (rg_origin rg)"
    "rg_from rg = vv_get ?v (rg_origin rg) + 1" "rg_to rg = vv_get ?w (rg_origin rg)"
    by (simp_all add: vv_missing_member)
  have from_le: "rg_from rg \<le> rg_to rg" "0 < rg_from rg"
    using rg' word_plus1_le [OF rg'(1)] missing_from_pos [OF \<open>rg \<in> set (vv_missing ?v ?w)\<close>] by (simp_all add: word_gt_0)
  obtain r where r: "mem_held (eg_store b) tag (rg_origin rg) (rg_from rg) = Some r"
    using mem_below_mark [OF assms(2) from_le(2)] from_le(1) rg'(3) by auto
  have slot: "slot_ok c (ms_keys (eg_store b)) tag (rg_origin rg) (rg_from rg) r" by (rule mem_held_slot [OF assms(2) r])
  have adm: "admissible c (ms_keys (eg_store a)) tag r" using slot assms(7) by (auto simp: admissible_def slot_ok_def)
  obtain xs where "mem_records (eg_store b) tag rg = Some (r # xs)"
    using mem_records_first [OF _ from_le(1) r] assms(8) rg'(3) by auto
  then have mem: "r \<in> set recs"
    unfolding recs_def rg by (intro collect_first [OF assms(11)]) (simp add: log_env_def mem_env_def)
  have out1: "engine_receive ?E now1 idb ?vm a = (Inr (), a1)" "eg_out a1 = eg_out a @ [SMessage idb req]"
    using vector_leg [where bud = bud and rnd = rnd and now = now1, OF assms(1,3,5,9) miss assms(10,12)] a1
    by (auto simp: prod_eq_iff req_def rs_def)
  have dec: "decode_range_req req = Inr \<lparr>rr_area = tag, rr_ranges = sort_key range_key rs\<rparr>"
    unfolding req_def by (rule range_req_read [OF rs_def])
  have "recs \<noteq> []" using mem by auto
  then have out2: "engine_receive ?E now2 ida req b = (Inr (), b1)" "eg_out b1 = eg_out b @ [SRecords tag recs]"
    using range_leg [where bud = bud and rnd = rnd and now = now2, OF assms(2,4,6) dec _ assms(13) recs_def] b1
    by (auto simp: prod_eq_iff req_def peek_range)
  have st: "eg_store a1 = eg_store a" using engine_receive_store a1 by metis
  obtain n err s' where ap: "mem_apply c (eg_store a) tag recs = Some (n, err, s')"
    "ge_apply ?E (eg_store a) tag recs = (n, map_option (\<lambda>_. 0) err, s')"
    using mem_env_apply [OF assms(1), of tag recs log_message log_records bud None rnd] unfolding log_env_def by blast
  have prog: "err = None" "vv_get ?v (rg_origin rg) < vv_get (mem_vector s' tag) (rg_origin rg)"
    using apply_leg [OF assms(1,3) mem adm _ ap(1)] slot rg'(2) by (auto simp: slot_ok_def)
  obtain a2 where a2: "engine_apply_records ?E tag recs a1 = (n, None, a2)" "eg_store a2 = s'"
    using ap(2) st prog(1) by (simp add: engine_apply_records_def)
  then show ?thesis
    using out1 out2 prog(2) mem_apply_grows [OF assms(1) ap(1), of tag] by (auto simp: vv_dominates_iff)
qed

definition toy_budget :: budget where
  "toy_budget = \<lparr>bu_available = 1, bu_per_datagram = 1, bu_backpressure = False\<rparr>"

definition toy_env :: "(mem_store, sent list) gossip_env" where
  "toy_env = log_env toy_crypto (\<lambda>_. toy_budget) (\<lambda>_. 0)"

definition toy_engine :: "byte \<Rightarrow> mem_store \<Rightarrow> (mem_store, sent list) engine" where
  "toy_engine i s = engine_new toy_env 0 (copy_array [i]) s [] default_config 0"

lemma toy_engine_sel [simp]:
  "eg_store (toy_engine i s) = s" "eg_self (toy_engine i s) = copy_array [i]"
  "eg_cfg (toy_engine i s) = default_config" "eg_out (toy_engine i s) = []" "eg_pending (toy_engine i s) = []"
  "eg_loss (toy_engine i s) = 0"
  by (simp_all add: toy_engine_def engine_new_def toy_env_def split_beta Let_def)

lemma toy_ids: "(copy_array [2] :: node_id) \<noteq> copy_array [1]" "(copy_array [1] :: node_id) \<noteq> copy_array [2]"
  by code_simp+

lemma toy_can_send: "can_send toy_budget"
  by (simp add: can_send_def toy_budget_def)

lemma toy_peer_area: "fmlookup (ms_areas toy_peer) zero_array \<noteq> None"
  by code_simp

lemma toy_behind: "\<not> vv_dominates (mem_vector toy_store zero_array) (mem_vector toy_peer zero_array)"
  by code_simp

lemma toy_limits: "0 < ec_max_ranges default_config" "0 < ec_max_records default_config"
  "vv_len (mem_vector toy_peer zero_array) \<le> MaxOrigins"
  by code_simp+

theorem exchange_progress_witness:
  "\<exists>n a1 a2 recs. engine_apply_records toy_env zero_array recs a1 = (n, None, a2) \<and>
     (\<exists>origin. vv_get (mem_vector toy_store zero_array) origin < vv_get (mem_vector (eg_store a2) zero_array) origin)"
  using exchange_progress [of toy_crypto "toy_engine 1 toy_store" "toy_engine 2 toy_peer" zero_array
      "copy_array [2]" "copy_array [1]" "\<lambda>_. toy_budget" "\<lambda>_. 0" 0 0]
    toy_store_ok toy_peer_ok toy_store_area toy_peer_area toy_ids toy_peer_keys toy_peer_marks toy_limits
    toy_can_send toy_behind
  unfolding toy_env_def [symmetric] by auto

text \<open>
  Every run of the engine keeps its log sound. Whatever sequence of heartbeats, received
  payloads (well-formed or not), publications and deliveries the engine goes through, with any
  outbox, a sound in-memory store stays sound, its areas stay the same and no mark of any area
  goes down.
\<close>

theorem engine_run_sound:
  assumes "engine_run (mem_env c send sr bud loss rnd) e e'" and "mem_ok c (eg_store e)"
  shows "mem_ok c (eg_store e') \<and> mem_areas (eg_store e') = mem_areas (eg_store e) \<and>
    vv_dominates (mem_vector (eg_store e') tag) (mem_vector (eg_store e) tag)"
  using ms.run_keeps [OF assms] by simp

theorem engine_run_sound_witness:
  "mem_ok toy_crypto (eg_store (snd (engine_tick toy_env 5 (toy_engine 1 toy_peer))))"
proof -
  have "engine_run toy_env (toy_engine 1 toy_peer) (snd (engine_tick toy_env 5 (toy_engine 1 toy_peer)))"
    by (rule engine_run.more [OF engine_run.start engine_step.tick])
  then show ?thesis
    using engine_run_sound [of toy_crypto log_message log_records "\<lambda>_. toy_budget" None "\<lambda>_. 0"] toy_peer_ok
    unfolding toy_env_def log_env_def by simp
qed

section \<open>Invariants of the engine's own state\<close>

lemma publish_pending: "eg_pending (snd (engine_publish E now area recs e)) = eg_pending e"
  by (auto simp: engine_publish_def push_records_pending split: prod.splits option.splits)

lemma apply_records_pending: "eg_pending (snd (snd (engine_apply_records E area recs e))) = eg_pending e"
  by (auto simp: engine_apply_records_def split: prod.splits)

lemma publish_loss: "eg_loss (snd (engine_publish E now area recs e)) = eg_loss e"
  by (auto simp: engine_publish_def push_records_loss split: prod.splits option.splits)

lemma apply_records_loss: "eg_loss (snd (snd (engine_apply_records E area recs e))) = eg_loss e"
  by (auto simp: engine_apply_records_def split: prod.splits)

lemma step_loss: "engine_step E e e' \<Longrightarrow> loss_ok e \<Longrightarrow> loss_ok e'"
  by (erule engine_stepE)
    (auto simp: engine_receive_loss, simp_all add: loss_ok_def engine_tick_loss publish_loss apply_records_loss)

lemma step_asks: "engine_step E e e' \<Longrightarrow> sends_succeed E \<Longrightarrow> asks_distinct e \<Longrightarrow> asks_distinct e'"
  by (erule engine_stepE)
    (auto simp: engine_receive_pending, simp_all add: asks_distinct_def engine_tick_pending
      fire_pending_distinct [unfolded asks_distinct_def] publish_pending apply_records_pending)

text \<open>
  C19. The estimate and the queue stay in bounds. Over every run the loss estimate stays between
  zero and one half, and while sends succeed the queue never holds two asks for the same peer
  and area, so a peer's repeated digests cost one request.
\<close>

theorem engine_run_invariants:
  assumes "engine_run E e e'" and "loss_ok e" and "asks_distinct e"
  shows "0 \<le> eg_loss e' \<and> eg_loss e' \<le> 1 / 2 \<and> (sends_succeed E \<longrightarrow> asks_distinct e')"
proof -
  have "loss_ok e' \<and> (sends_succeed E \<longrightarrow> asks_distinct e')"
    using assms by (induction rule: engine_run.induct) (auto intro: step_loss step_asks)
  then show ?thesis by (simp add: loss_ok_def lossCeiling_def)
qed

lemma toy_engine_start: "loss_ok (toy_engine i s)" "asks_distinct (toy_engine i s)"
  by (simp_all add: loss_ok_def lossCeiling_def asks_distinct_def)

theorem engine_run_invariants_witness:
  "eg_loss (snd (engine_tick toy_env 5 (toy_engine 1 toy_peer))) \<le> 1 / 2"
  using engine_run_invariants [OF engine_run.more [OF engine_run.start engine_step.tick] toy_engine_start] by blast

text \<open>
  C8. The governor has the last word. When the outbox reports no budget (or backpressure), no
  entry point of the engine sends anything: after a heartbeat or a publication the outbox is as it
  was, and after any received payload too, but for the loss rates an outbox that takes them
  (\<open>LossAdapter\<close>, as the board's own does) has been told.
\<close>

theorem no_send_without_budget:
  assumes "\<not> can_send (ge_budget E (eg_out e))"
  shows "eg_out (snd (engine_tick E now e)) = eg_out e \<and>
    eg_out (snd (engine_publish E now area recs e)) = eg_out e \<and>
    (\<exists>rates. eg_out (snd (engine_receive E now p b e)) = tune E rates (eg_out e))"
  using assms engine_tick_silent engine_receive_silent
  by (auto simp: engine_publish_def push_records_silent split: prod.splits option.splits)

text \<open>
  C13. Divergence is never ignored by both sides. When two nodes carry an area and their vectors
  hash differently, then whatever else their engines hold, at least one of them queues a vector
  request on hearing the other's digest entry: the count comparison silences at most one side,
  also when both counts saturate.
\<close>

theorem divergence_one_side_asks:
  assumes "federates E a tag" and "federates E b tag"
    and "va = ge_vector E (eg_store a) tag" and "vb = ge_vector E (eg_store b) tag"
    and "vv_hash (ge_blake3 E) va \<noteq> vv_hash (ge_blake3 E) vb"
  shows "(idb, tag) \<in> ask_key ` set (eg_pending (fst (digest_area E now idb (area_state_from (ge_blake3 E) tag vb) (a, m, n)))) \<or>
    (ida, tag) \<in> ask_key ` set (eg_pending (fst (digest_area E now ida (area_state_from (ge_blake3 E) tag va) (b, m, n))))"
proof -
  have ask: "(p, tag) \<in> ask_key ` set (eg_pending (schedule_ask E now p tag h e))" for p h and e :: "('a, 'b) engine"
    by (auto simp: schedule_ask_def ask_key_def list_ex_iff split_beta Let_def image_iff)
  have one: "(p, tag) \<in> ask_key ` set (eg_pending (fst (digest_area E now p (area_state_from (ge_blake3 E) tag v) (e, m, n))))"
    if "federates E e tag" "vv_hash (ge_blake3 E) (ge_vector E (eg_store e) tag) \<noteq> vv_hash (ge_blake3 E) v"
      "\<not> saturating_count (vv_count (ge_vector E (eg_store e) tag)) > saturating_count (vv_count v)"
    for p v and e :: "('a, 'b) engine"
  proof -
    have "federates E (with_peer p f (settle_awaited E p x e)) tag" for f x
      using that(1) by (simp add: federates_def)
    then show ?thesis using that(2,3) ask by (simp add: digest_area_def Let_def area_state_from_def)
  qed
  show ?thesis
    using one [of a vb idb] one [of b va ida] assms by (metis not_less_iff_gr_or_eq)
qed

theorem divergence_one_side_asks_witness:
  "(copy_array [2], zero_array) \<in> ask_key ` set (eg_pending (fst (digest_area toy_env 0 (copy_array [2])
      (area_state_from (blake3 toy_crypto) zero_array (mem_vector toy_peer zero_array)) (toy_engine 1 toy_store, 0, 0)))) \<or>
   (copy_array [1], zero_array) \<in> ask_key ` set (eg_pending (fst (digest_area toy_env 0 (copy_array [1])
      (area_state_from (blake3 toy_crypto) zero_array (mem_vector toy_store zero_array)) (toy_engine 2 toy_peer, 0, 0))))"
proof -
  have "federates toy_env (toy_engine 1 toy_store) zero_array" "federates toy_env (toy_engine 2 toy_peer) zero_array"
    using toy_store_ok toy_peer_ok toy_store_area toy_peer_area by (simp_all add: toy_env_def federates_log)
  moreover have "vv_hash (blake3 toy_crypto) (mem_vector toy_store zero_array) \<noteq>
      vv_hash (blake3 toy_crypto) (mem_vector toy_peer zero_array)"
    by code_simp
  ultimately show ?thesis
    using divergence_one_side_asks [of toy_env "toy_engine 1 toy_store" zero_array "toy_engine 2 toy_peer"]
    by (simp add: toy_env_def)
qed

text \<open>
  A failed send corrupts the queue. \<open>firePending\<close> filters the queue in place and returns on
  the first send error without truncating it. With three asks, the second not yet due and the
  send of the third failing, the queue afterwards holds the second ask twice: the asks, distinct
  before, no longer are.
\<close>

definition toy_ask :: "byte \<Rightarrow> int \<Rightarrow> pending_ask" where
  "toy_ask i due = \<lparr>pa_peer = copy_array [i], pa_area = zero_array, pa_at = due, pa_want_hash = zero_array\<rparr>"

definition toy_failing :: "(mem_store, sent list) gossip_env" where
  "toy_failing = toy_env\<lparr>ge_send_message := (\<lambda>nid b out. if out = [] then log_message nid b out else (Some 1, out))\<rparr>"

theorem failed_send_duplicates:
  "let e = (toy_engine 9 toy_store)\<lparr>eg_pending := [toy_ask 1 0, toy_ask 2 60, toy_ask 3 0]\<rparr>;
       (res, e') = fire_pending toy_failing 10 e
   in asks_distinct e \<and> res = Inl (ESend 1) \<and>
      eg_pending e' = [toy_ask 2 60, toy_ask 2 60, toy_ask 3 0] \<and> \<not> asks_distinct e'"
proof -
  let ?e = "(toy_engine 9 toy_store)\<lparr>eg_pending := [toy_ask 1 0, toy_ask 2 60, toy_ask 3 0]\<rparr>"
  have hash: "vv_hash (blake3 toy_crypto) (mem_vector toy_store zero_array) \<noteq> zero_array" by code_simp
  have ids: "(copy_array [1] :: node_id) \<noteq> copy_array [2]" "(copy_array [1] :: node_id) \<noteq> copy_array [3]"
    "(copy_array [2] :: node_id) \<noteq> copy_array [3]" by code_simp+
  have sel: "ge_blake3 toy_failing = blake3 toy_crypto" "ge_vector toy_failing = mem_vector"
    "ge_budget toy_failing = (\<lambda>_. toy_budget)"
    "ge_send_message toy_failing = (\<lambda>nid b out. if out = [] then log_message nid b out else (Some 1, out))"
    by (simp_all add: toy_failing_def toy_env_def)
  have "fst (fire_pending toy_failing 10 ?e) = Inl (ESend 1)"
    "eg_pending (snd (fire_pending toy_failing 10 ?e)) = [toy_ask 2 60, toy_ask 2 60, toy_ask 3 0]"
    using hash toy_can_send by (simp_all add: fire_pending_def sel toy_ask_def Let_def log_message_def)
  then show ?thesis using ids by (simp add: split_beta Let_def asks_distinct_def ask_key_def toy_ask_def)
qed

end
