(* ===== verification/Governor.thy ===== *)
theory Governor
  imports Engine Airtime
begin

text \<open>
  The airtime governor of \<open>internal/governor/governor.go\<close>: a token bucket in channel time with
  class reserves, per-area sub-buckets, a regional duty cycle, quiet hours, backoff on the
  radio's telemetry, an estimate of the flood multiplier and inbound quotas. Every operation is
  modelled with the state it leaves, refusals included; only \<open>Explain\<close>, which formats text, is
  left out.

  Instants and durations are integers of nanoseconds. The calendar fields quiet hours read
  (\<open>t.Hour()\<close> and so on, in the instant's own location) come with the instant, as the record
  \<open>instant\<close>. \<open>AllowCharge\<close> reads the clock twice, so it takes two instants. The mutex makes each
  operation atomic.
\<close>

section \<open>Classes and constants\<close>

type_synonym traffic_class = u8

definition ClassControl :: traffic_class where "ClassControl = 0"
definition ClassDM :: traffic_class where "ClassDM = 1"
definition ClassForum :: traffic_class where "ClassForum = 2"
definition ClassFileCatalog :: traffic_class where "ClassFileCatalog = 3"
definition ClassDoorEvent :: traffic_class where "ClassDoorEvent = 4"

lemmas class_consts = ClassControl_def ClassDM_def ClassForum_def ClassFileCatalog_def ClassDoorEvent_def

record charge =
  ch_class :: traffic_class
  ch_area :: "4 barray"

text \<open>A read of the \<open>reserve\<close> map: a class without an entry has reserve zero.\<close>

definition reserve :: "traffic_class \<Rightarrow> rat" where
  "reserve c =
     (if c = ClassDM then fl (10 / 100) else if c = ClassForum then fl (35 / 100)
      else if c = ClassFileCatalog then fl (60 / 100) else if c = ClassDoorEvent then fl (70 / 100) else 0)"

definition DefaultCeilingPercent :: rat where "DefaultCeilingPercent = 5"
definition MaxCeilingPercent :: rat where "MaxCeilingPercent = 15"
definition DefaultFloodMultiplier :: rat where "DefaultFloodMultiplier = 4"
definition DefaultInstanceCount :: int where "DefaultInstanceCount = 50"
definition backoffThreshold :: rat where "backoffThreshold = 25"
definition silenceThreshold :: rat where "silenceThreshold = 40"
definition maxPenalty :: rat where "maxPenalty = 32"

lemmas gov_consts = DefaultCeilingPercent_def MaxCeilingPercent_def DefaultFloodMultiplier_def
  DefaultInstanceCount_def backoffThreshold_def silenceThreshold_def maxPenalty_def

section \<open>Time\<close>

record instant =
  in_ns :: int
  in_hour :: int
  in_minute :: int
  in_second :: int

record window =
  wi_start :: int
  wi_end :: int

definition window_contains :: "window \<Rightarrow> instant \<Rightarrow> bool" where
  "window_contains w t =
     (let since = in_hour t * time_hour + in_minute t * (60 * time_second) + in_second t * time_second
      in if wi_start w \<le> wi_end w then since \<ge> wi_start w \<and> since < wi_end w
         else since \<ge> wi_start w \<or> since < wi_end w)"

section \<open>State\<close>

record gov_config =
  gc_preset :: preset
  gc_region :: string
  gc_ceiling :: rat
  gc_instances :: int
  gc_flood :: rat
  gc_flood_override :: bool
  gc_quiet :: "window list"
  gc_burst :: int
  gc_quota :: int
  gc_shares :: "(4 barray, rat) fmap"

definition duty_cycle_limit :: "string \<Rightarrow> rat option" where
  "duty_cycle_limit region =
     (if region \<in> {''EU_433'', ''EU_868'', ''UA_433'', ''UA_868''} then Some (fl (10 / 100)) else None)"

record area_bucket =
  ab_share :: rat
  ab_tokens :: int
  ab_capacity :: int
  ab_last :: int

record tx_record =
  tx_at :: int
  tx_air :: int

record inbound_rec =
  ir_window_start :: int
  ir_bytes :: int
  ir_alerted :: bool

record gov_stats =
  gs_allowed :: nat
  gs_refused_budget :: nat
  gs_refused_quiet :: nat
  gs_refused_duty :: nat
  gs_refused_busy :: nat
  gs_refused_area :: nat
  gs_inbound_alerts :: nat
  gs_charged :: int

record governor =
  gv_cfg :: gov_config
  gv_tokens :: int
  gv_capacity :: int
  gv_last :: int
  gv_penalty :: rat
  gv_chan_util :: rat
  gv_air_util :: rat
  gv_have_telemetry :: bool
  gv_local_tx :: "tx_record list"
  gv_inbound :: "(node_id, inbound_rec) fmap"
  gv_sent :: nat
  gv_echoes :: nat
  gv_r :: rat
  gv_area_shares :: "(4 barray, rat) fmap"
  gv_area_buckets :: "(4 barray, area_bucket) fmap"
  gv_stats :: gov_stats

datatype refusal = ErrQuiet | ErrBusy | ErrDuty | ErrBudget

section \<open>Construction\<close>

text \<open>The cost of a packet at multiplier \<open>r\<close>: \<open>costLocked\<close>, and the same expression elsewhere.\<close>

definition packet_cost :: "preset \<Rightarrow> rat \<Rightarrow> int \<Rightarrow> int" where
  "packet_cost p r n = trunc (fl (fl (of_int (airtime_packet p n)) * r))"

definition cost_locked :: "governor \<Rightarrow> int \<Rightarrow> int" where
  "cost_locked g n = packet_cost (gc_preset (gv_cfg g)) (gv_r g) n"

definition share_fraction :: "governor \<Rightarrow> rat" where
  "share_fraction g = fl (fl (gc_ceiling (gv_cfg g) / 100) / fl (of_int (gc_instances (gv_cfg g))))"

definition gov_burst :: "governor \<Rightarrow> int" where
  "gov_burst g =
     (if gc_burst (gv_cfg g) > 0 then gc_burst (gv_cfg g)
      else let hourly = trunc (fl (share_fraction g * fl (of_int time_hour))); floor = 3 * cost_locked g 233
        in if hourly < floor then floor else hourly)"

definition positive_shares :: "(4 barray, rat) fmap \<Rightarrow> (4 barray, rat) fmap" where
  "positive_shares m = fmfilter (\<lambda>a. case fmlookup m a of Some s \<Rightarrow> s > 0 | None \<Rightarrow> False) m"

definition gov_defaults :: "gov_config \<Rightarrow> gov_config" where
  "gov_defaults cfg =
     (let c0 = (if gc_ceiling cfg \<le> 0 then cfg\<lparr>gc_ceiling := DefaultCeilingPercent\<rparr> else cfg);
          c1 = (if gc_ceiling c0 > MaxCeilingPercent then c0\<lparr>gc_ceiling := MaxCeilingPercent\<rparr> else c0);
          c2 = (if gc_instances c1 < 1 then c1\<lparr>gc_instances := DefaultInstanceCount\<rparr> else c1);
          c3 = (if gc_flood c2 < 1 then c2\<lparr>gc_flood := DefaultFloodMultiplier\<rparr> else c2)
      in if gc_quota c3 \<le> 0 then c3\<lparr>gc_quota := 32 * 1024\<rparr> else c3)"

definition gov_new :: "gov_config \<Rightarrow> int \<Rightarrow> governor option" where
  "gov_new cfg0 now =
     (let cfg = gov_defaults cfg0
      in if pr_spread (gc_preset cfg) = 0 then None
         else
           let g = \<lparr>gv_cfg = cfg, gv_tokens = 0, gv_capacity = 0, gv_last = now, gv_penalty = 1,
                    gv_chan_util = 0, gv_air_util = 0, gv_have_telemetry = False, gv_local_tx = [],
                    gv_inbound = fmempty, gv_sent = 0, gv_echoes = 0, gv_r = gc_flood cfg,
                    gv_area_shares = positive_shares (gc_shares cfg), gv_area_buckets = fmempty,
                    gv_stats = \<lparr>gs_allowed = 0, gs_refused_budget = 0, gs_refused_quiet = 0, gs_refused_duty = 0,
                      gs_refused_busy = 0, gs_refused_area = 0, gs_inbound_alerts = 0, gs_charged = 0\<rparr>\<rparr>
           in Some (g\<lparr>gv_capacity := gov_burst g, gv_tokens := gov_burst g\<rparr>))"

section \<open>Refill and checks\<close>

definition prune_tx :: "int \<Rightarrow> governor \<Rightarrow> governor" where
  "prune_tx now g = g\<lparr>gv_local_tx := filter (\<lambda>r. tx_at r > now - time_hour) (gv_local_tx g)\<rparr>"

definition accrued :: "int \<Rightarrow> rat \<Rightarrow> int" where
  "accrued elapsed rate = trunc (fl (fl (of_int elapsed) * rate))"

definition refill :: "int \<Rightarrow> governor \<Rightarrow> governor" where
  "refill now g =
     (let elapsed = now - gv_last g
      in if elapsed \<le> 0 then g
         else
           let rate = fl (share_fraction g / gv_penalty g); tokens = gv_tokens g + accrued elapsed rate
           in prune_tx now (g\<lparr>gv_last := now, gv_tokens := (if tokens > gv_capacity g then gv_capacity g else tokens)\<rparr>))"

definition duty_allows :: "int \<Rightarrow> int \<Rightarrow> governor \<Rightarrow> bool \<times> governor" where
  "duty_allows now air g =
     (case duty_cycle_limit (gc_region (gv_cfg g)) of
        None \<Rightarrow> (True, g)
      | Some limit \<Rightarrow>
          let g1 = prune_tx now g; used = sum_list (map tx_air (gv_local_tx g1))
          in (used + air \<le> trunc (fl (limit * fl (of_int time_hour))), g1))"

definition gov_check :: "instant \<Rightarrow> int \<Rightarrow> traffic_class \<Rightarrow> governor \<Rightarrow> refusal option \<times> governor" where
  "gov_check t n class g0 =
     (let g = refill (in_ns t) g0
      in if list_ex (\<lambda>w. window_contains w t) (gc_quiet (gv_cfg g)) then (Some ErrQuiet, g)
         else if gv_have_telemetry g \<and> gv_chan_util g \<ge> silenceThreshold \<and> class \<noteq> ClassDM then (Some ErrBusy, g)
         else
           let air = airtime_packet (gc_preset (gv_cfg g)) n; (ok, g1) = duty_allows (in_ns t) air g
           in if \<not> ok then (Some ErrDuty, g1)
              else if gv_tokens g1 < cost_locked g1 n + trunc (fl (reserve class * fl (of_int (gv_capacity g1))))
                then (Some ErrBudget, g1)
              else (None, g1))"

definition gov_would :: "instant \<Rightarrow> int \<Rightarrow> traffic_class \<Rightarrow> governor \<Rightarrow> bool \<times> governor" where
  "gov_would t n class g = (let (err, g1) = gov_check t n class g in (err = None, g1))"

section \<open>Area buckets\<close>

definition area_capacity :: "governor \<Rightarrow> rat \<Rightarrow> int" where
  "area_capacity g share =
     (let capacity = trunc (fl (share * fl (of_int (gv_capacity g)))); floor = cost_locked g 233
      in if capacity < floor then floor else capacity)"

definition bucket_refilled :: "governor \<Rightarrow> int \<Rightarrow> area_bucket \<Rightarrow> area_bucket" where
  "bucket_refilled g now b =
     (let elapsed = now - ab_last b
      in if elapsed > 0 then
           let rate = fl (fl (share_fraction g * ab_share b) / gv_penalty g); tokens = ab_tokens b + accrued elapsed rate
           in b\<lparr>ab_last := now, ab_tokens := (if tokens > ab_capacity b then ab_capacity b else tokens)\<rparr>
         else b)"

definition bucket_for :: "4 barray \<Rightarrow> int \<Rightarrow> governor \<Rightarrow> area_bucket option \<times> governor" where
  "bucket_for area now g =
     (case fmlookup (gv_area_shares g) area of
        None \<Rightarrow> (None, g)
      | Some share \<Rightarrow>
          if share \<le> 0 then (None, g)
          else
            let b = (case fmlookup (gv_area_buckets g) area of
                       None \<Rightarrow> \<lparr>ab_share = share, ab_tokens = area_capacity g share,
                                ab_capacity = area_capacity g share, ab_last = now\<rparr>
                     | Some b \<Rightarrow> bucket_refilled g now b)
            in (Some b, g\<lparr>gv_area_buckets := fmupd area b (gv_area_buckets g)\<rparr>))"

definition resize_bucket :: "governor \<Rightarrow> rat \<Rightarrow> area_bucket \<Rightarrow> area_bucket" where
  "resize_bucket g share b =
     (if share \<noteq> ab_share b then
        let capacity = area_capacity g share
        in b\<lparr>ab_share := share, ab_capacity := capacity,
             ab_tokens := (if ab_tokens b > capacity then capacity else ab_tokens b)\<rparr>
      else b)"

definition set_area_shares :: "(4 barray, rat) fmap \<Rightarrow> governor \<Rightarrow> governor" where
  "set_area_shares shares g =
     (let kept = positive_shares shares
      in g\<lparr>gv_area_shares := kept,
           gv_area_buckets := fmmap_keys (\<lambda>a b. case fmlookup kept a of Some s \<Rightarrow> resize_bucket g s b | None \<Rightarrow> b)
             (fmfilter (\<lambda>a. a |\<in>| fmdom kept) (gv_area_buckets g))\<rparr>)"

section \<open>Charging\<close>

definition count_refusal :: "refusal \<Rightarrow> gov_stats \<Rightarrow> gov_stats" where
  "count_refusal e s =
     (case e of
        ErrQuiet \<Rightarrow> s\<lparr>gs_refused_quiet := gs_refused_quiet s + 1\<rparr>
      | ErrBusy \<Rightarrow> s\<lparr>gs_refused_busy := gs_refused_busy s + 1\<rparr>
      | ErrDuty \<Rightarrow> s\<lparr>gs_refused_duty := gs_refused_duty s + 1\<rparr>
      | ErrBudget \<Rightarrow> s\<lparr>gs_refused_budget := gs_refused_budget s + 1\<rparr>)"

definition pay :: "int \<Rightarrow> int \<Rightarrow> int \<Rightarrow> governor \<Rightarrow> governor" where
  "pay now air cost g =
     g\<lparr>gv_tokens := gv_tokens g - cost, gv_local_tx := gv_local_tx g @ [\<lparr>tx_at = now, tx_air = air\<rparr>],
       gv_sent := gv_sent g + 1,
       gv_stats := (gv_stats g)\<lparr>gs_allowed := gs_allowed (gv_stats g) + 1, gs_charged := gs_charged (gv_stats g) + cost\<rparr>\<rparr>"

definition allow_charge :: "instant \<Rightarrow> int \<Rightarrow> int \<Rightarrow> charge \<Rightarrow> bool \<Rightarrow> governor \<Rightarrow> bool \<times> governor" where
  "allow_charge t now n ch withArea g0 =
     (case gov_check t n (ch_class ch) g0 of
        (Some e, g) \<Rightarrow> (False, g\<lparr>gv_stats := count_refusal e (gv_stats g)\<rparr>)
      | (None, g) \<Rightarrow>
          let air = airtime_packet (gc_preset (gv_cfg g)) n; cost = cost_locked g n;
              (bo, g1) = (if withArea then bucket_for (ch_area ch) now g else (None, g))
          in case bo of
               None \<Rightarrow> (True, pay now air cost g1)
             | Some b \<Rightarrow>
                 if ab_tokens b < cost then
                   (False, g1\<lparr>gv_stats := (gv_stats g1)\<lparr>gs_refused_area := gs_refused_area (gv_stats g1) + 1\<rparr>\<rparr>)
                 else (True, pay now air cost
                   (g1\<lparr>gv_area_buckets := fmupd (ch_area ch) (b\<lparr>ab_tokens := ab_tokens b - cost\<rparr>) (gv_area_buckets g1)\<rparr>)))"

definition gov_allow :: "instant \<Rightarrow> int \<Rightarrow> int \<Rightarrow> traffic_class \<Rightarrow> governor \<Rightarrow> bool \<times> governor" where
  "gov_allow t now n class g = allow_charge t now n \<lparr>ch_class = class, ch_area = zero_array\<rparr> False g"

section \<open>Telemetry, estimation and quotas\<close>

definition gov_observe :: "int \<Rightarrow> rat \<Rightarrow> rat \<Rightarrow> governor \<Rightarrow> governor" where
  "gov_observe now util airtx g0 =
     (let g = (refill now g0)\<lparr>gv_chan_util := util, gv_air_util := airtx, gv_have_telemetry := True\<rparr>
      in if util \<ge> backoffThreshold then
           let p = fl (gv_penalty g * 2) in g\<lparr>gv_penalty := (if p > maxPenalty then maxPenalty else p)\<rparr>
         else
           let p = fl (gv_penalty g / 2) in g\<lparr>gv_penalty := (if p < 1 then 1 else p)\<rparr>)"

definition reestimate :: "governor \<Rightarrow> governor" where
  "reestimate g =
     (if gc_flood_override (gv_cfg g) \<or> gv_sent g < 20 then g
      else
        let observed = fl (1 + fl (fl (of_nat (gv_echoes g)) / fl (of_nat (gv_sent g))))
        in if observed > gv_r g then g\<lparr>gv_r := observed\<rparr> else g)"

definition note_echo :: "governor \<Rightarrow> governor" where
  "note_echo g = reestimate (g\<lparr>gv_echoes := gv_echoes g + 1\<rparr>)"

text \<open>The second component is the alert passed to \<open>OnAlert\<close>, if one is raised.\<close>

definition note_inbound :: "int \<Rightarrow> node_id \<Rightarrow> int \<Rightarrow> governor \<Rightarrow> bool \<times> (node_id \<times> int \<times> int) option \<times> governor" where
  "note_inbound now peer bytes g =
     (let fresh = \<lparr>ir_window_start = now, ir_bytes = 0, ir_alerted = False\<rparr>;
          r0 = (case fmlookup (gv_inbound g) peer of
                  None \<Rightarrow> fresh
                | Some r \<Rightarrow> if now - ir_window_start r \<ge> time_hour then fresh else r);
          r1 = r0\<lparr>ir_bytes := ir_bytes r0 + bytes\<rparr>;
          put = (\<lambda>r g. g\<lparr>gv_inbound := fmupd peer r (gv_inbound g)\<rparr>)
      in if ir_bytes r1 \<le> gc_quota (gv_cfg g) then (True, None, put r1 g)
         else if \<not> ir_alerted r1 then
           (False, Some (peer, ir_bytes r1, gc_quota (gv_cfg g)),
            (put (r1\<lparr>ir_alerted := True\<rparr>) g)\<lparr>gv_stats := (gv_stats g)\<lparr>gs_inbound_alerts := gs_inbound_alerts (gv_stats g) + 1\<rparr>\<rparr>)
         else (False, None, put r1 g))"

definition gov_budget :: "int \<Rightarrow> governor \<Rightarrow> budget \<times> governor" where
  "gov_budget now g0 =
     (let g = refill now g0; per = cost_locked g 233;
          busy = gv_have_telemetry g \<and> gv_chan_util g \<ge> silenceThreshold
      in (\<lparr>bu_available = gv_tokens g, bu_per_datagram = per, bu_backpressure = busy \<or> gv_tokens g < per\<rparr>, g))"

definition set_instances :: "int \<Rightarrow> int \<Rightarrow> governor \<Rightarrow> governor" where
  "set_instances now n g0 =
     (if n < 1 then g0
      else
        let g = refill now g0; g1 = g\<lparr>gv_cfg := (gv_cfg g)\<lparr>gc_instances := n\<rparr>\<rparr>; cap = gov_burst g1
        in g1\<lparr>gv_capacity := cap, gv_tokens := (if gv_tokens g1 > cap then cap else gv_tokens g1)\<rparr>)"

definition area_packets_per_day :: "4 barray \<Rightarrow> governor \<Rightarrow> rat" where
  "area_packets_per_day area g =
     (let perDay = fl (86400 * share_fraction g);
          perDay' = (case fmlookup (gv_area_shares g) area of
                       Some share \<Rightarrow> if share > 0 then fl (perDay * share) else perDay | None \<Rightarrow> perDay);
          full = fl (fl (fl (of_int (airtime_packet (gc_preset (gv_cfg g)) 233)) * gv_r g) / fl (of_int time_second))
      in if full \<le> 0 then 0 else fl (perDay' / full))"

section \<open>Operations as steps\<close>

datatype gov_op =
    OpWould instant int traffic_class
  | OpAllow instant int int charge bool
  | OpObserve int rat rat
  | OpEcho
  | OpInbound int node_id int
  | OpBudget int
  | OpSetInstances int int
  | OpSetAreaShares "(4 barray, rat) fmap"

fun gov_step :: "gov_op \<Rightarrow> governor \<Rightarrow> governor" where
  "gov_step (OpWould t n class) g = snd (gov_would t n class g)"
| "gov_step (OpAllow t now n ch withArea) g = snd (allow_charge t now n ch withArea g)"
| "gov_step (OpObserve now util airtx) g = gov_observe now util airtx g"
| "gov_step OpEcho g = note_echo g"
| "gov_step (OpInbound now peer bytes) g = snd (snd (note_inbound now peer bytes g))"
| "gov_step (OpBudget now) g = snd (gov_budget now g)"
| "gov_step (OpSetInstances now n) g = set_instances now n g"
| "gov_step (OpSetAreaShares shares) g = set_area_shares shares g"

definition gov_run :: "gov_op list \<Rightarrow> governor \<Rightarrow> governor" where
  "gov_run ops g = fold gov_step ops g"

section \<open>Invariant\<close>

definition bucket_ok :: "area_bucket \<Rightarrow> bool" where
  "bucket_ok b \<longleftrightarrow> 0 \<le> ab_tokens b \<and> ab_tokens b \<le> ab_capacity b \<and> 0 < ab_share b"

definition gov_ok :: "governor \<Rightarrow> bool" where
  "gov_ok g \<longleftrightarrow> preset_ok (gc_preset (gv_cfg g)) \<and> 0 < gc_ceiling (gv_cfg g) \<and> gc_ceiling (gv_cfg g) \<le> MaxCeilingPercent \<and>
     1 \<le> gc_instances (gv_cfg g) \<and> 1 \<le> gv_r g \<and> 1 \<le> gv_penalty g \<and> gv_penalty g \<le> maxPenalty \<and>
     0 \<le> gv_tokens g \<and> gv_tokens g \<le> gv_capacity g \<and>
     (\<forall>a b. fmlookup (gv_area_buckets g) a = Some b \<longrightarrow> bucket_ok b) \<and>
     (\<forall>a s. fmlookup (gv_area_shares g) a = Some s \<longrightarrow> 0 < s) \<and> (\<forall>r \<in> set (gv_local_tx g). 0 \<le> tx_air r)"

lemma packet_cost_mono:
  assumes "preset_ok p" and "0 \<le> r" and "n \<le> m"
  shows "packet_cost p r n \<le> packet_cost p r m" "0 \<le> packet_cost p r n"
proof -
  have "airtime_packet p n \<le> airtime_packet p m" "0 \<le> airtime_packet p n"
    using airtime_raw_mono [OF assms(1), of "n + HeaderBytes" "m + HeaderBytes"] assms(3) by (simp_all add: airtime_packet_def)
  then show "packet_cost p r n \<le> packet_cost p r m" "0 \<le> packet_cost p r n"
    unfolding packet_cost_def using assms(2)
    by (intro trunc_mono fl_mono mult_right_mono, simp_all)
      (intro trunc_nonneg fl_nonneg mult_nonneg_nonneg, simp_all)
qed

lemma airtime_nonneg: "preset_ok p \<Longrightarrow> 0 \<le> airtime_packet p n"
  using airtime_raw_mono [of p "n + HeaderBytes" "n + HeaderBytes"] by (simp add: airtime_packet_def)

lemma cost_nonneg: "gov_ok g \<Longrightarrow> 0 \<le> cost_locked g n"
  by (simp add: cost_locked_def gov_ok_def packet_cost_mono(2) [OF _ _ order_refl])

lemma share_fraction_nonneg: "gov_ok g \<Longrightarrow> 0 \<le> share_fraction g"
  unfolding share_fraction_def gov_ok_def by (intro fl_nonneg divide_nonneg_nonneg) simp_all

lemma accrued_nonneg: "0 \<le> e \<Longrightarrow> 0 \<le> rate \<Longrightarrow> 0 \<le> accrued e rate"
  unfolding accrued_def by (intro trunc_nonneg fl_nonneg mult_nonneg_nonneg) simp_all

lemma gov_burst_nonneg:
  assumes "preset_ok (gc_preset (gv_cfg g))" and "0 \<le> gv_r g"
  shows "0 \<le> gov_burst g"
  using packet_cost_mono(2) [OF assms order_refl, of 233] by (simp add: gov_burst_def Let_def cost_locked_def)

lemma refill_fields [simp]:
  "gv_cfg (refill now g) = gv_cfg g" "gv_capacity (refill now g) = gv_capacity g" "gv_penalty (refill now g) = gv_penalty g"
  "gv_r (refill now g) = gv_r g" "gv_area_buckets (refill now g) = gv_area_buckets g"
  "gv_area_shares (refill now g) = gv_area_shares g" "gv_stats (refill now g) = gv_stats g"
  "gv_have_telemetry (refill now g) = gv_have_telemetry g" "gv_chan_util (refill now g) = gv_chan_util g"
  by (simp_all add: refill_def prune_tx_def Let_def)

lemma refill_tokens:
  assumes "gov_ok g"
  shows "gv_tokens g \<le> gv_tokens (refill now g)" "gv_tokens (refill now g) \<le> gv_capacity g"
    "gv_last g \<le> gv_last (refill now g)" "set (gv_local_tx (refill now g)) \<subseteq> set (gv_local_tx g)"
proof -
  have "0 \<le> accrued e (fl (share_fraction g / gv_penalty g))" if "0 \<le> e" for e
    using assms share_fraction_nonneg [OF assms] that
    by (intro accrued_nonneg fl_nonneg divide_nonneg_nonneg) (simp_all add: gov_ok_def)
  then show "gv_tokens g \<le> gv_tokens (refill now g)" "gv_tokens (refill now g) \<le> gv_capacity g"
    "gv_last g \<le> gv_last (refill now g)" "set (gv_local_tx (refill now g)) \<subseteq> set (gv_local_tx g)"
    using assms by (auto simp: refill_def prune_tx_def Let_def gov_ok_def)
qed

lemma refill_ok: "gov_ok g \<Longrightarrow> gov_ok (refill now g)"
  using refill_tokens [of g now] by (auto simp: gov_ok_def)

lemma prune_ok: "gov_ok g \<Longrightarrow> gov_ok (prune_tx now g)"
  by (auto simp: gov_ok_def prune_tx_def)

text \<open>What \<open>check\<close> leaves: a refilled governor, possibly pruned once more.\<close>

lemma check_state:
  "snd (gov_check t n kl g) = refill (in_ns t) g \<or> snd (gov_check t n kl g) = prune_tx (in_ns t) (refill (in_ns t) g)"
  by (auto simp: gov_check_def duty_allows_def Let_def split: option.splits)

lemma check_ok: "gov_ok g \<Longrightarrow> gov_ok (snd (gov_check t n kl g))"
  using check_state [of t n kl g] refill_ok prune_ok by metis

lemma check_passed:
  assumes "gov_check t n kl g = (None, g1)"
  shows "cost_locked g1 n + trunc (fl (reserve kl * fl (of_int (gv_capacity g1)))) \<le> gv_tokens g1"
  using assms by (auto simp: gov_check_def duty_allows_def Let_def split: option.splits if_splits)

lemma reserve_bounds: "0 \<le> reserve c" "reserve c < 1"
proof -
  have "0 \<le> fl (10 / 100) \<and> fl (10 / 100) < 1" "0 \<le> fl (35 / 100) \<and> fl (35 / 100) < 1"
    "0 \<le> fl (60 / 100) \<and> fl (60 / 100) < 1" "0 \<le> fl (70 / 100) \<and> fl (70 / 100) < 1"
    by code_simp+
  then show "0 \<le> reserve c" "reserve c < 1" by (simp_all add: reserve_def)
qed

lemma area_capacity_nonneg: "gov_ok g \<Longrightarrow> 0 \<le> area_capacity g share"
  using cost_nonneg [of g 233] by (simp add: area_capacity_def Let_def)

lemma bucket_refilled_ok:
  assumes "gov_ok g" and "bucket_ok b"
  shows "bucket_ok (bucket_refilled g now b)"
proof -
  have "0 \<le> accrued e (fl (fl (share_fraction g * ab_share b) / gv_penalty g))" if "0 \<le> e" for e
    using assms share_fraction_nonneg [OF assms(1)] that
    by (intro accrued_nonneg fl_nonneg divide_nonneg_nonneg mult_nonneg_nonneg) (simp_all add: gov_ok_def bucket_ok_def)
  from this [of "now - ab_last b"] show ?thesis
    using assms(2) by (auto simp: bucket_refilled_def Let_def bucket_ok_def)
qed

lemma bucket_for_ok:
  assumes "gov_ok g" and "bucket_for area now g = (bo, g1)"
  shows "gov_ok g1" "bo = Some b \<Longrightarrow> bucket_ok b" "gv_tokens g1 = gv_tokens g" "gv_cfg g1 = gv_cfg g" "gv_r g1 = gv_r g"
    "gv_last g1 = gv_last g" "gv_stats g1 = gv_stats g" "gv_local_tx g1 = gv_local_tx g"
proof -
  have new: "bucket_ok \<lparr>ab_share = s, ab_tokens = area_capacity g s, ab_capacity = area_capacity g s, ab_last = now\<rparr>"
    if "0 < s" for s using that area_capacity_nonneg [OF assms(1)] by (simp add: bucket_ok_def)
  have old: "bucket_ok (bucket_refilled g now b)" if "fmlookup (gv_area_buckets g) area = Some b" for b
    using that assms(1) bucket_refilled_ok by (simp add: gov_ok_def)
  show "bo = Some b \<Longrightarrow> bucket_ok b"
    using assms(2) new old by (auto simp: bucket_for_def Let_def split: option.splits if_splits)
  show "gov_ok g1"
    using assms new old by (auto simp: bucket_for_def Let_def gov_ok_def split: option.splits if_splits)
qed (use assms(2) in \<open>auto simp: bucket_for_def Let_def split: option.splits if_splits\<close>)

text \<open>
  The outcome of \<open>AllowCharge\<close>: refused with nothing but counters, buckets and the accrual
  changed, or paid from a governor in which the check passed.
\<close>

lemma allow_cases:
  assumes "gov_ok g"
  obtains (refused) g1 where "allow_charge t now n ch withArea g = (False, g1)" and "gov_ok g1"
      and "gv_tokens g1 = gv_tokens (refill (in_ns t) g)" and "gv_last g1 = gv_last (refill (in_ns t) g)"
      and "gs_charged (gv_stats g1) = gs_charged (gv_stats g)" and "gv_cfg g1 = gv_cfg g"
      and "set (gv_local_tx g1) \<subseteq> set (gv_local_tx g)"
      and "gv_local_tx g1 = gv_local_tx (snd (gov_check t n (ch_class ch) g))"
  | (paid) g1 g2 where "gov_check t n (ch_class ch) g = (None, g1)" and "gov_ok g2"
      and "allow_charge t now n ch withArea g = (True, pay now (airtime_packet (gc_preset (gv_cfg g)) n) (cost_locked g1 n) g2)"
      and "gv_tokens g2 = gv_tokens g1" and "gv_tokens g1 = gv_tokens (refill (in_ns t) g)"
      and "gv_last g2 = gv_last (refill (in_ns t) g)" and "gv_stats g2 = gv_stats g" and "gv_cfg g2 = gv_cfg g"
      and "gv_local_tx g2 = gv_local_tx g1" and "cost_locked g1 n \<le> gv_tokens g1"
proof -
  obtain e g1 where chk: "gov_check t n (ch_class ch) g = (e, g1)" by (cases "gov_check t n (ch_class ch) g")
  have st: "g1 = refill (in_ns t) g \<or> g1 = prune_tx (in_ns t) (refill (in_ns t) g)"
    using check_state [of t n "ch_class ch" g] chk by simp
  have ok1: "gov_ok g1" using check_ok [OF assms, of t n "ch_class ch"] chk by simp
  have f: "gv_tokens g1 = gv_tokens (refill (in_ns t) g)" "gv_last g1 = gv_last (refill (in_ns t) g)"
    "gv_stats g1 = gv_stats g" "gv_cfg g1 = gv_cfg g" "set (gv_local_tx g1) \<subseteq> set (gv_local_tx g)"
    using st refill_tokens(4) [OF assms, of "in_ns t"] by (auto simp: prune_tx_def)
  show ?thesis
  proof (cases e)
    case (Some err)
    have "gov_ok (g1\<lparr>gv_stats := s\<rparr>)" for s using ok1 by (simp add: gov_ok_def)
    then show ?thesis
      using refused [of "g1\<lparr>gv_stats := count_refusal err (gv_stats g1)\<rparr>"] Some chk f
      by (simp add: allow_charge_def count_refusal_def split: refusal.splits)
  next
    case None
    have "0 \<le> trunc (fl (reserve (ch_class ch) * fl (of_int (gv_capacity g1))))"
      using ok1 reserve_bounds by (intro trunc_nonneg fl_nonneg mult_nonneg_nonneg) (simp_all add: gov_ok_def)
    then have aff: "cost_locked g1 n \<le> gv_tokens g1" using check_passed chk None by fastforce
    obtain bo g2 where b: "(if withArea then bucket_for (ch_area ch) now g1 else (None, g1)) = (bo, g2)" by fastforce
    have g2: "gov_ok g2" "\<And>b. bo = Some b \<Longrightarrow> bucket_ok b" "gv_tokens g2 = gv_tokens g1" "gv_cfg g2 = gv_cfg g1"
      "gv_last g2 = gv_last g1" "gv_stats g2 = gv_stats g1" "gv_local_tx g2 = gv_local_tx g1"
      using b bucket_for_ok [OF ok1, of "ch_area ch" now bo g2] ok1 by (auto split: if_splits)
    show ?thesis
    proof (cases bo)
      case bn: None
      then show ?thesis using paid [of g1 g2] chk None b g2 f aff by (simp add: allow_charge_def)
    next
      case (Some bk)
      show ?thesis
      proof (cases "ab_tokens bk < cost_locked g1 n")
        case True
        have "gov_ok (g2\<lparr>gv_stats := s\<rparr>)" for s using g2(1) by (simp add: gov_ok_def)
        then show ?thesis
          using refused [of "g2\<lparr>gv_stats := (gv_stats g2)\<lparr>gs_refused_area := gs_refused_area (gv_stats g2) + 1\<rparr>\<rparr>"]
            True Some chk None b g2 f by (simp add: allow_charge_def)
      next
        case False
        let ?g = "g2\<lparr>gv_area_buckets := fmupd (ch_area ch) (bk\<lparr>ab_tokens := ab_tokens bk - cost_locked g1 n\<rparr>) (gv_area_buckets g2)\<rparr>"
        have "bucket_ok (bk\<lparr>ab_tokens := ab_tokens bk - cost_locked g1 n\<rparr>)"
          using g2(2) [OF Some] False cost_nonneg [OF ok1, of n] by (simp add: bucket_ok_def)
        then have "gov_ok ?g" using g2(1) by (simp add: gov_ok_def)
        then show ?thesis using paid [of g1 ?g] False Some chk None b g2 f aff by (simp add: allow_charge_def Let_def)
      qed
    qed
  qed
qed

lemma allow_ok:
  assumes "gov_ok g"
  shows "gov_ok (snd (allow_charge t now n ch withArea g))"
  using assms
proof (cases rule: allow_cases [of g t now n ch withArea])
  case (paid g1 g2)
  have "0 \<le> airtime_packet (gc_preset (gv_cfg g)) n" using assms by (simp add: gov_ok_def airtime_nonneg)
  moreover have "0 \<le> cost_locked g1 n" using check_ok [OF assms, of t n "ch_class ch"] paid(1) cost_nonneg by simp
  ultimately show ?thesis using paid by (auto simp: pay_def gov_ok_def)
qed simp

lemma observe_ok: "gov_ok g \<Longrightarrow> gov_ok (gov_observe now util airtx g)"
proof -
  assume ok: "gov_ok g"
  have "gov_ok (refill now g)" by (rule refill_ok [OF ok])
  moreover have "1 \<le> fl (gv_penalty g * 2)"
  proof -
    have "fl (of_int 1) \<le> fl (gv_penalty g * 2)" using ok by (intro fl_mono) (simp add: gov_ok_def)
    then show ?thesis using fl_of_int [of 1] by simp
  qed
  moreover have "fl (gv_penalty g / 2) \<le> maxPenalty"
  proof -
    have "fl (gv_penalty g / 2) \<le> fl (of_int 32)" using ok by (intro fl_mono) (simp add: gov_ok_def maxPenalty_def)
    then show ?thesis using fl_of_int [of 32] by (simp add: maxPenalty_def)
  qed
  ultimately show ?thesis using ok by (auto simp: gov_observe_def Let_def gov_ok_def maxPenalty_def)
qed

lemma echo_ok: "gov_ok g \<Longrightarrow> gov_ok (note_echo g)"
  by (auto simp: note_echo_def reestimate_def Let_def gov_ok_def)

lemma inbound_fields:
  "gv_tokens (snd (snd (note_inbound now peer bytes g))) = gv_tokens g" "gv_last (snd (snd (note_inbound now peer bytes g))) = gv_last g"
  "gs_charged (gv_stats (snd (snd (note_inbound now peer bytes g)))) = gs_charged (gv_stats g)"
  "gv_cfg (snd (snd (note_inbound now peer bytes g))) = gv_cfg g" "gv_local_tx (snd (snd (note_inbound now peer bytes g))) = gv_local_tx g"
  by (simp_all add: note_inbound_def Let_def)

lemma inbound_ok: "gov_ok g \<Longrightarrow> gov_ok (snd (snd (note_inbound now peer bytes g)))"
  by (simp add: note_inbound_def Let_def gov_ok_def)

lemma set_instances_ok: "gov_ok g \<Longrightarrow> gov_ok (set_instances now n g)"
proof (cases "n < 1")
  case False
  assume ok: "gov_ok g"
  let ?g = "refill now g"
  have "gov_ok ?g" by (rule refill_ok [OF ok])
  moreover have "0 \<le> gov_burst (?g\<lparr>gv_cfg := (gv_cfg ?g)\<lparr>gc_instances := n\<rparr>\<rparr>)"
    using ok by (intro gov_burst_nonneg) (simp_all add: gov_ok_def)
  ultimately show ?thesis using False by (simp add: set_instances_def Let_def gov_ok_def)
qed (simp add: set_instances_def)

lemma positive_shares_lookup:
  "fmlookup (positive_shares m) a = (case fmlookup m a of Some s \<Rightarrow> if s > 0 then Some s else None | None \<Rightarrow> None)"
  by (simp add: positive_shares_def split: option.splits)

lemma set_shares_ok:
  assumes "gov_ok g"
  shows "gov_ok (set_area_shares shares g)"
proof -
  have "bucket_ok (resize_bucket g s b)" if "bucket_ok b" "0 < s" for s b
    using that area_capacity_nonneg [OF assms] by (auto simp: resize_bucket_def Let_def bucket_ok_def)
  moreover have "0 < s" if "fmlookup (positive_shares shares) a = Some s" for a s
    using that by (auto simp: positive_shares_lookup split: option.splits if_splits)
  ultimately show ?thesis
    using assms by (auto simp: set_area_shares_def Let_def gov_ok_def split: option.splits if_splits)
qed

lemma step_ok: "gov_ok g \<Longrightarrow> gov_ok (gov_step op g)"
  by (cases op) (auto simp: gov_would_def gov_budget_def Let_def split_beta check_ok allow_ok observe_ok echo_ok
      inbound_ok refill_ok set_instances_ok set_shares_ok)

lemma run_ok: "gov_ok g \<Longrightarrow> gov_ok (gov_run ops g)"
  unfolding gov_run_def by (induction ops arbitrary: g) (simp_all add: step_ok)

lemma new_ok:
  assumes "gov_new cfg now = Some g" and "preset_ok (gc_preset cfg)"
  shows "gov_ok g"
proof -
  let ?c = "gov_defaults cfg"
  have c: "gc_preset ?c = gc_preset cfg" "0 < gc_ceiling ?c" "gc_ceiling ?c \<le> MaxCeilingPercent" "1 \<le> gc_instances ?c" "1 \<le> gc_flood ?c"
    by (auto simp: gov_defaults_def Let_def gov_consts)
  show ?thesis
    using assms c gov_burst_nonneg
    by (auto simp: gov_new_def Let_def gov_ok_def maxPenalty_def positive_shares_lookup split: option.splits if_splits)
qed

section \<open>The rate of spending\<close>

text \<open>What has been charged and what is left: it only grows by accrual.\<close>

definition potential :: "governor \<Rightarrow> int" where
  "potential g = gs_charged (gv_stats g) + gv_tokens g"

lemma accrued_upper:
  assumes "0 \<le> e" and "0 \<le> f" and "1 \<le> p"
  shows "of_int (accrued e (fl (f / p))) \<le> of_int e * f * ulp_slack ^ 3"
proof -
  let ?u = "ulp_slack"
  have u: "0 \<le> ?u" using ulp_slack_ge1 by simp
  have rate: "0 \<le> fl (f / p)" "fl (f / p) \<le> f * ?u"
  proof -
    show "0 \<le> fl (f / p)" using assms by (intro fl_nonneg) simp
    have "f / p \<le> f" using assms(2,3) by (simp add: divide_le_eq mult_le_cancel_left1)
    then have "f / p * ?u \<le> f * ?u" using u by (rule mult_right_mono)
    then show "fl (f / p) \<le> f * ?u" using fl_upper [of "f / p"] assms by simp
  qed
  have e: "0 \<le> fl (of_int e)" "fl (of_int e) \<le> of_int e * ?u"
    using assms(1) fl_nonneg fl_upper by simp_all
  have "fl (of_int e) * fl (f / p) \<le> (of_int e * ?u) * (f * ?u)"
    using e rate assms(1) u by (intro mult_mono) simp_all
  moreover have "of_int (accrued e (fl (f / p))) \<le> fl (of_int e) * fl (f / p) * ?u"
    unfolding accrued_def using e rate fl_upper [of "fl (of_int e) * fl (f / p)"] trunc_le [of "fl (fl (of_int e) * fl (f / p))"] fl_nonneg
    by (meson mult_nonneg_nonneg order_trans)
  ultimately have "of_int (accrued e (fl (f / p))) \<le> (of_int e * ?u) * (f * ?u) * ?u"
    using u by (meson mult_right_mono order_trans)
  then show ?thesis by (simp add: power3_eq_cube ac_simps)
qed

lemma refill_potential:
  assumes "gov_ok g" and "share_fraction g \<le> F"
  shows "of_int (gv_tokens (refill now g)) \<le> of_int (gv_tokens g) + of_int (gv_last (refill now g) - gv_last g) * F * ulp_slack ^ 3"
proof (cases "now - gv_last g \<le> 0")
  case False
  let ?e = "now - gv_last g" and ?f = "share_fraction g"
  have f: "0 \<le> ?f" by (rule share_fraction_nonneg [OF assms(1)])
  have "gv_tokens (refill now g) \<le> gv_tokens g + accrued ?e (fl (?f / gv_penalty g))"
    using False by (simp add: refill_def Let_def prune_tx_def)
  then have "of_int (gv_tokens (refill now g)) \<le> (of_int (gv_tokens g) + of_int (accrued ?e (fl (?f / gv_penalty g))) :: rat)"
    by (metis of_int_add of_int_le_iff)
  moreover have "of_int (accrued ?e (fl (?f / gv_penalty g))) \<le> of_int ?e * ?f * ulp_slack ^ 3"
    using False f assms(1) by (intro accrued_upper) (simp_all add: gov_ok_def)
  moreover have "of_int ?e * ?f * ulp_slack ^ 3 \<le> of_int ?e * F * ulp_slack ^ 3"
    using False assms(2) ulp_slack_ge1 by (intro mult_right_mono mult_left_mono) simp_all
  moreover have "gv_last (refill now g) = now" using False by (simp add: refill_def Let_def prune_tx_def)
  ultimately show ?thesis by simp
qed (simp add: refill_def Let_def)

text \<open>The fraction of the channel an instance may use when at least \<open>N\<close> instances share the ceiling.\<close>

definition fair_share :: "rat \<Rightarrow> int \<Rightarrow> rat" where
  "fair_share percent N = fl (fl (percent / 100) / fl (of_int N))"

fun instances_at_least :: "int \<Rightarrow> gov_op \<Rightarrow> bool" where
  "instances_at_least N (OpSetInstances now n) \<longleftrightarrow> n < 1 \<or> N \<le> n"
| "instances_at_least N op \<longleftrightarrow> True"

lemma share_le_fair:
  assumes "gov_ok g" and "1 \<le> N" and "N \<le> gc_instances (gv_cfg g)"
  shows "share_fraction g \<le> fair_share (gc_ceiling (gv_cfg g)) N"
proof -
  have "fl (of_int 1) \<le> fl (of_int N :: rat)" using assms(2) by (intro fl_mono) simp
  then have "0 < fl (of_int N :: rat)" using fl_of_int [of 1] by simp
  moreover have "fl (of_int N :: rat) \<le> fl (of_int (gc_instances (gv_cfg g)))" using assms(3) by (intro fl_mono) simp
  moreover have "0 \<le> fl (gc_ceiling (gv_cfg g) / 100)" using assms(1) by (intro fl_nonneg) (simp add: gov_ok_def)
  ultimately have "fl (gc_ceiling (gv_cfg g) / 100) / fl (of_int (gc_instances (gv_cfg g))) \<le>
      fl (gc_ceiling (gv_cfg g) / 100) / fl (of_int N)"
    by (intro divide_left_mono mult_pos_pos) linarith+
  then show ?thesis unfolding share_fraction_def fair_share_def by (rule fl_mono)
qed

lemma step_cfg: "gc_ceiling (gv_cfg (gov_step op g)) = gc_ceiling (gv_cfg g)" if "gov_ok g"
proof (cases op)
  case (OpAllow t now n ch w)
  from that show ?thesis
    by (cases rule: allow_cases [of g t now n ch w]) (simp_all add: OpAllow pay_def)
next
  case (OpWould t n kl)
  then show ?thesis using check_state [of t n kl g] by (auto simp: gov_would_def split_beta Let_def prune_tx_def)
qed (simp_all add: gov_observe_def note_echo_def reestimate_def gov_budget_def set_instances_def set_area_shares_def
    inbound_fields Let_def)

lemma step_instances:
  assumes "gov_ok g" and "instances_at_least N op" and "N \<le> gc_instances (gv_cfg g)"
  shows "N \<le> gc_instances (gv_cfg (gov_step op g))"
proof (cases op)
  case (OpAllow t now n ch w)
  from assms(1) show ?thesis
    by (cases rule: allow_cases [of g t now n ch w]) (use assms(3) in \<open>simp_all add: OpAllow pay_def\<close>)
next
  case (OpWould t n kl)
  then show ?thesis
    using assms(3) check_state [of t n kl g] by (auto simp: gov_would_def split_beta Let_def prune_tx_def)
qed (use assms(2,3) in \<open>auto simp: gov_observe_def note_echo_def reestimate_def gov_budget_def set_instances_def
    set_area_shares_def inbound_fields Let_def\<close>)

lemma step_potential_le:
  assumes "gov_ok g"
  shows "\<exists>now. potential (gov_step op g) \<le> potential (refill now g) \<and> gv_last (gov_step op g) = gv_last (refill now g)"
proof -
  have id: "refill (gv_last g) g = g" by (simp add: refill_def)
  show ?thesis
  proof (cases op)
    case (OpAllow t now n ch w)
    from assms show ?thesis
    proof (cases rule: allow_cases [of g t now n ch w])
      case (refused g1)
      then show ?thesis using OpAllow by (auto simp: potential_def intro!: exI [of _ "in_ns t"])
    next
      case (paid g1 g2)
      then show ?thesis using OpAllow by (auto simp: potential_def pay_def intro!: exI [of _ "in_ns t"])
    qed
  next
    case (OpWould t n kl)
    then show ?thesis
      using check_state [of t n kl g]
      by (auto simp: gov_would_def split_beta Let_def prune_tx_def potential_def intro!: exI [of _ "in_ns t"])
  next
    case (OpInbound now peer bytes)
    then show ?thesis using id by (intro exI [of _ "gv_last g"]) (simp add: potential_def inbound_fields)
  next
    case (OpObserve now util airtx)
    then show ?thesis by (intro exI [of _ now]) (simp add: potential_def gov_observe_def Let_def)
  next
    case OpEcho
    then show ?thesis using id by (intro exI [of _ "gv_last g"]) (simp add: potential_def note_echo_def reestimate_def Let_def)
  next
    case (OpBudget now)
    then show ?thesis by (intro exI [of _ now]) (simp add: potential_def gov_budget_def Let_def)
  next
    case (OpSetInstances now n)
    then show ?thesis using id
      by (cases "n < 1") (auto simp: potential_def set_instances_def Let_def intro: exI [of _ "gv_last g"] exI [of _ now])
  next
    case (OpSetAreaShares shares)
    then show ?thesis using id by (intro exI [of _ "gv_last g"]) (simp add: potential_def set_area_shares_def Let_def)
  qed
qed

lemma run_potential:
  assumes "gov_ok g" and "1 \<le> N" and "N \<le> gc_instances (gv_cfg g)" and "\<forall>op \<in> set ops. instances_at_least N op"
  shows "of_int (potential (gov_run ops g)) \<le> of_int (potential g) +
    of_int (gv_last (gov_run ops g) - gv_last g) * fair_share (gc_ceiling (gv_cfg g)) N * ulp_slack ^ 3"
  using assms(1,3,4)
proof (induction ops arbitrary: g)
  case (Cons op ops)
  let ?F = "fair_share (gc_ceiling (gv_cfg g)) N" and ?g = "gov_step op g"
  obtain now where now: "potential ?g \<le> potential (refill now g)" "gv_last ?g = gv_last (refill now g)"
    using step_potential_le [OF Cons.prems(1)] by blast
  have F: "share_fraction g \<le> ?F" by (rule share_le_fair [OF Cons.prems(1) assms(2) Cons.prems(2)])
  have "of_int (potential ?g) \<le> (of_int (potential (refill now g)) :: rat)" using now(1) by simp
  also have "\<dots> \<le> of_int (potential g) + of_int (gv_last ?g - gv_last g) * ?F * ulp_slack ^ 3"
    using refill_potential [OF Cons.prems(1) F, of now] now(2) by (simp add: potential_def)
  finally have one: "of_int (potential ?g) \<le> of_int (potential g) + of_int (gv_last ?g - gv_last g) * ?F * ulp_slack ^ 3" .
  have "of_int (potential (gov_run ops ?g)) \<le> of_int (potential ?g) +
      of_int (gv_last (gov_run ops ?g) - gv_last ?g) * ?F * ulp_slack ^ 3"
    using Cons.IH [of ?g] step_ok [OF Cons.prems(1)] step_instances [OF Cons.prems(1)] step_cfg [OF Cons.prems(1)] Cons.prems
    by simp
  then show ?case using one by (simp add: gov_run_def algebra_simps)
qed (simp add: gov_run_def)

section \<open>The duty cycle\<close>

definition tx_within :: "int \<Rightarrow> tx_record list \<Rightarrow> int" where
  "tx_within now txs = sum_list (map tx_air (filter (\<lambda>r. tx_at r > now - time_hour) txs))"

lemma tx_within_antimono:
  assumes "\<forall>r \<in> set txs. 0 \<le> tx_air r" and "now \<le> later"
  shows "tx_within later txs \<le> tx_within now txs"
  using assms by (induction txs) (auto simp: tx_within_def)

lemma tx_within_prune:
  assumes "now \<le> later"
  shows "tx_within later (filter (\<lambda>r. tx_at r > now - time_hour) txs) = tx_within later txs"
proof -
  have "filter (\<lambda>r. tx_at r > later - time_hour) (filter (\<lambda>r. tx_at r > now - time_hour) txs) =
      filter (\<lambda>r. tx_at r > later - time_hour) txs"
    using assms by (induction txs) auto
  then show ?thesis by (simp only: tx_within_def)
qed

lemma duty_passed:
  assumes "gov_check t n kl g = (None, g1)" and "duty_cycle_limit (gc_region (gv_cfg g)) = Some limit"
  shows "tx_within (in_ns t) (gv_local_tx g1) + airtime_packet (gc_preset (gv_cfg g)) n \<le> trunc (fl (limit * fl (of_int time_hour)))"
  using assms by (auto simp: gov_check_def duty_allows_def Let_def prune_tx_def tx_within_def split: if_splits)

text \<open>
  The history of a run: the readings of the clock each operation makes, in order, and the
  transmissions it lets through, kept apart from the governor's own list, which forgets.
\<close>

fun clock_reads :: "gov_op \<Rightarrow> int list" where
  "clock_reads (OpWould t n class) = [in_ns t]"
| "clock_reads (OpAllow t now n ch withArea) = [in_ns t, now]"
| "clock_reads (OpObserve now util airtx) = [now]"
| "clock_reads OpEcho = []"
| "clock_reads (OpInbound now peer bytes) = [now]"
| "clock_reads (OpBudget now) = [now]"
| "clock_reads (OpSetInstances now n) = [now]"
| "clock_reads (OpSetAreaShares shares) = []"

fun transmitted :: "gov_op \<Rightarrow> governor \<Rightarrow> tx_record list" where
  "transmitted (OpAllow t now n ch withArea) g =
     (if fst (allow_charge t now n ch withArea g) then [\<lparr>tx_at = now, tx_air = airtime_packet (gc_preset (gv_cfg g)) n\<rparr>] else [])"
| "transmitted _ g = []"

fun transmissions :: "gov_op list \<Rightarrow> governor \<Rightarrow> tx_record list" where
  "transmissions [] g = []"
| "transmissions (op # ops) g = transmitted op g @ transmissions ops (gov_step op g)"

text \<open>Time on air in the hour that ends at \<open>T\<close>.\<close>

definition hour_air :: "int \<Rightarrow> tx_record list \<Rightarrow> int" where
  "hour_air T txs = sum_list (map tx_air (filter (\<lambda>r. T - time_hour < tx_at r \<and> tx_at r \<le> T) txs))"

lemma tx_within_append [simp]: "tx_within L (xs @ ys) = tx_within L xs + tx_within L ys"
  by (simp add: tx_within_def)

lemma hour_air_append: "hour_air T (xs @ ys) = hour_air T xs + hour_air T ys"
  by (simp add: hour_air_def)

lemma hour_air_le_within:
  assumes "\<forall>r \<in> set txs. 0 \<le> tx_air r" and "s \<le> T"
  shows "hour_air T txs \<le> tx_within s txs"
  using assms by (induction txs) (auto simp: hour_air_def tx_within_def)

lemma refill_tx: "now \<le> L \<Longrightarrow> tx_within L (gv_local_tx (refill now g)) = tx_within L (gv_local_tx g)"
  by (simp add: refill_def Let_def prune_tx_def tx_within_prune)

lemma check_tx: "in_ns t \<le> L \<Longrightarrow> tx_within L (gv_local_tx (snd (gov_check t n kl g))) = tx_within L (gv_local_tx g)"
  using check_state [of t n kl g] by (auto simp: prune_tx_def tx_within_prune refill_tx)

lemma step_tx:
  assumes "gov_ok g" and "\<forall>r \<in> set (clock_reads op). r \<le> L"
  shows "tx_within L (gv_local_tx (gov_step op g)) = tx_within L (gv_local_tx g @ transmitted op g)"
proof (cases op)
  case (OpWould t n kl)
  then show ?thesis using assms(2) check_tx [of t L n kl g] by (simp add: gov_would_def split_beta Let_def tx_within_def)
next
  case (OpAllow t now n ch w)
  have t: "in_ns t \<le> L" using assms(2) OpAllow by simp
  from assms(1) show ?thesis
  proof (cases rule: allow_cases [of g t now n ch w])
    case (refused g1)
    then show ?thesis using OpAllow check_tx [OF t, of n "ch_class ch" g] by simp
  next
    case (paid g1 g2)
    then show ?thesis using OpAllow check_tx [OF t, of n "ch_class ch" g] by (simp add: pay_def)
  qed
next
  case (OpInbound now peer bytes)
  have "gv_local_tx (snd (snd (note_inbound now peer bytes g))) = gv_local_tx g" by (simp add: note_inbound_def Let_def)
  then show ?thesis using OpInbound by simp
qed (use assms(2) refill_tx in \<open>simp_all add: gov_observe_def note_echo_def reestimate_def gov_budget_def set_instances_def
    set_area_shares_def Let_def\<close>)

lemma step_region: "gov_ok g \<Longrightarrow> gc_region (gv_cfg (gov_step op g)) = gc_region (gv_cfg g)"
proof (cases op)
  case (OpAllow t now n ch w)
  assume "gov_ok g"
  then show ?thesis by (cases rule: allow_cases [of g t now n ch w]) (simp_all add: OpAllow pay_def)
next
  case (OpWould t n kl)
  then show ?thesis using check_state [of t n kl g] by (auto simp: gov_would_def split_beta Let_def prune_tx_def)
qed (simp_all add: gov_observe_def note_echo_def reestimate_def gov_budget_def set_instances_def set_area_shares_def
    inbound_fields Let_def)

lemma transmitted_air: "gov_ok g \<Longrightarrow> r \<in> set (transmitted op g) \<Longrightarrow> 0 \<le> tx_air r"
  by (cases op) (auto simp: gov_ok_def airtime_nonneg split: if_splits)

text \<open>One step of the history: what is let through fits into every hour that contains it.\<close>

lemma step_hour_air:
  assumes "gov_ok g" and "duty_cycle_limit (gc_region (gv_cfg g)) = Some limit"
    and "\<forall>r \<in> set H. 0 \<le> tx_air r" and "\<forall>L \<ge> now0. tx_within L (gv_local_tx g) = tx_within L H"
    and "\<And>T. hour_air T H \<le> trunc (fl (limit * fl (of_int time_hour)))" and "sorted (now0 # clock_reads op)"
  shows "hour_air T (H @ transmitted op g) \<le> trunc (fl (limit * fl (of_int time_hour)))"
proof (cases "transmitted op g")
  case Nil
  then show ?thesis using assms(5) by simp
next
  case (Cons x xs)
  then obtain t now n ch w where op: "op = OpAllow t now n ch w" by (cases op) (auto split: if_splits)
  then have allowed: "fst (allow_charge t now n ch w g)"
    and x: "transmitted op g = [\<lparr>tx_at = now, tx_air = airtime_packet (gc_preset (gv_cfg g)) n\<rparr>]"
    using Cons by (auto split: if_splits)
  have order: "now0 \<le> in_ns t" "in_ns t \<le> now" using assms(6) op by auto
  obtain g1 where chk: "gov_check t n (ch_class ch) g = (None, g1)"
    using allowed by (auto simp: allow_charge_def split: prod.splits option.splits)
  have fits: "tx_within (in_ns t) H + airtime_packet (gc_preset (gv_cfg g)) n \<le> trunc (fl (limit * fl (of_int time_hour)))"
    using duty_passed [OF chk assms(2)] check_tx [of t "in_ns t" n "ch_class ch" g] chk assms(4) order by simp
  show ?thesis
  proof (cases "now \<le> T")
    case True
    then have "hour_air T H \<le> tx_within (in_ns t) H" using order by (intro hour_air_le_within [OF assms(3)]) simp
    moreover have "hour_air T (transmitted op g) \<le> airtime_packet (gc_preset (gv_cfg g)) n"
      using transmitted_air [OF assms(1), of _ op] by (simp add: x hour_air_def)
    ultimately show ?thesis using fits by (simp add: hour_air_append)
  next
    case False
    then have "hour_air T (transmitted op g) = 0" by (simp add: x hour_air_def)
    then show ?thesis using assms(5) by (simp add: hour_air_append)
  qed
qed

lemma run_hour_air:
  assumes "gov_ok g" and "duty_cycle_limit (gc_region (gv_cfg g)) = Some limit"
    and "\<forall>r \<in> set H. 0 \<le> tx_air r" and "\<forall>L \<ge> now0. tx_within L (gv_local_tx g) = tx_within L H"
    and "\<And>T. hour_air T H \<le> trunc (fl (limit * fl (of_int time_hour)))"
    and "sorted (now0 # concat (map clock_reads ops))"
  shows "hour_air T (H @ transmissions ops g) \<le> trunc (fl (limit * fl (of_int time_hour)))"
  using assms
proof (induction ops arbitrary: g H now0)
  case (Cons op ops)
  define now1 where "now1 = last (now0 # clock_reads op)"
  have s: "sorted (now0 # clock_reads op)" "sorted (now1 # concat (map clock_reads ops))"
    and upper: "now0 \<le> now1" "\<forall>r \<in> set (clock_reads op). r \<le> now1"
    using Cons.prems(6) unfolding now1_def
    by (cases op; auto simp: sorted_append)+
  have "hour_air T ((H @ transmitted op g) @ transmissions ops (gov_step op g)) \<le> trunc (fl (limit * fl (of_int time_hour)))"
  proof (rule Cons.IH [OF _ _ _ _ _ s(2)])
    show "gov_ok (gov_step op g)" "duty_cycle_limit (gc_region (gv_cfg (gov_step op g))) = Some limit"
      using step_ok [OF Cons.prems(1)] step_region [OF Cons.prems(1)] Cons.prems(2) by simp_all
    show "\<forall>r \<in> set (H @ transmitted op g). 0 \<le> tx_air r"
      using Cons.prems(3) transmitted_air [OF Cons.prems(1)] by auto
    show "\<forall>L \<ge> now1. tx_within L (gv_local_tx (gov_step op g)) = tx_within L (H @ transmitted op g)"
    proof (intro allI impI)
      fix L assume "now1 \<le> L"
      then have "\<forall>r \<in> set (clock_reads op). r \<le> L" "now0 \<le> L" using upper by auto
      then show "tx_within L (gv_local_tx (gov_step op g)) = tx_within L (H @ transmitted op g)"
        using step_tx [OF Cons.prems(1)] Cons.prems(4) by simp
    qed
    show "hour_air T (H @ transmitted op g) \<le> trunc (fl (limit * fl (of_int time_hour)))" for T
      by (rule step_hour_air [OF Cons.prems(1-5) s(1)])
  qed
  then show ?case by simp
qed simp

lemma duty_limit_minutes:
  assumes "duty_cycle_limit region = Some limit"
  shows "trunc (fl (limit * fl (of_int time_hour))) = 6 * time_minute"
proof -
  have a: "fl (1 / 10) = 7205759403792794 / 2 ^ 56" by (rule fl_value [where m = 7205759403792794, simplified]) simp_all
  have b: "fl (1583296743997440087890625 / 4398046511104) = 5898240000000000 / 2 ^ 14"
    by (rule fl_value [where m = 5898240000000000, simplified]) simp_all
  have l: "limit = fl (1 / 10)" using assms by (simp add: duty_cycle_limit_def split: if_splits)
  show ?thesis unfolding l by (simp add: time_defs fl_numeral a b trunc_def)
qed

section \<open>Properties\<close>

text \<open>
  C23. The bucket is sound. From construction on, with any preset the airtime table or \<open>Custom\<close>
  admits and any other configuration, every sequence of operations keeps the ceiling at most
  15 percent, the tokens between zero and the capacity, the penalty between 1 and 32, the flood
  multiplier at least 1 and every area's tokens between zero and its capacity.
\<close>

theorem governor_invariant:
  assumes "gov_new cfg now = Some g0" and "preset_ok (gc_preset cfg)" and "g = gov_run ops g0"
  shows "gc_ceiling (gv_cfg g) \<le> 15 \<and> 0 \<le> gv_tokens g \<and> gv_tokens g \<le> gv_capacity g \<and>
    1 \<le> gv_penalty g \<and> gv_penalty g \<le> 32 \<and> 1 \<le> gv_r g \<and>
    (\<forall>a b. fmlookup (gv_area_buckets g) a = Some b \<longrightarrow> 0 \<le> ab_tokens b \<and> ab_tokens b \<le> ab_capacity b)"
  using run_ok [OF new_ok [OF assms(1,2)], of ops] assms(3)
  by (simp add: gov_ok_def bucket_ok_def MaxCeilingPercent_def maxPenalty_def)

definition toy_gov_config :: gov_config where
  "toy_gov_config = \<lparr>gc_preset = LongFast, gc_region = ''EU_868'', gc_ceiling = 60, gc_instances = 0, gc_flood = 0,
     gc_flood_override = False, gc_quiet = [], gc_burst = 0, gc_quota = 0, gc_shares = fmempty\<rparr>"

definition toy_gov :: governor where
  "toy_gov = the (gov_new toy_gov_config 0)"

lemma toy_defaults: "gov_defaults toy_gov_config = toy_gov_config\<lparr>gc_ceiling := 15, gc_instances := 50, gc_flood := 4, gc_quota := 32768\<rparr>"
  by (simp add: gov_defaults_def Let_def toy_gov_config_def gov_consts)

lemma toy_spread: "pr_spread (gc_preset toy_gov_config) \<noteq> 0"
  by (simp add: toy_gov_config_def LongFast_def)

lemma toy_gov_new: "gov_new toy_gov_config 0 = Some toy_gov"
  by (simp add: toy_gov_def gov_new_def Let_def toy_defaults toy_spread)

lemma toy_gov_fields:
  "gv_cfg toy_gov = gov_defaults toy_gov_config" "gv_local_tx toy_gov = []" "gv_r toy_gov = 4"
  by (simp_all add: toy_gov_def gov_new_def Let_def toy_defaults toy_spread)

lemma toy_preset: "preset_ok (gc_preset toy_gov_config)"
  by (simp add: toy_gov_config_def preset_ok_def LongFast_def)

lemma toy_gov_ok: "gov_ok toy_gov"
  by (rule new_ok [OF toy_gov_new toy_preset])

theorem governor_invariant_witness:
  "gv_tokens (gov_run [OpObserve 5 30 0, OpBudget 9] toy_gov) \<le> gv_capacity (gov_run [OpObserve 5 30 0, OpBudget 9] toy_gov)"
  using governor_invariant [OF toy_gov_new toy_preset refl, of "[OpObserve 5 30 0, OpBudget 9]"] by blast

text \<open>
  C22. The share is a rate. Over any sequence of operations in which the roster never counts
  fewer than \<open>N\<close> instances, what the governor has charged to the channel is at most the tokens
  it started with plus the elapsed time times the instance's share of the ceiling, up to the
  rounding of three floating-point operations. Refused packets, area buckets, telemetry and
  roster changes never add budget.
\<close>

theorem charge_rate_bound:
  assumes "gov_ok g" and "1 \<le> N" and "N \<le> gc_instances (gv_cfg g)" and "\<forall>op \<in> set ops. instances_at_least N op"
  shows "of_int (gs_charged (gv_stats (gov_run ops g)) - gs_charged (gv_stats g)) \<le>
    of_int (gv_tokens g) +
    of_int (gv_last (gov_run ops g) - gv_last g) * fair_share (gc_ceiling (gv_cfg g)) N * ulp_slack ^ 3"
proof -
  have "0 \<le> gv_tokens (gov_run ops g)" using run_ok [OF assms(1), of ops] by (simp add: gov_ok_def)
  then have "(of_int (gs_charged (gv_stats (gov_run ops g))) :: rat) \<le> of_int (potential (gov_run ops g))"
    by (simp add: potential_def)
  then show ?thesis using run_potential [OF assms] by (simp add: potential_def)
qed

theorem charge_rate_bound_witness:
  "of_int (gs_charged (gv_stats (gov_run [OpBudget 9] toy_gov)) - gs_charged (gv_stats toy_gov)) \<le>
    of_int (gv_tokens toy_gov) +
    of_int (gv_last (gov_run [OpBudget 9] toy_gov) - gv_last toy_gov) * fair_share (gc_ceiling (gv_cfg toy_gov)) 1 * ulp_slack ^ 3"
  by (rule charge_rate_bound [OF toy_gov_ok]) (use toy_gov_ok in \<open>simp_all add: gov_ok_def\<close>)

text \<open>
  C24. The regional duty cycle is never exceeded. In a region with a limit, over any sequence of
  operations from the governor's construction on, with a clock that never goes back, the time on
  air of everything \<open>AllowCharge\<close> let through in any hour, whenever it ends, is at most six minutes,
  a tenth of it. The history is that of the calls, not the governor's own list of transmissions.
\<close>

theorem duty_cycle_kept:
  assumes "gov_new cfg start = Some g" and "preset_ok (gc_preset cfg)" and "duty_cycle_limit (gc_region cfg) \<noteq> None"
    and "sorted (concat (map clock_reads ops))"
  shows "hour_air T (transmissions ops g) \<le> 6 * time_minute"
proof -
  obtain limit where limit: "duty_cycle_limit (gc_region cfg) = Some limit" using assms(3) by blast
  have g: "gv_local_tx g = []" "gc_region (gv_cfg g) = gc_region cfg"
    using assms(1) by (auto simp: gov_new_def Let_def gov_defaults_def split: if_splits)
  have "sorted (Min (set (0 # concat (map clock_reads ops))) # concat (map clock_reads ops))"
    using assms(4) by simp
  then have "hour_air T ([] @ transmissions ops g) \<le> trunc (fl (limit * fl (of_int time_hour)))"
    by (rule run_hour_air [rotated 5])
      (use new_ok [OF assms(1,2)] g limit duty_limit_minutes [OF limit] in \<open>simp_all add: hour_air_def time_defs\<close>)
  then show ?thesis using duty_limit_minutes [OF limit] by simp
qed

lemma class_cases: "k \<le> ClassDoorEvent \<Longrightarrow> k \<in> {ClassControl, ClassDM, ClassForum, ClassFileCatalog, ClassDoorEvent}"
proof -
  assume "k \<le> ClassDoorEvent"
  then have "unat k \<le> 4" by (simp add: word_le_nat_alt ClassDoorEvent_def)
  then have "unat k \<in> {0, 1, 2, 3, 4}" by auto
  then show ?thesis by (auto simp: class_consts word_unat_eq_iff)
qed

lemma reserve_ladder:
  assumes "k1 \<le> k2" and "k2 \<le> ClassDoorEvent"
  shows "reserve k1 \<le> reserve k2"
proof -
  have steps: "0 \<le> fl (10 / 100)" "fl (10 / 100) \<le> fl (35 / 100)" "fl (35 / 100) \<le> fl (60 / 100)"
    "fl (60 / 100) \<le> fl (70 / 100)" by code_simp+
  have "k1 \<in> {ClassControl, ClassDM, ClassForum, ClassFileCatalog, ClassDoorEvent}"
    "k2 \<in> {ClassControl, ClassDM, ClassForum, ClassFileCatalog, ClassDoorEvent}"
    using class_cases [of k1] class_cases [OF assms(2)] assms by auto
  then show ?thesis using steps assms(1) by (auto simp: reserve_def class_consts word_le_nat_alt)
qed

text \<open>
  Under pressure traffic is dropped from the bottom. When a packet of some class passes all
  checks, a packet of the same size of every class above it passes too; except that on a
  channel above the silence threshold only mail does.
\<close>

theorem priority_ladder:
  assumes "gov_ok g" and "fst (gov_check t n k2 g) = None" and "k1 \<le> k2" and "k2 \<le> ClassDoorEvent"
    and "k1 = ClassDM \<or> \<not> (gv_have_telemetry g \<and> silenceThreshold \<le> gv_chan_util g)"
  shows "fst (gov_check t n k1 g) = None"
proof -
  let ?g = "refill (in_ns t) g"
  let ?d = "duty_allows (in_ns t) (airtime_packet (gc_preset (gv_cfg g)) n) ?g"
  have cap: "0 \<le> fl (of_int (gv_capacity (snd ?d)))"
    using assms(1) by (intro fl_nonneg) (simp add: duty_allows_def Let_def prune_tx_def gov_ok_def split: option.splits)
  have "fl (reserve k1 * fl (of_int (gv_capacity (snd ?d)))) \<le> fl (reserve k2 * fl (of_int (gv_capacity (snd ?d))))"
    by (intro fl_mono [OF mult_right_mono [OF reserve_ladder [OF assms(3,4)] cap]])
  then have "trunc (fl (reserve k1 * fl (of_int (gv_capacity (snd ?d))))) \<le> trunc (fl (reserve k2 * fl (of_int (gv_capacity (snd ?d)))))"
    by (rule trunc_mono)
  then show ?thesis
    using assms(2,5) by (auto simp: gov_check_def Let_def split_beta split: if_splits)
qed

lemma refill_twice: "refill now (refill now g) = refill now g"
  by (simp add: refill_def Let_def prune_tx_def)

text \<open>
  C25. The budget the engine sees is honest. When \<open>Budget\<close> reports that a datagram can be sent,
  then outside quiet hours and within the regional duty cycle \<open>Allow\<close> admits a control packet of
  any size up to a full one at that instant, and charges it.
\<close>

theorem budget_honest:
  assumes "gov_ok g" and "gov_budget (in_ns t) g = (b, g1)" and "can_send b" and "n \<le> 233"
    and "\<not> list_ex (\<lambda>w. window_contains w t) (gc_quiet (gv_cfg g))"
    and "fst (duty_allows (in_ns t) (airtime_packet (gc_preset (gv_cfg g)) n) g1)"
  shows "fst (gov_allow t now n ClassControl g1) = True \<and>
    gs_charged (gv_stats (snd (gov_allow t now n ClassControl g1))) = gs_charged (gv_stats g) + cost_locked g n"
proof -
  have g1: "g1 = refill (in_ns t) g" using assms(2) by (simp add: gov_budget_def Let_def)
  have calm: "\<not> (gv_have_telemetry g \<and> silenceThreshold \<le> gv_chan_util g)"
    and rich: "cost_locked g 233 \<le> gv_tokens g1"
    using assms(2,3) by (auto simp: gov_budget_def Let_def can_send_def cost_locked_def)
  have "cost_locked g n \<le> cost_locked g 233"
    using assms(1,4) by (simp add: cost_locked_def gov_ok_def packet_cost_mono)
  then have aff: "cost_locked g n \<le> gv_tokens g1" using rich by simp
  obtain g2 where d: "duty_allows (in_ns t) (airtime_packet (gc_preset (gv_cfg g)) n) g1 = (True, g2)"
    using assms(6) by (metis (full_types) prod.collapse)
  have g2: "gv_tokens g2 = gv_tokens g1" "cost_locked g2 n = cost_locked g n" "gv_stats g2 = gv_stats g"
    using d g1 by (auto simp: duty_allows_def Let_def prune_tx_def cost_locked_def split: option.splits)
  have "reserve ClassControl = 0" by (simp add: reserve_def class_consts)
  then have "gov_check t n ClassControl g1 = (None, g2)"
    using assms(5) calm d g2 aff g1 by (auto simp: gov_check_def refill_twice Let_def trunc_def)
  then show ?thesis using g2 by (simp add: gov_allow_def allow_charge_def Let_def pay_def)
qed

text \<open>
  A full packet of door events is never sent. The burst is floored at three full packets so
  that a bucket can hold what it must send, but door events must leave seventy percent of the
  bucket untouched: while the capacity is at that floor (as it is at the planned fifty
  instances), a full packet of that class is refused in every state, however long the node has
  been silent.
\<close>

theorem door_event_starved:
  assumes "gov_ok g" and "gv_capacity g \<le> 3 * cost_locked g 233" and "gv_capacity g \<ge> 3 * cost_locked g 233"
    and "15 \<le> cost_locked g 233" and "3 * cost_locked g 233 \<le> 2 ^ 53"
  shows "fst (gov_check t 233 ClassDoorEvent g) \<noteq> None"
proof
  let ?c = "cost_locked g 233"
  assume "fst (gov_check t 233 ClassDoorEvent g) = None"
  then obtain g1 where chk: "gov_check t 233 ClassDoorEvent g = (None, g1)" by (metis prod.collapse)
  have g1: "gv_capacity g1 = gv_capacity g" "cost_locked g1 233 = ?c" "gv_tokens g1 \<le> gv_capacity g1"
    using check_state [of t 233 ClassDoorEvent g] chk check_ok [OF assms(1), of t 233 ClassDoorEvent]
    by (auto simp: prune_tx_def cost_locked_def gov_ok_def)
  have cap: "gv_capacity g = 3 * ?c" using assms(2,3) by simp
  have "fl (of_int (3 * ?c)) = (of_int (3 * ?c) :: rat)" using assms(4,5) by (intro fl_of_int) simp
  then have flc: "fl (of_int (gv_capacity g1)) = 3 * (of_int ?c :: rat)" using g1(1) cap by simp
  have "reserve ClassDoorEvent = fl (70 / 100)" by (simp add: reserve_def class_consts)
  moreover have "69 / 100 \<le> fl (70 / 100)" by code_simp
  ultimately have "69 / 100 * (3 * of_int ?c) \<le> reserve ClassDoorEvent * (3 * of_int ?c)"
    using assms(4) by (intro mult_right_mono) simp_all
  moreover have "(of_int (2 * ?c + 1) :: rat) \<le> 69 / 100 * (3 * of_int ?c)"
  proof -
    have "(15 :: rat) \<le> of_int ?c" using assms(4) by (metis of_int_le_iff of_int_numeral)
    then show ?thesis by simp
  qed
  ultimately have "fl (of_int (2 * ?c + 1)) \<le> fl (reserve ClassDoorEvent * (3 * of_int ?c))"
    by (intro fl_mono) (rule order_trans)
  moreover have "fl (of_int (2 * ?c + 1)) = (of_int (2 * ?c + 1) :: rat)" using assms(4,5) by (intro fl_of_int) simp
  ultimately have "trunc (of_int (2 * ?c + 1)) \<le> trunc (fl (reserve ClassDoorEvent * fl (of_int (gv_capacity g1))))"
    unfolding flc by (intro trunc_mono) simp
  then have "2 * ?c + 1 \<le> trunc (fl (reserve ClassDoorEvent * fl (of_int (gv_capacity g1))))" by (simp only: trunc_of_int)
  then show False using check_passed [OF chk] g1 cap by linarith
qed

lemma toy_cost: "packet_cost LongFast 4 233 = 8626176000"
  by (simp add: packet_cost_def airtime_cost_def longfast_full fl_numeral trunc_def)

lemma toy_hourly: "trunc (fl (fl (fl (15 / 100) / fl (of_int 50)) * fl (of_int time_hour))) < 3 * 8626176000"
proof -
  have a: "fl (3 / 20) = 5404319552844595 / 2 ^ 55" by (rule fl_value [where m = 5404319552844595, simplified]) simp_all
  have b: "fl (1080863910568919 / 360287970189639680) = 6917529027641082 / 2 ^ 61"
    by (rule fl_value [where m = 6917529027641082, simplified]) simp_all
  have c: "fl (1519964874237542431640625 / 140737488355328) = 5662310400000000 / 2 ^ 19"
    by (rule fl_value [where m = 5662310400000000, simplified]) simp_all
  show ?thesis by (simp add: time_defs fl_numeral a b c trunc_def)
qed

lemma toy_capacity: "cost_locked toy_gov 233 = 8626176000" "gv_capacity toy_gov = 3 * 8626176000"
proof -
  have cfg: "gc_preset (gv_cfg toy_gov) = LongFast" "gc_burst (gv_cfg toy_gov) = 0" "gc_ceiling (gv_cfg toy_gov) = 15"
    "gc_instances (gv_cfg toy_gov) = 50"
    by (simp_all add: toy_gov_fields toy_defaults) (simp_all add: toy_gov_config_def)
  show c: "cost_locked toy_gov 233 = 8626176000" using toy_cost by (simp only: cost_locked_def cfg toy_gov_fields(3))
  have "gv_capacity toy_gov = gov_burst toy_gov"
    by (simp add: toy_gov_def gov_new_def Let_def toy_defaults toy_spread gov_burst_def share_fraction_def cost_locked_def)
  also have "\<dots> = 3 * 8626176000"
    using toy_hourly by (simp add: gov_burst_def Let_def cfg c share_fraction_def)
  finally show "gv_capacity toy_gov = 3 * 8626176000" .
qed

theorem door_event_starved_witness:
  "fst (gov_check \<lparr>in_ns = 10 ^ 15, in_hour = 0, in_minute = 0, in_second = 0\<rparr> 233 ClassDoorEvent toy_gov) \<noteq> None"
  by (rule door_event_starved [OF toy_gov_ok]) (simp_all add: toy_capacity)

text \<open>
  An area's cap can be lifted. \<open>SetAreaShares\<close> with the shares an area has leaves its tokens
  alone, as its comment demands, but dropping the area from the configuration and adding it
  back hands it a full bucket, however drained the old one was.
\<close>

theorem area_cap_lifted:
  assumes "fmlookup shares area = Some s" and "0 < s"
  shows "(\<forall>b. fmlookup (gv_area_buckets g) area = Some b \<longrightarrow> ab_share b = s \<longrightarrow>
      fmlookup (gv_area_buckets (set_area_shares shares g)) area = Some b) \<and>
    (\<exists>b. fst (bucket_for area now (set_area_shares shares (set_area_shares fmempty g))) = Some b \<and>
      ab_tokens b = ab_capacity b \<and> ab_capacity b = area_capacity g s)"
proof -
  let ?g = "set_area_shares shares (set_area_shares fmempty g)"
  have s: "fmlookup (positive_shares shares) area = Some s" using assms by (simp add: positive_shares_lookup)
  then have "area |\<in>| fmdom (positive_shares shares)" by (rule fmdomI)
  then have "fmlookup (gv_area_buckets (set_area_shares shares g)) area = Some b"
    if "fmlookup (gv_area_buckets g) area = Some b" "ab_share b = s" for b
    using that s by (simp add: set_area_shares_def Let_def resize_bucket_def)
  moreover have "fmlookup (gv_area_buckets ?g) area = None"
    by (simp add: set_area_shares_def Let_def positive_shares_lookup fmlookup_dom_iff)
  moreover have "fmlookup (gv_area_shares ?g) area = Some s" using s by (simp add: set_area_shares_def Let_def)
  moreover have "area_capacity ?g s = area_capacity g s"
    by (simp add: area_capacity_def set_area_shares_def Let_def cost_locked_def)
  ultimately show ?thesis using assms(2) by (auto simp: bucket_for_def Let_def)
qed

theorem area_cap_lifted_witness:
  "\<exists>b. fst (bucket_for zero_array 7 (set_area_shares (fmupd zero_array (1 / 2) fmempty) (set_area_shares fmempty toy_gov))) = Some b \<and>
     ab_tokens b = ab_capacity b"
  using area_cap_lifted [of "fmupd zero_array (1 / 2) fmempty" zero_array "1 / 2" toy_gov 7] by auto

definition toy_instant :: instant where
  "toy_instant = \<lparr>in_ns = 0, in_hour = 0, in_minute = 0, in_second = 0\<rparr>"

lemma toy_duty: "fst (duty_allows 0 (airtime_packet LongFast 233) toy_gov)"
proof -
  have a: "fl (1 / 10) = 7205759403792794 / 2 ^ 56" by (rule fl_value [where m = 7205759403792794, simplified]) simp_all
  have b: "fl (1583296743997440087890625 / 4398046511104) = 5898240000000000 / 2 ^ 14"
    by (rule fl_value [where m = 5898240000000000, simplified]) simp_all
  have "airtime_packet LongFast 233 \<le> trunc (fl (fl (10 / 100) * fl (of_int time_hour)))"
    by (simp add: longfast_full time_defs fl_numeral a b trunc_def)
  moreover have "gc_region (gv_cfg toy_gov) = ''EU_868''" by (simp add: toy_gov_fields toy_defaults) (simp add: toy_gov_config_def)
  ultimately show ?thesis by (simp add: duty_allows_def duty_cycle_limit_def prune_tx_def toy_gov_fields)
qed

lemma toy_gov_idle:
  "refill 0 toy_gov = toy_gov" "gv_have_telemetry toy_gov = False" "gv_tokens toy_gov = gv_capacity toy_gov"
  "gc_quiet (gv_cfg toy_gov) = []" "gc_preset (gv_cfg toy_gov) = LongFast"
  by (simp_all add: toy_gov_def gov_new_def Let_def toy_defaults toy_spread refill_def) (simp_all add: toy_gov_config_def)

theorem budget_honest_witness:
  "fst (gov_allow toy_instant 1 233 ClassControl toy_gov)"
proof -
  have b: "gov_budget (in_ns toy_instant) toy_gov =
      (\<lparr>bu_available = 3 * 8626176000, bu_per_datagram = 8626176000, bu_backpressure = False\<rparr>, toy_gov)"
    by (simp add: gov_budget_def Let_def toy_instant_def toy_gov_idle toy_capacity)
  show ?thesis
    using budget_honest [OF toy_gov_ok b, of 233 1] toy_duty toy_gov_idle by (simp add: can_send_def toy_instant_def)
qed

theorem priority_ladder_witness: "fst (gov_check toy_instant 233 ClassDM toy_gov) = None"
proof (rule priority_ladder [OF toy_gov_ok])
  have r: "cost_locked toy_gov 233 + trunc (fl (reserve ClassForum * fl (of_int (3 * 8626176000)))) \<le> 3 * 8626176000"
    unfolding toy_capacity by code_simp
  obtain g1 where d: "duty_allows 0 (airtime_packet LongFast 233) toy_gov = (True, g1)"
    using toy_duty by (metis (full_types) prod.collapse)
  then have "gv_tokens g1 = gv_tokens toy_gov" "cost_locked g1 233 = cost_locked toy_gov 233" "gv_capacity g1 = gv_capacity toy_gov"
    by (auto simp: duty_allows_def Let_def prune_tx_def cost_locked_def split: option.splits)
  then show "fst (gov_check toy_instant 233 ClassForum toy_gov) = None"
    using d r by (simp add: gov_check_def Let_def toy_instant_def toy_gov_idle toy_capacity)
qed (simp_all add: class_consts)

theorem duty_cycle_kept_witness:
  "transmissions [OpBudget 0, OpAllow toy_instant 1 233 \<lparr>ch_class = ClassDM, ch_area = zero_array\<rparr> False] toy_gov =
     [\<lparr>tx_at = 1, tx_air = airtime_packet LongFast 233\<rparr>] \<and>
   hour_air 5 (transmissions [OpBudget 0, OpAllow toy_instant 1 233 \<lparr>ch_class = ClassDM, ch_area = zero_array\<rparr> False] toy_gov)
     \<le> 6 * time_minute"
proof -
  let ?ops = "[OpBudget 0, OpAllow toy_instant 1 233 \<lparr>ch_class = ClassDM, ch_area = zero_array\<rparr> False]"
  have "duty_cycle_limit (gc_region toy_gov_config) \<noteq> None" by (simp add: duty_cycle_limit_def toy_gov_config_def)
  moreover have "sorted (concat (map clock_reads ?ops))" by (simp add: toy_instant_def)
  ultimately have "hour_air 5 (transmissions ?ops toy_gov) \<le> 6 * time_minute"
    by (rule duty_cycle_kept [OF toy_gov_new toy_preset])
  moreover have "gov_step (OpBudget 0) toy_gov = toy_gov"
    by (simp add: gov_budget_def Let_def toy_gov_idle(1))
  moreover have "fst (allow_charge toy_instant 1 233 \<lparr>ch_class = ClassDM, ch_area = zero_array\<rparr> False toy_gov)"
    using priority_ladder_witness by (cases "gov_check toy_instant 233 ClassDM toy_gov") (simp add: allow_charge_def)
  ultimately show ?thesis using toy_gov_idle(5) by simp
qed

end
