(* ===== verification/Bundle.thy ===== *)
theory Bundle
  imports Records
begin

text \<open>
  Package \<open>internal/bundle\<close>: the framing of a batch of records and its compressed form. The
  origin table, the timestamp deltas and every rejection of the parser are modelled. Shown: the
  framing is canonical (the parser accepts exactly what \<open>encodeBody\<close> writes), and what \<open>Pack\<close>
  builds \<open>Unpack\<close> reads back.

  zstd is not part of the repository. A dictionary is its identifier with the compression and
  decompression functions, the latter under the memory limit \<open>new_dictionary\<close> sets; what a theorem
  needs of them is its hypothesis, and it is about payloads within that limit only.
\<close>

section \<open>Signed varints\<close>

text \<open>An \<open>int64\<close> is its two's complement word.\<close>

definition zigzag :: "u64 \<Rightarrow> u64" where
  "zigzag x = (let ux = push_bit 1 x in if bit x 63 then NOT ux else ux)"

definition unzigzag :: "u64 \<Rightarrow> u64" where
  "unzigzag ux = (let x = drop_bit 1 ux in if ux AND 1 \<noteq> 0 then NOT x else x)"

definition append_varint :: "u64 \<Rightarrow> bytes" where
  "append_varint x = append_uvarint (zigzag x)"

definition canonical_varint :: "bytes \<Rightarrow> varint_error + u64 \<times> nat" where
  "canonical_varint b =
     (let (ux, n) = uvarint b; val = unzigzag ux
      in if n \<le> 0 then Inl VarintTruncated
         else if int (length (append_varint val)) \<noteq> n then Inl VarintNonCanonical
         else Inr (val, nat n))"

section \<open>The bundle\<close>

definition BundleVersion :: u8 where "BundleVersion = 1"
definition MaxRecords :: nat where "MaxRecords = 256"
definition MaxBundleOrigins :: nat where "MaxBundleOrigins = 64"
definition MaxDecompressed :: nat where "MaxDecompressed = 2 ^ 20"

lemmas bundle_consts = BundleVersion_def MaxRecords_def MaxBundleOrigins_def MaxDecompressed_def

record batch =
  bn_area :: "4 barray"
  bn_base_ts :: u32
  bn_dict_id :: u8
  bn_records :: "rec list"

datatype bundle_error =
    BTruncated
  | BNonCanonical
  | BTooManyRecords nat
  | BTooManyOrigins nat
  | BEmptyBatch
  | BBadIndex nat
  | BRecord record_error
  | BOriginMismatch
  | BTimestamp
  | BTrailing nat
  | BVersion u8
  | BBomb
  | BUnknownDictionary u8
  | BDecompress

fun bundle_varint_error :: "varint_error \<Rightarrow> bundle_error" where
  "bundle_varint_error VarintTruncated = BTruncated"
| "bundle_varint_error VarintNonCanonical = BNonCanonical"

section \<open>Framing\<close>

text \<open>The origin table, in order of first appearance, and a record's index in it.\<close>

definition add_origin :: "node_id list \<Rightarrow> rec \<Rightarrow> node_id list" where
  "add_origin os r = (if r_origin r \<in> set os then os else os @ [r_origin r])"

definition origin_table :: "rec list \<Rightarrow> node_id list" where
  "origin_table recs = foldl add_origin [] recs"

definition origin_index :: "node_id list \<Rightarrow> node_id \<Rightarrow> nat" where
  "origin_index os k = length (takeWhile (\<lambda>x. x \<noteq> k) os)"

definition frame_record :: "node_id list \<Rightarrow> u32 \<Rightarrow> rec \<Rightarrow> bytes" where
  "frame_record os base r =
     [of_nat (origin_index os (r_origin r))] @ append_varint (ucast (r_ts r) - ucast base) @
     append_uvarint (of_nat (length (record_marshal r))) @ record_marshal r"

definition encode_body :: "batch \<Rightarrow> bundle_error + bytes" where
  "encode_body b =
     (let os = origin_table (bn_records b)
      in if length os > MaxBundleOrigins then Inl (BTooManyOrigins (length os))
         else Inr (array_bytes (bn_area b) @ put_u32 (bn_base_ts b) @ [of_nat (length os)] @
           concat (map array_bytes os) @ append_uvarint (of_nat (length (bn_records b))) @
           concat (map (frame_record os (bn_base_ts b)) (bn_records b))))"

fun decode_origins :: "nat \<Rightarrow> node_id list \<Rightarrow> bytes \<Rightarrow> bundle_error + node_id list \<times> bytes" where
  "decode_origins 0 seen b = Inr (seen, b)"
| "decode_origins (Suc n) seen b =
     (let origin = copy_array (take 8 b)
      in if origin \<in> set seen then Inl BNonCanonical
         else decode_origins n (seen @ [origin]) (drop 8 b))"

text \<open>
  One turn of the loop over the records: \<open>nx\<close> (\<open>nextExpected\<close>) is the first table entry not used
  yet. The result has the record, the entries used after it and what is left of the input.
\<close>

definition decode_record ::
  "crypto \<Rightarrow> node_id list \<Rightarrow> u32 \<Rightarrow> nat \<Rightarrow> bytes \<Rightarrow> bundle_error + rec \<times> nat \<times> bytes" where
  "decode_record c os base nx b =
     (if length b < 1 then Inl BTruncated
      else let idx = unat (b ! 0)
        in if idx \<ge> length os then Inl (BBadIndex idx)
           else if idx > nx then Inl BNonCanonical
           else let nx' = (if idx = nx then nx + 1 else nx); b1 = drop 1 b
             in case canonical_varint b1 of
                  Inl e \<Rightarrow> Inl (bundle_varint_error e)
                | Inr (delta, k) \<Rightarrow>
                    (let b2 = drop k b1
                     in case canonical_uvarint b2 of
                          Inl e \<Rightarrow> Inl (bundle_varint_error e)
                        | Inr (recLen, m) \<Rightarrow>
                            (let b3 = drop m b2
                             in if unat recLen > length b3 then Inl BTruncated
                                else case record_unmarshal c (take (unat recLen) b3) of
                                       Inl e \<Rightarrow> Inl (BRecord e)
                                     | Inr r \<Rightarrow>
                                         (if r_origin r \<noteq> os ! idx then Inl BOriginMismatch
                                          else if (ucast (r_ts r) :: u64) \<noteq> ucast base + delta
                                          then Inl BTimestamp
                                          else Inr (r, nx', drop (unat recLen) b3)))))"

fun decode_records ::
  "crypto \<Rightarrow> node_id list \<Rightarrow> u32 \<Rightarrow> nat \<Rightarrow> nat \<Rightarrow> bytes \<Rightarrow> bundle_error + rec list \<times> nat \<times> bytes" where
  "decode_records c os base 0 nx b = Inr ([], nx, b)"
| "decode_records c os base (Suc n) nx b =
     (case decode_record c os base nx b of
        Inl e \<Rightarrow> Inl e
      | Inr (r, nx', b') \<Rightarrow>
          (case decode_records c os base n nx' b' of
             Inl e \<Rightarrow> Inl e
           | Inr (rs, out) \<Rightarrow> Inr (r # rs, out)))"

definition decode_body :: "crypto \<Rightarrow> bytes \<Rightarrow> bundle_error + batch" where
  "decode_body c b =
     (if length b < 4 + 4 + 1 then Inl BTruncated
      else let originCount = unat (b ! 8); b1 = drop 9 b
        in if originCount = 0 \<or> originCount > MaxBundleOrigins then Inl (BTooManyOrigins originCount)
           else if length b1 < originCount * 8 then Inl BTruncated
           else case decode_origins originCount [] b1 of
                  Inl e \<Rightarrow> Inl e
                | Inr (os, b2) \<Rightarrow>
                    (case canonical_uvarint b2 of
                       Inl e \<Rightarrow> Inl (bundle_varint_error e)
                     | Inr (cnt, n) \<Rightarrow>
                         if cnt = 0 then Inl BEmptyBatch
                         else if cnt > of_nat MaxRecords then Inl (BTooManyRecords (unat cnt))
                         else case decode_records c os (get_u32 (drop 4 b)) (unat cnt) 0 (drop n b2) of
                                Inl e \<Rightarrow> Inl e
                              | Inr (recs, nx, rest) \<Rightarrow>
                                  if nx \<noteq> originCount then Inl BNonCanonical
                                  else if rest \<noteq> [] then Inl (BTrailing (length rest))
                                  else Inr \<lparr>bn_area = copy_array (take 4 b), bn_base_ts = get_u32 (drop 4 b),
                                            bn_dict_id = 0, bn_records = recs\<rparr>))"

section \<open>Compression\<close>

record dictionary =
  di_id :: u8
  di_compress :: "bytes \<Rightarrow> bytes"
  di_decode_all :: "bytes \<Rightarrow> bytes option"

text \<open>
  The zstd coder for one dictionary: \<open>EncodeAll\<close>, and \<open>DecodeAll\<close> of a decoder built with
  \<open>WithDecoderMaxMemory\<close> of the first argument, which gives an error above that size.
\<close>

record zstd =
  zs_encode_all :: "bytes \<Rightarrow> bytes"
  zs_decode_all :: "nat \<Rightarrow> bytes \<Rightarrow> bytes option"

definition new_dictionary :: "u8 \<Rightarrow> zstd \<Rightarrow> dictionary" where
  "new_dictionary k z = \<lparr>di_id = k, di_compress = zs_encode_all z, di_decode_all = zs_decode_all z MaxDecompressed\<rparr>"

type_synonym dictionary_set = "(u8, dictionary) fmap"

definition dict_decompress :: "dictionary \<Rightarrow> bytes \<Rightarrow> nat \<Rightarrow> bundle_error + bytes" where
  "dict_decompress d data declared =
     (if declared > MaxDecompressed then Inl BBomb
      else case di_decode_all d data of
             None \<Rightarrow> Inl BDecompress
           | Some out \<Rightarrow> if length out \<noteq> declared then Inl BBomb else Inr out)"

definition new_dictionary_set :: "dictionary \<Rightarrow> dictionary list \<Rightarrow> dictionary_set" where
  "new_dictionary_set plain dicts = fold (\<lambda>d s. fmupd (di_id d) d s) dicts (fmupd 0 plain fmempty)"

definition dict_get :: "dictionary_set \<Rightarrow> u8 \<Rightarrow> bundle_error + dictionary" where
  "dict_get s k = (case fmlookup s k of None \<Rightarrow> Inl (BUnknownDictionary k) | Some d \<Rightarrow> Inr d)"

definition dict_highest :: "dictionary_set \<Rightarrow> u8" where
  "dict_highest s = fold (\<lambda>(k, _) mx. if k > mx then k else mx) (fmap_items s) 0"

definition dict_ids :: "dictionary_set \<Rightarrow> u8 list" where
  "dict_ids s = sort (map fst (fmap_items s))"

definition bundle_pack :: "batch \<Rightarrow> dictionary \<Rightarrow> bundle_error + bytes" where
  "bundle_pack b d =
     (if length (bn_records b) = 0 then Inl BEmptyBatch
      else if length (bn_records b) > MaxRecords then Inl (BTooManyRecords (length (bn_records b)))
      else res_bind (encode_body b) (\<lambda>payload.
        Inr ([BundleVersion, di_id d] @ append_uvarint (of_nat (length payload)) @ di_compress d payload)))"

definition bundle_unpack :: "crypto \<Rightarrow> bytes \<Rightarrow> dictionary_set \<Rightarrow> bundle_error + batch" where
  "bundle_unpack c data dicts =
     (if length data < 3 then Inl BTruncated
      else if data ! 0 \<noteq> BundleVersion then Inl (BVersion (data ! 0))
      else let (declared, n) = uvarint (drop 2 data)
        in if n \<le> 0 then Inl BTruncated
           else if unat declared > MaxDecompressed then Inl BBomb
           else res_bind (dict_get dicts (data ! 1)) (\<lambda>d.
             res_bind (dict_decompress d (drop (nat n) (drop 2 data)) (unat declared)) (\<lambda>payload.
             decode_body c payload)))"

section \<open>Signed varints are canonical\<close>

lemma bit_double_u64: "bit (x * 2 :: u64) n \<longleftrightarrow> n < 64 \<and> 0 < n \<and> bit x (n - 1)"
  using bit_push_bit_iff [of 1 x n] by (auto simp: Suc_le_eq dest: bit_imp_le_length)

lemma bit_zigzag: "bit (zigzag x) n \<longleftrightarrow> n < 64 \<and> ((0 < n \<and> bit x (n - 1)) \<noteq> bit x 63)"
  unfolding zigzag_def Let_def by (auto simp: bit_not_iff bit_double_u64)

lemma bit_unzigzag: "bit (unzigzag u) n \<longleftrightarrow> n < 64 \<and> (bit u (Suc n) \<noteq> bit u 0)"
  unfolding unzigzag_def Let_def
  by (auto simp: bit_not_iff bit_drop_bit_eq and_one_eq odd_iff_mod_2_eq_one bit_0 dest: bit_imp_le_length)

lemma unzigzag_zigzag [simp]: "unzigzag (zigzag x) = x"
proof (rule bit_word_eqI)
  fix n
  show "n < LENGTH(64) \<Longrightarrow> bit (unzigzag (zigzag x)) n = bit x n"
    by (cases "n = 63") (auto simp: bit_unzigzag bit_zigzag)
qed

lemma zigzag_unzigzag [simp]: "zigzag (unzigzag u) = u"
proof (rule bit_word_eqI)
  fix n
  have "\<not> bit u 64" using bit_imp_le_length [of u 64] by auto
  then show "n < LENGTH(64) \<Longrightarrow> bit (zigzag (unzigzag u)) n = bit u n"
    by (cases n) (auto simp: bit_unzigzag bit_zigzag)
qed
lemma canonical_varint_uvarint:
  "canonical_varint b = (case canonical_uvarint b of Inl e \<Rightarrow> Inl e | Inr (ux, n) \<Rightarrow> Inr (unzigzag ux, n))"
  by (simp add: canonical_varint_def canonical_uvarint_def append_varint_def Let_def split_beta)

lemma canonical_varint_append [simp]:
  "canonical_varint (append_varint x @ rest) = Inr (x, length (append_varint x))"
  by (simp add: canonical_varint_uvarint append_varint_def)

lemma canonical_varint_split:
  "canonical_varint b = Inr (x, n) \<Longrightarrow> b = append_varint x @ drop n b"
  using canonical_uvarint_split [of b] by (auto simp: canonical_varint_uvarint append_varint_def split: sum.splits)


section \<open>The record framing\<close>

lemma origin_index_less: "k \<in> set os \<Longrightarrow> origin_index os k < length os"
  unfolding origin_index_def by (induction os) auto

lemma nth_origin_index [simp]: "k \<in> set os \<Longrightarrow> os ! origin_index os k = k"
  unfolding origin_index_def by (induction os) auto

lemma origin_index_nth: "distinct os \<Longrightarrow> i < length os \<Longrightarrow> origin_index os (os ! i) = i"
  using origin_index_less nth_origin_index nth_eq_iff_index_eq nth_mem by metis

lemma add_origins_extend: "\<exists>zs. foldl add_origin os rs = os @ zs"
proof (induction rs arbitrary: os)
  case (Cons r rs)
  have "\<exists>ys. add_origin os r = os @ ys" by (simp add: add_origin_def)
  then obtain ys where "add_origin os r = os @ ys" by blast
  then show ?case using Cons [of "os @ ys"] by auto
qed simp

lemma add_origins_distinct: "distinct os \<Longrightarrow> distinct (foldl add_origin os rs)"
  by (induction rs arbitrary: os) (auto simp: add_origin_def)

lemma add_origins_set: "set (foldl add_origin os rs) = set os \<union> r_origin ` set rs"
  by (induction rs arbitrary: os) (auto simp: add_origin_def)

lemma origin_table_distinct [simp]: "distinct (origin_table rs)"
  by (simp add: origin_table_def add_origins_distinct)

lemma origin_table_empty: "origin_table rs = [] \<longleftrightarrow> rs = []"
  using add_origins_set [of "[]" rs] by (auto simp: origin_table_def)

text \<open>The first-appearance rule: the index just past the used prefix is the one a new origin takes.\<close>

lemma add_origin_take:
  assumes "distinct os" "i < length os" "i \<le> nx"
  shows "add_origin (take nx os) (r\<lparr>r_origin := os ! i\<rparr>) = take (if i = nx then Suc nx else nx) os"
proof (cases "i = nx")
  case True
  then have "os ! i \<notin> set (take nx os)"
    using assms by (auto simp: in_set_conv_nth nth_eq_iff_index_eq)
  then show ?thesis using True assms by (simp add: add_origin_def take_Suc_conv_app_nth)
next
  case False
  then have "os ! i \<in> set (take nx os)" using assms by (auto simp: in_set_conv_nth)
  then show ?thesis using False by (simp add: add_origin_def)
qed

lemma add_origin_index:
  assumes "distinct os" "nx \<le> length os" "foldl add_origin (add_origin (take nx os) r) rs = os"
  shows "r_origin r \<in> set os" "origin_index os (r_origin r) \<le> nx"
proof -
  obtain zs where zs: "os = add_origin (take nx os) r @ zs"
    using add_origins_extend [of "add_origin (take nx os) r" rs] assms(3) by metis
  have "r_origin r \<in> set (add_origin (take nx os) r)" by (simp add: add_origin_def)
  then show mem: "r_origin r \<in> set os" using zs by (metis UnCI set_append)
  show "origin_index os (r_origin r) \<le> nx"
  proof (rule ccontr)
    assume far: "\<not> ?thesis"
    then have "nx < length os" using origin_index_less [OF mem] by simp
    have "r_origin r \<notin> set (take nx os)"
    proof
      assume "r_origin r \<in> set (take nx os)"
      then obtain i where "i < nx" "os ! i = r_origin r" "i < length os" by (auto simp: in_set_conv_nth)
      then show False using far origin_index_nth [OF assms(1), of i] by auto
    qed
    then have "os = take nx os @ r_origin r # zs" using zs by (simp add: add_origin_def)
    then have "os ! nx = r_origin r" using assms(2)
      by (metis length_take min.absorb2 nth_append_length)
    then show False using far origin_index_nth [OF assms(1) \<open>nx < length os\<close>] by simp
  qed
qed

lemma ts_delta: "(ucast (t :: u32) :: u64) = ucast base + d \<longleftrightarrow> d = ucast t - ucast base"
  by (auto simp: algebra_simps)

lemma canonical_layout_bound: "canonical_bytes r = Inr b \<Longrightarrow> length b \<le> 8400"
  using append_uvarint_max [of "r_seq r"] append_uvarint_max [of "of_nat (length (r_body r))"]
  by (auto simp: canonical_bytes_ok canonical_layout_def has_parent_def)

lemma record_marshal_bound: "record_wf c r \<Longrightarrow> length (record_marshal r) \<le> 8464"
  using canonical_layout_bound [of r "r_signed r"] by (simp add: record_wf_def record_marshal_def)

lemma decode_record_framed:
  assumes "record_wf c r" "r_origin r \<in> set os" "length os \<le> 64" "origin_index os (r_origin r) \<le> nx"
  shows "decode_record c os base nx (frame_record os base r @ rest) =
    Inr (r, if origin_index os (r_origin r) = nx then Suc nx else nx, rest)"
proof -
  have i: "origin_index os (r_origin r) < length os" using assms(2) by (rule origin_index_less)
  then have u: "unat (of_nat (origin_index os (r_origin r)) :: u8) = origin_index os (r_origin r)"
    using assms(3) by (intro unat_of_nat_byte) simp
  have l: "unat (of_nat (length (record_marshal r)) :: u64) = length (record_marshal r)"
    using record_marshal_bound [OF assms(1)] by (simp add: unat_of_nat)
  show ?thesis
    using i assms
    by (simp add: decode_record_def frame_record_def u l rcc.dec_enc ts_delta Let_def)
qed

lemma decode_record_sound:
  assumes "decode_record c os base nx b = Inr (r, nx', rest)" "distinct os" "length os \<le> 64"
  obtains "record_wf c r" "r_origin r \<in> set os" "origin_index os (r_origin r) \<le> nx"
    "nx' = (if origin_index os (r_origin r) = nx then Suc nx else nx)"
    "b = frame_record os base r @ rest"
proof -
  obtain i b1 delta k recLen m where b: "b = i # b1"
    and i: "unat i < length os" "unat i \<le> nx" "nx' = (if unat i = nx then Suc nx else nx)"
    and d: "canonical_varint b1 = Inr (delta, k)" and l: "canonical_uvarint (drop k b1) = Inr (recLen, m)"
    and len: "unat recLen \<le> length (drop m (drop k b1))"
    and r: "record_unmarshal c (take (unat recLen) (drop m (drop k b1))) = Inr r"
    and o: "r_origin r = os ! unat i" and t: "(ucast (r_ts r) :: u64) = ucast base + delta"
    and rest: "rest = drop (unat recLen) (drop m (drop k b1))"
  proof (cases b)
    case (Cons i b1)
    with assms(1) obtain delta k where d: "canonical_varint b1 = Inr (delta, k)"
      by (cases "canonical_varint b1") (auto simp: decode_record_def Let_def split: if_splits)
    with assms(1) Cons obtain recLen m where l: "canonical_uvarint (drop k b1) = Inr (recLen, m)"
      by (cases "canonical_uvarint (drop k b1)") (auto simp: decode_record_def Let_def split: if_splits)
    with assms(1) Cons d obtain r' where r: "record_unmarshal c (take (unat recLen) (drop m (drop k b1))) = Inr r'"
      by (cases "record_unmarshal c (take (unat recLen) (drop m (drop k b1)))")
        (auto simp: decode_record_def Let_def simp del: drop_drop split: if_splits)
    show thesis
      using assms(1) Cons d l r
      by (intro that [of i b1 delta k recLen m])
        (simp_all add: decode_record_def Let_def del: drop_drop split: if_splits)
  qed (use assms(1) in \<open>simp add: decode_record_def\<close>)
  have wf: "record_wf c r" and mar: "record_marshal r = take (unat recLen) (drop m (drop k b1))"
    using rcc.enc_dec [OF r] by simp_all
  have idx: "origin_index os (r_origin r) = unat i" using o i(1) assms(2) by (simp add: origin_index_nth)
  have "length (record_marshal r) = unat recLen" using mar len by simp
  then have "recLen = of_nat (length (record_marshal r))" by simp
  moreover have "drop m (drop k b1) = record_marshal r @ rest" using mar rest by (metis append_take_drop_id)
  moreover have "drop k b1 = append_uvarint recLen @ drop m (drop k b1)" using l by (rule canonical_uvarint_split)
  moreover have "b1 = append_varint delta @ drop k b1" using d by (rule canonical_varint_split)
  moreover have "delta = ucast (r_ts r) - ucast base" using t by (simp add: ts_delta)
  ultimately have "b = frame_record os base r @ rest"
    by (simp add: b frame_record_def idx del: drop_drop)
  then show thesis using that wf i idx o by simp
qed


lemma decode_records_framed:
  assumes "distinct os" "length os \<le> 64"
  shows "foldl add_origin (take nx os) rs = os \<Longrightarrow> nx \<le> length os \<Longrightarrow> list_all (record_wf c) rs \<Longrightarrow>
    decode_records c os base (length rs) nx (concat (map (frame_record os base) rs) @ rest) =
      Inr (rs, length os, rest)"
proof (induction rs arbitrary: nx)
  case Nil
  then have "nx = length os" by (metis foldl_Nil length_take min.absorb2)
  then show ?case by simp
next
  case (Cons r rs)
  let ?i = "origin_index os (r_origin r)" and ?nx = "if origin_index os (r_origin r) = nx then Suc nx else nx"
  have mem: "r_origin r \<in> set os" and le: "?i \<le> nx"
    using add_origin_index [of os nx r rs] assms(1) Cons.prems by simp_all
  have less: "?i < length os" using mem by (rule origin_index_less)
  have "add_origin (take nx os) (r\<lparr>r_origin := os ! ?i\<rparr>) = take ?nx os"
    using add_origin_take [OF assms(1) less le] .
  then have step: "add_origin (take nx os) r = take ?nx os" using mem by simp
  have "decode_records c os base (length rs) ?nx (concat (map (frame_record os base) rs) @ rest) =
      Inr (rs, length os, rest)"
    using Cons.prems step less by (intro Cons.IH) auto
  then show ?case
    using decode_record_framed [OF _ mem assms(2) le] Cons.prems(3) by simp
qed

lemma decode_records_sound:
  assumes "distinct os" "length os \<le> 64"
  shows "decode_records c os base n nx b = Inr (rs, nx', rest) \<Longrightarrow> nx \<le> length os \<Longrightarrow>
    length rs = n \<and> list_all (record_wf c) rs \<and> nx' \<le> length os \<and>
    foldl add_origin (take nx os) rs = take nx' os \<and>
    b = concat (map (frame_record os base) rs) @ rest"
proof (induction n arbitrary: nx b rs)
  case (Suc n)
  from Suc.prems(1) obtain r nx1 b1 rs1 where r: "decode_record c os base nx b = Inr (r, nx1, b1)"
    and rs: "rs = r # rs1" and rest: "decode_records c os base n nx1 b1 = Inr (rs1, nx', rest)"
    by (auto split: sum.splits prod.splits)
  from r assms obtain wf: "record_wf c r" and mem: "r_origin r \<in> set os" and le: "origin_index os (r_origin r) \<le> nx"
    and nx1: "nx1 = (if origin_index os (r_origin r) = nx then Suc nx else nx)" and b: "b = frame_record os base r @ b1"
    by (rule decode_record_sound)
  have less: "origin_index os (r_origin r) < length os" using mem by (rule origin_index_less)
  have "add_origin (take nx os) r = take nx1 os"
    using add_origin_take [OF assms(1) less le, of r] mem nx1 by simp
  then show ?case using Suc.IH [OF rest] wf rs b nx1 less Suc.prems(2) by auto
qed auto

lemma decode_origins_written:
  "distinct (seen @ os) \<Longrightarrow>
    decode_origins (length os) seen (concat (map array_bytes os) @ rest) = Inr (seen @ os, rest)"
  by (induction os arbitrary: seen) (simp_all add: Let_def)

lemma decode_origins_sound:
  "decode_origins n seen b = Inr (os, rest) \<Longrightarrow> n * 8 \<le> length b \<Longrightarrow> distinct seen \<Longrightarrow>
    \<exists>new. os = seen @ new \<and> length new = n \<and> distinct os \<and> b = concat (map array_bytes new) @ rest"
proof (induction n arbitrary: seen b)
  case (Suc n)
  let ?o = "copy_array (take 8 b) :: node_id"
  have "decode_origins n (seen @ [?o]) (drop 8 b) = Inr (os, rest)" "?o \<notin> set seen"
    using Suc.prems(1) by (auto simp: Let_def split: if_splits)
  then obtain new where "os = (seen @ [?o]) @ new" "length new = n" "distinct os"
    "drop 8 b = concat (map array_bytes new) @ rest"
    using Suc.IH [of "seen @ [?o]" "drop 8 b"] Suc.prems by force
  moreover have "b = array_bytes ?o @ drop 8 b"
    using Suc.prems(2) array_bytes_take8 [of b] by simp
  ultimately show ?case by (intro exI [of _ "?o # new"] conjI) (simp_all del: array_bytes_copy_array)
qed simp

text \<open>
  What \<open>encodeBody\<close> may be given: the limits of the format, records in their signed form, and no
  dictionary (the body does not carry it).
\<close>

definition batch_wf :: "crypto \<Rightarrow> batch \<Rightarrow> bool" where
  "batch_wf c b \<longleftrightarrow> bn_dict_id b = 0 \<and> bn_records b \<noteq> [] \<and> length (bn_records b) \<le> MaxRecords \<and>
     length (origin_table (bn_records b)) \<le> MaxBundleOrigins \<and> list_all (record_wf c) (bn_records b)"

definition body_bytes :: "batch \<Rightarrow> bytes" where
  "body_bytes b = (case encode_body b of Inl _ \<Rightarrow> [] | Inr p \<Rightarrow> p)"

lemma encode_body_ok:
  "encode_body b = Inr p \<longleftrightarrow> length (origin_table (bn_records b)) \<le> MaxBundleOrigins \<and>
    p = array_bytes (bn_area b) @ put_u32 (bn_base_ts b) @ [of_nat (length (origin_table (bn_records b)))] @
      concat (map array_bytes (origin_table (bn_records b))) @ append_uvarint (of_nat (length (bn_records b))) @
      concat (map (frame_record (origin_table (bn_records b)) (bn_base_ts b)) (bn_records b))"
  by (auto simp: encode_body_def Let_def)

lemma decode_body_encode:
  assumes wf: "batch_wf c b" and enc: "encode_body b = Inr p"
  shows "decode_body c p = Inr b"
proof -
  let ?os = "origin_table (bn_records b)" and ?rs = "bn_records b"
  have n: "0 < length ?os" "length ?os \<le> 64" "?rs \<noteq> []" "length ?rs \<le> 256" "list_all (record_wf c) ?rs"
    using wf by (auto simp: batch_wf_def bundle_consts origin_table_empty)
  have oc: "unat (of_nat (length ?os) :: u8) = length ?os" using n(2) by (intro unat_of_nat_byte) simp
  have rc: "unat (of_nat (length ?rs) :: u64) = length ?rs" using n(4) by (simp add: unat_of_nat)
  have pos: "(of_nat (length ?rs) :: u64) \<noteq> 0" using rc n(3) by (metis length_0_conv unat_0)
  have le: "(of_nat (length ?rs) :: u64) \<le> 0x100" using rc n(4) by (simp add: word_le_nat_alt)
  have os: "length (concat (map array_bytes ?os)) = 8 * length ?os"
    by (simp add: length_concat o_def sum_list_triv)
  have recs: "decode_records c ?os (bn_base_ts b) (length ?rs) 0
      (concat (map (frame_record ?os (bn_base_ts b)) ?rs) @ []) = Inr (?rs, length ?os, [])"
    using n by (intro decode_records_framed) (simp_all add: origin_table_def [symmetric])
  note origins = decode_origins_written [of "[]" ?os, simplified]
  show ?thesis
    using enc n oc rc pos le os recs origins wf
    by (simp add: encode_body_ok decode_body_def bundle_consts nth_append Let_def not_less batch_wf_def)
qed


lemma decode_body_sound:
  assumes "decode_body c p = Inr b"
  shows "batch_wf c b \<and> encode_body b = Inr p"
proof -
  let ?n = "unat (p ! 8)" and ?base = "get_u32 (drop 4 p)"
  have len: "9 \<le> length p" and n: "0 < ?n" "?n \<le> 64" and table: "?n * 8 \<le> length (drop 9 p)"
    using assms by (auto simp: decode_body_def bundle_consts Let_def split: if_splits)
  then obtain os b2 where os: "decode_origins ?n [] (drop 9 p) = Inr (os, b2)"
    using assms by (cases "decode_origins ?n [] (drop 9 p)") (auto simp: decode_body_def Let_def split: if_splits)
  then obtain cnt k where cnt: "canonical_uvarint b2 = Inr (cnt, k)"
    using assms by (cases "canonical_uvarint b2") (auto simp: decode_body_def Let_def split: if_splits)
  then obtain recs where recs: "decode_records c os ?base (unat cnt) 0 (drop k b2) = Inr (recs, ?n, [])"
    and b: "b = \<lparr>bn_area = copy_array (take 4 p), bn_base_ts = ?base, bn_dict_id = 0, bn_records = recs\<rparr>"
    and c: "cnt \<noteq> 0" "cnt \<le> 0x100"
    using assms os
    by (auto simp: decode_body_def Let_def bundle_consts not_less split: if_splits sum.splits prod.splits)
  from decode_origins_sound [OF os table] have o: "length os = ?n" "distinct os"
    "drop 9 p = concat (map array_bytes os) @ b2" by auto
  from decode_records_sound [OF o(2) _ recs] o(1) n have r: "length recs = unat cnt" "list_all (record_wf c) recs"
    "foldl add_origin [] recs = os" "drop k b2 = concat (map (frame_record os ?base) recs)" by auto
  have "b2 = append_uvarint cnt @ drop k b2" using cnt by (rule canonical_uvarint_split)
  then have tail: "drop 9 p = concat (map array_bytes os) @ append_uvarint (of_nat (length recs)) @
      concat (map (frame_record os ?base) recs)" using o(3) r(1,4) by (simp del: drop_append)
  have "take 4 (drop 4 p) = put_u32 ?base" using put_get_u32 [of "take 4 (drop 4 p)"] len
    by (cases "drop 4 p" rule: get_u32.cases) (auto dest: arg_cong [of _ _ length])
  moreover have "p = take 4 p @ take 4 (drop 4 p) @ [p ! 8] @ drop 9 p"
    using len Cons_nth_drop_Suc [of 8 p] append_take_drop_id [of 4 p] append_take_drop_id [of 4 "drop 4 p"] by simp
  moreover have "take 4 p = array_bytes (bn_area b)" using len by (simp add: b array_bytes_take4)
  moreover have "(of_nat (length os) :: u8) = p ! 8" using o(1) by simp
  ultimately have "p = array_bytes (bn_area b) @ put_u32 ?base @ [of_nat (length os)] @
      concat (map array_bytes os) @ append_uvarint (of_nat (length recs)) @
      concat (map (frame_record os ?base) recs)" using tail by metis
  moreover have "length recs \<le> 256" "recs \<noteq> []"
    using r(1) c unat_gt_0 [of cnt] word_le_nat_alt [of cnt "0x100"] by auto
  ultimately show ?thesis
    using n o r by (simp add: encode_body_ok batch_wf_def b origin_table_def bundle_consts)
qed

interpretation bbc: canonical_codec "batch_wf c" body_bytes "decode_body c" for c
proof
  fix b
  assume wf: "batch_wf c b"
  then have "encode_body b = Inr (body_bytes b)"
    by (simp add: body_bytes_def encode_body_def batch_wf_def Let_def)
  then show "decode_body c (body_bytes b) = Inr b" using wf by (rule decode_body_encode [rotated])
next
  fix p b
  assume "decode_body c p = Inr b"
  then show "batch_wf c b \<and> body_bytes b = p" using decode_body_sound by (simp add: body_bytes_def)
qed


section \<open>Properties of the bundle\<close>

text \<open>
  C27. One bundle body has one wire form: \<open>decodeBody\<close> accepts exactly what \<open>encodeBody\<close> writes
  for a batch within the limits of the format, whose records are in their signed form.
\<close>

theorem bundle_body_canonical:
  "decode_body c p = Inr b \<longleftrightarrow> batch_wf c b \<and> encode_body b = Inr p"
  by (metis decode_body_encode decode_body_sound)

lemma frame_record_bound: "record_wf c r \<Longrightarrow> length (frame_record os base r) \<le> 8485"
  using append_uvarint_max [of "zigzag (ucast (r_ts r) - ucast base)"]
    append_uvarint_max [of "of_nat (length (record_marshal r))"] record_marshal_bound [of c r]
  by (simp add: frame_record_def append_varint_def)

lemma encode_body_bound:
  assumes "batch_wf c b" "encode_body b = Inr p"
  shows "length p \<le> 3000000"
proof -
  let ?os = "origin_table (bn_records b)" and ?rs = "bn_records b"
  have "(\<Sum>r\<leftarrow>?rs. length (frame_record ?os (bn_base_ts b) r)) \<le> 8485 * length ?rs"
    using assms(1) by (intro sum_list_bound) (auto simp: batch_wf_def list_all_iff intro: frame_record_bound)
  moreover have "length ?rs \<le> 256" "length ?os \<le> 64" using assms(1) by (simp_all add: batch_wf_def bundle_consts)
  ultimately show ?thesis
    using assms(2) append_uvarint_max [of "of_nat (length ?rs)"]
    by (auto simp: encode_body_ok length_concat o_def sum_list_triv)
qed

text \<open>A coder that gives back what fits the decoder's memory makes a dictionary that does.\<close>

lemma new_dictionary_recovers:
  assumes "\<And>n x. length x \<le> n \<Longrightarrow> zs_decode_all z' n (zs_encode_all z x) = Some x"
  shows "\<forall>x. length x \<le> MaxDecompressed \<longrightarrow> di_decode_all (new_dictionary j z') (di_compress (new_dictionary k z) x) = Some x"
  using assms by (simp add: new_dictionary_def)

lemma bundle_unpack_packed:
  assumes "batch_wf c b" "bundle_pack b d = Inr data"
    and "dict_get dicts (di_id d) = Inr d'"
    and "\<forall>x. length x \<le> MaxDecompressed \<longrightarrow> di_decode_all d' (di_compress d x) = Some x"
  shows "bundle_unpack c data dicts =
    (if length (body_bytes b) \<le> MaxDecompressed then Inr b else Inl BBomb)"
proof -
  let ?p = "body_bytes b"
  have enc: "encode_body b = Inr ?p" and data: "data = [BundleVersion, di_id d] @ append_uvarint (of_nat (length ?p)) @ di_compress d ?p"
    using assms(1,2) by (auto simp: bundle_pack_def body_bytes_def split: if_splits)
  have u: "unat (of_nat (length ?p) :: u64) = length ?p"
    using encode_body_bound [OF assms(1) enc] by (simp add: unat_of_nat)
  show ?thesis
    using assms(3,4) decode_body_encode [OF assms(1) enc]
    by (simp add: bundle_unpack_def data u dict_decompress_def)
qed

text \<open>
  What \<open>Pack\<close> builds, \<open>Unpack\<close> reads back whenever the framing fits the decompression bound,
  and is refused as a bomb by every receiver otherwise, which \<open>Pack\<close> does not check. Hypotheses:
  the receiver holds the dictionary, and its decoder gives back what was compressed, up to its limit.
\<close>

theorem bundle_pack_unpack:
  assumes "batch_wf c b" "bundle_pack b d = Inr data"
    and "dict_get dicts (di_id d) = Inr d'"
    and "\<forall>x. length x \<le> MaxDecompressed \<longrightarrow> di_decode_all d' (di_compress d x) = Some x"
  shows "bundle_unpack c data dicts =
    (if length (body_bytes b) \<le> MaxDecompressed then Inr b else Inl BBomb)"
  using assms by (rule bundle_unpack_packed)

definition toy_batch :: batch where
  "toy_batch = \<lparr>bn_area = r_area toy_post, bn_base_ts = 0, bn_dict_id = 0,
     bn_records = [toy_post\<lparr>r_signed := canonical_layout toy_post,
       r_id := derive_id toy_crypto (canonical_layout toy_post), r_sig := copy_array (replicate 64 5)\<rparr>]\<rparr>"

definition stored_dictionary :: dictionary where
  "stored_dictionary = new_dictionary 0 \<lparr>zs_encode_all = (\<lambda>x. 7 # x),
     zs_decode_all = (\<lambda>n x. case x of [] \<Rightarrow> None | _ # y \<Rightarrow> if length y \<le> n then Some y else None)\<rparr>"

lemma stored_dictionary_sel [simp]:
  "di_id stored_dictionary = 0" "di_compress stored_dictionary x = 7 # x"
  by (simp_all add: stored_dictionary_def new_dictionary_def)

lemma stored_recovers: "\<forall>x. length x \<le> MaxDecompressed \<longrightarrow> di_decode_all stored_dictionary (di_compress stored_dictionary x) = Some x"
  unfolding stored_dictionary_def by (rule new_dictionary_recovers) simp

lemma toy_batch_wf: "batch_wf toy_crypto toy_batch"
  using record_new_wf [OF toy_new]
  by (simp add: batch_wf_def toy_batch_def bundle_consts origin_table_def add_origin_def)

lemma toy_batch_small: "length (body_bytes toy_batch) \<le> MaxDecompressed"
proof -
  have "record_wf toy_crypto (hd (bn_records toy_batch))" using toy_batch_wf by (simp add: batch_wf_def toy_batch_def)
  from frame_record_bound [OF this, of "origin_table (bn_records toy_batch)" 0] show ?thesis
    using append_uvarint_max [of 1]
    by (simp add: body_bytes_def encode_body_def toy_batch_def origin_table_def add_origin_def bundle_consts Let_def)
qed

theorem bundle_pack_unpack_witness:
  "\<exists>data. bundle_pack toy_batch stored_dictionary = Inr data \<and>
     bundle_unpack toy_crypto data (fmupd 0 stored_dictionary fmempty) = Inr toy_batch"
proof -
  obtain data where data: "bundle_pack toy_batch stored_dictionary = Inr data"
    using toy_batch_wf by (auto simp: bundle_pack_def batch_wf_def encode_body_def Let_def bundle_consts)
  moreover have "dict_get (fmupd 0 stored_dictionary fmempty) (di_id stored_dictionary) = Inr stored_dictionary"
    by (simp add: dict_get_def)
  ultimately show ?thesis
    using bundle_pack_unpack [OF toy_batch_wf data _ stored_recovers] data toy_batch_small by auto
qed

end
