(* ===== verification/Bsmp.thy ===== *)
theory Bsmp
  imports Bundle FountainDecoder Governor "HOL-Library.Product_Lexorder"
begin

text \<open>
  Package \<open>internal/bsmp\<close>: the outbox, which turns a batch of records into fountain symbols on a
  link, and the inbox, which turns datagrams back into records for the engine; with
  \<open>RepairCount\<close> of \<open>internal/fountain\<close>, which sizes a transmission.

  The link and the engine are interfaces of the code (\<open>Sender\<close>, \<open>ChargeSender\<close>, \<open>Applier\<close>); here
  they are records of operations on abstract states, and the inbox is used with the modelled
  engine (\<open>engine_applier\<close>). The callbacks \<open>OnEvent\<close> and \<open>OnRefusedDM\<close> only report and are left
  out. Each entry point is one atomic step: the locks are released between steps of \<open>SendRecords\<close>
  only to be taken again for the counters.
\<close>

section \<open>Repair symbols\<close>

text \<open>The two functions of Go's \<open>math\<close> whose results the language does not fix to the last bit.\<close>

record go_math =
  math_log :: "rat \<Rightarrow> rat"
  math_sqrt :: "rat \<Rightarrow> rat"

definition epsilonByK :: "rat list" where
  "epsilonByK = [fl (34 / 10), 0, fl (9 / 10), 2, 5 / 2]"

definition epsilonPlateau :: rat where "epsilonPlateau = fl (34 / 10)"
definition failureTarget :: rat where "failureTarget = fl (2 / 100)"
definition zScore :: rat where "zScore = fl (18 / 10)"

definition epsilon_for :: "nat \<Rightarrow> rat" where
  "epsilon_for k = (if k > 0 \<and> k < length epsilonByK then epsilonByK ! k else epsilonPlateau)"

definition enough_symbols :: "go_math \<Rightarrow> rat \<Rightarrow> rat \<Rightarrow> nat \<Rightarrow> bool" where
  "enough_symbols M loss target n =
     (let mean = fl (of_nat n * fl (1 - loss));
          sd = math_sqrt M (fl (fl (of_nat n * loss) * fl (1 - loss)))
      in fl (mean - fl (zScore * sd)) \<ge> target)"

definition repair_count :: "go_math \<Rightarrow> nat \<Rightarrow> rat \<Rightarrow> nat" where
  "repair_count M k lossRate =
     (if lossRate \<le> 0 then 1
      else let loss = (if lossRate > fl (9 / 10) then fl (9 / 10) else lossRate)
        in if k = 1 then
             (let n = \<lceil>fl (math_log M failureTarget / math_log M loss)\<rceil>;
                  n' = (if n < 2 then 2 else n)
              in nat (n' - 1))
           else
             let target = fl (of_nat k + epsilon_for k); maxN = k * 12 + 16
             in case List.find (enough_symbols M loss target) [k + 1..<Suc maxN] of
                  Some n \<Rightarrow> n - k
                | None \<Rightarrow> maxN - k)"

lemma find_in_set: "List.find P xs = Some x \<Longrightarrow> x \<in> set xs"
  by (induction xs) (auto split: if_splits)

lemma repair_count_bounds:
  "0 < repair_count M k loss" "k \<noteq> 1 \<Longrightarrow> repair_count M k loss \<le> k * 11 + 16"
  by (auto simp: repair_count_def Let_def simp del: upt_Suc split: option.splits dest!: find_in_set)

section \<open>Frames\<close>

definition FrameControl :: u8 where "FrameControl = 1"
definition FrameSymbol :: u8 where "FrameSymbol = 2"
definition frameOverhead :: nat where "frameOverhead = 1 + 4"
definition maxSymbolsPerBundle :: nat where "maxSymbolsPerBundle = 4 * MaxK"
definition maxLossRate :: rat where "maxLossRate = 1 / 2"
definition maxOrigLen :: nat where "maxOrigLen = 2 ^ 20"
definition maxOpenDecoders :: nat where "maxOpenDecoders = 64"
definition decoderTTL :: int where "decoderTTL = 6 * time_hour"

lemmas bsmp_consts = FrameControl_def FrameSymbol_def frameOverhead_def maxSymbolsPerBundle_def maxLossRate_def
  maxOrigLen_def maxOpenDecoders_def decoderTTL_def

definition bundle_id_for :: "(bytes \<Rightarrow> bytes) \<Rightarrow> bytes \<Rightarrow> u32" where
  "bundle_id_for h packed = get_u32 (take 4 (h packed))"

definition symbol_frame :: "(bytes \<Rightarrow> bytes) \<Rightarrow> encoder \<Rightarrow> nat \<Rightarrow> bytes" where
  "symbol_frame h enc i =
     FrameSymbol # put_u32 (of_nat (en_orig_len enc)) @ symbol_encode (encoder_symbol h enc (of_nat i))"

section \<open>The outbox\<close>

datatype link_error = LinkNoBudget | LinkFailed nat

datatype bsmp_error =
    NoLink
  | NoDictionary
  | NoSelf
  | BadLossRate
  | ControlTooLarge nat
  | SmallMTU int
  | PackFailed bundle_error
  | CodecFailed fountain_error
  | SendFailed nat

record 'l sender =
  sn_send :: "node_id \<Rightarrow> bytes \<Rightarrow> 'l \<Rightarrow> link_error option \<times> 'l"
  sn_send_charged :: "(node_id \<Rightarrow> bytes \<Rightarrow> charge \<Rightarrow> 'l \<Rightarrow> link_error option \<times> 'l) option"
  sn_mtu :: "'l \<Rightarrow> int"
  sn_budget :: "'l \<Rightarrow> budget"

record 'l outbox_config =
  oc_self :: node_id
  oc_link :: "'l sender option"
  oc_dictionary :: "dictionary option"
  oc_classify :: "(4 barray \<Rightarrow> traffic_class) option"
  oc_loss_rate :: rat
  oc_allow_dms :: "('l \<Rightarrow> bool) option"

record outbox_stats =
  os_messages_sent :: nat
  os_symbols_sent :: nat
  os_bundles_sent :: nat
  os_refused :: nat
  os_abandoned :: nat
  os_refused_ham :: nat

definition outbox_stats_zero :: outbox_stats where
  "outbox_stats_zero = \<lparr>os_messages_sent = 0, os_symbols_sent = 0, os_bundles_sent = 0, os_refused = 0,
     os_abandoned = 0, os_refused_ham = 0\<rparr>"

record 'l outbox =
  ob_self :: node_id
  ob_link :: "'l sender"
  ob_classify :: "4 barray \<Rightarrow> traffic_class"
  ob_allow_dms :: "('l \<Rightarrow> bool) option"
  ob_cursor :: "(u32, nat) fmap"
  ob_loss :: rat
  ob_dict :: dictionary
  ob_stats :: outbox_stats
  ob_state :: 'l

definition new_outbox :: "'l outbox_config \<Rightarrow> 'l \<Rightarrow> bsmp_error + 'l outbox" where
  "new_outbox cfg l =
     (case oc_link cfg of
        None \<Rightarrow> Inl NoLink
      | Some link \<Rightarrow>
          (case oc_dictionary cfg of
             None \<Rightarrow> Inl NoDictionary
           | Some d \<Rightarrow>
               if oc_self cfg = zero_array then Inl NoSelf
               else if oc_loss_rate cfg < 0 \<or> oc_loss_rate cfg \<ge> 1 then Inl BadLossRate
               else Inr \<lparr>ob_self = oc_self cfg, ob_link = link,
                         ob_classify = (case oc_classify cfg of None \<Rightarrow> (\<lambda>_. ClassForum) | Some f \<Rightarrow> f),
                         ob_allow_dms = oc_allow_dms cfg, ob_cursor = fmempty, ob_loss = oc_loss_rate cfg,
                         ob_dict = d, ob_stats = outbox_stats_zero, ob_state = l\<rparr>))"

definition ob_count :: "(outbox_stats \<Rightarrow> outbox_stats) \<Rightarrow> 'l outbox \<Rightarrow> 'l outbox" where
  "ob_count f ob = ob\<lparr>ob_stats := f (ob_stats ob)\<rparr>"

definition outbox_send :: "node_id \<Rightarrow> bytes \<Rightarrow> charge \<Rightarrow> 'l outbox \<Rightarrow> link_error option \<times> 'l outbox" where
  "outbox_send to frame ch ob =
     (let (err, l) = (case sn_send_charged (ob_link ob) of
                        Some f \<Rightarrow> f to frame ch (ob_state ob)
                      | None \<Rightarrow> sn_send (ob_link ob) to frame (ob_state ob))
      in (err, ob\<lparr>ob_state := l\<rparr>))"

definition send_message :: "node_id \<Rightarrow> bytes \<Rightarrow> 'l outbox \<Rightarrow> bsmp_error option \<times> 'l outbox" where
  "send_message to payload ob =
     (let frame = FrameControl # payload
      in if int (length frame) > sn_mtu (ob_link ob) (ob_state ob) then (Some (ControlTooLarge (length frame)), ob)
         else case outbox_send to frame \<lparr>ch_class = ClassControl, ch_area = zero_array\<rparr> ob of
                (Some LinkNoBudget, ob1) \<Rightarrow> (None, ob_count (\<lambda>s. s\<lparr>os_refused := os_refused s + 1\<rparr>) ob1)
              | (Some (LinkFailed e), ob1) \<Rightarrow> (Some (SendFailed e), ob1)
              | (None, ob1) \<Rightarrow> (None, ob_count (\<lambda>s. s\<lparr>os_messages_sent := os_messages_sent s + 1\<rparr>) ob1))"

text \<open>The loop of \<open>SendRecords\<close> over the symbol indices still to send, and its three exits.\<close>

fun send_symbols ::
  "(bytes \<Rightarrow> bytes) \<Rightarrow> encoder \<Rightarrow> charge \<Rightarrow> u32 \<Rightarrow> nat \<Rightarrow> nat list \<Rightarrow> 'l outbox \<Rightarrow> bsmp_error option \<times> 'l outbox" where
  "send_symbols h enc ch bid tot [] ob =
     (None, ob_count (\<lambda>s. s\<lparr>os_bundles_sent := os_bundles_sent s + 1\<rparr>)
        (ob\<lparr>ob_cursor := fmupd bid tot (ob_cursor ob)\<rparr>))"
| "send_symbols h enc ch bid tot (i # js) ob =
     (case outbox_send Broadcast (symbol_frame h enc i) ch ob of
        (Some LinkNoBudget, ob1) \<Rightarrow>
          (None, ob_count (\<lambda>s. s\<lparr>os_refused := os_refused s + 1\<rparr>) (ob1\<lparr>ob_cursor := fmupd bid i (ob_cursor ob1)\<rparr>))
      | (Some (LinkFailed e), ob1) \<Rightarrow> (Some (SendFailed e), ob1\<lparr>ob_cursor := fmupd bid i (ob_cursor ob1)\<rparr>)
      | (None, ob1) \<Rightarrow>
          send_symbols h enc ch bid tot js (ob_count (\<lambda>s. s\<lparr>os_symbols_sent := os_symbols_sent s + 1\<rparr>) ob1))"

definition symbol_total :: "go_math \<Rightarrow> nat \<Rightarrow> rat \<Rightarrow> nat \<Rightarrow> nat" where
  "symbol_total M k loss start =
     (let tot = k + repair_count M k loss;
          tot' = (if start \<ge> tot then start + repair_count M k loss else tot)
      in if tot' > maxSymbolsPerBundle then maxSymbolsPerBundle else tot')"

text \<open>The amateur-licence gate: private mail while the policy function says no.\<close>

definition dm_blocked :: "4 barray \<Rightarrow> 'l outbox \<Rightarrow> bool" where
  "dm_blocked area ob \<longleftrightarrow> ob_classify ob area = ClassDM \<and>
     (case ob_allow_dms ob of None \<Rightarrow> False | Some f \<Rightarrow> \<not> f (ob_state ob))"

definition send_records ::
  "go_math \<Rightarrow> (bytes \<Rightarrow> bytes) \<Rightarrow> 4 barray \<Rightarrow> rec list \<Rightarrow> 'l outbox \<Rightarrow> bsmp_error option \<times> 'l outbox" where
  "send_records M h area recs ob =
     (case bundle_pack \<lparr>bn_area = area, bn_base_ts = 0, bn_dict_id = di_id (ob_dict ob), bn_records = recs\<rparr> (ob_dict ob) of
        Inl e \<Rightarrow> (Some (PackFailed e), ob)
      | Inr packed \<Rightarrow>
          (let bid = bundle_id_for h packed;
               mtu = sn_mtu (ob_link ob) (ob_state ob);
               symSize = mtu - int frameOverhead - int HeaderSize
           in if symSize \<le> 0 then (Some (SmallMTU mtu), ob)
              else case new_encoder (ob_self ob) bid packed symSize of
                     Inl e \<Rightarrow> (Some (CodecFailed e), ob)
                   | Inr enc \<Rightarrow>
                       (let start = fmget (ob_cursor ob) bid
                        in if start \<ge> maxSymbolsPerBundle
                           then (None, ob_count (\<lambda>s. s\<lparr>os_abandoned := os_abandoned s + 1\<rparr>) ob)
                           else
                             let tot = symbol_total M (en_k enc) (ob_loss ob) start;
                                 cls = ob_classify ob area
                             in if dm_blocked area ob
                                then (None, ob_count (\<lambda>s. s\<lparr>os_refused_ham := os_refused_ham s + 1\<rparr>) ob)
                                else send_symbols h enc \<lparr>ch_class = cls, ch_area = area\<rparr> bid tot
                                       [start..<tot] ob)))"

definition outbox_forget :: "u32 \<Rightarrow> 'l outbox \<Rightarrow> 'l outbox" where
  "outbox_forget bid ob = ob\<lparr>ob_cursor := fmdrop bid (ob_cursor ob)\<rparr>"

definition set_loss_rate :: "rat \<Rightarrow> 'l outbox \<Rightarrow> 'l outbox" where
  "set_loss_rate rate ob =
     (let r = (if rate < 0 then 0 else rate)
      in ob\<lparr>ob_loss := (if r > maxLossRate then maxLossRate else r)\<rparr>)"

definition set_dictionary :: "dictionary option \<Rightarrow> 'l outbox \<Rightarrow> 'l outbox" where
  "set_dictionary d ob = (case d of None \<Rightarrow> ob | Some d' \<Rightarrow> ob\<lparr>ob_dict := d'\<rparr>)"

definition outbox_budget :: "'l outbox \<Rightarrow> budget" where
  "outbox_budget ob = sn_budget (ob_link ob) (ob_state ob)"

section \<open>The inbox\<close>

record 'e applier =
  ap_receive :: "int \<Rightarrow> node_id \<Rightarrow> bytes \<Rightarrow> 'e \<Rightarrow> engine_error option \<times> 'e"
  ap_apply :: "4 barray \<Rightarrow> rec list \<Rightarrow> 'e \<Rightarrow> nat \<times> engine_error option \<times> 'e"

definition engine_applier :: "('s, 'o) gossip_env \<Rightarrow> ('s, 'o) engine applier" where
  "engine_applier E =
     \<lparr>ap_receive = (\<lambda>now p b e. case engine_receive E now p b e of
          (Inl x, e') \<Rightarrow> (Some x, e') | (Inr _, e') \<Rightarrow> (None, e')),
      ap_apply = (\<lambda>area recs e. case engine_apply_records E area recs e of
          (n, err, e') \<Rightarrow> (n, map_option EStore err, e'))\<rparr>"

type_synonym dec_key = "node_id \<times> u32"

record open_decoder =
  od_dec :: decoder
  od_started :: int
  od_touched :: int

record inbox_stats =
  is_control :: nat
  is_symbols :: nat
  is_decoded :: nat
  is_records_added :: nat
  is_rejected :: nat
  is_corrupt :: nat
  is_unknown_dictionary :: nat
  is_duplicates :: nat
  is_evicted :: nat

definition inbox_stats_zero :: inbox_stats where
  "inbox_stats_zero = \<lparr>is_control = 0, is_symbols = 0, is_decoded = 0, is_records_added = 0, is_rejected = 0,
     is_corrupt = 0, is_unknown_dictionary = 0, is_duplicates = 0, is_evicted = 0\<rparr>"

record 'e inbox =
  ib_dicts :: dictionary_set
  ib_decoders :: "(dec_key, open_decoder) fmap"
  ib_done :: "(dec_key, int) fmap"
  ib_stats :: inbox_stats
  ib_engine :: 'e

record datagram =
  dg_from :: node_id
  dg_data :: bytes

definition new_inbox :: "dictionary_set \<Rightarrow> 'e \<Rightarrow> 'e inbox" where
  "new_inbox dicts e = \<lparr>ib_dicts = dicts, ib_decoders = fmempty, ib_done = fmempty,
     ib_stats = inbox_stats_zero, ib_engine = e\<rparr>"

definition ib_bump :: "(inbox_stats \<Rightarrow> inbox_stats) \<Rightarrow> 'e inbox \<Rightarrow> 'e inbox" where
  "ib_bump f ib = ib\<lparr>ib_stats := f (ib_stats ib)\<rparr>"

definition reject :: "'e inbox \<Rightarrow> 'e inbox" where
  "reject = ib_bump (\<lambda>s. s\<lparr>is_rejected := is_rejected s + 1\<rparr>)"

text \<open>\<open>expire\<close>: both loops delete from the map they range over, which Go allows.\<close>

definition inbox_expire :: "int \<Rightarrow> 'e inbox \<Rightarrow> 'e inbox" where
  "inbox_expire now ib =
     (let stale = (\<lambda>k. case fmlookup (ib_decoders ib) k of None \<Rightarrow> False | Some od \<Rightarrow> now - od_touched od > decoderTTL)
      in ib_bump (\<lambda>s. s\<lparr>is_evicted := is_evicted s + length (filter (\<lambda>(k, _). stale k) (fmap_items (ib_decoders ib)))\<rparr>)
           (ib\<lparr>ib_decoders := fmfilter (\<lambda>k. \<not> stale k) (ib_decoders ib),
               ib_done := fmfilter (\<lambda>k. case fmlookup (ib_done ib) k of None \<Rightarrow> False
                 | Some t \<Rightarrow> \<not> now - t > decoderTTL) (ib_done ib)\<rparr>))"

text \<open>
  The least recently touched decoder. Among equally old ones Go's map order decides; here the
  least key does.
\<close>

definition oldest_decoder :: "(dec_key, open_decoder) fmap \<Rightarrow> dec_key option" where
  "oldest_decoder m =
     map_option fst (fold (\<lambda>(k, od) acc. case acc of
        None \<Rightarrow> Some (k, od_touched od)
      | Some (oldest, oldestAt) \<Rightarrow> if od_touched od < oldestAt then Some (k, od_touched od) else acc)
      (fmap_items m) None)"

lemma oldest_fold:
  "fold (\<lambda>(k, od) acc. case acc of None \<Rightarrow> Some (k, od_touched od)
      | Some (oldest, oldestAt) \<Rightarrow> if od_touched od < oldestAt then Some (k, od_touched od) else acc) xs acc = r \<Longrightarrow>
   (r = None \<longleftrightarrow> xs = [] \<and> acc = None) \<and>
   (\<forall>k t. r = Some (k, t) \<longrightarrow> (acc = Some (k, t) \<or> (\<exists>od. (k, od) \<in> set xs \<and> t = od_touched od)) \<and>
     (\<forall>k' od. (k', od) \<in> set xs \<longrightarrow> t \<le> od_touched od) \<and> (\<forall>k' t'. acc = Some (k', t') \<longrightarrow> t \<le> t'))"
proof (induction xs arbitrary: acc)
  case (Cons x xs)
  obtain k od where x: "x = (k, od)" by (cases x)
  let ?acc = "case acc of None \<Rightarrow> Some (k, od_touched od)
      | Some (oldest, oldestAt) \<Rightarrow> if od_touched od < oldestAt then Some (k, od_touched od) else acc"
  note IH = Cons.IH [of ?acc, OF Cons.prems [unfolded x, simplified]]
  show ?case using IH by (force simp: x split: option.splits if_splits)
qed auto

lemma oldest_decoder_Some:
  assumes "oldest_decoder m = Some k"
  shows "\<exists>od. fmlookup m k = Some od \<and> (\<forall>k' od'. fmlookup m k' = Some od' \<longrightarrow> od_touched od \<le> od_touched od')"
  using assms oldest_fold [OF refl, of "fmap_items m" None] distinct_fmap_items [of m]
  by (fastforce simp: oldest_decoder_def)

lemma oldest_decoder_None: "oldest_decoder m = None \<longleftrightarrow> m = fmempty"
  using oldest_fold [OF refl, of "fmap_items m" None]
  by (auto simp: oldest_decoder_def fmap_items_def) (metis fmdom_empty fmrestrict_fset_dom fmrestrict_fset_null
      length_0_conv length_sorted_list fcard_fempty fset_sorted_list list.set(1) bot_fset.rep_eq fset_inject)

function evict_to_cap :: "'e inbox \<Rightarrow> 'e inbox" where
  "evict_to_cap ib =
     (if fcard (fmdom (ib_decoders ib)) \<le> maxOpenDecoders then ib
      else case oldest_decoder (ib_decoders ib) of
             None \<Rightarrow> ib
           | Some k \<Rightarrow> evict_to_cap (ib_bump (\<lambda>s. s\<lparr>is_evicted := is_evicted s + 1\<rparr>)
                         (ib\<lparr>ib_decoders := fmdrop k (ib_decoders ib)\<rparr>)))"
  by pat_completeness auto
termination
proof (relation "measure (\<lambda>ib. fcard (fmdom (ib_decoders ib)))")
  fix ib :: "'e inbox" and k
  assume "oldest_decoder (ib_decoders ib) = Some k"
  then have "k |\<in>| fmdom (ib_decoders ib)" using oldest_decoder_Some by (metis fmdomI)
  then show "(ib_bump (\<lambda>s. s\<lparr>is_evicted := is_evicted s + 1\<rparr>) (ib\<lparr>ib_decoders := fmdrop k (ib_decoders ib)\<rparr>), ib)
      \<in> measure (\<lambda>ib. fcard (fmdom (ib_decoders ib)))"
    by (cases "fcard (fmdom (ib_decoders ib))") (auto simp: ib_bump_def)
qed simp

declare evict_to_cap.simps [simp del]

text \<open>
  The half of \<open>symbol\<close> after the lock is released: the solved block is unpacked and handed to the
  engine. \<open>Rejected\<close> and \<open>UnknownDictionary\<close> are told apart by the unpacking error.
\<close>

definition deliver_bundle ::
  "crypto \<Rightarrow> 'e applier \<Rightarrow> bytes \<Rightarrow> 'e inbox \<Rightarrow> engine_error option \<times> 'e inbox" where
  "deliver_bundle c A packed ib =
     (case bundle_unpack c packed (ib_dicts ib) of
        Inl (BUnknownDictionary _) \<Rightarrow>
          (None, ib_bump (\<lambda>s. s\<lparr>is_unknown_dictionary := is_unknown_dictionary s + 1\<rparr>) ib)
      | Inl _ \<Rightarrow> (None, reject ib)
      | Inr b \<Rightarrow>
          (case ap_apply A (bn_area b) (bn_records b) (ib_engine ib) of
             (added, Some err, e) \<Rightarrow> (Some err, ib\<lparr>ib_engine := e\<rparr>)
           | (added, None, e) \<Rightarrow>
               (None, ib_bump (\<lambda>s. s\<lparr>is_records_added := is_records_added s + added\<rparr>) (ib\<lparr>ib_engine := e\<rparr>))))"

text \<open>
  A symbol with its decoder, which \<open>evictToCap\<close> may have taken out of the map: then the additions
  to it are lost with it.
\<close>

definition add_symbol ::
  "crypto \<Rightarrow> 'e applier \<Rightarrow> int \<Rightarrow> dec_key \<Rightarrow> symbol \<Rightarrow> open_decoder \<Rightarrow> 'e inbox \<Rightarrow> engine_error option \<times> 'e inbox" where
  "add_symbol c A now key sy od ib =
     (case decoder_add (blake3 c) sy (od_dec od) of
        (Inl _, d) \<Rightarrow> (None, reject ib)
      | (Inr _, d) \<Rightarrow>
          (let keep = (if key |\<in>| fmdom (ib_decoders ib)
                       then fmupd key (od\<lparr>od_dec := d\<rparr>) (ib_decoders ib) else ib_decoders ib);
               ib1 = ib_bump (\<lambda>s. s\<lparr>is_symbols := is_symbols s + 1\<rparr>) (ib\<lparr>ib_decoders := keep\<rparr>)
           in if \<not> dc_done d then (None, ib1)
              else let ib2 = ib1\<lparr>ib_decoders := fmdrop key (ib_decoders ib1)\<rparr>
                in case decoder_payload d of
                     Inl _ \<Rightarrow> (None, reject ib2)
                   | Inr packed \<Rightarrow>
                       if bundle_id_for (blake3 c) packed \<noteq> sy_bundle_id sy
                       then (None, ib_bump (\<lambda>s. s\<lparr>is_corrupt := is_corrupt s + 1\<rparr>) ib2)
                       else deliver_bundle c A packed
                              (ib_bump (\<lambda>s. s\<lparr>is_decoded := is_decoded s + 1\<rparr>)
                                (ib2\<lparr>ib_done := fmupd key now (ib_done ib2)\<rparr>))))"

text \<open>The open decoder a symbol belongs to, or a new one.\<close>

definition decoder_for :: "int \<Rightarrow> node_id \<Rightarrow> symbol \<Rightarrow> nat \<Rightarrow> 'e inbox \<Rightarrow> fountain_error + open_decoder" where
  "decoder_for now sender sy origLen ib =
     (case fmlookup (ib_decoders ib) (sender, sy_bundle_id sy) of
        Some od \<Rightarrow> Inr od
      | None \<Rightarrow>
          (case new_decoder sender (sy_bundle_id sy) (int (unat (sy_k sy))) (int (length (sy_data sy))) (int origLen) of
             Inl e \<Rightarrow> Inl e
           | Inr d \<Rightarrow> Inr \<lparr>od_dec = d, od_started = now, od_touched = now\<rparr>))"

definition inbox_symbol ::
  "crypto \<Rightarrow> 'e applier \<Rightarrow> int \<Rightarrow> datagram \<Rightarrow> 'e inbox \<Rightarrow> engine_error option \<times> 'e inbox" where
  "inbox_symbol c A now dg ib =
     (if length (dg_data dg) < frameOverhead + HeaderSize then (None, reject ib)
      else let origLen = unat (get_u32 (take 4 (drop 1 (dg_data dg))))
        in if origLen = 0 \<or> origLen > maxOrigLen then (None, reject ib)
           else case decode_symbol (drop frameOverhead (dg_data dg)) of
                  Inl _ \<Rightarrow> (None, reject ib)
                | Inr sy \<Rightarrow>
                    (let key = (dg_from dg, sy_bundle_id sy)
                     in if key |\<in>| fmdom (ib_done ib)
                        then (None, ib_bump (\<lambda>s. s\<lparr>is_duplicates := is_duplicates s + 1\<rparr>) ib)
                        else let ib1 = inbox_expire now ib
                          in case decoder_for now (dg_from dg) sy origLen ib1 of
                               Inl _ \<Rightarrow> (None, reject ib1)
                             | Inr od \<Rightarrow>
                                 let od1 = od\<lparr>od_touched := now\<rparr>
                                 in add_symbol c A now key sy od1
                                      (evict_to_cap (ib1\<lparr>ib_decoders := fmupd key od1 (ib_decoders ib1)\<rparr>))))"

definition inbox_deliver ::
  "crypto \<Rightarrow> 'e applier \<Rightarrow> int \<Rightarrow> datagram \<Rightarrow> 'e inbox \<Rightarrow> engine_error option \<times> 'e inbox" where
  "inbox_deliver c A now dg ib =
     (if length (dg_data dg) = 0 then (None, ib)
      else if dg_data dg ! 0 = FrameControl then
        (let ib1 = ib_bump (\<lambda>s. s\<lparr>is_control := is_control s + 1\<rparr>) ib;
             (err, e) = ap_receive A now (dg_from dg) (drop 1 (dg_data dg)) (ib_engine ib1)
         in (err, ib1\<lparr>ib_engine := e\<rparr>))
      else if dg_data dg ! 0 = FrameSymbol then inbox_symbol c A now dg ib
      else (None, reject ib))"

definition inbox_pending :: "'e inbox \<Rightarrow> nat" where
  "inbox_pending ib = fcard (fmdom (ib_decoders ib))"

section \<open>What a link is given\<close>

lemma ob_count_simps [simp]:
  "ob_cursor (ob_count f ob) = ob_cursor ob" "ob_link (ob_count f ob) = ob_link ob"
  "ob_state (ob_count f ob) = ob_state ob" "ob_self (ob_count f ob) = ob_self ob"
  "ob_dict (ob_count f ob) = ob_dict ob" "ob_loss (ob_count f ob) = ob_loss ob"
  by (simp_all add: ob_count_def)

text \<open>A link that keeps the frames it accepted beside its own state.\<close>

definition logged :: "(node_id \<Rightarrow> bytes \<Rightarrow> charge \<Rightarrow> 'l \<Rightarrow> link_error option \<times> 'l) \<Rightarrow> int \<Rightarrow> ('l \<Rightarrow> budget) \<Rightarrow>
    ('l \<times> bytes list) sender" where
  "logged send mtu bud =
     \<lparr>sn_send = (\<lambda>_ _ l. (Some (LinkFailed 0), l)),
      sn_send_charged = Some (\<lambda>to frame ch l. case send to frame ch (fst l) of
        (None, l') \<Rightarrow> (None, l', snd l @ [frame]) | (Some e, l') \<Rightarrow> (Some e, l', snd l)),
      sn_mtu = (\<lambda>_. mtu), sn_budget = (\<lambda>l. bud (fst l))\<rparr>"

lemma logged_mtu [simp]: "sn_mtu (logged send mtu bud) l = mtu"
  by (simp add: logged_def)

lemma outbox_send_logged:
  assumes "ob_link ob = logged send mtu bud"
  obtains err l where "outbox_send to frame ch ob =
    (err, ob\<lparr>ob_state := (l, snd (ob_state ob) @ (if err = None then [frame] else []))\<rparr>)"
    "err = fst (send to frame ch (fst (ob_state ob)))"
proof -
  obtain r l where "send to frame ch (fst (ob_state ob)) = (r, l)" by (cases "send to frame ch (fst (ob_state ob))")
  then show thesis
    using that [of r l] assms by (cases r) (auto simp: outbox_send_def logged_def)
qed

text \<open>From one outbox to another the link was given the symbols \<open>a\<close> up to \<open>n\<close> and the cursor is at \<open>n\<close>.\<close>

definition sent_upto ::
  "(bytes \<Rightarrow> bytes) \<Rightarrow> encoder \<Rightarrow> u32 \<Rightarrow> nat \<Rightarrow> nat \<Rightarrow> ('l \<times> bytes list) outbox \<Rightarrow> ('l \<times> bytes list) outbox \<Rightarrow> bool" where
  "sent_upto h enc bid a n ob ob' \<longleftrightarrow>
     ob_cursor ob' = fmupd bid n (ob_cursor ob) \<and> ob_link ob' = ob_link ob \<and> ob_self ob' = ob_self ob \<and>
     ob_dict ob' = ob_dict ob \<and>
     snd (ob_state ob') = snd (ob_state ob) @ map (symbol_frame h enc) [a..<n]"

lemma send_symbols_logged:
  assumes "ob_link ob = logged send mtu bud" "a \<le> b"
  shows "\<exists>n. a \<le> n \<and> n \<le> b \<and> sent_upto h enc bid a n ob (snd (send_symbols h enc ch bid b [a..<b] ob)) \<and>
    ((\<forall>to f ch l. fst (send to f ch l) = None) \<longrightarrow> n = b)"
  using assms
proof (induction "b - a" arbitrary: a ob)
  case 0
  then show ?case by (intro exI [of _ b]) (simp add: sent_upto_def)
next
  case (Suc k)
  then have less: "a < b" by simp
  then have idx: "[a..<b] = a # [Suc a..<b]" by (rule upt_conv_Cons)
  obtain err l where send: "outbox_send Broadcast (symbol_frame h enc a) ch ob =
      (err, ob\<lparr>ob_state := (l, snd (ob_state ob) @ (if err = None then [symbol_frame h enc a] else []))\<rparr>)"
    and err: "err = fst (send Broadcast (symbol_frame h enc a) ch (fst (ob_state ob)))"
    by (rule outbox_send_logged [OF Suc.prems(1)])
  show ?case
  proof (cases err)
    case None
    define ob1 where "ob1 = ob_count (\<lambda>s. s\<lparr>os_symbols_sent := os_symbols_sent s + 1\<rparr>)
      (ob\<lparr>ob_state := (l, snd (ob_state ob) @ [symbol_frame h enc a])\<rparr>)"
    have step: "send_symbols h enc ch bid b [a..<b] ob = send_symbols h enc ch bid b [Suc a..<b] ob1"
      using None send by (simp add: idx ob1_def)
    have "k = b - Suc a" "ob_link ob1 = logged send mtu bud" "Suc a \<le> b"
      using Suc.hyps(2) Suc.prems(1) less by (simp_all add: ob1_def)
    then obtain n where n: "Suc a \<le> n" "n \<le> b"
      "sent_upto h enc bid (Suc a) n ob1 (snd (send_symbols h enc ch bid b [Suc a..<b] ob1))"
      "(\<forall>to f ch l. fst (send to f ch l) = None) \<longrightarrow> n = b"
      using Suc.hyps(1) by blast
    have "[a..<n] = a # [Suc a..<n]" using n(1) by (intro upt_conv_Cons) simp
    then have "sent_upto h enc bid a n ob ob2" if "sent_upto h enc bid (Suc a) n ob1 ob2" for ob2
      using that by (simp add: sent_upto_def ob1_def)
    then show ?thesis using n unfolding step by (intro exI [of _ n]) simp
  next
    case (Some e)
    then have "\<not> (\<forall>to f ch l. fst (send to f ch l) = None)" using err by (metis option.distinct(1))
    then show ?thesis
      using Some send less by (intro exI [of _ a]) (cases e; auto simp: idx sent_upto_def)
  qed
qed

definition packed_for :: "4 barray \<Rightarrow> rec list \<Rightarrow> dictionary \<Rightarrow> bundle_error + bytes" where
  "packed_for area recs d =
     bundle_pack \<lparr>bn_area = area, bn_base_ts = 0, bn_dict_id = di_id d, bn_records = recs\<rparr> d"

definition encoder_for :: "(bytes \<Rightarrow> bytes) \<Rightarrow> node_id \<Rightarrow> int \<Rightarrow> bytes \<Rightarrow> fountain_error + encoder" where
  "encoder_for h self mtu packed =
     new_encoder self (bundle_id_for h packed) packed (mtu - int frameOverhead - int HeaderSize)"

lemma symbol_total_bounds:
  "start \<le> maxSymbolsPerBundle \<Longrightarrow> start \<le> symbol_total M k loss start"
  "symbol_total M k loss start \<le> maxSymbolsPerBundle"
  "start = 0 \<Longrightarrow> k \<le> MaxK \<Longrightarrow> k \<le> symbol_total M k loss start"
  by (auto simp: symbol_total_def Let_def bsmp_consts fountain_consts)

lemma send_records_cases:
  assumes "packed_for area recs (ob_dict ob) = Inr packed"
    and "encoder_for h (ob_self ob) (sn_mtu (ob_link ob) (ob_state ob)) packed = Inr enc"
    and "start = fmget (ob_cursor ob) (bundle_id_for h packed)"
  shows "send_records M h area recs ob =
    (if start \<ge> maxSymbolsPerBundle then (None, ob_count (\<lambda>s. s\<lparr>os_abandoned := os_abandoned s + 1\<rparr>) ob)
     else if dm_blocked area ob then (None, ob_count (\<lambda>s. s\<lparr>os_refused_ham := os_refused_ham s + 1\<rparr>) ob)
     else send_symbols h enc \<lparr>ch_class = ob_classify ob area, ch_area = area\<rparr> (bundle_id_for h packed)
            (symbol_total M (en_k enc) (ob_loss ob) start)
            [start..<symbol_total M (en_k enc) (ob_loss ob) start] ob)"
proof -
  have "0 < sn_mtu (ob_link ob) (ob_state ob) - int frameOverhead - int HeaderSize"
    using new_encoder_ok(5) [OF assms(2) [unfolded encoder_for_def]] .
  then show ?thesis
    using assms by (simp add: send_records_def packed_for_def encoder_for_def dm_blocked_def Let_def)
qed

lemma send_records_logged:
  assumes link: "ob_link ob = logged send mtu bud"
    and pk: "packed_for area recs (ob_dict ob) = Inr packed" and enc: "encoder_for h (ob_self ob) mtu packed = Inr enc"
    and start: "start = fmget (ob_cursor ob) (bundle_id_for h packed)" "start \<le> maxSymbolsPerBundle"
  obtains n ob' where "snd (send_records M h area recs ob) = ob'" "start \<le> n" "n \<le> maxSymbolsPerBundle"
    "ob_link ob' = ob_link ob" "ob_self ob' = ob_self ob" "ob_dict ob' = ob_dict ob"
    "fmget (ob_cursor ob') (bundle_id_for h packed) = n"
    "snd (ob_state ob') = snd (ob_state ob) @ map (symbol_frame h enc) [start..<n]"
proof -
  let ?tot = "symbol_total M (en_k enc) (ob_loss ob) start" and ?ob' = "snd (send_records M h area recs ob)"
  note send = send_records_cases [OF pk _ start(1), of enc M]
  show thesis
  proof (cases "start \<ge> maxSymbolsPerBundle \<or> dm_blocked area ob")
    case True
    then show thesis
      using that [of ?ob' start] start send link enc by (auto split: if_splits)
  next
    case False
    note bounds = symbol_total_bounds(1) [OF start(2), of M "en_k enc" "ob_loss ob"]
    then show thesis
      using False that [of ?ob'] send link enc
        send_symbols_logged [OF link bounds, of h enc "bundle_id_for h packed" "\<lparr>ch_class = ob_classify ob area, ch_area = area\<rparr>"]
        symbol_total_bounds(2) [of M "en_k enc" "ob_loss ob" start]
      by (auto simp: sent_upto_def)
  qed
qed

section \<open>What an inbox holds\<close>

lemma ib_simps [simp]:
  "ib_decoders (ib_bump f ib) = ib_decoders ib" "ib_done (ib_bump f ib) = ib_done ib"
  "ib_engine (ib_bump f ib) = ib_engine ib" "ib_dicts (ib_bump f ib) = ib_dicts ib"
  "ib_decoders (reject ib) = ib_decoders ib" "ib_done (reject ib) = ib_done ib"
  "ib_engine (reject ib) = ib_engine ib" "ib_dicts (reject ib) = ib_dicts ib"
  by (simp_all add: ib_bump_def reject_def)

lemma expire_simps [simp]:
  "ib_engine (inbox_expire now ib) = ib_engine ib" "ib_dicts (inbox_expire now ib) = ib_dicts ib"
  "fmlookup (ib_decoders (inbox_expire now ib)) k =
    (case fmlookup (ib_decoders ib) k of None \<Rightarrow> None
     | Some od \<Rightarrow> if now - od_touched od > decoderTTL then None else Some od)"
  "fmlookup (ib_done (inbox_expire now ib)) k =
    (case fmlookup (ib_done ib) k of None \<Rightarrow> None | Some t \<Rightarrow> if now - t > decoderTTL then None else Some t)"
  by (auto simp: inbox_expire_def Let_def split: option.splits)

lemma deliver_bundle_simps [simp]:
  "ib_decoders (snd (deliver_bundle c A p ib)) = ib_decoders ib"
  "ib_done (snd (deliver_bundle c A p ib)) = ib_done ib"
  "ib_dicts (snd (deliver_bundle c A p ib)) = ib_dicts ib"
  by (simp_all add: deliver_bundle_def split: sum.split bundle_error.split prod.split option.split)

lemma evict_keeps:
  "(\<forall>k od. fmlookup (ib_decoders (evict_to_cap ib)) k = Some od \<longrightarrow> fmlookup (ib_decoders ib) k = Some od) \<and>
   fcard (fmdom (ib_decoders (evict_to_cap ib))) \<le> maxOpenDecoders \<and>
   ib_done (evict_to_cap ib) = ib_done ib \<and> ib_engine (evict_to_cap ib) = ib_engine ib \<and>
   ib_dicts (evict_to_cap ib) = ib_dicts ib"
proof (induction ib rule: evict_to_cap.induct)
  case (1 ib)
  show ?case
  proof (cases "fcard (fmdom (ib_decoders ib)) \<le> maxOpenDecoders")
    case True
    then show ?thesis by (subst (1 2 3 4 5) evict_to_cap.simps) simp
  next
    case False
    then have "ib_decoders ib \<noteq> fmempty" by (auto simp: fcard.rep_eq)
    then obtain k where k: "oldest_decoder (ib_decoders ib) = Some k" using oldest_decoder_None by blast
    define ib' where "ib' = ib_bump (\<lambda>s. s\<lparr>is_evicted := is_evicted s + 1\<rparr>) (ib\<lparr>ib_decoders := fmdrop k (ib_decoders ib)\<rparr>)"
    have "evict_to_cap ib = evict_to_cap ib'"
      using False k by (subst evict_to_cap.simps) (simp add: ib'_def)
    moreover have "fmlookup (ib_decoders ib') x = Some od \<Longrightarrow> fmlookup (ib_decoders ib) x = Some od" for x od
      by (simp add: ib'_def split: if_splits)
    moreover have "ib_done ib' = ib_done ib" "ib_engine ib' = ib_engine ib" "ib_dicts ib' = ib_dicts ib"
      by (simp_all add: ib'_def)
    ultimately show ?thesis using 1 [OF False k, folded ib'_def] by simp
  qed
qed

lemma evict_small: "fcard (fmdom (ib_decoders ib)) \<le> maxOpenDecoders \<Longrightarrow> evict_to_cap ib = ib"
  by (subst evict_to_cap.simps) simp

text \<open>
  The inbox's state invariant: at most 64 blocks are open, an open block is filed under its own
  sender and bundle identifier, is unfinished and within the codec's limits, and no block is open
  and done at once.
\<close>

definition decoder_fits :: "dec_key \<Rightarrow> decoder \<Rightarrow> bool" where
  "decoder_fits k d \<longleftrightarrow> k = (dc_sender d, dc_bundle_id d) \<and> \<not> dc_done d \<and> dc_k d \<le> MaxK \<and>
     dc_sym_size d \<le> MaxSymbolSize \<and> dc_orig_len d \<le> dc_k d * dc_sym_size d \<and>
     (\<forall>r \<in> set (dc_rows d). length (eq_data r) = dc_sym_size d) \<and> length (dc_rows d) = fcard (dc_seen d)"

definition inbox_ok :: "'e inbox \<Rightarrow> bool" where
  "inbox_ok ib \<longleftrightarrow> inbox_pending ib \<le> maxOpenDecoders \<and>
     (\<forall>k od. fmlookup (ib_decoders ib) k = Some od \<longrightarrow> decoder_fits k (od_dec od) \<and> fmlookup (ib_done ib) k = None)"

lemma new_decoder_fits:
  assumes "new_decoder s b k sz n = Inr d"
  shows "decoder_fits (s, b) d"
proof -
  have "0 < k" "0 < sz" "n \<le> k * sz" and d: "d = \<lparr>dc_sender = s, dc_bundle_id = b, dc_k = nat k, dc_sym_size = nat sz,
      dc_orig_len = nat n, dc_rows = [], dc_seen = {||}, dc_solved = [], dc_done = False\<rparr>"
    and "k \<le> 64" "sz \<le> 1400"
    using assms by (auto simp: new_decoder_def fountain_consts split: if_splits)
  moreover from this have "nat n \<le> nat k * nat sz" by (simp add: nat_mult_distrib [symmetric] nat_le_eq_zle)
  ultimately show ?thesis by (simp add: decoder_fits_def fountain_consts fcard.rep_eq nat_le_iff)
qed

lemma decoder_add_fits:
  assumes "decoder_fits k d" "decoder_add h sy d = (Inr x, d')" "\<not> dc_done d'"
  shows "decoder_fits k d'"
  using assms
  by (auto simp: decoder_add_def decoder_fits_def decoder_try_solve_def Let_def fcard_finsert_disjoint
      split: if_splits option.splits)

lemma evict_ok:
  assumes "\<forall>k od. fmlookup (ib_decoders ib) k = Some od \<longrightarrow> decoder_fits k (od_dec od) \<and> fmlookup (ib_done ib) k = None"
  shows "inbox_ok (evict_to_cap ib)"
  using evict_keeps [of ib] assms unfolding inbox_ok_def inbox_pending_def by metis

lemma fcard_drop_le: "fcard (fmdom (fmdrop k m)) \<le> fcard (fmdom m)"
  by (rule fcard_mono) auto

lemma fcard_upd_known: "k |\<in>| fmdom m \<Longrightarrow> fcard (fmdom (fmupd k v m)) = fcard (fmdom m)"
  by (simp add: finsert_absorb)

lemma inbox_ok_cong:
  "ib_decoders a = ib_decoders b \<Longrightarrow> ib_done a = ib_done b \<Longrightarrow> inbox_ok a = inbox_ok b"
  by (simp add: inbox_ok_def inbox_pending_def)

lemma add_symbol_ok:
  assumes "inbox_ok ib" "decoder_fits key (od_dec od)" "fmlookup (ib_done ib) key = None"
  shows "inbox_ok (snd (add_symbol c A now key sy od ib))"
proof (cases "decoder_add (blake3 c) sy (od_dec od)")
  case (Pair r d)
  show ?thesis
  proof (cases r)
    case (Inl e)
    then show ?thesis using Pair assms(1) by (simp add: add_symbol_def inbox_ok_def inbox_pending_def)
  next
    case (Inr x)
    define keep where "keep = (if key |\<in>| fmdom (ib_decoders ib)
      then fmupd key (od\<lparr>od_dec := d\<rparr>) (ib_decoders ib) else ib_decoders ib)"
    have size: "fcard (fmdom keep) \<le> maxOpenDecoders"
      using assms(1) by (auto simp: keep_def inbox_ok_def inbox_pending_def finsert_absorb)
    show ?thesis
    proof (cases "dc_done d")
      case False
      then have "decoder_fits key d" using Pair Inr decoder_add_fits [OF assms(2)] by simp
      then have "inbox_ok (ib\<lparr>ib_decoders := keep\<rparr>)"
        using assms(1,3) size by (auto simp: inbox_ok_def inbox_pending_def keep_def)
      then show ?thesis
        using Pair Inr False by (simp add: add_symbol_def keep_def Let_def inbox_ok_def inbox_pending_def)
    next
      case True
      have "fmlookup (fmdrop key keep) k = fmlookup (fmdrop key (ib_decoders ib)) k" for k
        by (simp add: keep_def)
      then have drop: "fmdrop key keep = fmdrop key (ib_decoders ib)" by (rule fmap_ext)
      have small: "fcard (fmdom (fmdrop key (ib_decoders ib))) \<le> maxOpenDecoders"
        using assms(1) fcard_drop_le [of key "ib_decoders ib"] by (simp add: inbox_ok_def inbox_pending_def)
      have dec: "ib_decoders (snd (add_symbol c A now key sy od ib)) = fmdrop key (ib_decoders ib)"
        and "ib_done (snd (add_symbol c A now key sy od ib)) \<in> {ib_done ib, fmupd key now (ib_done ib)}"
        using Pair Inr True drop
        by (simp_all add: add_symbol_def Let_def keep_def [symmetric] split: sum.split)
      then show ?thesis
        using assms(1) small unfolding inbox_ok_def inbox_pending_def dec by auto
    qed
  qed
qed

lemma inbox_symbol_ok:
  assumes ok: "inbox_ok ib"
  shows "inbox_ok (snd (inbox_symbol c A now dg ib))"
proof -
  have rej: "inbox_ok (reject ib)" using ok by (simp add: inbox_ok_def inbox_pending_def)
  have exp: "\<forall>k od. fmlookup (ib_decoders (inbox_expire now ib)) k = Some od \<longrightarrow>
      decoder_fits k (od_dec od) \<and> fmlookup (ib_done (inbox_expire now ib)) k = None"
    using ok by (auto simp: inbox_ok_def split: option.splits if_splits)
  have sub: "fmdom (ib_decoders (inbox_expire now ib)) |\<subseteq>| fmdom (ib_decoders ib)"
    by (auto simp: inbox_expire_def Let_def)
  have exp_ok: "inbox_ok (inbox_expire now ib)"
    using ok exp fcard_mono [OF sub] by (simp add: inbox_ok_def inbox_pending_def)
  show ?thesis
  proof (cases "decode_symbol (drop frameOverhead (dg_data dg))")
    case (Inr sy)
    let ?key = "(dg_from dg, sy_bundle_id sy)" and ?ib1 = "inbox_expire now ib"
    have step: "inbox_ok (snd (add_symbol c A now ?key sy od (evict_to_cap (?ib1\<lparr>ib_decoders := fmupd ?key od (ib_decoders ?ib1)\<rparr>))))"
      if "decoder_fits ?key (od_dec od)" "fmlookup (ib_done ib) ?key = None" for od
    proof (rule add_symbol_ok)
      show "inbox_ok (evict_to_cap (?ib1\<lparr>ib_decoders := fmupd ?key od (ib_decoders ?ib1)\<rparr>))"
        using exp that by (intro evict_ok) auto
      show "fmlookup (ib_done (evict_to_cap (?ib1\<lparr>ib_decoders := fmupd ?key od (ib_decoders ?ib1)\<rparr>))) ?key = None"
        using evict_keeps [of "?ib1\<lparr>ib_decoders := fmupd ?key od (ib_decoders ?ib1)\<rparr>"] that by simp
    qed (use that in simp)
    have fits: "decoder_fits ?key (od_dec od)" if "decoder_for now (dg_from dg) sy n ?ib1 = Inr od" for n od
      using that exp by (auto simp: decoder_for_def simp del: expire_simps(3,4) split: option.splits sum.splits dest: new_decoder_fits)
    show ?thesis
      using Inr rej exp_ok step fits ok
      by (auto simp: inbox_symbol_def Let_def inbox_ok_cong [of "reject (inbox_expire now ib)" "inbox_expire now ib"]
          inbox_ok_cong [of "ib_bump f ib" ib for f] fmdom_notI split: sum.split)
  qed (use rej in \<open>simp add: inbox_symbol_def Let_def\<close>)
qed

lemma inbox_deliver_ok:
  assumes "inbox_ok ib"
  shows "inbox_ok (snd (inbox_deliver c A now dg ib))"
  using assms inbox_symbol_ok [OF assms, of c A now dg]
  by (simp add: inbox_deliver_def Let_def split_beta inbox_ok_def inbox_pending_def)

text \<open>
  Whatever arrives, in any order and from anyone, an inbox holds at most 64 open blocks, each
  within the codec's limits, holding one equation of its own symbol size per index heard, filed
  under its own sender and identifier, and never one that is done already.
\<close>

theorem inbox_bounded:
  "inbox_ok (fold (\<lambda>(now, dg) ib. snd (inbox_deliver c A now dg ib)) arrivals (new_inbox dicts e))"
proof -
  have "inbox_ok ib \<Longrightarrow> inbox_ok (fold (\<lambda>(now, dg) ib. snd (inbox_deliver c A now dg ib)) arrivals ib)" for ib :: "'a inbox"
    by (induction arrivals arbitrary: ib) (auto simp: inbox_deliver_ok)
  moreover have "inbox_ok (new_inbox dicts e)"
    by (simp add: inbox_ok_def new_inbox_def inbox_pending_def fcard.rep_eq)
  ultimately show ?thesis .
qed

section \<open>From records to records\<close>

definition symbol_datagram :: "(bytes \<Rightarrow> bytes) \<Rightarrow> encoder \<Rightarrow> nat \<Rightarrow> datagram" where
  "symbol_datagram h enc i = \<lparr>dg_from = en_sender enc, dg_data = symbol_frame h enc i\<rparr>"

text \<open>
  Where an inbox stands on one block after the symbols of the indices \<open>I\<close>: either the block is
  open and holds exactly those, with room for it among the open ones, or it was delivered.
\<close>

definition block_open :: "(bytes \<Rightarrow> bytes) \<Rightarrow> encoder \<Rightarrow> int \<Rightarrow> u16 set \<Rightarrow> 'e inbox \<Rightarrow> bool" where
  "block_open h enc t0 I ib \<longleftrightarrow>
     (let key = (en_sender enc, en_bundle_id enc)
      in fmlookup (ib_done ib) key = None \<and>
         fcard (fmdom (ib_decoders ib) |-| {|key|}) < maxOpenDecoders \<and> \<not> spans h enc I \<and>
         (case fmlookup (ib_decoders ib) key of
            None \<Rightarrow> I = {}
          | Some od \<Rightarrow> decoder_inv h enc (od_dec od) \<and> fset (dc_seen (od_dec od)) = I \<and> t0 \<le> od_touched od))"

lemma fresh_open:
  assumes "encoder_ok enc" "key = (en_sender enc, en_bundle_id enc)" "fmlookup (ib_decoders ib) key = None"
    "fmlookup (ib_done ib) key = None" "inbox_pending ib < maxOpenDecoders"
  shows "block_open h enc t0 {} ib"
proof -
  have "replicate (en_k enc) True \<noteq> replicate (en_k enc) False"
    using assms(1) by (cases "en_k enc") (simp_all add: encoder_ok_def)
  moreover have "length (replicate (en_k enc) True) = en_k enc" by simp
  ultimately have "\<not> spans h enc {}" unfolding spans_def by blast
  moreover have "fcard (fmdom (ib_decoders ib) |-| {|key|}) \<le> fcard (fmdom (ib_decoders ib))"
    by (rule fcard_mono) auto
  ultimately show ?thesis using assms by (simp add: block_open_def inbox_pending_def)
qed

lemma symbol_frame_cons: "symbol_frame h enc i \<noteq> []"
  by (simp add: symbol_frame_def)

lemma symbol_frame_read:
  assumes new: "new_encoder sender bid packed symSize = Inr enc"
  shows "symbol_frame h enc i ! 0 = FrameSymbol" "frameOverhead + HeaderSize \<le> length (symbol_frame h enc i)"
    "unat (get_u32 (take 4 (drop 1 (symbol_frame h enc i)))) = length packed"
    "decode_symbol (drop frameOverhead (symbol_frame h enc i)) = Inr (encoder_symbol h enc (of_nat i))"
    "0 < length packed" "length packed \<le> maxOrigLen"
proof -
  note enc = new_encoder_ok [OF new]
  show "0 < length packed" using enc(7) by simp
  have "en_k enc \<le> 64" "en_sym_size enc \<le> 1400" using enc(1,4,6) by (simp_all add: encoder_ok_def nat_le_iff)
  then have "en_k enc * en_sym_size enc \<le> 64 * 1400" by (rule mult_le_mono)
  then have "length packed \<le> 64 * 1400" using enc(3) by (rule le_trans [rotated])
  then show "length packed \<le> maxOrigLen"
    and "unat (get_u32 (take 4 (drop 1 (symbol_frame h enc i)))) = length packed"
    using enc(2) by (simp_all add: bsmp_consts symbol_frame_def get_put_u32' unat_of_nat)
  show "symbol_frame h enc i ! 0 = FrameSymbol" by (simp add: symbol_frame_def)
  show "frameOverhead + HeaderSize \<le> length (symbol_frame h enc i)"
    by (simp add: symbol_frame_def symbol_encode_def bsmp_consts fountain_consts)
  show "decode_symbol (drop frameOverhead (symbol_frame h enc i)) = Inr (encoder_symbol h enc (of_nat i))"
    using syc.dec_enc [OF encoder_symbol_wf [OF new]] by (simp add: symbol_frame_def bsmp_consts)
qed

lemma fcard_insert_room:
  assumes "fcard (S |-| {|k|}) < n" "T |\<subseteq>| S"
  shows "fcard (finsert k T) \<le> n"
proof -
  have "finsert k T |\<subseteq>| finsert k (S |-| {|k|})" using assms(2) by auto
  then have "fcard (finsert k T) \<le> fcard (finsert k (S |-| {|k|}))" by (rule fcard_mono)
  then show ?thesis using assms(1) by (simp add: fcard_finsert_if split: if_splits)
qed

lemma block_step:
  assumes new: "new_encoder sender (bundle_id_for (blake3 c) packed) packed symSize = Inr enc"
    and opn: "block_open (blake3 c) enc t0 I ib" and time: "t0 \<le> t" "t \<le> t0 + decoderTTL"
    and ib': "ib' = snd (inbox_deliver c A t (symbol_datagram (blake3 c) enc i) ib)"
    and I': "I' = insert (of_nat i) I"
  shows "if spans (blake3 c) enc I'
    then fmlookup (ib_done ib') (en_sender enc, en_bundle_id enc) \<noteq> None \<and>
      (\<exists>ib0. ib' = snd (deliver_bundle c A packed ib0) \<and> ib_engine ib0 = ib_engine ib \<and> ib_dicts ib0 = ib_dicts ib)
    else block_open (blake3 c) enc t0 I' ib' \<and> ib_engine ib' = ib_engine ib \<and> ib_dicts ib' = ib_dicts ib"
proof -
  let ?h = "blake3 c" and ?key = "(en_sender enc, en_bundle_id enc)" and ?sy = "encoder_symbol (blake3 c) enc (of_nat i)"
  note enc = new_encoder_ok [OF new] and frame = symbol_frame_read(1-4) [OF new, of ?h i] symbol_frame_read(5,6) [OF new]
  let ?ib1 = "inbox_expire t ib"
  have fields: "dg_from (symbol_datagram ?h enc i) = en_sender enc" "dg_data (symbol_datagram ?h enc i) = symbol_frame ?h enc i"
    by (simp_all add: symbol_datagram_def)
  have notdone: "?key |\<notin>| fmdom (ib_done ib)" using opn by (simp add: block_open_def Let_def fmdom_notI)
  obtain d0 where d0: "new_decoder sender (bundle_id_for ?h packed) (int (en_k enc)) symSize (int (en_orig_len enc)) = Inr d0"
    using new_decoder_accepts [OF new] by blast
  have k: "int (unat (sy_k ?sy)) = int (en_k enc)" using enc(1) by (simp add: encoder_ok_def unat_of_nat)
  have sz: "int (length (sy_data ?sy)) = symSize"
    using encoder_symbol_data [OF enc(1), of ?h "of_nat i"] enc(1,4,5) by (simp add: length_comb encoder_ok_def)
  obtain od where od: "decoder_for t (en_sender enc) ?sy (length packed) ?ib1 = Inr od"
    and inv: "decoder_inv ?h enc (od_dec od)" and seen: "fset (dc_seen (od_dec od)) = I"
  proof (cases "fmlookup (ib_decoders ib) ?key")
    case None
    note init = decoder_inv_init [OF new d0]
    show thesis
      using that [of "\<lparr>od_dec = d0, od_started = t, od_touched = t\<rparr>"] None d0 init opn enc(2,9,10) k sz
      by (simp add: block_open_def Let_def decoder_for_def)
  next
    case (Some od)
    then have "t - od_touched od \<le> decoderTTL" using opn time by (simp add: block_open_def Let_def)
    then show thesis using that [of od] Some opn by (simp add: block_open_def Let_def decoder_for_def)
  qed
  let ?od = "od\<lparr>od_touched := t\<rparr>" and ?ib2 = "?ib1\<lparr>ib_decoders := fmupd ?key (od\<lparr>od_touched := t\<rparr>) (ib_decoders ?ib1)\<rparr>"
  have sub: "fmdom (ib_decoders ?ib1) |\<subseteq>| fmdom (ib_decoders ib)" by (auto simp: inbox_expire_def Let_def)
  have "fcard (fmdom (ib_decoders ?ib2)) \<le> maxOpenDecoders"
    using opn fcard_insert_room [OF _ sub] by (simp add: block_open_def Let_def)
  then have evict: "evict_to_cap ?ib2 = ?ib2" by (rule evict_small)
  obtain d where d: "decoder_add ?h ?sy (od_dec od) = (Inr (dc_done d), d)" and dinv: "decoder_inv ?h enc d"
    and grow: "dc_done (od_dec od) \<and> d = od_dec od \<or> \<not> dc_done (od_dec od) \<and> fset (dc_seen d) = insert (of_nat i) I"
    using decoder_add_inv [OF enc(1) inv] seen by blast
  have "\<not> dc_done (od_dec od)" using inv seen opn by (simp add: decoder_inv_def block_open_def Let_def)
  then have dseen: "fset (dc_seen d) = I'" using grow I' by simp
  then have ddone: "dc_done d = spans ?h enc I'" using dinv by (simp add: decoder_inv_def)
  have ib'_eq: "ib' = snd (add_symbol c A t ?key ?sy ?od ?ib2)"
    using frame notdone od evict symbol_frame_cons [of ?h enc i]
    by (simp add: ib' inbox_deliver_def fields inbox_symbol_def Let_def bsmp_consts(1,2))
  show ?thesis
  proof (cases "dc_done d")
    case True
    have pay: "decoder_payload d = Inr packed" using decoder_inv_payload [OF new dinv] True by simp
    show ?thesis
      using True ddone pay d enc(10) by (auto simp: ib'_eq add_symbol_def Let_def)
  next
    case False
    have room: "fcard (fmdom (ib_decoders ?ib1) |-| {|?key|}) < maxOpenDecoders"
    proof -
      have "fmdom (ib_decoders ?ib1) |-| {|?key|} |\<subseteq>| fmdom (ib_decoders ib) |-| {|?key|}" using sub by auto
      then show ?thesis using opn fcard_mono by (fastforce simp: block_open_def Let_def)
    qed
    have dn: "fmlookup (ib_done ?ib1) ?key = None" using opn by (simp add: block_open_def Let_def)
    show ?thesis
      using False ddone d dinv dseen room dn time(1)
      by (simp add: ib'_eq add_symbol_def block_open_def)
  qed
qed

text \<open>After delivery the block's symbols are duplicates.\<close>

lemma block_done:
  assumes new: "new_encoder sender (bundle_id_for (blake3 c) packed) packed symSize = Inr enc"
    and "fmlookup (ib_done ib) (en_sender enc, en_bundle_id enc) \<noteq> None"
  shows "ib_engine (snd (inbox_deliver c A t (symbol_datagram (blake3 c) enc i) ib)) = ib_engine ib \<and>
    ib_done (snd (inbox_deliver c A t (symbol_datagram (blake3 c) enc i) ib)) = ib_done ib"
proof -
  note frame = symbol_frame_read(1-4) [OF new, of "blake3 c" i] symbol_frame_read(5,6) [OF new]
  have "(en_sender enc, en_bundle_id enc) |\<in>| fmdom (ib_done ib)" using assms(2) by (auto intro: fmdomI)
  then show ?thesis
    using frame symbol_frame_cons [of "blake3 c" enc i]
    by (simp add: inbox_deliver_def symbol_datagram_def inbox_symbol_def Let_def bsmp_consts(1,2))
qed

definition hear :: "crypto \<Rightarrow> 'e applier \<Rightarrow> encoder \<Rightarrow> (int \<times> nat) list \<Rightarrow> 'e inbox \<Rightarrow> 'e inbox" where
  "hear c A enc = fold (\<lambda>(t, i) ib. snd (inbox_deliver c A t (symbol_datagram (blake3 c) enc i) ib))"

lemma hear_done:
  assumes "new_encoder sender (bundle_id_for (blake3 c) packed) packed symSize = Inr enc"
  shows "fmlookup (ib_done ib) (en_sender enc, en_bundle_id enc) \<noteq> None \<Longrightarrow>
    ib_engine (hear c A enc evs ib) = ib_engine ib"
proof (induction evs arbitrary: ib)
  case (Cons ev evs)
  then show ?case using block_done [OF assms Cons.prems, of A] by (simp add: hear_def split_beta)
qed (simp add: hear_def)

lemma deliver_bundle_engine:
  assumes "bundle_unpack c packed (ib_dicts ib) = Inr b"
  shows "ib_engine (snd (deliver_bundle c A packed ib)) = snd (snd (ap_apply A (bn_area b) (bn_records b) (ib_engine ib)))"
  using assms by (simp add: deliver_bundle_def split: prod.split option.split)

lemma hear_open:
  assumes new: "new_encoder sender (bundle_id_for (blake3 c) packed) packed symSize = Inr enc"
    and unpack: "bundle_unpack c packed dicts = Inr b"
  shows "block_open (blake3 c) enc t0 I ib \<Longrightarrow> ib_dicts ib = dicts \<Longrightarrow>
    \<forall>(t, i) \<in> set evs. t0 \<le> t \<and> t \<le> t0 + decoderTTL \<Longrightarrow>
    ib_engine (hear c A enc evs ib) =
      (if spans (blake3 c) enc (I \<union> (of_nat \<circ> snd) ` set evs)
       then snd (snd (ap_apply A (bn_area b) (bn_records b) (ib_engine ib))) else ib_engine ib)"
proof (induction evs arbitrary: I ib)
  case Nil
  then show ?case by (simp add: hear_def block_open_def Let_def)
next
  case (Cons ev evs)
  obtain t i where ev: "ev = (t, i)" by (cases ev)
  define ib' where "ib' = snd (inbox_deliver c A t (symbol_datagram (blake3 c) enc i) ib)"
  define I' where "I' = insert (of_nat i) I"
  have time: "t0 \<le> t" "t \<le> t0 + decoderTTL" using Cons.prems(3) by (simp_all add: ev)
  note step = block_step [OF new Cons.prems(1) time ib'_def I'_def]
  have run: "hear c A enc (ev # evs) ib = hear c A enc evs ib'" by (simp add: hear_def ev ib'_def)
  have all: "I \<union> (of_nat \<circ> snd) ` set (ev # evs) = I' \<union> (of_nat \<circ> snd) ` set evs" by (auto simp: ev I'_def)
  show ?case
  proof (cases "spans (blake3 c) enc I'")
    case True
    then obtain ib0 where "fmlookup (ib_done ib') (en_sender enc, en_bundle_id enc) \<noteq> None"
      "ib' = snd (deliver_bundle c A packed ib0)" "ib_engine ib0 = ib_engine ib" "ib_dicts ib0 = ib_dicts ib"
      using step [unfolded if_P [OF True]] by blast
    then have "ib_engine (hear c A enc evs ib') = snd (snd (ap_apply A (bn_area b) (bn_records b) (ib_engine ib)))"
      using hear_done [OF new] deliver_bundle_engine [of c packed ib0 b A] unpack Cons.prems(2) by metis
    moreover have "spans (blake3 c) enc (I' \<union> (of_nat \<circ> snd) ` set evs)" by (rule spans_mono [OF True]) simp
    ultimately show ?thesis unfolding run all by simp
  next
    case False
    then have "block_open (blake3 c) enc t0 I' ib'" "ib_engine ib' = ib_engine ib" "ib_dicts ib' = dicts"
      using step Cons.prems(2) by auto
    then show ?thesis using Cons.IH [of I' ib'] Cons.prems(3) unfolding run all by simp
  qed
qed

section \<open>Properties of the transport\<close>

text \<open>
  C5. Records arrive as they were sent. Let an outbox pack a batch and code it into symbols, and
  an inbox hear any of them within six hours, in any order, with losses and repeats. Then the
  engine behind the inbox is given exactly the batch's area and records, once, if the symbols
  heard determine the block, and nothing otherwise. Hypotheses: the batch is within the limits of
  the format, the receiver holds the dictionary, its decoder gives back what was compressed up to its memory
  limit, and the inbox starts without this block and with room for one more.
\<close>

theorem records_arrive:
  assumes "batch_wf c b" "length (body_bytes b) \<le> MaxDecompressed" "bundle_pack b d = Inr packed"
    and "new_encoder sender (bundle_id_for (blake3 c) packed) packed symSize = Inr enc"
    and "dict_get (ib_dicts ib) (di_id d) = Inr d'" "\<forall>x. length x \<le> MaxDecompressed \<longrightarrow> di_decode_all d' (di_compress d x) = Some x"
    and "fmlookup (ib_decoders ib) (sender, bundle_id_for (blake3 c) packed) = None"
      "fmlookup (ib_done ib) (sender, bundle_id_for (blake3 c) packed) = None" "inbox_pending ib < maxOpenDecoders"
    and "\<forall>(t, i) \<in> set evs. t0 \<le> t \<and> t \<le> t0 + decoderTTL"
  shows "ib_engine (hear c A enc evs ib) =
    (if spans (blake3 c) enc ((of_nat \<circ> snd) ` set evs)
     then snd (snd (ap_apply A (bn_area b) (bn_records b) (ib_engine ib))) else ib_engine ib)"
proof -
  note enc = new_encoder_ok [OF assms(4)]
  have "bundle_unpack c packed (ib_dicts ib) = Inr b"
    using bundle_unpack_packed [OF assms(1,3,5,6)] assms(2) by simp
  moreover have "block_open (blake3 c) enc t0 {} ib"
    using enc(1,9,10) assms(7-9) by (intro fresh_open) simp_all
  ultimately show ?thesis using hear_open [OF assms(4) _ _ refl assms(10), where b = b and A = A and I = "{}"] by simp
qed

definition collect_applier :: "rec list applier" where
  "collect_applier = \<lparr>ap_receive = (\<lambda>_ _ _ e. (None, e)), ap_apply = (\<lambda>_ recs e. (length recs, None, e @ recs))\<rparr>"

lemma toy_packed:
  obtains packed enc where "bundle_pack toy_batch stored_dictionary = Inr packed"
    "new_encoder sender (bundle_id_for h packed) packed 1400 = Inr enc"
proof -
  obtain packed where packed: "bundle_pack toy_batch stored_dictionary = Inr packed"
    using toy_batch_wf by (auto simp: bundle_pack_def batch_wf_def encode_body_def Let_def bundle_consts)
  then have p: "packed = [BundleVersion, 0] @ append_uvarint (of_nat (length (body_bytes toy_batch))) @ 7 # body_bytes toy_batch"
    by (auto simp: bundle_pack_def body_bytes_def split: if_splits)
  have "length (body_bytes toy_batch) \<le> 8600"
  proof -
    have "record_wf toy_crypto (hd (bn_records toy_batch))" using toy_batch_wf by (simp add: batch_wf_def toy_batch_def)
    from frame_record_bound [OF this, of "origin_table (bn_records toy_batch)" 0] show ?thesis
      using append_uvarint_max [of 1]
      by (simp add: body_bytes_def encode_body_def toy_batch_def origin_table_def add_origin_def bundle_consts Let_def)
  qed
  then have "0 < length packed" "length packed \<le> 8700" using append_uvarint_max [of "of_nat (length (body_bytes toy_batch))"]
    by (simp_all add: p)
  then have "\<exists>enc. new_encoder sender (bundle_id_for h packed) packed 1400 = Inr enc"
    by (auto simp: new_encoder_def Let_def fountain_consts)
  then show thesis using that packed by blast
qed

theorem records_arrive_witness:
  "\<exists>packed enc evs. bundle_pack toy_batch stored_dictionary = Inr packed \<and>
     new_encoder (copy_array [9]) (bundle_id_for (blake3 toy_crypto) packed) packed 1400 = Inr enc \<and>
     ib_engine (hear toy_crypto collect_applier enc evs (new_inbox (fmupd 0 stored_dictionary fmempty) [])) =
       bn_records toy_batch"
proof -
  obtain packed enc where packed: "bundle_pack toy_batch stored_dictionary = Inr packed"
    and enc: "new_encoder (copy_array [9]) (bundle_id_for (blake3 toy_crypto) packed) packed 1400 = Inr enc"
    by (rule toy_packed)
  let ?evs = "map (\<lambda>i. (0 :: int, i)) [0..<en_k enc]" and ?ib = "new_inbox (fmupd 0 stored_dictionary fmempty) [] :: rec list inbox"
  have img: "(of_nat \<circ> snd) ` set ?evs = (of_nat ` {..<en_k enc} :: u16 set)"
    by (simp add: image_image lessThan_atLeast0)
  have sp: "spans (blake3 toy_crypto) enc ((of_nat \<circ> snd) ` set ?evs)"
    unfolding img by (rule spans_systematic [OF new_encoder_ok(1) [OF enc]])
  have dict: "dict_get (ib_dicts ?ib) (di_id stored_dictionary) = Inr stored_dictionary"
    by (simp add: dict_get_def new_inbox_def)
  have "ib_engine (hear toy_crypto collect_applier enc ?evs ?ib) =
    (if spans (blake3 toy_crypto) enc ((of_nat \<circ> snd) ` set ?evs)
     then snd (snd (ap_apply collect_applier (bn_area toy_batch) (bn_records toy_batch) (ib_engine ?ib))) else ib_engine ?ib)"
    by (rule records_arrive [OF toy_batch_wf toy_batch_small packed enc dict stored_recovers, where ?t0.0 = 0])
      (auto simp: new_inbox_def inbox_pending_def fcard.rep_eq bsmp_consts time_defs)
  then have "ib_engine (hear toy_crypto collect_applier enc ?evs ?ib) = bn_records toy_batch"
    using sp by (simp add: collect_applier_def new_inbox_def)
  then show ?thesis using packed enc by blast
qed

text \<open>
  C7. A transmission resumes where it stopped. However often \<open>SendRecords\<close> is called for the
  same records, and whatever the link answers each time (accepts, refuses for budget, fails), the
  frames the link accepts are the block's symbols in the order of their indices from the cursor
  on, none left out and none repeated, and never more than \<open>maxSymbolsPerBundle\<close> in all.
\<close>

theorem transmission_resumes:
  assumes "ob_link ob = logged send mtu bud"
    and "packed_for area recs (ob_dict ob) = Inr packed" "encoder_for h (ob_self ob) mtu packed = Inr enc"
    and "start = fmget (ob_cursor ob) (bundle_id_for h packed)" "start \<le> maxSymbolsPerBundle"
    and "ob' = ((\<lambda>o'. snd (send_records M h area recs o')) ^^ m) ob"
  shows "\<exists>n. start \<le> n \<and> n \<le> maxSymbolsPerBundle \<and> fmget (ob_cursor ob') (bundle_id_for h packed) = n \<and>
    snd (ob_state ob') = snd (ob_state ob) @ map (symbol_frame h enc) [start..<n]"
proof -
  have "\<exists>n. start \<le> n \<and> n \<le> maxSymbolsPerBundle \<and> fmget (ob_cursor ob') (bundle_id_for h packed) = n \<and>
      snd (ob_state ob') = snd (ob_state ob) @ map (symbol_frame h enc) [start..<n] \<and>
      ob_link ob' = ob_link ob \<and> ob_self ob' = ob_self ob \<and> ob_dict ob' = ob_dict ob"
    using assms(6)
  proof (induction m arbitrary: ob')
    case 0
    then show ?case using assms(4,5) by (intro exI [of _ start]) simp
  next
    case (Suc m)
    define ob1 where "ob1 = ((\<lambda>o'. snd (send_records M h area recs o')) ^^ m) ob"
    obtain n where n: "start \<le> n" "n \<le> maxSymbolsPerBundle" "n = fmget (ob_cursor ob1) (bundle_id_for h packed)"
      "snd (ob_state ob1) = snd (ob_state ob) @ map (symbol_frame h enc) [start..<n]"
      "ob_link ob1 = ob_link ob" "ob_self ob1 = ob_self ob" "ob_dict ob1 = ob_dict ob"
      using Suc.IH [OF ob1_def] by metis
    obtain n' ob2 where "snd (send_records M h area recs ob1) = ob2" "n \<le> n'" "n' \<le> maxSymbolsPerBundle"
      "ob_link ob2 = ob_link ob1" "ob_self ob2 = ob_self ob1" "ob_dict ob2 = ob_dict ob1"
      "fmget (ob_cursor ob2) (bundle_id_for h packed) = n'"
      "snd (ob_state ob2) = snd (ob_state ob1) @ map (symbol_frame h enc) [n..<n']"
      using n assms(1-3) send_records_logged [of ob1 send mtu bud area recs packed h enc n M thesis] by auto
    moreover have "[start..<n'] = [start..<n] @ [n..<n']"
      using n(1) \<open>n \<le> n'\<close> by (metis le_add_diff_inverse upt_add_eq_append)
    ultimately show ?case using n Suc.prems by (intro exI [of _ n']) (simp add: ob1_def)
  qed
  then show ?thesis by blast
qed

definition toy_math :: go_math where
  "toy_math = \<lparr>math_log = (\<lambda>x. x - 1), math_sqrt = (\<lambda>x. (x + 1) / 2)\<rparr>"

definition lossy_link :: "node_id \<Rightarrow> bytes \<Rightarrow> charge \<Rightarrow> nat \<Rightarrow> link_error option \<times> nat" where
  "lossy_link to frame ch l = (if even l then None else Some LinkNoBudget, l + 1)"

definition open_link :: "node_id \<Rightarrow> bytes \<Rightarrow> charge \<Rightarrow> nat \<Rightarrow> link_error option \<times> nat" where
  "open_link to frame ch l = (None, l)"

definition toy_outbox :: "(node_id \<Rightarrow> bytes \<Rightarrow> charge \<Rightarrow> nat \<Rightarrow> link_error option \<times> nat) \<Rightarrow> (nat \<times> bytes list) outbox" where
  "toy_outbox send = \<lparr>ob_self = copy_array [9],
     ob_link = logged send 1413 (\<lambda>_. \<lparr>bu_available = 0, bu_per_datagram = 0, bu_backpressure = False\<rparr>),
     ob_classify = (\<lambda>_. ClassForum), ob_allow_dms = None, ob_cursor = fmempty, ob_loss = 0, ob_dict = stored_dictionary,
     ob_stats = outbox_stats_zero, ob_state = (0, [])\<rparr>"

lemma toy_outbox_fields [simp]:
  "ob_self (toy_outbox send) = copy_array [9]" "ob_dict (toy_outbox send) = stored_dictionary"
  "ob_cursor (toy_outbox send) = fmempty" "ob_state (toy_outbox send) = (0, [])"
  "ob_link (toy_outbox send) = logged send 1413 (\<lambda>_. \<lparr>bu_available = 0, bu_per_datagram = 0, bu_backpressure = False\<rparr>)"
  "\<not> dm_blocked area (toy_outbox send)"
  by (simp_all add: toy_outbox_def dm_blocked_def class_consts)

lemma toy_sent:
  obtains packed enc where "packed_for (bn_area toy_batch) (bn_records toy_batch) stored_dictionary = Inr packed"
    "encoder_for h (copy_array [9]) 1413 packed = Inr enc"
proof -
  obtain packed enc where p: "bundle_pack toy_batch stored_dictionary = Inr packed"
    and e: "new_encoder (copy_array [9]) (bundle_id_for h packed) packed 1400 = Inr enc" by (rule toy_packed)
  have "toy_batch = \<lparr>bn_area = bn_area toy_batch, bn_base_ts = 0, bn_dict_id = di_id stored_dictionary, bn_records = bn_records toy_batch\<rparr>"
    by (simp add: toy_batch_def)
  then have "packed_for (bn_area toy_batch) (bn_records toy_batch) stored_dictionary = Inr packed"
    using p by (simp add: packed_for_def)
  then show thesis using that e by (simp add: encoder_for_def bsmp_consts fountain_consts)
qed

theorem transmission_resumes_witness:
  "\<exists>enc n. n \<le> maxSymbolsPerBundle \<and>
     snd (ob_state (((\<lambda>o'. snd (send_records toy_math (blake3 toy_crypto) (bn_area toy_batch) (bn_records toy_batch) o')) ^^ 5) (toy_outbox lossy_link))) =
       map (symbol_frame (blake3 toy_crypto) enc) [0..<n]"
proof -
  obtain packed enc where p: "packed_for (bn_area toy_batch) (bn_records toy_batch) (ob_dict (toy_outbox lossy_link)) = Inr packed"
    and e: "encoder_for (blake3 toy_crypto) (ob_self (toy_outbox lossy_link)) 1413 packed = Inr enc"
    using toy_sent [of "blake3 toy_crypto"] by auto
  have z: "0 = fmget (ob_cursor (toy_outbox lossy_link)) (bundle_id_for (blake3 toy_crypto) packed)" by simp
  show ?thesis using transmission_resumes [OF _ p e z _ refl, where M = toy_math and m = 5] by auto
qed

lemma pack_ignores_dict: "bundle_pack (b\<lparr>bn_dict_id := x\<rparr>) d = bundle_pack b d"
  by (simp add: bundle_pack_def encode_body_def Let_def)

lemma frame_index: "new_encoder sender bid packed symSize = Inr enc \<Longrightarrow>
    symbol_frame h enc i = symbol_frame h enc j \<Longrightarrow> (of_nat i :: u16) = of_nat j"
  using symbol_frame_read(4) [of sender bid packed symSize enc h i] symbol_frame_read(4) [of sender bid packed symSize enc h j]
  by (metis encoder_symbol_fields(2) sum.inject(2))

text \<open>
  C1. One call delivers. On a link that accepts everything, a node that sends a batch it never
  sent before, and a peer that hears the frames of that one call within six hours, in any order:
  the peer's engine is given exactly the area and the records that \<open>SendRecords\<close> was called with.
  Hypotheses: the batch is within the format and its body within the decompression limit, the peer
  holds the dictionary and its decoder gives back what was compressed up to that limit, and its
  inbox starts without this block and with room for one more.
\<close>

theorem clean_link_delivers:
  fixes b :: batch
  assumes "ob_link ob = logged send mtu bud" "\<forall>to f ch l. fst (send to f ch l) = None"
    and "b = \<lparr>bn_area = area, bn_base_ts = 0, bn_dict_id = 0, bn_records = recs\<rparr>"
      "batch_wf c b" "length (body_bytes b) \<le> MaxDecompressed"
    and "packed_for area recs (ob_dict ob) = Inr packed" "encoder_for (blake3 c) (ob_self ob) mtu packed = Inr enc"
    and "fmget (ob_cursor ob) (bundle_id_for (blake3 c) packed) = 0" "\<not> dm_blocked area ob"
    and "dict_get (ib_dicts ib) (di_id (ob_dict ob)) = Inr d'"
      "\<forall>x. length x \<le> MaxDecompressed \<longrightarrow> di_decode_all d' (di_compress (ob_dict ob) x) = Some x"
    and "fmlookup (ib_decoders ib) (ob_self ob, bundle_id_for (blake3 c) packed) = None"
      "fmlookup (ib_done ib) (ob_self ob, bundle_id_for (blake3 c) packed) = None" "inbox_pending ib < maxOpenDecoders"
    and "snd (ob_state (snd (send_records M (blake3 c) area recs ob))) = snd (ob_state ob) @ frames"
    and "snd ` set heard = set frames" "\<forall>(t, f) \<in> set heard. t0 \<le> t \<and> t \<le> t0 + decoderTTL"
  shows "ib_engine (fold (\<lambda>(t, f) ib. snd (inbox_deliver c A t \<lparr>dg_from = ob_self ob, dg_data = f\<rparr> ib)) heard ib) =
    snd (snd (ap_apply A area recs (ib_engine ib)))"
proof -
  let ?tot = "symbol_total M (en_k enc) (ob_loss ob) 0"
  note new = assms(7) [unfolded encoder_for_def]
  note enc = new_encoder_ok [OF new]
  have k: "en_k enc \<le> ?tot" using enc(1) symbol_total_bounds(3) by (simp add: encoder_ok_def fountain_consts)
  obtain n where "sent_upto (blake3 c) enc (bundle_id_for (blake3 c) packed) 0 n ob
      (snd (send_symbols (blake3 c) enc \<lparr>ch_class = ob_classify ob area, ch_area = area\<rparr> (bundle_id_for (blake3 c) packed) ?tot [0..<?tot] ob))"
    "n = ?tot"
    using send_symbols_logged [OF assms(1), of 0 ?tot] assms(2) by blast
  then have frames: "frames = map (symbol_frame (blake3 c) enc) [0..<?tot]"
    using send_records_cases [OF assms(6), of "blake3 c" enc 0 M] assms(1,7-9,15)
    by (simp add: sent_upto_def bsmp_consts fountain_consts)
  define idx where "idx f = (SOME i. i < ?tot \<and> symbol_frame (blake3 c) enc i = f)" for f
  have idx: "idx f < ?tot \<and> symbol_frame (blake3 c) enc (idx f) = f" if "f \<in> set frames" for f
    unfolding idx_def by (rule someI_ex) (use that in \<open>auto simp: frames\<close>)
  let ?evs = "map (\<lambda>(t, f). (t, idx f)) heard"
  have sub: "f \<in> set frames" if "(t, f) \<in> set heard" for t f using that assms(16) by force
  have "fold (\<lambda>(t, f) ib. snd (inbox_deliver c A t \<lparr>dg_from = ob_self ob, dg_data = f\<rparr> ib)) heard ib = hear c A enc ?evs ib"
    unfolding hear_def fold_map using sub idx enc(9)
    by (intro fold_cong refl) (auto simp: symbol_datagram_def fun_eq_iff)
  moreover have "(of_nat i :: u16) \<in> (of_nat \<circ> snd) ` set ?evs" if "i < ?tot" for i
  proof -
    have "symbol_frame (blake3 c) enc i \<in> set frames" using that by (simp add: frames)
    then obtain t where t: "(t, symbol_frame (blake3 c) enc i) \<in> set heard" using assms(16) by force
    then have "(of_nat (idx (symbol_frame (blake3 c) enc i)) :: u16) = of_nat i"
      using idx sub frame_index [OF new] by blast
    then show ?thesis using t by force
  qed
  then have "(of_nat ` {..<en_k enc} :: u16 set) \<subseteq> (of_nat \<circ> snd) ` set ?evs" using k by auto
  then have "spans (blake3 c) enc ((of_nat \<circ> snd) ` set ?evs)"
    by (rule spans_mono [OF spans_systematic [OF enc(1)]])
  moreover have "bundle_pack b (ob_dict ob) = Inr packed"
    using assms(6) pack_ignores_dict [where b = b and x = "di_id (ob_dict ob)" and d = "ob_dict ob"] by (simp add: packed_for_def assms(3))
  moreover have "bn_area b = area" "bn_records b = recs" by (simp_all add: assms(3))
  moreover have "bundle_unpack c packed (ib_dicts ib) = Inr b"
    using bundle_unpack_packed [OF assms(4) _ assms(10,11)] calculation(3) assms(5) by simp
  moreover have "block_open (blake3 c) enc t0 {} ib"
    using enc(1,9,10) assms(12-14) by (intro fresh_open) simp_all
  moreover have "\<forall>(t, i) \<in> set ?evs. t0 \<le> t \<and> t \<le> t0 + decoderTTL" using assms(17) by auto
  ultimately show ?thesis using hear_open [OF new _ _ refl, where b = b and A = A and I = "{}" and evs = ?evs] by simp
qed

theorem clean_link_delivers_witness:
  "ib_engine (fold (\<lambda>(t, f) ib. snd (inbox_deliver toy_crypto collect_applier t \<lparr>dg_from = copy_array [9], dg_data = f\<rparr> ib))
     (map (Pair 0) (snd (ob_state (snd (send_records toy_math (blake3 toy_crypto) (bn_area toy_batch) (bn_records toy_batch)
        (toy_outbox open_link))))))
     (new_inbox (fmupd 0 stored_dictionary fmempty) [])) = bn_records toy_batch"
proof -
  let ?ob = "toy_outbox open_link" and ?ib = "new_inbox (fmupd 0 stored_dictionary fmempty) [] :: rec list inbox"
  obtain packed enc where p: "packed_for (bn_area toy_batch) (bn_records toy_batch) (ob_dict ?ob) = Inr packed"
    and e: "encoder_for (blake3 toy_crypto) (ob_self ?ob) 1413 packed = Inr enc"
    using toy_sent [of "blake3 toy_crypto"] by auto
  have accepts: "\<forall>to f ch l. fst (open_link to f ch l) = None" by (simp add: open_link_def)
  have b: "toy_batch = \<lparr>bn_area = bn_area toy_batch, bn_base_ts = 0, bn_dict_id = 0, bn_records = bn_records toy_batch\<rparr>"
    by (simp add: toy_batch_def)
  have d: "dict_get (ib_dicts ?ib) (di_id (ob_dict ?ob)) = Inr stored_dictionary"
    by (simp add: dict_get_def new_inbox_def)
  show ?thesis
    using clean_link_delivers [OF toy_outbox_fields(5) accepts b toy_batch_wf toy_batch_small p e _ _ d _, where M = toy_math and A = collect_applier
        and heard = "map (Pair 0) (snd (ob_state (snd (send_records toy_math (blake3 toy_crypto) (bn_area toy_batch) (bn_records toy_batch) ?ob))))"
        and frames = "snd (ob_state (snd (send_records toy_math (blake3 toy_crypto) (bn_area toy_batch) (bn_records toy_batch) ?ob)))"
        and ?t0.0 = 0]
      stored_recovers
    by (simp add: new_inbox_def inbox_pending_def fcard.rep_eq collect_applier_def bsmp_consts time_defs image_image)
qed

end
