(* ===== verification/InsertionSort.thy ===== *)
theory InsertionSort
  imports "HOL-Library.Multiset"
begin

text \<open>
  The insertion sort the sources write out where a slice of a few elements has to be ordered
  (\<open>sortBindings\<close> of the mesh link, \<open>sortAreas\<close> of the carrier): for \<open>i\<close> from 1 on, the element at
  \<open>i\<close> moves down past every larger one. Shown: the loops compute the library's stable sort.
\<close>

fun sink :: "('a \<Rightarrow> 'k::linorder) \<Rightarrow> nat \<Rightarrow> 'a list \<Rightarrow> 'a list" where
  "sink key 0 b = b"
| "sink key (Suc j) b =
     (if key (b ! Suc j) < key (b ! j) then sink key j (b[Suc j := b ! j, j := b ! Suc j]) else b)"

definition insertion_sort :: "('a \<Rightarrow> 'k::linorder) \<Rightarrow> 'a list \<Rightarrow> 'a list" where
  "insertion_sort key b = fold (sink key) [1..<length b] b"

section \<open>The loops sort\<close>

lemma sink_places:
  assumes "sorted (map key xs)"
  shows "sink key (length xs) (xs @ x # ys) =
    takeWhile (\<lambda>y. key y \<le> key x) xs @ x # dropWhile (\<lambda>y. key y \<le> key x) xs @ ys"
  using assms
proof (induction xs arbitrary: ys rule: rev_induct)
  case (snoc z zs)
  let ?b = "(zs @ [z]) @ x # ys"
  have nth: "?b ! Suc (length zs) = x" "?b ! length zs = z" by (simp_all add: nth_append)
  have sorted: "sorted (map key zs)" "\<And>y. y \<in> set zs \<Longrightarrow> key y \<le> key z"
    using snoc.prems by (auto simp: sorted_append)
  show ?case
  proof (cases "key x < key z")
    case True
    then have swap: "sink key (length (zs @ [z])) ?b = sink key (length zs) (zs @ x # z # ys)"
      by (simp add: nth_append list_update_append)
    show ?thesis unfolding swap snoc.IH [OF sorted(1)] using True
      by (cases "\<forall>y \<in> set zs. key y \<le> key x")
        (auto simp: takeWhile_append dropWhile_append dropWhile_eq_Nil_conv [THEN iffD2] takeWhile_eq_all_conv [THEN iffD2])
  next
    case False
    then have "\<forall>y \<in> set (zs @ [z]). key y \<le> key x" using sorted(2) by fastforce
    then show ?thesis using False
      by (simp add: nth_append dropWhile_eq_Nil_conv [THEN iffD2] takeWhile_eq_all_conv [THEN iffD2])
  qed
qed simp

lemma place_sorted:
  "sort_key (key :: 'a \<Rightarrow> 'k::linorder) (xs @ [x]) = takeWhile (\<lambda>y. key y \<le> key x) (sort_key key xs) @ x #
     dropWhile (\<lambda>y. key y \<le> key x) (sort_key key xs)" (is "_ = ?T @ x # ?D")
proof (rule properties_for_sort_key)
  let ?S = "sort_key key xs"
  have S: "?T @ ?D = ?S" by simp
  have "mset ?T + mset ?D = mset xs" by (metis mset_append mset_sort takeWhile_dropWhile_id)
  then show "mset (?T @ x # ?D) = mset (xs @ [x])" by (simp add: ac_simps)
  have low: "\<forall>y \<in> set ?T. key y \<le> key x" by (auto dest: set_takeWhileD)
  have srt: "sorted (map key ?S)" by simp
  have "sorted (map key ?T)" "sorted (map key ?D)"
    using srt by (metis S map_append sorted_append)+
  moreover have high: "\<forall>y \<in> set ?D. key x < key y"
  proof (cases ?D)
    case (Cons d ds)
    then have "\<not> key d \<le> key x" by (metis hd_dropWhile list.sel(1) list.distinct(1))
    then show ?thesis using \<open>sorted (map key ?D)\<close> Cons by fastforce
  next
    case Nil
    show ?thesis unfolding Nil by simp
  qed
  ultimately show "sorted (map key (?T @ x # ?D))"
    using low by (fastforce simp: sorted_append)
  fix k assume "k \<in> set (?T @ x # ?D)"
  have "filter (\<lambda>y. key k = key y) ?S = filter (\<lambda>y. key k = key y) xs"
    using sort_key_stable [of key "key k" xs] by (simp add: eq_commute)
  then have "filter (\<lambda>y. key k = key y) ?T @ filter (\<lambda>y. key k = key y) ?D = filter (\<lambda>y. key k = key y) xs"
    using S by (metis filter_append)
  moreover have "filter (\<lambda>y. key k = key y) ?D = []" if "key k = key x"
    using high that by (auto simp: filter_empty_conv)
  ultimately show "filter (\<lambda>y. key k = key y) (?T @ x # ?D) = filter (\<lambda>y. key k = key y) (xs @ [x])"
    by (cases "key k = key x") simp_all
qed

lemma insertion_sort_eq: "insertion_sort key b = sort_key key b"
proof -
  have "fold (sink key) [1..<n] b = sort_key key (take n b) @ drop n b" if "n \<le> length b" "0 < n" for n
    using that
  proof (induction n)
    case (Suc n)
    show ?case
    proof (cases "n = 0")
      case True
      then show ?thesis using Suc.prems by (cases b) simp_all
    next
      case False
      have d: "drop n b = b ! n # drop (Suc n) b" using Suc.prems by (simp add: Cons_nth_drop_Suc)
      have len: "n = length (sort_key key (take n b))" using Suc.prems by simp
      have "fold (sink key) [1..<Suc n] b = sink key n (sort_key key (take n b) @ b ! n # drop (Suc n) b)"
        using Suc False d by simp
      also have "\<dots> = sort_key key (take n b @ [b ! n]) @ drop (Suc n) b"
        by (subst len, subst sink_places) (simp_all add: place_sorted)
      finally show ?thesis using Suc.prems by (simp add: take_Suc_conv_app_nth)
    qed
  qed simp
  then show ?thesis by (cases "b = []") (simp_all add: insertion_sort_def)
qed

end
