(* ===== verification/PeerTable.thy ===== *)
theory PeerTable
  imports Records Schedule GoMaps InsertionSort
begin

text \<open>
  How the mesh link names radios: the signed announcement and the who-is question of
  \<open>internal/meshlink/wire.go\<close>, and the table that binds node IDs to radio numbers with the rate
  limiter of \<open>peers.go\<close>. Instants are integers of nanoseconds. Shown: an announcement is accepted
  exactly when its key signed it for the radio it came from; the two maps of the table stay
  inverse to each other; a binding only moves forward in the peer's own time as long as it is
  kept, and what happens when it is not; a permitted question is never followed by another one
  to the same radio within the interval; the insertion sort of the status screen sorts.
\<close>

section \<open>Announcements\<close>

definition FrameAnnounce :: u8 where "FrameAnnounce = 3"
definition FrameWhoIs :: u8 where "FrameWhoIs = 4"

definition announceBodyLen :: nat where "announceBodyLen = 1 + PublicKeySize + 4 + 4"
definition announceLen :: nat where "announceLen = announceBodyLen + 64"
definition whoIsLen :: nat where "whoIsLen = 1 + 4"

lemmas announce_consts = FrameAnnounce_def FrameWhoIs_def announceBodyLen_def announceLen_def whoIsLen_def PublicKeySize_def

datatype announce_error =
    MalformedAnnounce nat
  | BadSignature
  | RadioMismatch u32 u32
  | StaleAnnounce
  | MalformedWhoIs nat

record announcement =
  an_id :: node_id
  an_key :: bytes
  an_radio :: u32
  an_at :: int

text \<open>\<open>at.Unix()\<close>, cut to 32 bits by the conversion.\<close>

definition unix_u32 :: "int \<Rightarrow> u32" where
  "unix_u32 tm = word_of_int (tm div time_second)"

definition encode_announce :: "crypto \<Rightarrow> node_key \<Rightarrow> u32 \<Rightarrow> int \<Rightarrow> bytes" where
  "encode_announce c key radio tm =
     (let buf = FrameAnnounce # nk_public key @ put_u32 radio @ put_u32 (unix_u32 tm)
      in buf @ node_key_sign c key buf)"

definition decode_announce :: "crypto \<Rightarrow> bytes \<Rightarrow> u32 \<Rightarrow> announce_error + announcement" where
  "decode_announce c payload sender =
     (if length payload \<noteq> announceLen \<or> payload ! 0 \<noteq> FrameAnnounce then Inl (MalformedAnnounce (length payload))
      else
        let body = take announceBodyLen payload; sig = drop announceBodyLen payload;
            pub = take PublicKeySize (drop 1 body)
        in if \<not> ed_verify c pub body sig then Inl BadSignature
           else let claimed = get_u32 (drop (1 + PublicKeySize) body)
             in if claimed \<noteq> sender then Inl (RadioMismatch claimed sender)
                else Inr \<lparr>an_id = node_id_from_public_key (blake3 c) pub, an_key = pub, an_radio = claimed,
                          an_at = uint (get_u32 (drop (1 + PublicKeySize + 4) body)) * time_second\<rparr>)"

definition encode_who_is :: "u32 \<Rightarrow> bytes" where
  "encode_who_is target = FrameWhoIs # put_u32 target"

definition decode_who_is :: "bytes \<Rightarrow> announce_error + u32" where
  "decode_who_is payload =
     (if length payload \<noteq> whoIsLen \<or> payload ! 0 \<noteq> FrameWhoIs then Inl (MalformedWhoIs (length payload))
      else Inr (get_u32 (drop 1 payload)))"

section \<open>The peer table\<close>

definition maxClockSkew :: int where "maxClockSkew = 24 * time_hour"

record binding =
  bd_radio :: u32
  bd_at :: int

record peer_table =
  pt_by_id :: "(node_id, binding) fmap"
  pt_by_radio :: "(u32, node_id) fmap"

definition new_peer_table :: peer_table where
  "new_peer_table = \<lparr>pt_by_id = fmempty, pt_by_radio = fmempty\<rparr>"

text \<open>From the check of the radio's previous holder on: whoever announced last owns the number.\<close>

definition pt_bind :: "announcement \<Rightarrow> peer_table \<Rightarrow> peer_table" where
  "pt_bind a t =
     (let t1 = (case fmlookup (pt_by_radio t) (an_radio a) of
                  Some prev \<Rightarrow> if prev \<noteq> an_id a then t\<lparr>pt_by_id := fmdrop prev (pt_by_id t)\<rparr> else t
                | None \<Rightarrow> t)
      in t1\<lparr>pt_by_id := fmupd (an_id a) \<lparr>bd_radio = an_radio a, bd_at = an_at a\<rparr> (pt_by_id t1),
            pt_by_radio := fmupd (an_radio a) (an_id a) (pt_by_radio t1)\<rparr>)"

definition pt_learn :: "announcement \<Rightarrow> int \<Rightarrow> peer_table \<Rightarrow> announce_error option \<times> peer_table" where
  "pt_learn a now t =
     (if an_at a > now + maxClockSkew then (Some StaleAnnounce, t)
      else case fmlookup (pt_by_id t) (an_id a) of
             Some old \<Rightarrow>
               if \<not> an_at a > bd_at old then (Some StaleAnnounce, t)
               else (None, pt_bind a (t\<lparr>pt_by_radio := fmdrop (bd_radio old) (pt_by_radio t)\<rparr>))
           | None \<Rightarrow> (None, pt_bind a t))"

definition radio_for :: "node_id \<Rightarrow> peer_table \<Rightarrow> u32 option" where
  "radio_for i t = map_option bd_radio (fmlookup (pt_by_id t) i)"

definition id_for :: "u32 \<Rightarrow> peer_table \<Rightarrow> node_id option" where
  "id_for radio t = fmlookup (pt_by_radio t) radio"

section \<open>The status screen\<close>

record binding_row =
  br_id :: node_id
  br_radio :: u32
  br_announced :: int

text \<open>\<open>sortBindings\<close>, the insertion sort by node ID.\<close>

definition sort_bindings :: "binding_row list \<Rightarrow> binding_row list" where
  "sort_bindings b = insertion_sort br_id b"

definition pt_bindings :: "peer_table \<Rightarrow> binding_row list" where
  "pt_bindings t = sort_bindings
     (map (\<lambda>(i, b). \<lparr>br_id = i, br_radio = bd_radio b, br_announced = bd_at b\<rparr>) (fmap_items (pt_by_id t)))"

section \<open>The rate of questions\<close>

record ask_rate =
  ar_last :: "(u32, int) fmap"
  ar_every :: int

definition new_ask_rate :: "int \<Rightarrow> ask_rate" where
  "new_ask_rate every = \<lparr>ar_last = fmempty, ar_every = every\<rparr>"

definition ar_allow :: "u32 \<Rightarrow> int \<Rightarrow> ask_rate \<Rightarrow> bool \<times> ask_rate" where
  "ar_allow radio now r =
     (if (case fmlookup (ar_last r) radio of Some prev \<Rightarrow> now - prev < ar_every r | None \<Rightarrow> False) then (False, r)
      else (True, r\<lparr>ar_last := fmupd radio now (ar_last r)\<rparr>))"

section \<open>Announcements on the wire\<close>

lemma announce_layout:
  assumes "length b = announceLen"
  shows "b = b ! 0 # take 32 (drop 1 b) @ take 4 (drop 33 b) @ take 4 (drop 37 b) @ drop 41 b"
proof -
  have b: "b = b ! 0 # drop 1 b" using assms by (cases b) (simp_all add: announce_consts)
  have "drop 1 b = take 32 (drop 1 b) @ take 4 (drop 33 b) @ take 4 (drop 37 b) @ drop 41 b"
    using append_take_drop_id [of 32 "drop 1 b"] append_take_drop_id [of 4 "drop 33 b"] append_take_drop_id [of 4 "drop 37 b"]
    by (simp add: add.commute)
  then show ?thesis using b by simp
qed

lemma announce_parts:
  assumes "length pub = 32" and "length sig = 64"
  shows "length (FrameAnnounce # pub @ put_u32 r @ put_u32 s @ sig) = announceLen"
    "take announceBodyLen (FrameAnnounce # pub @ put_u32 r @ put_u32 s @ sig) = FrameAnnounce # pub @ put_u32 r @ put_u32 s"
    "drop announceBodyLen (FrameAnnounce # pub @ put_u32 r @ put_u32 s @ sig) = sig"
  using assms by (simp_all add: announce_consts)

lemma decode_announce_written:
  assumes "length pub = 32" and "length sig = 64"
  shows "decode_announce c (FrameAnnounce # pub @ put_u32 r @ put_u32 s @ sig) sender =
    (if \<not> ed_verify c pub (FrameAnnounce # pub @ put_u32 r @ put_u32 s) sig then Inl BadSignature
     else if r \<noteq> sender then Inl (RadioMismatch r sender)
     else Inr \<lparr>an_id = node_id_from_public_key (blake3 c) pub, an_key = pub, an_radio = r, an_at = uint s * time_second\<rparr>)"
proof -
  have g: "get_u32 (put_u32 r @ put_u32 s) = r" "get_u32 (put_u32 s) = s"
    using get_put_u32 [of r] get_put_u32 [of s "[]"] by simp_all
  show ?thesis
    unfolding decode_announce_def Let_def announce_parts [OF assms]
    using assms g by (simp add: PublicKeySize_def)
qed

lemma decode_announce_iff:
  "decode_announce c b sender = Inr a \<longleftrightarrow>
     (\<exists>s sig. b = FrameAnnounce # an_key a @ put_u32 sender @ put_u32 s @ sig \<and> length (an_key a) = 32 \<and> length sig = 64 \<and>
        ed_verify c (an_key a) (FrameAnnounce # an_key a @ put_u32 sender @ put_u32 s) sig \<and>
        a = \<lparr>an_id = node_id_from_public_key (blake3 c) (an_key a), an_key = an_key a, an_radio = sender,
             an_at = uint s * time_second\<rparr>)" (is "_ \<longleftrightarrow> ?R")
proof
  assume "?R"
  then obtain s sig where b: "b = FrameAnnounce # an_key a @ put_u32 sender @ put_u32 s @ sig"
    and l: "length (an_key a) = 32" "length sig = 64"
    and rest: "ed_verify c (an_key a) (FrameAnnounce # an_key a @ put_u32 sender @ put_u32 s) sig"
      "a = \<lparr>an_id = node_id_from_public_key (blake3 c) (an_key a), an_key = an_key a, an_radio = sender,
             an_at = uint s * time_second\<rparr>" by blast
  show "decode_announce c b sender = Inr a"
    unfolding b decode_announce_written [OF l] using rest by simp
next
  assume dec: "decode_announce c b sender = Inr a"
  then have len: "length b = announceLen" and hd: "b ! 0 = FrameAnnounce"
    by (auto simp: decode_announce_def split: if_splits)
  define pub r s sig where "pub = take 32 (drop 1 b)" and "r = get_u32 (take 4 (drop 33 b))"
    and "s = get_u32 (take 4 (drop 37 b))" and "sig = drop 41 b"
  have "length (take 4 (drop 33 b)) = 4" "length (take 4 (drop 37 b)) = 4"
    using len by (simp_all add: announce_consts)
  then have put: "put_u32 r = take 4 (drop 33 b)" "put_u32 s = take 4 (drop 37 b)"
    unfolding r_def s_def by (simp_all only: put_get_u32)
  have b: "b = FrameAnnounce # pub @ put_u32 r @ put_u32 s @ sig"
    using announce_layout [OF len] unfolding hd put pub_def sig_def .
  have l: "length pub = 32" "length sig = 64" using len by (simp_all add: pub_def sig_def announce_consts)
  show ?R
    using dec unfolding b decode_announce_written [OF l] using l by (auto split: if_splits)
qed

section \<open>The table stays consistent\<close>

definition pt_ok :: "peer_table \<Rightarrow> bool" where
  "pt_ok t \<longleftrightarrow> (\<forall>i r. radio_for i t = Some r \<longleftrightarrow> id_for r t = Some i)"

definition pt_run :: "(announcement \<times> int) list \<Rightarrow> peer_table \<Rightarrow> peer_table" where
  "pt_run evs t = fold (\<lambda>(a, now) t. snd (pt_learn a now t)) evs t"

lemma pt_run_simps [simp]:
  "pt_run [] t = t" "pt_run ((a, now) # evs) t = pt_run evs (snd (pt_learn a now t))"
  "pt_run (xs @ ys) t = pt_run ys (pt_run xs t)"
  by (simp_all add: pt_run_def)

lemma pt_ok_new: "pt_ok new_peer_table"
  by (simp add: pt_ok_def radio_for_def id_for_def new_peer_table_def)

lemma pt_okD:
  assumes "pt_ok t"
  shows "fmlookup (pt_by_radio t) r = Some i \<Longrightarrow> \<exists>b. fmlookup (pt_by_id t) i = Some b \<and> bd_radio b = r"
    and "fmlookup (pt_by_id t) i = Some b \<Longrightarrow> fmlookup (pt_by_radio t) (bd_radio b) = Some i"
  using assms by (auto simp: pt_ok_def radio_for_def id_for_def)

lemma pt_okI:
  assumes "\<And>r i. fmlookup (pt_by_radio t) r = Some i \<Longrightarrow> \<exists>b. fmlookup (pt_by_id t) i = Some b \<and> bd_radio b = r"
    and "\<And>i b. fmlookup (pt_by_id t) i = Some b \<Longrightarrow> fmlookup (pt_by_radio t) (bd_radio b) = Some i"
  shows "pt_ok t"
  unfolding pt_ok_def radio_for_def id_for_def
proof (intro allI iffI)
  fix i r
  show "map_option bd_radio (fmlookup (pt_by_id t) i) = Some r \<Longrightarrow> fmlookup (pt_by_radio t) r = Some i"
    using assms(2) [of i] by auto
  show "fmlookup (pt_by_radio t) r = Some i \<Longrightarrow> map_option bd_radio (fmlookup (pt_by_id t) i) = Some r"
    using assms(1) [of r i] by auto
qed

text \<open>What \<open>pt_bind\<close> leaves of both maps, whether or not the number had a holder.\<close>

lemma pt_bind_lookup:
  "fmlookup (pt_by_id (pt_bind a t)) i =
     (if i = an_id a then Some \<lparr>bd_radio = an_radio a, bd_at = an_at a\<rparr>
      else if fmlookup (pt_by_radio t) (an_radio a) = Some i then None else fmlookup (pt_by_id t) i)"
  "fmlookup (pt_by_radio (pt_bind a t)) r = (if r = an_radio a then Some (an_id a) else fmlookup (pt_by_radio t) r)"
  by (auto simp: pt_bind_def Let_def split: option.splits)

lemma pt_learn_ok:
  assumes "pt_ok t"
  shows "pt_ok (snd (pt_learn a now t))"
proof (cases "pt_learn a now t")
  case (Pair err t')
  show ?thesis
  proof (cases "an_at a > now + maxClockSkew \<or> (\<exists>old. fmlookup (pt_by_id t) (an_id a) = Some old \<and> \<not> an_at a > bd_at old)")
    case True
    then have "t' = t" using Pair by (auto simp: pt_learn_def split: if_splits option.splits)
    then show ?thesis using assms Pair by simp
  next
    case False
    note D = pt_okD [OF assms]
    define t0 where "t0 = (case fmlookup (pt_by_id t) (an_id a) of
        Some old \<Rightarrow> t\<lparr>pt_by_radio := fmdrop (bd_radio old) (pt_by_radio t)\<rparr> | None \<Rightarrow> t)"
    have t': "t' = pt_bind a t0"
      using Pair False by (auto simp: pt_learn_def t0_def split: if_splits option.splits)
    have id0: "pt_by_id t0 = pt_by_id t" by (simp add: t0_def split: option.split)
    have radio0: "fmlookup (pt_by_radio t0) r = Some i \<longleftrightarrow> fmlookup (pt_by_radio t) r = Some i \<and> i \<noteq> an_id a" for r i
      using D(1) [of r i] D(2) [of "an_id a"] by (auto simp: t0_def split: option.split)
    have "pt_ok t'"
    proof (rule pt_okI)
      fix r i
      assume "fmlookup (pt_by_radio t') r = Some i"
      then show "\<exists>b. fmlookup (pt_by_id t') i = Some b \<and> bd_radio b = r"
        using D(1) [of r i] unfolding t' pt_bind_lookup id0 by (auto simp: radio0 split: if_splits dest: D(1))
    next
      fix i b
      assume "fmlookup (pt_by_id t') i = Some b"
      then show "fmlookup (pt_by_radio t') (bd_radio b) = Some i"
        using D(2) [of i b] unfolding t' pt_bind_lookup id0 by (auto simp: radio0 split: if_splits)
    qed
    then show ?thesis using Pair by simp
  qed
qed

lemma pt_run_ok: "pt_ok t \<Longrightarrow> pt_ok (pt_run evs t)"
  by (induction evs arbitrary: t) (auto simp: pt_learn_ok)

lemma pt_run_source:
  assumes "fmlookup (pt_by_id (pt_run evs new_peer_table)) i = Some b"
  shows "\<exists>(a, now) \<in> set evs. an_id a = i \<and> an_radio a = bd_radio b \<and> an_at a = bd_at b \<and> an_at a \<le> now + maxClockSkew"
  using assms
proof (induction evs rule: rev_induct)
  case Nil
  then show ?case by (simp add: new_peer_table_def)
next
  case (snoc x evs)
  obtain a now where x: "x = (a, now)" by (cases x)
  let ?t = "pt_run evs new_peer_table"
  consider "fmlookup (pt_by_id ?t) i = Some b"
    | "i = an_id a" "b = \<lparr>bd_radio = an_radio a, bd_at = an_at a\<rparr>" "an_at a \<le> now + maxClockSkew"
    using snoc.prems unfolding x by (auto simp: pt_learn_def pt_bind_lookup split: if_splits option.splits)
  then show ?case by cases (use snoc.IH x in auto)
qed

text \<open>What one announcement does to the binding of any node.\<close>

lemma pt_learn_moves:
  assumes "fmlookup (pt_by_id t) i = Some b" and "fmlookup (pt_by_id (snd (pt_learn a now t))) i = Some b'"
  shows "b' = b \<or> bd_at b < bd_at b'"
  using assms by (auto simp: pt_learn_def pt_bind_lookup split: if_splits option.splits)

lemma pt_run_moves:
  assumes "fmlookup (pt_by_id t) i = Some b"
    and "\<And>k. k \<le> length later \<Longrightarrow> fmlookup (pt_by_id (pt_run (take k later) t)) i \<noteq> None"
    and "fmlookup (pt_by_id (pt_run later t)) i = Some b'"
  shows "b' = b \<or> bd_at b < bd_at b'"
  using assms
proof (induction later arbitrary: t b)
  case (Cons x later)
  obtain a now where x: "x = (a, now)" by (cases x)
  let ?t = "snd (pt_learn a now t)"
  obtain b1 where b1: "fmlookup (pt_by_id ?t) i = Some b1"
    using Cons.prems(2) [of 1] by (auto simp: x)
  have "b' = b1 \<or> bd_at b1 < bd_at b'"
  proof (rule Cons.IH [OF b1])
    show "fmlookup (pt_by_id (pt_run (take k later) ?t)) i \<noteq> None" if "k \<le> length later" for k
      using Cons.prems(2) [of "Suc k"] that by (simp add: x)
    show "fmlookup (pt_by_id (pt_run later ?t)) i = Some b'" using Cons.prems(3) by (simp add: x)
  qed
  then show ?case using pt_learn_moves [OF Cons.prems(1) b1] by auto
qed simp

section \<open>The interval between questions\<close>

definition ask_run :: "(u32 \<times> int) list \<Rightarrow> ask_rate \<Rightarrow> ask_rate" where
  "ask_run evs r = fold (\<lambda>(radio, now) r. snd (ar_allow radio now r)) evs r"

text \<open>The times at which questions to one radio were permitted.\<close>

fun ask_grants :: "u32 \<Rightarrow> (u32 \<times> int) list \<Rightarrow> ask_rate \<Rightarrow> int list" where
  "ask_grants radio [] r = []"
| "ask_grants radio ((x, now) # evs) r =
     (if fst (ar_allow x now r) \<and> x = radio then [now] else []) @ ask_grants radio evs (snd (ar_allow x now r))"

lemma ask_grants_spaced:
  "successively (\<lambda>p q. ar_every r \<le> q - p) ((case fmlookup (ar_last r) radio of Some p \<Rightarrow> [p] | None \<Rightarrow> []) @ ask_grants radio evs r)"
proof (induction evs arbitrary: r)
  case Nil
  then show ?case by (simp split: option.split)
next
  case (Cons e evs)
  obtain x now where e: "e = (x, now)" by (cases e)
  note IH = Cons.IH [of "snd (ar_allow x now r)"]
  have every: "ar_every (snd (ar_allow x now r)) = ar_every r" by (simp add: ar_allow_def)
  show ?case using IH unfolding every
    by (auto simp: e ar_allow_def successively_Cons split: option.splits if_splits)
qed

section \<open>Properties\<close>

text \<open>
  A received payload is an announcement of a radio exactly when it is 105 bytes, starts with
  the frame type, names that radio, and carries a signature of all of it by the key it holds;
  the ID is then the hash of that key. In particular nothing signed for another radio passes.
\<close>

theorem announce_accepted_exactly:
  "decode_announce c b sender = Inr a \<longleftrightarrow>
     (\<exists>s sig. b = FrameAnnounce # an_key a @ put_u32 sender @ put_u32 s @ sig \<and> length (an_key a) = 32 \<and> length sig = 64 \<and>
        ed_verify c (an_key a) (FrameAnnounce # an_key a @ put_u32 sender @ put_u32 s) sig \<and>
        a = \<lparr>an_id = node_id_from_public_key (blake3 c) (an_key a), an_key = an_key a, an_radio = sender,
             an_at = uint s * time_second\<rparr>)"
  by (rule decode_announce_iff)

lemma announce_written:
  assumes "length (nk_public key) = 32" and "\<And>m. length (node_key_sign c key m) = 64"
    and "\<And>m. ed_verify c (nk_public key) m (node_key_sign c key m)"
    and "0 \<le> tm" and "tm < 2 ^ 32 * time_second"
  shows "decode_announce c (encode_announce c key radio tm) sender =
    (if radio = sender then Inr \<lparr>an_id = node_key_id c key, an_key = nk_public key, an_radio = radio,
       an_at = tm - tm mod time_second\<rparr> else Inl (RadioMismatch radio sender))"
proof -
  have "uint (unix_u32 tm) * time_second = tm - tm mod time_second"
  proof -
    have "0 \<le> tm div time_second" "tm div time_second < 2 ^ 32"
      using assms(4, 5) by (simp_all add: time_second_def pos_imp_zdiv_nonneg_iff)
    then have "uint (unix_u32 tm) = tm div time_second"
      by (simp add: unix_u32_def uint_word_of_int)
    then show ?thesis by (simp add: minus_mod_eq_div_mult)
  qed
  moreover have "encode_announce c key radio tm = FrameAnnounce # nk_public key @ put_u32 radio @ put_u32 (unix_u32 tm) @
      node_key_sign c key (FrameAnnounce # nk_public key @ put_u32 radio @ put_u32 (unix_u32 tm))"
    by (simp add: encode_announce_def Let_def)
  ultimately show ?thesis
    using decode_announce_written [OF assms(1, 2)] assms(3) by (simp add: node_key_id_def)
qed

text \<open>
  What a node announces is learned from the radio it announced, with its own ID, the key
  and the second it was made, and from no other radio. The signature scheme has to verify its
  own signatures, and the clock to be within the 32-bit range of seconds.
\<close>

theorem announce_round_trip:
  assumes "length (nk_public key) = 32" and "\<And>m. length (node_key_sign c key m) = 64"
    and "\<And>m. ed_verify c (nk_public key) m (node_key_sign c key m)"
    and "0 \<le> tm" and "tm < 2 ^ 32 * time_second"
  shows "decode_announce c (encode_announce c key radio tm) sender =
    (if radio = sender then Inr \<lparr>an_id = node_key_id c key, an_key = nk_public key, an_radio = radio,
       an_at = tm - tm mod time_second\<rparr> else Inl (RadioMismatch radio sender))"
  using announce_written [OF assms] .

lemma toy_signs:
  "length (nk_public toy_key) = 32" "length (node_key_sign toy_crypto toy_key m) = 64"
  "ed_verify toy_crypto (nk_public toy_key) m (node_key_sign toy_crypto toy_key m)"
  by (simp_all add: toy_key_def toy_crypto_def node_key_sign_def)

theorem announce_round_trip_witness:
  "decode_announce toy_crypto (encode_announce toy_crypto toy_key 7 1500000000) 7 =
     Inr \<lparr>an_id = node_key_id toy_crypto toy_key, an_key = nk_public toy_key, an_radio = 7, an_at = 1000000000\<rparr>"
  using announce_round_trip [of toy_key toy_crypto 1500000000 7 7, OF toy_signs]
  by (simp add: time_second_def)

text \<open>
  Whatever announcements arrive, in whatever order and at whatever times, a node ID is bound
  to a radio exactly when the radio is bound to that ID, and every binding repeats an
  announcement that arrived and was not dated more than a day ahead.
\<close>

theorem peer_table_consistent:
  "(radio_for i (pt_run evs new_peer_table) = Some r \<longleftrightarrow> id_for r (pt_run evs new_peer_table) = Some i) \<and>
   (radio_for i (pt_run evs new_peer_table) = Some r \<longrightarrow>
      (\<exists>(a, now) \<in> set evs. an_id a = i \<and> an_radio a = r \<and> an_at a \<le> now + maxClockSkew))"
proof
  show "radio_for i (pt_run evs new_peer_table) = Some r \<longleftrightarrow> id_for r (pt_run evs new_peer_table) = Some i"
    using pt_run_ok [OF pt_ok_new] unfolding pt_ok_def by blast
  show "radio_for i (pt_run evs new_peer_table) = Some r \<longrightarrow>
      (\<exists>(a, now) \<in> set evs. an_id a = i \<and> an_radio a = r \<and> an_at a \<le> now + maxClockSkew)"
    using pt_run_source unfolding radio_for_def by fastforce
qed

definition toy_announce :: "byte \<Rightarrow> u32 \<Rightarrow> int \<Rightarrow> announcement" where
  "toy_announce i r tm = \<lparr>an_id = copy_array [i], an_key = replicate 32 i, an_radio = r, an_at = tm\<rparr>"

lemma toy_announce_sel [simp]:
  "an_id (toy_announce i r tm) = copy_array [i]" "an_radio (toy_announce i r tm) = r" "an_at (toy_announce i r tm) = tm"
  by (simp_all add: toy_announce_def)

lemma toy_node_ids: "(copy_array [1] :: node_id) \<noteq> copy_array [2]"
  by (simp add: array_eq_iff)

lemma toy_bound: "radio_for (copy_array [1]) (pt_run [(toy_announce 1 4 9, 0)] new_peer_table) = Some 4"
  by (simp add: radio_for_def pt_learn_def pt_bind_def new_peer_table_def maxClockSkew_def time_defs)

theorem peer_table_consistent_witness:
  "id_for 4 (pt_run [(toy_announce 1 4 9, 0)] new_peer_table) = Some (copy_array [1])"
  using peer_table_consistent [THEN conjunct1, THEN iffD1, OF toy_bound] .

text \<open>
  As long as a node stays bound, its binding only moves forward in its own time: an older or
  equal announcement, replayed or reordered, never changes it.
\<close>

theorem binding_moves_forward:
  assumes "fmlookup (pt_by_id t) i = Some b"
    and "\<And>k. k \<le> length later \<Longrightarrow> fmlookup (pt_by_id (pt_run (take k later) t)) i \<noteq> None"
    and "fmlookup (pt_by_id (pt_run later t)) i = Some b'"
  shows "b' = b \<or> bd_at b < bd_at b'"
  using pt_run_moves [OF assms] .

theorem binding_moves_forward_witness:
  "\<lparr>bd_radio = 5, bd_at = 20\<rparr> = \<lparr>bd_radio = 4, bd_at = 9\<rparr> \<or> (9 :: int) < 20"
proof -
  let ?t = "pt_run [(toy_announce 1 4 9, 0)] new_peer_table"
  let ?later = "[(toy_announce 1 5 20, 0), (toy_announce 1 4 9, 0)]"
  note eval = pt_learn_def pt_bind_def new_peer_table_def maxClockSkew_def time_defs
  have bound: "fmlookup (pt_by_id (pt_run (take k ?later) ?t)) (copy_array [1]) \<noteq> None" if "k \<le> length ?later" for k
  proof -
    have "k = 0 \<or> k = 1 \<or> k = 2" using that by auto
    then show ?thesis by (elim disjE) (simp_all add: eval)
  qed
  have "\<lparr>bd_radio = 5, bd_at = 20\<rparr> = \<lparr>bd_radio = 4, bd_at = 9\<rparr> \<or>
      bd_at \<lparr>bd_radio = 4, bd_at = 9\<rparr> < bd_at \<lparr>bd_radio = 5, bd_at = 20\<rparr>"
    by (rule binding_moves_forward [where t = ?t and later = ?later and i = "copy_array [1]"])
      (use bound in \<open>simp_all add: eval\<close>)
  then show ?thesis by simp
qed

text \<open>
  A binding is forgotten, timestamp included, when another node announces the same radio.
  After that the displaced peer's old announcements are accepted again: a replay moves it back
  to a radio it had left, which the comment on the table says cannot happen.
\<close>

theorem displaced_peer_replayed:
  assumes "an_id old = v" and "an_id recent = v" and "an_id e \<noteq> v"
    and "an_at old < an_at recent" and "an_radio old \<noteq> an_radio recent" and "an_radio e = an_radio recent"
    and "an_at recent \<le> now + maxClockSkew" and "an_at e \<le> now + maxClockSkew"
  shows "radio_for v (pt_run [(old, now), (recent, now), (old, now)] new_peer_table) = Some (an_radio recent) \<and>
    radio_for v (pt_run [(old, now), (recent, now), (e, now), (old, now)] new_peer_table) = Some (an_radio old)"
  using assms by (simp_all add: radio_for_def pt_learn_def pt_bind_def new_peer_table_def)

theorem displaced_peer_replayed_witness:
  "radio_for (copy_array [1]) (pt_run [(toy_announce 1 4 9, 0), (toy_announce 1 5 20, 0), (toy_announce 2 5 3, 0),
     (toy_announce 1 4 9, 0)] new_peer_table) = Some 4"
  using displaced_peer_replayed [of "toy_announce 1 4 9" "copy_array [1]" "toy_announce 1 5 20" "toy_announce 2 5 3" 0]
    toy_node_ids by (simp add: maxClockSkew_def time_defs eq_commute)

text \<open>
  The insertion sort of the status screen is a stable sort by node ID, so the listing is in
  ascending order whatever order the map is walked in.
\<close>

theorem sort_bindings_sorts: "sort_bindings b = sort_key br_id b"
  by (simp add: sort_bindings_def insertion_sort_eq)

text \<open>
  Whatever radios are asked about and when, two questions to the same radio that follow each
  other are at least the interval apart.
\<close>

theorem ask_rate_spaced:
  "successively (\<lambda>p q. every \<le> q - p) (ask_grants radio evs (new_ask_rate every))"
  using ask_grants_spaced [of "new_ask_rate every" radio evs] by (simp add: new_ask_rate_def)

end
