(* ===== verification/FrameStream.thy ===== *)
theory FrameStream
  imports Prelude
begin

text \<open>
  The byte stream of a local radio, \<open>internal/meshtastic/frame.go\<close>: frames of at most 512 bytes
  between device output that is not framed at all. A reader holds the bytes the stream still
  has to give and how it ends; the log sink is the list of lines it was given. Shown: frames are
  read back whatever noise lies between them, as long as the noise does not itself look like a
  header; every byte consumed is accounted for; what reaches the sysop's terminal is bounded and
  free of ASCII controls (\<open>device_log_clean\<close> of \<open>RadioConfig\<close>).
\<close>

section \<open>Frames\<close>

definition start1 :: byte where "start1 = 0x94"
definition start2 :: byte where "start2 = 0xC3"
definition headerLen :: nat where "headerLen = 4"
definition MaxFrame :: nat where "MaxFrame = 512"
definition maxLogLine :: nat where "maxLogLine = 512"

lemmas frame_consts = start1_def start2_def headerLen_def MaxFrame_def maxLogLine_def

datatype frame_error = FrameTooLarge nat | EndOfFile | UnexpectedEOF | ReadFailed

definition append_frame :: "bytes \<Rightarrow> bytes \<Rightarrow> frame_error + bytes" where
  "append_frame dst payload =
     (if length payload > MaxFrame then Inl (FrameTooLarge (length payload))
      else Inr (dst @ [start1, start2, of_nat (length payload div 256), of_nat (length payload)] @ payload))"

section \<open>The reader\<close>

datatype stream_end = AtEOF | AtFailure

record frame_reader =
  fr_in :: bytes
  fr_end :: stream_end
  fr_skipped :: nat
  fr_frames :: nat
  fr_sink :: bool
  fr_line :: bytes
  fr_log :: "bytes list"

definition new_frame_reader :: "bytes \<Rightarrow> stream_end \<Rightarrow> bool \<Rightarrow> frame_reader" where
  "new_frame_reader stream e sink = \<lparr>fr_in = stream, fr_end = e, fr_skipped = 0, fr_frames = 0, fr_sink = sink,
     fr_line = [], fr_log = []\<rparr>"

definition sanitise :: "byte \<Rightarrow> byte" where
  "sanitise b = (if b < 0x20 \<or> b = 0x7f then 46 else b)"

definition sanitise_text :: "bytes \<Rightarrow> bytes" where
  "sanitise_text s = (if \<not> list_ex (\<lambda>b. b < 0x20 \<or> b = 0x7f) s then s else map sanitise s)"

definition flush_line :: "frame_reader \<Rightarrow> frame_reader" where
  "flush_line fr =
     (if \<not> fr_sink fr \<or> length (fr_line fr) = 0 then fr else fr\<lparr>fr_log := fr_log fr @ [fr_line fr], fr_line := []\<rparr>)"

definition log_byte :: "byte \<Rightarrow> frame_reader \<Rightarrow> frame_reader" where
  "log_byte b fr =
     (if \<not> fr_sink fr then fr
      else if b = 10 then flush_line fr
      else if b = 13 then fr
      else if length (fr_line fr) < maxLogLine then fr\<lparr>fr_line := fr_line fr @ [sanitise b]\<rparr>
      else fr)"

definition skip_byte :: "frame_reader \<Rightarrow> frame_reader" where
  "skip_byte fr =
     (case fr_in fr of
        [] \<Rightarrow> fr
      | b # bs \<Rightarrow> log_byte b (fr\<lparr>fr_in := bs, fr_skipped := fr_skipped fr + 1\<rparr>))"

definition end_error :: "stream_end \<Rightarrow> frame_error" where
  "end_error e = (case e of AtEOF \<Rightarrow> EndOfFile | AtFailure \<Rightarrow> ReadFailed)"

text \<open>\<open>io.ReadFull\<close> into a buffer of \<open>n\<close> bytes after the header, and what \<open>ReadFrame\<close> makes of it.\<close>

definition read_payload :: "nat \<Rightarrow> frame_reader \<Rightarrow> (frame_error + bytes) \<times> frame_reader" where
  "read_payload n fr =
     (if length (fr_in fr) < n then
        (Inl (case fr_end fr of AtEOF \<Rightarrow> UnexpectedEOF | AtFailure \<Rightarrow> ReadFailed), fr\<lparr>fr_in := []\<rparr>)
      else (Inr (take n (fr_in fr)), fr\<lparr>fr_in := drop n (fr_in fr), fr_frames := fr_frames fr + 1\<rparr>))"

lemma skip_byte_in [simp]: "fr_in (skip_byte fr) = tl (fr_in fr)"
  by (simp add: skip_byte_def log_byte_def flush_line_def split: list.split)

text \<open>The loop of \<open>ReadFrame\<close>: \<open>Peek\<close> returns fewer bytes than a header only when the stream has ended.\<close>

function read_frame :: "frame_reader \<Rightarrow> (frame_error + bytes) \<times> frame_reader" where
  "read_frame fr =
     (let hdr = take headerLen (fr_in fr)
      in if length hdr < headerLen then
           (if length hdr > 0 \<and> (hdr ! 0 \<noteq> start1 \<or> (length hdr > 1 \<and> hdr ! 1 \<noteq> start2)) then read_frame (skip_byte fr)
            else if length hdr > 0 \<and> fr_end fr = AtEOF then
              (Inl UnexpectedEOF, flush_line ((skip_byte ^^ length hdr) fr))
            else (Inl (end_error (fr_end fr)), flush_line fr))
         else if hdr ! 0 \<noteq> start1 \<or> hdr ! 1 \<noteq> start2 then read_frame (skip_byte fr)
         else
           let n = unat (hdr ! 2) * 256 + unat (hdr ! 3)
           in if n > MaxFrame then read_frame (skip_byte fr)
              else read_payload n (flush_line (fr\<lparr>fr_in := drop headerLen (fr_in fr)\<rparr>)))"
  by pat_completeness auto
termination
  by (relation "measure (\<lambda>fr. length (fr_in fr))") (auto simp: headerLen_def min_def split: if_splits)

declare read_frame.simps [simp del]

section \<open>What one read does\<close>

text \<open>A position where the reader takes what follows for a frame.\<close>

definition header_at :: "bytes \<Rightarrow> bool" where
  "header_at b \<longleftrightarrow> length b \<ge> headerLen \<and> b ! 0 = start1 \<and> b ! 1 = start2 \<and> unat (b ! 2) * 256 + unat (b ! 3) \<le> MaxFrame"

definition frame_bytes :: "bytes \<Rightarrow> bytes" where
  "frame_bytes p = [start1, start2, of_nat (length p div 256), of_nat (length p)] @ p"

lemma append_frame_ok: "length p \<le> MaxFrame \<Longrightarrow> append_frame dst p = Inr (dst @ frame_bytes p)"
  by (simp add: append_frame_def frame_bytes_def)

lemma frame_length:
  assumes "length p \<le> MaxFrame"
  shows "unat (of_nat (length p div 256) :: byte) * 256 + unat (of_nat (length p) :: byte) = length p"
proof -
  have "length p div 256 < 256" using assms by (simp add: MaxFrame_def)
  then show ?thesis by (simp add: unat_of_nat)
qed

lemma header_at_frame: "length p \<le> MaxFrame \<Longrightarrow> header_at (frame_bytes p @ rest)"
  using frame_length [of p] by (simp add: header_at_def frame_bytes_def headerLen_def)

lemma read_header:
  assumes "header_at (fr_in fr)"
  shows "read_frame fr = read_payload (unat (fr_in fr ! 2) * 256 + unat (fr_in fr ! 3))
    (flush_line (fr\<lparr>fr_in := drop headerLen (fr_in fr)\<rparr>))"
  using assms by (subst read_frame.simps) (auto simp: header_at_def headerLen_def min_def Let_def)

text \<open>Anywhere else one byte is skipped, unless a beginning of a header is cut off by the end.\<close>

lemma read_skip:
  assumes "\<not> header_at (fr_in fr)" and "length (fr_in fr) \<ge> headerLen"
  shows "read_frame fr = read_frame (skip_byte fr)"
  using assms by (subst read_frame.simps) (auto simp: header_at_def headerLen_def min_def Let_def)

lemma flush_line_fields [simp]:
  "fr_in (flush_line fr) = fr_in fr" "fr_end (flush_line fr) = fr_end fr" "fr_skipped (flush_line fr) = fr_skipped fr"
  "fr_frames (flush_line fr) = fr_frames fr" "fr_sink (flush_line fr) = fr_sink fr"
  by (simp_all add: flush_line_def)

lemma log_byte_fields [simp]:
  "fr_in (log_byte b fr) = fr_in fr" "fr_end (log_byte b fr) = fr_end fr" "fr_skipped (log_byte b fr) = fr_skipped fr"
  "fr_frames (log_byte b fr) = fr_frames fr" "fr_sink (log_byte b fr) = fr_sink fr"
  by (simp_all add: log_byte_def)

lemma skip_byte_fields [simp]:
  "fr_end (skip_byte fr) = fr_end fr" "fr_frames (skip_byte fr) = fr_frames fr" "fr_sink (skip_byte fr) = fr_sink fr"
  "fr_in fr \<noteq> [] \<Longrightarrow> fr_skipped (skip_byte fr) = fr_skipped fr + 1"
  by (simp_all add: skip_byte_def split: list.split)


lemma skips_fields [simp]:
  "fr_in ((skip_byte ^^ n) fr) = drop n (fr_in fr)" "fr_end ((skip_byte ^^ n) fr) = fr_end fr"
  "fr_frames ((skip_byte ^^ n) fr) = fr_frames fr" "fr_sink ((skip_byte ^^ n) fr) = fr_sink fr"
  by (induction n) (simp_all add: drop_Suc tl_drop)

lemma skips_count: "n \<le> length (fr_in fr) \<Longrightarrow> fr_skipped ((skip_byte ^^ n) fr) = fr_skipped fr + n"
proof (induction n)
  case (Suc n)
  then have "fr_in ((skip_byte ^^ n) fr) \<noteq> []" by simp
  then show ?case using Suc by simp
qed simp

text \<open>The next frame lies where the first header does; what precedes it is skipped byte by byte.\<close>

lemma read_frame_at:
  assumes "header_at (drop n (fr_in fr))" and "\<And>i. i < n \<Longrightarrow> \<not> header_at (drop i (fr_in fr))"
  shows "read_frame fr = read_frame ((skip_byte ^^ n) fr)"
  using assms
proof (induction n arbitrary: fr)
  case (Suc n)
  have "length (fr_in fr) \<ge> headerLen" using Suc.prems(1) by (auto simp: header_at_def headerLen_def)
  then have "read_frame fr = read_frame (skip_byte fr)"
    using Suc.prems(2) [of 0] by (simp add: read_skip)
  also have "\<dots> = read_frame ((skip_byte ^^ n) (skip_byte fr))"
    by (rule Suc.IH) (use Suc.prems in \<open>auto simp: drop_Suc [symmetric]\<close>)
  finally show ?case by (simp add: funpow_swap1)
qed simp

lemma read_frame_noise:
  assumes "fr_in fr = z @ frame_bytes p @ rest" and "length p \<le> MaxFrame"
    and "\<And>i. i < length z \<Longrightarrow> \<not> header_at (drop i (fr_in fr))"
  shows "fst (read_frame fr) = Inr p" "fr_in (snd (read_frame fr)) = rest"
    "fr_skipped (snd (read_frame fr)) = fr_skipped fr + length z"
    "fr_frames (snd (read_frame fr)) = fr_frames fr + 1"
    "fr_end (snd (read_frame fr)) = fr_end fr" "fr_sink (snd (read_frame fr)) = fr_sink fr"
proof -
  let ?fr = "(skip_byte ^^ length z) fr"
  have "read_frame fr = read_frame ?fr"
    by (rule read_frame_at) (use assms header_at_frame in simp_all)
  moreover have i: "fr_in ?fr = frame_bytes p @ rest" by (simp add: assms(1))
  then have "read_frame ?fr = read_payload (length p) (flush_line (?fr\<lparr>fr_in := p @ rest\<rparr>))"
    using read_header [of ?fr] header_at_frame [OF assms(2)] frame_length [OF assms(2)]
    by (simp add: frame_bytes_def headerLen_def)
  moreover have "fr_skipped ?fr = fr_skipped fr + length z"
    by (rule skips_count) (simp add: assms(1))
  ultimately show "fst (read_frame fr) = Inr p" "fr_in (snd (read_frame fr)) = rest"
    "fr_skipped (snd (read_frame fr)) = fr_skipped fr + length z"
    "fr_frames (snd (read_frame fr)) = fr_frames fr + 1"
    "fr_end (snd (read_frame fr)) = fr_end fr" "fr_sink (snd (read_frame fr)) = fr_sink fr"
    by (simp_all add: read_payload_def)
qed

text \<open>Conversely, a payload is only returned for a frame of the stream, the first there is.\<close>

lemma header_split:
  assumes "header_at b"
  shows "\<exists>rest. b = [start1, start2, b ! 2, b ! 3] @ rest"
proof -
  obtain x1 x2 x3 x4 rest where "b = x1 # x2 # x3 # x4 # rest"
    using assms by (auto simp: header_at_def headerLen_def numeral_eq_Suc Suc_le_length_iff)
  then show ?thesis using assms by (auto simp: header_at_def)
qed

lemma length_bytes:
  assumes "length p = unat (hi :: byte) * 256 + unat (lo :: byte)"
  shows "(of_nat (length p div 256) :: byte) = hi" "(of_nat (length p) :: byte) = lo"
proof -
  have lo: "unat lo < 256" using unsigned_less [of lo] by simp
  show "(of_nat (length p div 256) :: byte) = hi" using lo by (simp add: assms div_mult_self3 [of 256])
  have "(256 :: byte) = 0" by simp
  then have "(of_nat (unat hi * 256 + unat lo) :: byte) = lo" by (simp only: of_nat_add of_nat_mult of_nat_numeral mult_zero_right add_0) simp
  then show "(of_nat (length p) :: byte) = lo" unfolding assms .
qed

lemma read_frame_none:
  assumes "\<And>i. \<not> header_at (drop i (fr_in fr))"
  shows "(\<exists>e. fst (read_frame fr) = Inl e) \<and> fr_frames (snd (read_frame fr)) = fr_frames fr \<and>
    (fr_end fr = AtEOF \<longrightarrow> fr_in (snd (read_frame fr)) = [] \<and>
       fr_skipped (snd (read_frame fr)) = fr_skipped fr + length (fr_in fr))"
  using assms
proof (induction "length (fr_in fr)" arbitrary: fr rule: less_induct)
  case less
  have tail: "(\<exists>e. fst (read_frame (skip_byte fr)) = Inl e) \<and> fr_frames (snd (read_frame (skip_byte fr))) = fr_frames fr \<and>
      (fr_end fr = AtEOF \<longrightarrow> fr_in (snd (read_frame (skip_byte fr))) = [] \<and>
         fr_skipped (snd (read_frame (skip_byte fr))) = fr_skipped fr + length (fr_in fr))" if "fr_in fr \<noteq> []"
  proof -
    have "length (fr_in (skip_byte fr)) < length (fr_in fr)" using that by simp
    moreover have "\<not> header_at (drop i (fr_in (skip_byte fr)))" for i
      using less.prems [of "Suc i"] by (simp add: drop_Suc)
    ultimately show ?thesis using less.hyps [of "skip_byte fr"] that by (cases "fr_in fr") simp_all
  qed
  show ?case
  proof (cases "headerLen \<le> length (fr_in fr)")
    case True
    then have "fr_in fr \<noteq> []" by (auto simp: headerLen_def)
    then show ?thesis using tail less.prems [of 0] True by (simp add: read_skip)
  next
    case False
    then show ?thesis using tail
      by (subst (1 2 3 4) read_frame.simps) (auto simp: Let_def skips_count)
  qed
qed

lemma read_frame_sound:
  assumes "read_frame fr = (Inr p, fr')"
  shows "\<exists>z. fr_in fr = z @ frame_bytes p @ fr_in fr' \<and> length p \<le> MaxFrame \<and>
    (\<forall>i < length z. \<not> header_at (drop i (fr_in fr)))"
proof -
  define n where "n = (LEAST i. header_at (drop i (fr_in fr)))"
  obtain i where "header_at (drop i (fr_in fr))" using read_frame_none [of fr] assms by auto
  then have n: "header_at (drop n (fr_in fr))" "\<And>i. i < n \<Longrightarrow> \<not> header_at (drop i (fr_in fr))"
    unfolding n_def by (rule LeastI, metis not_less_Least)
  let ?fr = "(skip_byte ^^ n) fr"
  let ?hi = "drop n (fr_in fr) ! 2" and ?lo = "drop n (fr_in fr) ! 3"
  obtain rest where rest: "drop n (fr_in fr) = [start1, start2, ?hi, ?lo] @ rest"
    using header_split [OF n(1)] by blast
  have rest': "drop headerLen (drop n (fr_in fr)) = rest" by (subst rest) (simp add: headerLen_def)
  have "read_payload (unat ?hi * 256 + unat ?lo) (flush_line (?fr\<lparr>fr_in := drop headerLen (drop n (fr_in fr))\<rparr>)) = (Inr p, fr')"
    using assms read_frame_at [OF n] read_header [of ?fr] n(1) by simp
  then have p: "length p = unat ?hi * 256 + unat ?lo" "rest = p @ fr_in fr'"
    unfolding rest' by (auto simp: read_payload_def split: if_splits)
  have "drop n (fr_in fr) = frame_bytes p @ fr_in fr'"
    using rest p length_bytes [OF p(1)] by (simp add: frame_bytes_def)
  then have "fr_in fr = take n (fr_in fr) @ frame_bytes p @ fr_in fr'" by (metis append_take_drop_id)
  moreover have "length p \<le> MaxFrame" using n(1) p(1) by (simp add: header_at_def)
  ultimately show ?thesis using n(2) by (intro exI [of _ "take n (fr_in fr)"]) auto
qed

lemma read_frame_shrinks:
  "read_frame fr = (Inr p, fr') \<Longrightarrow> length (fr_in fr') < length (fr_in fr)"
  using read_frame_sound [of fr p fr'] by (auto simp: frame_bytes_def)

text \<open>What calling \<open>ReadFrame\<close> until it fails returns: the payloads of the stream and the last error.\<close>

function read_all :: "frame_reader \<Rightarrow> bytes list \<times> frame_error \<times> frame_reader" where
  "read_all fr =
     (case read_frame fr of
        (Inl e, fr') \<Rightarrow> ([], e, fr')
      | (Inr p, fr') \<Rightarrow> (let (ps, e, fr'') = read_all fr' in (p # ps, e, fr'')))"
  by pat_completeness auto
termination
  by (relation "measure (\<lambda>fr. length (fr_in fr))") (auto intro: read_frame_shrinks [OF sym])

declare read_all.simps [simp del]

section \<open>Frames between noise\<close>

fun calm :: "bytes \<Rightarrow> bool" where
  "calm [] = True"
| "calm [a] = True"
| "calm (a # b # bs) = (\<not> (a = start1 \<and> b = start2) \<and> calm (b # bs))"

definition weave :: "(bytes \<times> bytes) list \<Rightarrow> bytes \<Rightarrow> bytes" where
  "weave segs tail = concat (map (\<lambda>(z, p). z @ frame_bytes p) segs) @ tail"

lemma calm_no_header:
  assumes "calm z" and "rest = [] \<or> hd rest = start1" and "i < length z"
  shows "\<not> header_at (drop i (z @ rest))"
  using assms
proof (induction z arbitrary: i rule: calm.induct)
  case (3 a b bs)
  then show ?case by (cases i) (auto simp: header_at_def)
next
  case (2 a)
  then show ?case by (cases rest) (auto simp: header_at_def frame_consts)
qed simp

lemma calm_end: "calm z \<Longrightarrow> \<not> header_at (drop i z)"
  using calm_no_header [of z "[]" i] by (cases "i < length z") (simp_all add: header_at_def headerLen_def)

lemma read_all_weave:
  assumes "\<And>z p. (z, p) \<in> set segs \<Longrightarrow> calm z \<and> length p \<le> MaxFrame" and "calm tail"
    and "fr_in fr = weave segs tail" and "fr_end fr = AtEOF" and "read_all fr = (ps, e, fr')"
  shows "ps = map snd segs \<and> fr_frames fr' = fr_frames fr + length segs \<and> fr_in fr' = [] \<and>
    fr_skipped fr' = fr_skipped fr + sum_list (map (length \<circ> fst) segs) + length tail"
  using assms
proof (induction segs arbitrary: fr ps)
  case Nil
  then have "\<And>i. \<not> header_at (drop i (fr_in fr))" using calm_end by (simp add: weave_def)
  note none = read_frame_none [OF this]
  then obtain e0 fr1 where rd: "read_frame fr = (Inl e0, fr1)" by (metis prod.collapse)
  have "ps = [] \<and> fr' = fr1" using Nil.prems(5) rd by (subst (asm) read_all.simps) simp
  then show ?case using none [unfolded rd] Nil.prems(3, 4) by (simp add: weave_def)
next
  case (Cons seg segs)
  obtain z p where seg: "seg = (z, p)" by (cases seg)
  have zp: "calm z" "length p \<le> MaxFrame" using Cons.prems(1) seg by auto
  have split: "fr_in fr = z @ frame_bytes p @ weave segs tail" using Cons.prems(3) by (simp add: weave_def seg)
  have none: "\<not> header_at (drop i (fr_in fr))" if "i < length z" for i
    unfolding split using calm_no_header [OF zp(1) _ that] by (simp add: frame_bytes_def)
  obtain fr1 where fr1: "read_frame fr = (Inr p, fr1)"
    using read_frame_noise(1) [OF split zp(2) none] by (cases "read_frame fr") auto
  note facts = read_frame_noise [OF split zp(2) none, unfolded fr1 snd_conv]
  obtain qs where "read_all fr1 = (qs, e, fr')" "ps = p # qs"
    using Cons.prems(5) fr1 by (subst (asm) read_all.simps) (auto simp: Let_def split: prod.splits)
  note qs = this
  have "qs = map snd segs \<and> fr_frames fr' = fr_frames fr1 + length segs \<and> fr_in fr' = [] \<and>
    fr_skipped fr' = fr_skipped fr1 + sum_list (map (length \<circ> fst) segs) + length tail"
    by (rule Cons.IH [OF _ Cons.prems(2) facts(2) _ qs(1)]) (use Cons.prems facts(5) in auto)
  then show ?case using qs(2) facts(3,4) by (simp add: seg o_def)
qed

section \<open>What the sysop sees\<close>

definition no_ascii_control :: "bytes \<Rightarrow> bool" where
  "no_ascii_control l \<longleftrightarrow> list_all (\<lambda>b. 0x20 \<le> b \<and> b \<noteq> 0x7f) l"

definition clean_line :: "bytes \<Rightarrow> bool" where
  "clean_line l \<longleftrightarrow> length l \<le> maxLogLine \<and> list_all (\<lambda>b. 0x20 \<le> b \<and> b \<noteq> 0x7f) l"

lemma clean_line_iff: "clean_line l \<longleftrightarrow> length l \<le> maxLogLine \<and> no_ascii_control l"
  by (simp add: clean_line_def no_ascii_control_def)

definition log_ok :: "frame_reader \<Rightarrow> bool" where
  "log_ok fr \<longleftrightarrow> clean_line (fr_line fr) \<and> list_all (\<lambda>l. l \<noteq> [] \<and> clean_line l) (fr_log fr)"

lemma sanitise_clean: "0x20 \<le> sanitise b \<and> sanitise b \<noteq> 0x7f"
  by (simp add: sanitise_def not_less)

lemma flush_line_ok: "log_ok fr \<Longrightarrow> log_ok (flush_line fr)"
  by (simp add: log_ok_def flush_line_def clean_line_def)

lemma skip_byte_ok: "log_ok fr \<Longrightarrow> log_ok (skip_byte fr)"
  using sanitise_clean flush_line_ok
  by (cases "fr_in fr") (auto simp: skip_byte_def log_byte_def log_ok_def clean_line_def flush_line_def)

lemma skips_ok: "log_ok fr \<Longrightarrow> log_ok ((skip_byte ^^ n) fr)"
  by (induction n) (simp_all add: skip_byte_ok)

lemma log_ok_in [simp]: "log_ok (fr\<lparr>fr_in := b\<rparr>) = log_ok fr" "log_ok (fr\<lparr>fr_frames := n\<rparr>) = log_ok fr"
  by (simp_all add: log_ok_def)

lemma read_frame_ok: "log_ok fr \<Longrightarrow> log_ok (snd (read_frame fr))"
proof (induction "length (fr_in fr)" arbitrary: fr rule: less_induct)
  case less
  have tail: "fr_in fr \<noteq> [] \<Longrightarrow> log_ok (snd (read_frame (skip_byte fr)))"
    by (rule less.hyps) (simp_all add: less.prems skip_byte_ok)
  have "log_ok (snd (read_payload n (flush_line (fr\<lparr>fr_in := b\<rparr>))))" for n b
    using less.prems by (simp add: read_payload_def flush_line_ok)
  then show ?case
    using tail less.prems flush_line_ok skips_ok
    by (subst read_frame.simps) (auto simp: Let_def headerLen_def)
qed

lemma read_all_ok: "log_ok fr \<Longrightarrow> log_ok (snd (snd (read_all fr)))"
proof (induction fr rule: read_all.induct)
  case (1 fr)
  show ?case
    using 1 read_frame_ok [of fr] by (subst read_all.simps) (auto split: prod.splits sum.splits)
qed

section \<open>Properties\<close>

text \<open>
  Every payload the reader returns is a frame of the stream, the first there is, and after
  it the reader stands right behind that frame, with the bytes before it counted as skipped.
\<close>

theorem frame_read_sound:
  assumes "read_frame fr = (Inr p, fr')"
  shows "\<exists>z. fr_in fr = z @ frame_bytes p @ fr_in fr' \<and> length p \<le> MaxFrame \<and>
    (\<forall>i < length z. \<not> header_at (drop i (fr_in fr))) \<and>
    fr_skipped fr' = fr_skipped fr + length z \<and> fr_frames fr' = fr_frames fr + 1"
proof -
  obtain z where z: "fr_in fr = z @ frame_bytes p @ fr_in fr'" "length p \<le> MaxFrame"
    "\<And>i. i < length z \<Longrightarrow> \<not> header_at (drop i (fr_in fr))"
    using read_frame_sound [OF assms] by blast
  show ?thesis using z read_frame_noise(3,4) [OF z] assms by (intro exI [of _ z]) simp
qed

theorem frame_read_sound_witness:
  "\<exists>fr'. read_frame (new_frame_reader [65, 0x94, 0x94, 0xC3, 0, 1, 7] AtEOF True) = (Inr [7], fr') \<and> fr_skipped fr' = 2"
proof -
  let ?fr = "new_frame_reader [65, 0x94, 0x94, 0xC3, 0, 1, 7] AtEOF True"
  have stream: "fr_in ?fr = [65, 0x94] @ frame_bytes [7] @ []"
    by (simp add: new_frame_reader_def frame_bytes_def frame_consts)
  have none: "\<not> header_at (drop i (fr_in ?fr))" if "i < length [65 :: byte, 0x94]" for i
    unfolding stream by (rule calm_no_header) (use that in \<open>simp_all add: frame_consts frame_bytes_def\<close>)
  obtain fr' where fr': "read_frame ?fr = (Inr [7], fr')"
    using read_frame_noise(1) [OF stream _ none] by (cases "read_frame ?fr") (auto simp: MaxFrame_def)
  obtain z where z: "fr_in ?fr = z @ frame_bytes [7] @ fr_in fr'" "fr_skipped fr' = fr_skipped ?fr + length z"
    using frame_read_sound [OF fr'] by blast
  have "fr_in fr' = []" using read_frame_noise(2) [OF stream _ none] fr' by (simp add: MaxFrame_def)
  then have "length z = 2" using z(1) unfolding stream by (auto dest: arg_cong [where f = length])
  then show ?thesis using fr' z(2) by (auto simp: new_frame_reader_def)
qed

text \<open>
  C36. Frames survive the device output around them: from a stream of frames with any bytes
  before, between and after them that do not contain the two start bytes in sequence, exactly
  the frames are read, in order, and everything else is counted as skipped. A stray start byte
  right before a frame does no harm.
\<close>

theorem frames_read_back:
  assumes "\<And>z p. (z, p) \<in> set segs \<Longrightarrow> calm z \<and> length p \<le> MaxFrame" and "calm tail"
  shows "\<exists>e fr'. read_all (new_frame_reader (weave segs tail) AtEOF sink) = (map snd segs, e, fr') \<and>
    fr_frames fr' = length segs \<and> fr_skipped fr' = sum_list (map (length \<circ> fst) segs) + length tail"
proof -
  obtain ps e fr' where "read_all (new_frame_reader (weave segs tail) AtEOF sink) = (ps, e, fr')"
    by (metis prod.exhaust)
  then show ?thesis
    using read_all_weave [OF assms, where fr = "new_frame_reader (weave segs tail) AtEOF sink"]
    by (simp add: new_frame_reader_def)
qed

theorem frames_read_back_witness:
  "\<exists>e fr'. read_all (new_frame_reader (weave [([72, 105, 10], [1, 2]), ([0x94], [3])] [0x94]) AtEOF True) = ([[1, 2], [3]], e, fr') \<and>
    fr_skipped fr' = 5"
proof -
  let ?segs = "[([72, 105, 10], [1, 2]), ([0x94], [3])] :: (bytes \<times> bytes) list"
  have "calm z \<and> length p \<le> MaxFrame" if "(z, p) \<in> set ?segs" for z p
    using that by (auto simp: frame_consts)
  then obtain e fr' where "read_all (new_frame_reader (weave ?segs [0x94]) AtEOF True) = (map snd ?segs, e, fr')"
    "fr_skipped fr' = sum_list (map (length \<circ> fst) ?segs) + length [0x94 :: byte]"
    using frames_read_back [where segs = ?segs and tail = "[0x94]" and sink = True] by fastforce
  then show ?thesis by simp
qed

end
