(* ===== verification/RadioConfig.thy ===== *)
theory RadioConfig
  imports FrameStream Float64
begin

text \<open>
  The configuration exchange with a local radio (\<open>readConfig\<close> of
  \<open>internal/meshtastic/session.go\<close>), the resolution of the configured channel
  (\<open>channelIndex\<close> of \<open>internal/meshlink/link.go\<close>) and the amateur-radio policy
  (\<open>internal/hammode/hammode.go\<close>). The protobuf messages are generated code; of a message the
  model has the variant it carries and the fields the sources read, and an enum's name is the
  string its generated \<open>String\<close> method gives. Shown: the exchange returns exactly what the
  messages before its own completion say and loses no packet, what it stores of channel names and
  what reaches the device log is free of ASCII controls, and a restricted node never settles on an
  encrypted channel.
\<close>

section \<open>Messages\<close>

datatype packet_body = Decoded u32 bytes | Encrypted bytes | NoBody

record mesh_packet =
  mp_from :: u32
  mp_to :: u32
  mp_channel :: u32
  mp_id :: u32
  mp_hop_limit :: u32
  mp_want_ack :: bool
  mp_pki :: bool
  mp_body :: packet_body

record device_metrics =
  dm_channel_utilization :: rat
  dm_air_util_tx :: rat
  dm_uptime :: u32
  dm_battery :: u32

record channel_info =
  ci_index :: "32 word"
  ci_name :: bytes
  ci_role :: string
  ci_encrypted :: bool

record lora_config =
  lc_region :: string
  lc_preset :: string
  lc_use_preset :: bool
  lc_bandwidth :: u32
  lc_spread_factor :: u32
  lc_coding_rate :: u32
  lc_hop_limit :: u32
  lc_tx_enabled :: bool

datatype from_radio =
    FRConfigComplete u32
  | FRMyInfo u32
  | FRMetadata bytes string
  | FRLora lora_config
  | FRTelemetry u32
  | FRNodeInfo u32 "device_metrics option" bool
  | FRChannel "32 word" bytes string bytes
  | FRLog bytes
  | FRPacket mesh_packet
  | FRRebooted bool
  | FROther

datatype to_radio = TRWantConfig u32 | TRHeartbeat | TRPacket mesh_packet

record radio_info =
  ri_node_num :: u32
  ri_firmware :: bytes
  ri_hardware :: string
  ri_region :: string
  ri_preset :: string
  ri_use_preset :: bool
  ri_bandwidth :: u32
  ri_spread_factor :: u32
  ri_coding_rate :: u32
  ri_hop_limit :: u32
  ri_tx_enabled :: bool
  ri_channels :: "channel_info list"
  ri_licensed :: bool
  ri_metrics :: "device_metrics option"
  ri_telemetry_secs :: u32

definition blank_radio :: radio_info where
  "blank_radio = \<lparr>ri_node_num = 0, ri_firmware = [], ri_hardware = '''', ri_region = '''', ri_preset = '''',
     ri_use_preset = False, ri_bandwidth = 0, ri_spread_factor = 0, ri_coding_rate = 0, ri_hop_limit = 0,
     ri_tx_enabled = False, ri_channels = [], ri_licensed = False, ri_metrics = None, ri_telemetry_secs = 0\<rparr>"

section \<open>The exchange\<close>

datatype config_error = StreamEnded | NodeRebooted

text \<open>The cases of the switch that collect: what each message adds to the radio's description.\<close>

fun absorb :: "from_radio \<Rightarrow> radio_info \<Rightarrow> radio_info" where
  "absorb (FRMyInfo n) info = info\<lparr>ri_node_num := n\<rparr>"
| "absorb (FRMetadata fw hw) info = info\<lparr>ri_firmware := sanitise_text fw, ri_hardware := hw\<rparr>"
| "absorb (FRLora l) info =
     info\<lparr>ri_region := lc_region l, ri_preset := lc_preset l, ri_use_preset := lc_use_preset l,
          ri_bandwidth := lc_bandwidth l, ri_spread_factor := lc_spread_factor l, ri_coding_rate := lc_coding_rate l,
          ri_hop_limit := lc_hop_limit l, ri_tx_enabled := lc_tx_enabled l\<rparr>"
| "absorb (FRTelemetry secs) info = info\<lparr>ri_telemetry_secs := secs\<rparr>"
| "absorb (FRNodeInfo n m licensed) info =
     (if ri_node_num info \<noteq> 0 \<and> n = ri_node_num info then
        (case m of None \<Rightarrow> info | Some d \<Rightarrow> info\<lparr>ri_metrics := Some d\<rparr>)\<lparr>ri_licensed := licensed\<rparr>
      else info)"
| "absorb (FRChannel i name role psk) info =
     info\<lparr>ri_channels := ri_channels info @
       [\<lparr>ci_index = i, ci_name = sanitise_text name, ci_role = role, ci_encrypted = length psk > 0\<rparr>]\<rparr>"
| "absorb _ info = info"

text \<open>
  The result, the packets handed to \<open>OnPacket\<close>, the lines handed to the device log, and the
  messages left unread.
\<close>

fun read_config ::
  "u32 \<Rightarrow> from_radio list \<Rightarrow> radio_info \<Rightarrow> (config_error + radio_info) \<times> mesh_packet list \<times> bytes list \<times> from_radio list" where
  "read_config i [] info = (Inl StreamEnded, [], [], [])"
| "read_config i (m # ms) info =
     (case m of
        FRConfigComplete k \<Rightarrow>
          if k \<noteq> 0 \<and> k = i then (Inr info, [], [], ms) else read_config i ms info
      | FRRebooted True \<Rightarrow> (Inl NodeRebooted, [], [], ms)
      | FRPacket p \<Rightarrow> (let (r, ps, ls, rest) = read_config i ms info in (r, p # ps, ls, rest))
      | FRLog l \<Rightarrow>
          (let (r, ps, ls, rest) = read_config i ms info
           in (r, ps, (if sanitise_text l \<noteq> [] then [sanitise_text l] else []) @ ls, rest))
      | _ \<Rightarrow> read_config i ms (absorb m info))"

section \<open>The channel\<close>

text \<open>The index of the first enabled channel of that name; \<open>None\<close> is the error that lists the others.\<close>

fun channel_index :: "channel_info list \<Rightarrow> bytes \<Rightarrow> u32 option" where
  "channel_index [] name = None"
| "channel_index (ch # chs) name =
     (if ci_role ch = ''DISABLED'' then channel_index chs name
      else if ci_name ch = name then Some (ci_index ch)
      else channel_index chs name)"

section \<open>Amateur-radio mode\<close>

record ham_policy =
  hp_licensed :: bool
  hp_override :: bool

definition policy_from_radio :: "radio_info option \<Rightarrow> bool \<Rightarrow> ham_policy" where
  "policy_from_radio info override =
     (case info of None \<Rightarrow> \<lparr>hp_licensed = False, hp_override = override\<rparr>
      | Some i \<Rightarrow> \<lparr>hp_licensed = ri_licensed i, hp_override = override\<rparr>)"

definition restricted :: "ham_policy \<Rightarrow> bool" where
  "restricted p \<longleftrightarrow> hp_licensed p \<and> \<not> hp_override p"

definition allows_encrypted_dms :: "ham_policy \<Rightarrow> bool" where
  "allows_encrypted_dms p \<longleftrightarrow> \<not> restricted p"

text \<open>The channel's index is the argument of \<open>ErrEncryptedChannel\<close>.\<close>

definition check_channel :: "ham_policy \<Rightarrow> channel_info list \<Rightarrow> bytes \<Rightarrow> (32 word) + unit" where
  "check_channel p chs name =
     (if \<not> restricted p then Inr ()
      else case filter (\<lambda>ch. ci_name ch = name \<and> ci_encrypted ch) chs of
             [] \<Rightarrow> Inr () | ch # _ \<Rightarrow> Inl (ci_index ch))"

section \<open>Lemmas\<close>

definition packets_of :: "from_radio list \<Rightarrow> mesh_packet list" where
  "packets_of ms = concat (map (\<lambda>m. case m of FRPacket p \<Rightarrow> [p] | _ \<Rightarrow> []) ms)"

lemma packets_of_simps [simp]:
  "packets_of [] = []" "packets_of (m # ms) = (case m of FRPacket p \<Rightarrow> [p] | _ \<Rightarrow> []) @ packets_of ms"
  by (simp_all add: packets_of_def)

lemma sanitise_text_clean: "list_all (\<lambda>b. 0x20 \<le> b \<and> b \<noteq> 0x7f) (sanitise_text s)"
  using sanitise_clean by (auto simp: sanitise_text_def list_ex_iff list_all_iff not_less)

lemma sanitise_text_id: "list_all (\<lambda>b. 0x20 \<le> b \<and> b \<noteq> 0x7f) s \<Longrightarrow> sanitise_text s = s"
  by (auto simp: sanitise_text_def list_ex_iff list_all_iff not_less[symmetric])

text \<open>One step of the exchange on any message that is neither its own completion nor a reboot.\<close>

lemma read_config_step:
  assumes "m \<noteq> FRConfigComplete i" and "m \<noteq> FRRebooted True"
  shows "\<exists>ls'. read_config i (m # ms) info =
    (case read_config i ms (absorb m info) of (r, ps, ls, rest) \<Rightarrow>
       (r, (case m of FRPacket p \<Rightarrow> [p] | _ \<Rightarrow> []) @ ps, ls' @ ls, rest))"
  using assms
  by (cases m; cases "read_config i ms (absorb m info)") (auto simp: Let_def split: prod.splits bool.splits)

lemma read_config_sound:
  assumes "read_config i ms info = (Inr info', ps, ls, rest)" and "i \<noteq> 0"
  shows "\<exists>pre. ms = pre @ FRConfigComplete i # rest \<and> FRConfigComplete i \<notin> set pre \<and> FRRebooted True \<notin> set pre \<and>
    info' = fold absorb pre info \<and> ps = packets_of pre"
  using assms(1)
proof (induction ms arbitrary: info ps ls)
  case (Cons m ms)
  consider "m = FRConfigComplete i" | "m = FRRebooted True" | "m \<noteq> FRConfigComplete i" "m \<noteq> FRRebooted True" by blast
  then show ?case
  proof cases
    case 1
    then show ?thesis using Cons.prems assms(2) by (intro exI [of _ "[]"]) simp
  next
    case 2
    then show ?thesis using Cons.prems by simp
  next
    case 3
    obtain ps1 ls1 where r: "read_config i ms (absorb m info) = (Inr info', ps1, ls1, rest)"
      and ps: "ps = (case m of FRPacket p \<Rightarrow> [p] | _ \<Rightarrow> []) @ ps1"
      using read_config_step [OF 3, of ms info] Cons.prems
      by (cases "read_config i ms (absorb m info)") auto
    obtain pre where "ms = pre @ FRConfigComplete i # rest" "FRConfigComplete i \<notin> set pre" "FRRebooted True \<notin> set pre"
      "info' = fold absorb pre (absorb m info)" "ps1 = packets_of pre"
      using Cons.IH [OF r] by blast
    then show ?thesis using 3 ps by (intro exI [of _ "m # pre"]) simp
  qed
qed simp

lemma read_config_complete:
  assumes "FRConfigComplete i \<notin> set pre" and "FRRebooted True \<notin> set pre" and "i \<noteq> 0"
  shows "\<exists>ls. read_config i (pre @ FRConfigComplete i # rest) info = (Inr (fold absorb pre info), packets_of pre, ls, rest)"
  using assms
proof (induction pre arbitrary: info)
  case (Cons m pre)
  then have m: "m \<noteq> FRConfigComplete i" "m \<noteq> FRRebooted True" by auto
  obtain ls where "read_config i (pre @ FRConfigComplete i # rest) (absorb m info) =
      (Inr (fold absorb pre (absorb m info)), packets_of pre, ls, rest)"
    using Cons.IH [of "absorb m info"] Cons.prems by auto
  then show ?case using read_config_step [OF m, of "pre @ FRConfigComplete i # rest" info] by auto
qed simp

lemma read_config_log: "list_all (\<lambda>l. l \<noteq> [] \<and> no_ascii_control l) (fst (snd (snd (read_config i ms info))))"
proof (induction ms arbitrary: info)
  case (Cons m ms)
  show ?case
    using Cons [of info] Cons [of "absorb m info"] sanitise_text_clean
    by (cases m) (auto simp: no_ascii_control_def Let_def split: prod.splits bool.splits)
qed simp

lemma channel_index_Some:
  "channel_index chs name = Some i \<Longrightarrow>
     \<exists>ch \<in> set chs. ci_role ch \<noteq> ''DISABLED'' \<and> ci_name ch = name \<and> ci_index ch = i"
  by (induction chs name rule: channel_index.induct) (auto split: if_splits)

lemma check_channel_clear:
  "check_channel p chs name = Inr () \<Longrightarrow> restricted p \<Longrightarrow> ch \<in> set chs \<Longrightarrow> ci_name ch = name \<Longrightarrow> \<not> ci_encrypted ch"
  by (auto simp: check_channel_def filter_empty_conv split: list.splits if_splits)

lemma absorb_channels_clean:
  "list_all (\<lambda>ch. list_all (\<lambda>b. 0x20 \<le> b \<and> b \<noteq> 0x7f) (ci_name ch)) (ri_channels info) \<Longrightarrow>
   list_all (\<lambda>ch. list_all (\<lambda>b. 0x20 \<le> b \<and> b \<noteq> 0x7f) (ci_name ch)) (ri_channels (fold absorb ms info))"
proof (induction ms arbitrary: info)
  case (Cons m ms)
  have "list_all (\<lambda>ch. list_all (\<lambda>b. 0x20 \<le> b \<and> b \<noteq> 0x7f) (ci_name ch)) (ri_channels (absorb m info))"
    using Cons.prems sanitise_text_clean by (cases m) (auto split: option.split)
  then show ?case using Cons.IH by simp
qed simp

section \<open>Properties\<close>

text \<open>
  The configuration exchange succeeds exactly when the radio completes it under the ID it
  was asked with, and not rebooted before; what it returns is what the messages before say, and
  every packet among them is handed over in order, while everything after is left to the reader.
\<close>

theorem config_exchange_exact:
  assumes "i \<noteq> 0"
  shows "(\<exists>ls. read_config i ms info = (Inr info', ps, ls, rest)) \<longleftrightarrow>
    (\<exists>pre. ms = pre @ FRConfigComplete i # rest \<and> FRConfigComplete i \<notin> set pre \<and> FRRebooted True \<notin> set pre \<and>
       info' = fold absorb pre info \<and> ps = packets_of pre)"
  using read_config_sound [OF _ assms] read_config_complete [OF _ _ assms] by blast

theorem config_exchange_exact_witness:
  "\<exists>ls. read_config 7 [FRConfigComplete 6, FRMyInfo 9, FRConfigComplete 7, FROther] blank_radio =
     (Inr (blank_radio\<lparr>ri_node_num := 9\<rparr>), [], ls, [FROther])"
proof (rule config_exchange_exact [where i = 7, THEN iffD2])
  show "\<exists>pre. [FRConfigComplete 6, FRMyInfo 9, FRConfigComplete 7, FROther] = pre @ FRConfigComplete 7 # [FROther] \<and>
      FRConfigComplete 7 \<notin> set pre \<and> FRRebooted True \<notin> set pre \<and>
      blank_radio\<lparr>ri_node_num := 9\<rparr> = fold absorb pre blank_radio \<and> [] = packets_of pre"
    by (intro exI [of _ "[FRConfigComplete 6, FRMyInfo 9]"]) simp
qed simp

text \<open>
  C40. What reaches the device log has no ASCII control. Whatever the radio sends, between frames
  or as log records during the configuration exchange, every line handed to the log is non-empty
  and free of the bytes below 0x20 and 0x7f; a line from between frames has at most 512 bytes. The C1
  controls are not covered: U+009B, which a terminal may take for an escape, goes through on both paths.
\<close>

theorem device_log_clean:
  "list_all (\<lambda>l. l \<noteq> [] \<and> length l \<le> maxLogLine \<and> no_ascii_control l)
     (fr_log (snd (snd (read_all (new_frame_reader stream e sink))))) \<and>
   list_all (\<lambda>l. l \<noteq> [] \<and> no_ascii_control l) (fst (snd (snd (read_config i ms info)))) \<and>
   fr_log (snd (snd (read_all (new_frame_reader [0xC2, 0x9B, 0x0A] AtEOF True)))) = [[0xC2, 0x9B]] \<and>
   fst (snd (snd (read_config i [FRLog [0xC2, 0x9B]] info))) = [[0xC2, 0x9B]]"
proof (intro conjI)
  have "log_ok (snd (snd (read_all (new_frame_reader stream e sink))))"
    by (rule read_all_ok) (simp add: log_ok_def new_frame_reader_def clean_line_def)
  then show "list_all (\<lambda>l. l \<noteq> [] \<and> length l \<le> maxLogLine \<and> no_ascii_control l)
     (fr_log (snd (snd (read_all (new_frame_reader stream e sink)))))"
    by (simp add: log_ok_def clean_line_iff)
  show "list_all (\<lambda>l. l \<noteq> [] \<and> no_ascii_control l) (fst (snd (snd (read_config i ms info))))"
    by (rule read_config_log)
  show "fr_log (snd (snd (read_all (new_frame_reader [0xC2, 0x9B, 0x0A] AtEOF True)))) = [[0xC2, 0x9B]]"
    by code_simp
  show "fst (snd (snd (read_config i [FRLog [0xC2, 0x9B]] info))) = [[0xC2, 0x9B]]"
    by (simp add: sanitise_text_def)
qed

end
