(* ===== verification/MeshLink.thy ===== *)
theory MeshLink
  imports Bsmp PeerTable RadioConfig
begin

text \<open>
  The mesh link of \<open>internal/meshlink/link.go\<close> and \<open>governor.go\<close>: a link over a Meshtastic radio.
  It learns which radio is which node, attributes what it hears, charges the airtime governor
  for what it is asked to send, and keeps its connection alive.

  The radio is a parameter: \<open>me_send\<close> is \<open>Conn.Send\<close> on an abstract state of the air, and what a
  connection delivers is the list of its messages. BLAKE3, Ed25519, packet identifiers and
  jitter are parameters too. The clock's reading is an argument of each operation; a call that
  reads it twice takes two. The supervisor's goroutines are the steps of this model: reading one
  message, one turn of the keepalive loop, losing the connection, connecting again. The event
  and trace callbacks only report and are left out.
\<close>

section \<open>Configuration and state\<close>

definition broadcastAddr :: u32 where "broadcastAddr = 0xFFFFFFFF"
definition PortPrivateApp :: u32 where "PortPrivateApp = 256"
definition meshMTU :: nat where "meshMTU = 233"
definition mtuReserve :: nat where "mtuReserve = 8"
definition MaxPayload :: nat where "MaxPayload = meshMTU - mtuReserve"

datatype mesh_error =
    MUnknownPeer node_id
  | MNotConnected
  | MReservedFrame byte
  | MNoGovernor
  | MNoBudget
  | MTooLarge
  | MEmpty
  | MSendFailed nat
  | MCancelled
  | MClosed
  | MDialFailed nat
  | MConfig config_error
  | MNoChannel
  | MEncryptedChannel "32 word"

text \<open>\<open>errNotRetryable\<close>: a missing channel and an encrypted one under a licence.\<close>

fun not_retryable :: "mesh_error \<Rightarrow> bool" where
  "not_retryable MNoChannel = True"
| "not_retryable (MEncryptedChannel _) = True"
| "not_retryable _ = False"

text \<open>The governors there are: none, \<open>Unmetered\<close>, and the airtime governor.\<close>

datatype link_governor = NoGovernor | Unmetered | Metered governor

record mesh_config =
  mc_key :: node_key
  mc_dial :: bool
  mc_rand :: bool
  mc_channel :: bytes
  mc_override :: bool
  mc_hop_limit :: u32
  mc_announce :: int
  mc_ask :: int
  mc_answer :: int
  mc_heartbeat :: int
  mc_retry_window :: int
  mc_connect_timeout :: int
  mc_rx_timeout :: int
  mc_inbox :: int
  mc_backoff :: int
  mc_max_backoff :: int

record 'r mesh_env =
  me_crypto :: crypto
  me_send :: "to_radio \<Rightarrow> 'r \<Rightarrow> nat option \<times> 'r"
  me_close :: "'r \<Rightarrow> 'r"
  me_packet_id :: "nat \<Rightarrow> u64"
  me_int_n :: "nat \<Rightarrow> int \<Rightarrow> int"

record mesh_stats =
  mt_sent :: nat
  mt_received :: nat
  mt_refused :: nat
  mt_undecryptable :: nat
  mt_wrong_channel :: nat
  mt_unattributed :: nat
  mt_reconnects :: nat
  mt_rx_stalls :: nat
  mt_announces :: nat

record 'r mesh_link =
  ml_cfg :: mesh_config
  ml_self :: node_id
  ml_gov :: link_governor
  ml_peers :: peer_table
  ml_asks :: ask_rate
  ml_answers :: ask_rate
  ml_inbox :: "(datagram \<times> int) list"
  ml_conn :: "nat option"
  ml_sessions :: nat
  ml_radio :: "radio_info option"
  ml_policy :: ham_policy
  ml_chan :: u32
  ml_hop :: u32
  ml_closed :: bool
  ml_connected :: bool
  ml_session_rx :: bool
  ml_last_rx :: int
  ml_drawn :: nat
  ml_jitters :: nat
  ml_stats :: mesh_stats
  ml_air :: 'r

text \<open>The defaults of \<open>New\<close>: a field that is not positive, and one where zero and below differ.\<close>

definition or_default :: "int \<Rightarrow> int \<Rightarrow> int" where
  "or_default d v = (if v \<le> 0 then d else v)"

definition zero_default :: "int \<Rightarrow> int \<Rightarrow> int" where
  "zero_default d v = (if v < 0 then 0 else if v = 0 then d else v)"

definition mesh_defaults :: "mesh_config \<Rightarrow> mesh_config" where
  "mesh_defaults c =
     (let backoff = or_default time_second (mc_backoff c); most = or_default time_minute (mc_max_backoff c)
      in c\<lparr>mc_announce := or_default (12 * time_hour) (mc_announce c), mc_ask := or_default (15 * time_minute) (mc_ask c),
           mc_answer := or_default time_minute (mc_answer c), mc_heartbeat := or_default (5 * time_minute) (mc_heartbeat c),
           mc_connect_timeout := or_default (30 * time_second) (mc_connect_timeout c),
           mc_retry_window := zero_default (45 * time_second) (mc_retry_window c),
           mc_rx_timeout := zero_default (5 * time_minute) (mc_rx_timeout c), mc_inbox := or_default 256 (mc_inbox c),
           mc_backoff := backoff, mc_max_backoff := (if most < backoff then backoff else most)\<rparr>)"

definition new_mesh_link :: "crypto \<Rightarrow> mesh_config \<Rightarrow> link_governor \<Rightarrow> 'r \<Rightarrow> 'r mesh_link option" where
  "new_mesh_link c cfg0 gov air =
     (if \<not> mc_dial cfg0 \<or> mc_channel cfg0 = [] \<or> \<not> mc_rand cfg0 then None
      else let cfg = mesh_defaults cfg0
        in Some \<lparr>ml_cfg = cfg, ml_self = node_key_id c (mc_key cfg), ml_gov = gov, ml_peers = new_peer_table,
             ml_asks = new_ask_rate (mc_ask cfg), ml_answers = new_ask_rate (mc_answer cfg), ml_inbox = [],
             ml_conn = None, ml_sessions = 0, ml_radio = None, ml_policy = \<lparr>hp_licensed = False, hp_override = False\<rparr>,
             ml_chan = 0, ml_hop = 0, ml_closed = False, ml_connected = False, ml_session_rx = False, ml_last_rx = 0,
             ml_drawn = 0, ml_jitters = 0,
             ml_stats = \<lparr>mt_sent = 0, mt_received = 0, mt_refused = 0, mt_undecryptable = 0, mt_wrong_channel = 0,
               mt_unattributed = 0, mt_reconnects = 0, mt_rx_stalls = 0, mt_announces = 0\<rparr>, ml_air = air\<rparr>)"

definition ml_count :: "(mesh_stats \<Rightarrow> mesh_stats) \<Rightarrow> 'r mesh_link \<Rightarrow> 'r mesh_link" where
  "ml_count f l = l\<lparr>ml_stats := f (ml_stats l)\<rparr>"

section \<open>Putting a payload on the air\<close>

definition next_packet_id :: "'r mesh_env \<Rightarrow> 'r mesh_link \<Rightarrow> u32 \<times> 'r mesh_link" where
  "next_packet_id E l = (ucast (me_packet_id E (ml_drawn l)), l\<lparr>ml_drawn := ml_drawn l + 1\<rparr>)"

definition conn_send :: "'r mesh_env \<Rightarrow> to_radio \<Rightarrow> 'r mesh_link \<Rightarrow> nat option \<times> 'r mesh_link" where
  "conn_send E m l = (let (err, air) = me_send E m (ml_air l) in (err, l\<lparr>ml_air := air\<rparr>))"

definition send_frame :: "'r mesh_env \<Rightarrow> bool \<Rightarrow> u32 \<Rightarrow> bytes \<Rightarrow> bool \<Rightarrow> 'r mesh_link \<Rightarrow> mesh_error option \<times> 'r mesh_link" where
  "send_frame E cancelled dest payload wantAck l =
     (if ml_conn l = None then (Some MNotConnected, l)
      else if cancelled then (Some MCancelled, l)
      else
        let (pid, l1) = next_packet_id E l;
            (err, l2) = conn_send E (TRPacket \<lparr>mp_from = 0, mp_to = dest, mp_channel = ml_chan l, mp_id = pid,
              mp_hop_limit = ml_hop l, mp_want_ack = wantAck, mp_pki = False, mp_body = Decoded PortPrivateApp payload\<rparr>) l1
        in (map_option MSendFailed err, l2))"

definition own_radio :: "'r mesh_link \<Rightarrow> u32" where
  "own_radio l = (case ml_radio l of Some i \<Rightarrow> ri_node_num i | None \<Rightarrow> 0)"

definition own_announcement :: "'r mesh_env \<Rightarrow> int \<Rightarrow> 'r mesh_link \<Rightarrow> bytes" where
  "own_announcement E now l = encode_announce (me_crypto E) (mc_key (ml_cfg l)) (own_radio l) now"

definition ml_announce :: "'r mesh_env \<Rightarrow> bool \<Rightarrow> int \<Rightarrow> 'r mesh_link \<Rightarrow> mesh_error option \<times> 'r mesh_link" where
  "ml_announce E cancelled now l =
     (let l1 = ml_count (\<lambda>s. s\<lparr>mt_announces := mt_announces s + 1\<rparr>) l
      in case send_frame E cancelled broadcastAddr (own_announcement E now l1) False l1 of
           (Some e, l2) \<Rightarrow> (Some e, ml_count (\<lambda>s. s\<lparr>mt_announces := mt_announces s - 1\<rparr>) l2)
         | (None, l2) \<Rightarrow> (None, l2))"

definition ask_who_is :: "'r mesh_env \<Rightarrow> int \<Rightarrow> u32 \<Rightarrow> 'r mesh_link \<Rightarrow> 'r mesh_link" where
  "ask_who_is E now radio l =
     (if \<not> ml_connected l then l
      else let (ok, asks) = ar_allow radio now (ml_asks l); l1 = l\<lparr>ml_asks := asks\<rparr>
        in if \<not> ok then l1 else snd (send_frame E False broadcastAddr (encode_who_is radio) False l1))"

section \<open>Sending\<close>

definition gov_admits :: "instant \<Rightarrow> int \<Rightarrow> int \<Rightarrow> charge \<Rightarrow> bool \<Rightarrow> link_governor \<Rightarrow> bool \<times> link_governor" where
  "gov_admits t now n ch withArea gov =
     (case gov of
        NoGovernor \<Rightarrow> (False, gov)
      | Unmetered \<Rightarrow> (True, gov)
      | Metered g \<Rightarrow> (let (ok, g') = allow_charge t now n ch withArea g in (ok, Metered g')))"

definition destination :: "node_id \<Rightarrow> 'r mesh_link \<Rightarrow> u32 option" where
  "destination dest l = (if dest = Broadcast then Some broadcastAddr else radio_for dest (ml_peers l))"

definition ml_send_charged ::
  "'r mesh_env \<Rightarrow> bool \<Rightarrow> instant \<Rightarrow> int \<Rightarrow> node_id \<Rightarrow> bytes \<Rightarrow> charge \<Rightarrow> 'r mesh_link \<Rightarrow> mesh_error option \<times> 'r mesh_link" where
  "ml_send_charged E cancelled t now dest payload ch l =
     (if length payload > MaxPayload then (Some MTooLarge, l)
      else if length payload = 0 then (Some MEmpty, l)
      else if payload ! 0 = FrameAnnounce \<or> payload ! 0 = FrameWhoIs then (Some (MReservedFrame (payload ! 0)), l)
      else case destination dest l of
             None \<Rightarrow> (Some (MUnknownPeer dest), l)
           | Some radio \<Rightarrow>
               if ml_gov l = NoGovernor then (Some MNoGovernor, l)
               else if \<not> ml_connected l then (Some MNotConnected, l)
               else
                 let (ok, gov) = gov_admits t now (int (length payload)) ch True (ml_gov l); l1 = l\<lparr>ml_gov := gov\<rparr>
                 in if \<not> ok then (Some MNoBudget, ml_count (\<lambda>s. s\<lparr>mt_refused := mt_refused s + 1\<rparr>) l1)
                    else
                      let l2 = ml_count (\<lambda>s. s\<lparr>mt_sent := mt_sent s + 1\<rparr>) l1
                      in case send_frame E cancelled radio payload (radio \<noteq> broadcastAddr \<and> payload ! 0 = FrameControl) l2 of
                           (Some e, l3) \<Rightarrow> (Some e, ml_count (\<lambda>s. s\<lparr>mt_sent := mt_sent s - 1\<rparr>) l3)
                         | (None, l3) \<Rightarrow> (None, l3))"

definition ml_send ::
  "'r mesh_env \<Rightarrow> bool \<Rightarrow> instant \<Rightarrow> int \<Rightarrow> node_id \<Rightarrow> bytes \<Rightarrow> 'r mesh_link \<Rightarrow> mesh_error option \<times> 'r mesh_link" where
  "ml_send E cancelled t now dest payload l =
     (let cls = (if length payload > 0 \<and> payload ! 0 = FrameControl then ClassControl else ClassForum)
      in ml_send_charged E cancelled t now dest payload \<lparr>ch_class = cls, ch_area = zero_array\<rparr> l)"

definition ml_budget :: "int \<Rightarrow> 'r mesh_link \<Rightarrow> budget \<times> 'r mesh_link" where
  "ml_budget now l =
     (case ml_gov l of
        NoGovernor \<Rightarrow> (\<lparr>bu_available = 0, bu_per_datagram = 0, bu_backpressure = True\<rparr>, l)
      | Unmetered \<Rightarrow> (\<lparr>bu_available = time_hour, bu_per_datagram = 0, bu_backpressure = False\<rparr>, l)
      | Metered g \<Rightarrow> (let (b, g') = gov_budget now g in (b, l\<lparr>ml_gov := Metered g'\<rparr>)))"

section \<open>Hearing\<close>

definition on_announce :: "'r mesh_env \<Rightarrow> int \<Rightarrow> bytes \<Rightarrow> u32 \<Rightarrow> 'r mesh_link \<Rightarrow> 'r mesh_link" where
  "on_announce E now payload sender l =
     (case decode_announce (me_crypto E) payload sender of
        Inl _ \<Rightarrow> l
      | Inr a \<Rightarrow> if an_id a = ml_self l then l else l\<lparr>ml_peers := snd (pt_learn a now (ml_peers l))\<rparr>)"

definition on_who_is :: "'r mesh_env \<Rightarrow> int \<Rightarrow> bytes \<Rightarrow> u32 \<Rightarrow> 'r mesh_link \<Rightarrow> 'r mesh_link" where
  "on_who_is E now payload self l =
     (case decode_who_is payload of
        Inl _ \<Rightarrow> l
      | Inr target \<Rightarrow>
          if target \<noteq> self then l
          else let (ok, answers) = ar_allow broadcastAddr now (ml_answers l); l1 = l\<lparr>ml_answers := answers\<rparr>
            in if \<not> ok then l1 else snd (ml_announce E False now l1))"

text \<open>The optional interfaces: only the airtime governor watches echoes and limits peers.\<close>

definition gov_echo :: "link_governor \<Rightarrow> link_governor" where
  "gov_echo gov = (case gov of Metered g \<Rightarrow> Metered (note_echo g) | _ \<Rightarrow> gov)"

definition gov_inbound :: "int \<Rightarrow> node_id \<Rightarrow> int \<Rightarrow> link_governor \<Rightarrow> bool \<times> link_governor" where
  "gov_inbound now peer n gov =
     (case gov of
        Metered g \<Rightarrow> (let (ok, _, g') = note_inbound now peer n g in (ok, Metered g'))
      | _ \<Rightarrow> (True, gov))"

text \<open>A datagram of a known peer: the quota, then the inbox, which drops what it has no room for.\<close>

definition hand_up :: "int \<Rightarrow> int \<Rightarrow> node_id \<Rightarrow> bytes \<Rightarrow> 'r mesh_link \<Rightarrow> 'r mesh_link" where
  "hand_up now received_at peer payload l =
     (let (ok, gov) = gov_inbound now peer (int (length payload)) (ml_gov l); l1 = l\<lparr>ml_gov := gov\<rparr>
      in if \<not> ok then l1
         else
           let l2 = ml_count (\<lambda>s. s\<lparr>mt_received := mt_received s + 1\<rparr>) l1
           in if int (length (ml_inbox l2)) < mc_inbox (ml_cfg l2)
              then l2\<lparr>ml_inbox := ml_inbox l2 @ [(\<lparr>dg_from = peer, dg_data = payload\<rparr>, received_at)]\<rparr>
              else l2)"

definition on_our_channel :: "mesh_packet \<Rightarrow> 'r mesh_link \<Rightarrow> bool" where
  "on_our_channel p l \<longleftrightarrow> mp_channel p = ml_chan l \<or> (mp_pki p \<and> mp_to p = own_radio l)"

definition deliver :: "'r mesh_env \<Rightarrow> int \<Rightarrow> int \<Rightarrow> mesh_packet \<Rightarrow> 'r mesh_link \<Rightarrow> 'r mesh_link" where
  "deliver E now received_at p l =
     (case mp_body p of
        Decoded port payload \<Rightarrow>
          if port \<noteq> PortPrivateApp then l
          else if \<not> on_our_channel p l then ml_count (\<lambda>s. s\<lparr>mt_wrong_channel := mt_wrong_channel s + 1\<rparr>) l
          else if mp_from p = own_radio l then l\<lparr>ml_gov := gov_echo (ml_gov l)\<rparr>
          else if length payload = 0 then l
          else if payload ! 0 = FrameAnnounce then on_announce E now payload (mp_from p) l
          else if payload ! 0 = FrameWhoIs then on_who_is E now payload (own_radio l) l
          else (case id_for (mp_from p) (ml_peers l) of
                  None \<Rightarrow> ask_who_is E now (mp_from p) (ml_count (\<lambda>s. s\<lparr>mt_unattributed := mt_unattributed s + 1\<rparr>) l)
                | Some peer \<Rightarrow> hand_up now received_at peer payload l)
      | _ \<Rightarrow> ml_count (\<lambda>s. s\<lparr>mt_undecryptable := mt_undecryptable s + 1\<rparr>) l)"

section \<open>Connections\<close>

text \<open>
  What dialling gives: an error, or the messages the connection will deliver until it ends or
  the handshake's deadline passes. After the exchange, those left are read by the read loop.
\<close>

definition drop_connection :: "'r mesh_env \<Rightarrow> 'r mesh_link \<Rightarrow> 'r mesh_link" where
  "drop_connection E l = l\<lparr>ml_air := me_close E (ml_air l)\<rparr>"

definition attach :: "int \<Rightarrow> radio_info \<Rightarrow> u32 \<Rightarrow> ham_policy \<Rightarrow> 'r mesh_link \<Rightarrow> 'r mesh_link" where
  "attach now info idx policy l =
     l\<lparr>ml_conn := Some (ml_sessions l), ml_sessions := ml_sessions l + 1, ml_radio := Some info, ml_chan := idx,
       ml_hop := (if mc_hop_limit (ml_cfg l) = 0 then ri_hop_limit info else mc_hop_limit (ml_cfg l)),
       ml_policy := policy, ml_connected := True, ml_last_rx := now, ml_session_rx := False\<rparr>"

definition connect ::
  "'r mesh_env \<Rightarrow> bool \<Rightarrow> int \<Rightarrow> nat + from_radio list \<Rightarrow> 'r mesh_link \<Rightarrow> mesh_error option \<times> from_radio list \<times> 'r mesh_link" where
  "connect E cancelled now dialled l =
     (case dialled of
        Inl e \<Rightarrow> (Some (MDialFailed e), [], l)
      | Inr msgs \<Rightarrow>
          let (pid, l1) = next_packet_id E l; (err, l2) = conn_send E (TRWantConfig (pid OR 1)) l1
          in case err of
               Some e \<Rightarrow> (Some (MSendFailed e), [], drop_connection E l2)
             | None \<Rightarrow>
                 (case read_config (pid OR 1) msgs blank_radio of
                    (Inl e, _, _, rest) \<Rightarrow> (Some (MConfig e), [], drop_connection E l2)
                  | (Inr info, pending, _, rest) \<Rightarrow>
                      (case channel_index (ri_channels info) (mc_channel (ml_cfg l2)) of
                         None \<Rightarrow> (Some MNoChannel, [], drop_connection E l2)
                       | Some idx \<Rightarrow>
                           let policy = policy_from_radio (Some info) (mc_override (ml_cfg l2))
                           in case check_channel policy (ri_channels info) (mc_channel (ml_cfg l2)) of
                                Inl i \<Rightarrow> (Some (MEncryptedChannel i), [], drop_connection E l2)
                              | Inr _ \<Rightarrow>
                                  if ml_closed l2 then (Some MClosed, [], drop_connection E l2)
                                  else
                                    let l3 = snd (ml_announce E cancelled now (attach now info idx policy l2))
                                    in (None, rest, fold (deliver E now now) pending l3))))"

text \<open>One turn of \<open>readLoop\<close> on a message; the flag says whether the loop goes on.\<close>

definition read_message :: "'r mesh_env \<Rightarrow> bool \<Rightarrow> int \<Rightarrow> int \<Rightarrow> from_radio \<Rightarrow> 'r mesh_link \<Rightarrow> bool \<times> 'r mesh_link" where
  "read_message E cancelled now received_at msg l =
     (let l1 = l\<lparr>ml_last_rx := now, ml_session_rx := True\<rparr>
      in if cancelled then (False, l1)
         else case msg of FRPacket p \<Rightarrow> (True, deliver E now received_at p l1) | _ \<Rightarrow> (True, l1))"

text \<open>The supervisor when the read loop has ended; the flag is whether the session carried anything.\<close>

definition connection_lost :: "'r mesh_env \<Rightarrow> bool \<Rightarrow> 'r mesh_link \<Rightarrow> bool \<times> 'r mesh_link" where
  "connection_lost E cancelled l =
     (let l1 = l\<lparr>ml_connected := False\<rparr>
      in if cancelled then (False, l1)
         else (ml_session_rx l1, if ml_conn l1 = None then l1 else (drop_connection E l1)\<lparr>ml_conn := None\<rparr>))"

text \<open>The delay before the next attempt, after one that succeeded or not.\<close>

definition next_backoff :: "mesh_config \<Rightarrow> bool \<Rightarrow> bool \<Rightarrow> int \<Rightarrow> int" where
  "next_backoff cfg attached delivered backoff =
     (if attached \<and> delivered then mc_backoff cfg
      else if backoff * 2 > mc_max_backoff cfg then mc_max_backoff cfg else backoff * 2)"

definition reconnect ::
  "'r mesh_env \<Rightarrow> bool \<Rightarrow> int \<Rightarrow> bool \<Rightarrow> nat + from_radio list \<Rightarrow> int \<Rightarrow> 'r mesh_link \<Rightarrow> bool \<times> int \<times> from_radio list \<times> 'r mesh_link" where
  "reconnect E cancelled now delivered dialled backoff l =
     (case connect E cancelled now dialled l of
        (None, rest, l1) \<Rightarrow>
          (True, next_backoff (ml_cfg l1) True delivered backoff, rest,
           ml_count (\<lambda>s. s\<lparr>mt_reconnects := mt_reconnects s + 1\<rparr>) l1)
      | (Some _, rest, l1) \<Rightarrow> (False, next_backoff (ml_cfg l1) False delivered backoff, rest, l1))"

text \<open>
  \<open>connectWithRetry\<close> over its attempts. An attempt is what dialling gives and the clock's reading
  when it has been made; the loop sleeps \<open>backoff\<close> between attempts, and \<open>None\<close> means it is
  still asleep when the list ends.
\<close>

fun connect_with_retry ::
  "'r mesh_env \<Rightarrow> int \<Rightarrow> int \<Rightarrow> (bool \<times> int \<times> (nat + from_radio list)) list \<Rightarrow> 'r mesh_link \<Rightarrow>
     (mesh_error option \<times> from_radio list \<times> 'r mesh_link) option" where
  "connect_with_retry E deadline backoff [] l = None"
| "connect_with_retry E deadline backoff ((cancelled, now, dialled) # attempts) l =
     (case connect E cancelled now dialled l of
        (None, rest, l1) \<Rightarrow> Some (None, rest, l1)
      | (Some e, rest, l1) \<Rightarrow>
          if not_retryable e \<or> cancelled \<or> \<not> now + backoff < deadline then Some (Some e, rest, l1)
          else connect_with_retry E deadline (if backoff * 2 > time_minute then time_minute else backoff * 2) attempts l1)"

definition ml_start ::
  "'r mesh_env \<Rightarrow> int \<Rightarrow> (bool \<times> int \<times> (nat + from_radio list)) list \<Rightarrow> 'r mesh_link \<Rightarrow>
     (mesh_error option \<times> from_radio list \<times> 'r mesh_link) option" where
  "ml_start E now attempts l =
     (if ml_closed l then Some (Some MClosed, [], l)
      else connect_with_retry E (now + mc_retry_window (ml_cfg l)) (mc_backoff (ml_cfg l)) attempts l)"

definition ml_close :: "'r mesh_env \<Rightarrow> 'r mesh_link \<Rightarrow> 'r mesh_link" where
  "ml_close E l =
     (if ml_closed l then l
      else (if ml_conn l = None then l else drop_connection E l)\<lparr>ml_closed := True, ml_conn := None, ml_connected := False\<rparr>)"

section \<open>The keepalive loop\<close>

record keepalive =
  ka_session :: "nat option"
  ka_until_announce :: int
  ka_until_heartbeat :: int
  ka_tick :: int

definition watchdog_tick :: "mesh_config \<Rightarrow> int" where
  "watchdog_tick cfg =
     (let tick = (if mc_rx_timeout cfg > 0 \<and> mc_rx_timeout cfg div 3 < mc_heartbeat cfg then mc_rx_timeout cfg div 3
                  else mc_heartbeat cfg)
      in if tick \<le> 0 then time_second else tick)"

definition rx_stalled :: "int \<Rightarrow> 'r mesh_link \<Rightarrow> bool" where
  "rx_stalled now l \<longleftrightarrow> mc_rx_timeout (ml_cfg l) > 0 \<and> ml_last_rx l \<noteq> 0 \<and> now - ml_last_rx l > mc_rx_timeout (ml_cfg l)"

definition ml_jitter :: "'r mesh_env \<Rightarrow> int \<Rightarrow> 'r mesh_link \<Rightarrow> int \<times> 'r mesh_link" where
  "ml_jitter E d l =
     (let secs = (if d div time_second < 1 then 1 else d div time_second)
      in (me_int_n E (ml_jitters l) secs * time_second, l\<lparr>ml_jitters := ml_jitters l + 1\<rparr>))"

definition start_keepalive :: "'r mesh_env \<Rightarrow> 'r mesh_link \<Rightarrow> keepalive \<times> 'r mesh_link" where
  "start_keepalive E l =
     (let (j, l1) = ml_jitter E (mc_announce (ml_cfg l)) l
      in (\<lparr>ka_session = ml_conn l, ka_until_announce = mc_announce (ml_cfg l) div 2 + j,
           ka_until_heartbeat = mc_heartbeat (ml_cfg l), ka_tick = watchdog_tick (ml_cfg l)\<rparr>, l1))"

text \<open>The last part of a turn: the periodic announcement.\<close>

definition announce_turn :: "'r mesh_env \<Rightarrow> bool \<Rightarrow> int \<Rightarrow> keepalive \<Rightarrow> 'r mesh_link \<Rightarrow> keepalive option \<times> 'r mesh_link" where
  "announce_turn E cancelled now k l =
     (let left = ka_until_announce k - ka_tick k
      in if left \<le> 0 then (Some (k\<lparr>ka_until_announce := mc_announce (ml_cfg l)\<rparr>), snd (ml_announce E cancelled now l))
         else (Some (k\<lparr>ka_until_announce := left\<rparr>), l))"

definition stall_turn :: "'r mesh_env \<Rightarrow> bool \<Rightarrow> int \<Rightarrow> keepalive \<Rightarrow> 'r mesh_link \<Rightarrow> keepalive option \<times> 'r mesh_link" where
  "stall_turn E cancelled now k l =
     (if rx_stalled now l then
        (None, drop_connection E (ml_count (\<lambda>s. s\<lparr>mt_rx_stalls := mt_rx_stalls s + 1\<rparr>) l))
      else announce_turn E cancelled now k l)"

text \<open>A turn of the loop after its sleep; \<open>None\<close> is the goroutine's end.\<close>

definition keepalive_turn :: "'r mesh_env \<Rightarrow> bool \<Rightarrow> int \<Rightarrow> keepalive \<Rightarrow> 'r mesh_link \<Rightarrow> keepalive option \<times> 'r mesh_link" where
  "keepalive_turn E cancelled now k l =
     (if cancelled then (None, l)
      else if ka_session k = None \<or> ml_conn l \<noteq> ka_session k then (None, l)
      else
        let left = ka_until_heartbeat k - ka_tick k
        in if left \<le> 0 then
             (case conn_send E TRHeartbeat l of
                (Some _, l1) \<Rightarrow> (None, l1)
              | (None, l1) \<Rightarrow> stall_turn E cancelled now (k\<lparr>ka_until_heartbeat := mc_heartbeat (ml_cfg l)\<rparr>) l1)
           else stall_turn E cancelled now (k\<lparr>ka_until_heartbeat := left\<rparr>) l)"

end
