(* ===== verification/MeshRuns.thy ===== *)
theory MeshRuns
  imports MeshLink
begin

text \<open>
  What holds over every run of the mesh link of \<open>MeshLink\<close>. A run is any sequence of its entry
  points: sending, reading a message, a turn of the keepalive loop, losing and making
  connections, closing. Shown: the airtime of everything transmitted for the layers above is
  within the instance's share of the channel over elapsed time, by the governor's own bound; an
  attached link under an amateur licence is on an unencrypted channel; the inbox stays within
  its bound and holds only payloads of the layers above; \<open>peers\<close> stays consistent.
\<close>

section \<open>Runs\<close>

datatype mesh_op =
    MSendOp bool instant int node_id bytes
  | MSendChargedOp bool instant int node_id bytes charge
  | MReadOp bool int int from_radio
  | MKeepaliveOp bool int keepalive
  | MAnnounceOp bool int
  | MConnectOp bool int "nat + from_radio list"
  | MLostOp bool
  | MBudgetOp int
  | MTakeOp
  | MCloseOp

fun mesh_step :: "'r mesh_env \<Rightarrow> mesh_op \<Rightarrow> 'r mesh_link \<Rightarrow> 'r mesh_link" where
  "mesh_step E (MSendOp c t now dest b) l = snd (ml_send E c t now dest b l)"
| "mesh_step E (MSendChargedOp c t now dest b ch) l = snd (ml_send_charged E c t now dest b ch l)"
| "mesh_step E (MReadOp c now rcv msg) l = snd (read_message E c now rcv msg l)"
| "mesh_step E (MKeepaliveOp c now k) l = snd (keepalive_turn E c now k l)"
| "mesh_step E (MAnnounceOp c now) l = snd (ml_announce E c now l)"
| "mesh_step E (MConnectOp c now d) l = snd (snd (connect E c now d l))"
| "mesh_step E (MLostOp c) l = snd (connection_lost E c l)"
| "mesh_step E (MBudgetOp now) l = snd (ml_budget now l)"
| "mesh_step E MTakeOp l = l\<lparr>ml_inbox := tl (ml_inbox l)\<rparr>"
| "mesh_step E MCloseOp l = ml_close E l"

text \<open>The packets an operation is given by the radio.\<close>

fun op_packets :: "mesh_op \<Rightarrow> mesh_packet list" where
  "op_packets (MReadOp c now rcv (FRPacket p)) = [p]"
| "op_packets (MConnectOp c now (Inr msgs)) = packets_of msgs"
| "op_packets _ = []"

definition mesh_run :: "'r mesh_env \<Rightarrow> mesh_op list \<Rightarrow> 'r mesh_link \<Rightarrow> 'r mesh_link" where
  "mesh_run E ops l = fold (mesh_step E) ops l"

text \<open>
  A property that every operation keeps, given that the few things operations are made of keep
  it: the shape of every invariant proof below. \<open>H\<close> holds of every packet the radio hands over.
\<close>

lemma read_config_packets:
  "read_config i msgs info = (r, ps, ls, rest) \<Longrightarrow> set ps \<subseteq> set (packets_of msgs)"
proof (induction msgs arbitrary: info r ps ls)
  case (Cons m msgs)
  then show ?case by (cases m) (fastforce simp: Let_def split: if_splits bool.splits prod.splits)+
qed simp

locale mesh_invariant =
  fixes E :: "'r mesh_env" and H :: "mesh_packet \<Rightarrow> bool" and P :: "'r mesh_link \<Rightarrow> bool"
  assumes frame: "P l \<Longrightarrow> payload = own_announcement E now l \<or> (\<exists>r. payload = encode_who_is r) \<Longrightarrow>
      P (snd (send_frame E cancelled broadcastAddr payload False l))"
    and stats: "P l \<Longrightarrow> P (ml_count f l)"
    and send: "P l \<Longrightarrow> P (snd (ml_send_charged E cancelled t now dest payload ch l))"
    and request: "P l \<Longrightarrow> (\<And>p. m \<noteq> TRPacket p) \<Longrightarrow> P (snd (conn_send E m l))"
    and dropped: "P l \<Longrightarrow> P (drop_connection E l)"
    and packet_id: "P l \<Longrightarrow> P (snd (next_packet_id E l))"
    and echo: "P l \<Longrightarrow> P (l\<lparr>ml_gov := gov_echo (ml_gov l)\<rparr>)"
    and hand: "P l \<Longrightarrow> H p \<Longrightarrow> mp_body p = Decoded PortPrivateApp payload \<Longrightarrow> id_for (mp_from p) (ml_peers l) = Some peer \<Longrightarrow>
      payload \<noteq> [] \<Longrightarrow> payload ! 0 \<notin> {FrameAnnounce, FrameWhoIs} \<Longrightarrow> P (hand_up now rcv peer payload l)"
    and budget: "P l \<Longrightarrow> P (snd (ml_budget now l))"
    and learned: "P l \<Longrightarrow> H p \<Longrightarrow> mp_body p = Decoded PortPrivateApp payload \<Longrightarrow>
      decode_announce (me_crypto E) payload (mp_from p) = Inr a \<Longrightarrow> P (l\<lparr>ml_peers := snd (pt_learn a now (ml_peers l))\<rparr>)"
    and asked: "P l \<Longrightarrow> P (l\<lparr>ml_asks := r\<rparr>)"
    and answered: "P l \<Longrightarrow> P (l\<lparr>ml_answers := r\<rparr>)"
    and heard: "P l \<Longrightarrow> P (l\<lparr>ml_last_rx := now, ml_session_rx := True\<rparr>)"
    and taken: "P l \<Longrightarrow> P (l\<lparr>ml_inbox := tl (ml_inbox l)\<rparr>)"
    and attached: "P l \<Longrightarrow> channel_index (ri_channels info) (mc_channel (ml_cfg l)) = Some idx \<Longrightarrow>
      check_channel policy (ri_channels info) (mc_channel (ml_cfg l)) = Inr () \<Longrightarrow>
      policy = policy_from_radio (Some info) (mc_override (ml_cfg l)) \<Longrightarrow> P (attach now info idx policy l)"
    and disconnected: "P l \<Longrightarrow> P (l\<lparr>ml_connected := False\<rparr>)"
    and detached: "P l \<Longrightarrow> P (l\<lparr>ml_conn := None\<rparr>)"
    and shut: "P l \<Longrightarrow> P (l\<lparr>ml_closed := True\<rparr>)"
begin

lemma announce: "P l \<Longrightarrow> P (snd (ml_announce E cancelled now l))"
proof -
  assume l: "P l"
  let ?l = "ml_count (\<lambda>s. s\<lparr>mt_announces := mt_announces s + 1\<rparr>) l"
  have "P (snd (send_frame E cancelled broadcastAddr (own_announcement E now ?l) False ?l))"
    by (rule frame [OF stats [OF l]]) blast
  then show ?thesis
    by (auto simp: ml_announce_def Let_def stats split: prod.splits option.splits)
qed

lemma who_is: "P l \<Longrightarrow> P (ask_who_is E now radio l)"
proof -
  assume l: "P l"
  have "P (snd (send_frame E False broadcastAddr (encode_who_is radio) False (l\<lparr>ml_asks := r\<rparr>)))" for r
    by (rule frame [OF asked [OF l]]) blast
  then show ?thesis using l asked by (simp add: ask_who_is_def Let_def split: prod.split)
qed

lemma deliver_keeps: "P l \<Longrightarrow> H p \<Longrightarrow> P (deliver E now rcv p l)"
proof -
  assume l: "P l" and p: "H p"
  have "P (on_announce E now payload (mp_from p) l)" if "mp_body p = Decoded PortPrivateApp payload" for payload
    using learned [OF l p that] by (simp add: on_announce_def l split: sum.split)
  moreover have "P (on_who_is E now payload self l)" for payload self
    by (simp add: on_who_is_def Let_def l answered announce split: sum.split prod.split)
  moreover have "P (hand_up now rcv peer payload l)"
    if "mp_body p = Decoded PortPrivateApp payload" "id_for (mp_from p) (ml_peers l) = Some peer"
      "payload \<noteq> []" "payload ! 0 \<noteq> FrameAnnounce" "payload ! 0 \<noteq> FrameWhoIs" for peer payload
    using that by (intro hand [OF l p]) simp_all
  ultimately show ?thesis
    using l by (simp add: deliver_def stats echo who_is split: packet_body.split option.split)
qed

lemma keepalive: "P l \<Longrightarrow> P (snd (keepalive_turn E cancelled now k l))"
proof -
  assume l: "P l"
  have ann: "P (snd (announce_turn E cancelled now k l'))" if "P l'" for k l'
    using that by (simp add: announce_turn_def Let_def announce)
  then have stall: "P (snd (stall_turn E cancelled now k l'))" if "P l'" for k l'
    using that by (simp add: stall_turn_def stats dropped)
  have "P (snd (conn_send E TRHeartbeat l))" by (rule request [OF l]) simp
  then show ?thesis
    using l stall by (auto simp: keepalive_turn_def Let_def split: prod.splits option.splits)
qed

lemma deliver_all: "P l \<Longrightarrow> list_all H ps \<Longrightarrow> P (fold (deliver E now rcv) ps l)"
  by (induction ps arbitrary: l) (simp_all add: deliver_keeps)

lemma connecting:
  assumes l: "P l" and h: "list_all H (op_packets (MConnectOp cancelled now d))"
  shows "P (snd (snd (connect E cancelled now d l)))"
proof (cases d)
  case (Inr msgs)
  let ?l1 = "snd (next_packet_id E l)" and ?pid = "fst (next_packet_id E l)"
  let ?l2 = "snd (conn_send E (TRWantConfig (?pid OR 1)) ?l1)"
  have l2: "P ?l2" by (rule request [OF packet_id [OF l]]) simp
  have cfg: "ml_cfg ?l2 = ml_cfg l" by (simp add: conn_send_def next_packet_id_def split: prod.split)
  have pend: "list_all H ps" if "read_config i msgs info = (r, ps, ls, rest)" for i info r ps ls rest
    using h read_config_packets [OF that] by (auto simp: Inr list_all_iff)
  show ?thesis
    using l2 deliver_all pend announce attached [OF l2] dropped [OF l2]
    by (auto simp: connect_def Inr Let_def split: prod.splits option.splits sum.splits)
qed (simp add: connect_def l)

lemma step: "P l \<Longrightarrow> list_all H (op_packets op) \<Longrightarrow> P (mesh_step E op l)"
proof (cases op)
  case (MReadOp c now rcv msg)
  assume "P l" "list_all H (op_packets op)"
  then show ?thesis using heard deliver_keeps
    by (auto simp: MReadOp read_message_def Let_def split: from_radio.split)
next
  case (MLostOp c)
  assume "P l"
  then have "P (l\<lparr>ml_connected := False\<rparr>)" by (rule disconnected)
  moreover from this have "P ((drop_connection E (l\<lparr>ml_connected := False\<rparr>))\<lparr>ml_conn := None\<rparr>)"
    by (intro detached dropped)
  ultimately show ?thesis by (simp add: MLostOp connection_lost_def Let_def)
next
  case MCloseOp
  assume l: "P l"
  have "P (l'\<lparr>ml_closed := True, ml_conn := None, ml_connected := False\<rparr>)" if "P l'" for l'
  proof -
    have "P (l'\<lparr>ml_closed := True, ml_conn := None\<rparr>)" using detached [OF shut [OF that]] by simp
    then show ?thesis using disconnected by fastforce
  qed
  then show ?thesis using l dropped by (simp add: MCloseOp ml_close_def)
qed (simp_all add: ml_send_def Let_def send keepalive announce connecting budget taken)

lemma run: "P l \<Longrightarrow> list_all (\<lambda>op. list_all H (op_packets op)) ops \<Longrightarrow> P (mesh_run E ops l)"
  unfolding mesh_run_def by (induction ops arbitrary: l) (simp_all add: step)

end

section \<open>Airtime\<close>

text \<open>The environment that also keeps the list of what the radio was given.\<close>

definition recorded :: "'r mesh_env \<Rightarrow> ('r \<times> to_radio list) mesh_env" where
  "recorded E = \<lparr>me_crypto = me_crypto E,
     me_send = (\<lambda>m (w, txs). case me_send E m w of
        (None, w') \<Rightarrow> (None, (w', txs @ [m])) | (Some e, w') \<Rightarrow> (Some e, (w', txs))),
     me_close = (\<lambda>(w, txs). (me_close E w, txs)), me_packet_id = me_packet_id E, me_int_n = me_int_n E\<rparr>"

text \<open>The payload of a transmission made for the layers above.\<close>

fun app_payload :: "to_radio \<Rightarrow> bytes option" where
  "app_payload (TRPacket p) =
     (case mp_body p of
        Decoded port b \<Rightarrow> if port = PortPrivateApp \<and> b \<noteq> [] \<and> b ! 0 \<notin> {FrameAnnounce, FrameWhoIs} then Some b else None
      | _ \<Rightarrow> None)"
| "app_payload _ = None"

text \<open>Its time on air, as the governor computes it, of one transmission (multiplier one).\<close>

definition app_airtime :: "preset \<Rightarrow> to_radio list \<Rightarrow> int" where
  "app_airtime p txs = sum_list (map (\<lambda>m. case app_payload m of Some b \<Rightarrow> packet_cost p 1 (int (length b)) | None \<Rightarrow> 0) txs)"

lemma app_airtime_append [simp]: "app_airtime p (xs @ ys) = app_airtime p xs + app_airtime p ys"
  by (simp add: app_airtime_def)

lemma app_airtime_Nil [simp]: "app_airtime p [] = 0"
  by (simp add: app_airtime_def)

lemma packet_cost_multiplier:
  assumes "preset_ok p" and "1 \<le> r"
  shows "packet_cost p 1 n \<le> packet_cost p r n"
proof -
  have "0 \<le> fl (of_int (airtime_packet p n))" using airtime_nonneg [OF assms(1)] by (intro fl_nonneg) simp
  then have "fl (of_int (airtime_packet p n)) * 1 \<le> fl (of_int (airtime_packet p n)) * r"
    using assms(2) by (intro mult_left_mono) simp_all
  then show ?thesis unfolding packet_cost_def by (intro trunc_mono fl_mono) simp
qed

lemma step_preset: "gov_ok g \<Longrightarrow> gc_preset (gv_cfg (gov_step op g)) = gc_preset (gv_cfg g)"
proof (cases op)
  case (OpAllow t now n ch w)
  assume "gov_ok g"
  then show ?thesis
    by (cases rule: allow_cases [of g t now n ch w]) (simp_all add: OpAllow pay_def)
next
  case (OpWould t n kl)
  then show ?thesis using check_state [of t n kl g] by (auto simp: gov_would_def split_beta Let_def prune_tx_def)
qed (simp_all add: gov_observe_def note_echo_def reestimate_def gov_budget_def set_instances_def set_area_shares_def
    inbound_fields Let_def)

lemma run_preset: "gov_ok g \<Longrightarrow> gc_preset (gv_cfg (gov_run ops g)) = gc_preset (gv_cfg g)"
  unfolding gov_run_def by (induction ops arbitrary: g) (simp_all add: step_preset step_ok)

lemma gov_run_append: "gov_run (xs @ ys) g = gov_run ys (gov_run xs g)"
  by (simp add: gov_run_def)

text \<open>
  What happened between two states: governor operations that never raise the roster's bound,
  which charged at least the airtime of what was transmitted for the layers above.
\<close>

definition metered :: "int \<Rightarrow> governor \<Rightarrow> ('r \<times> to_radio list) mesh_link \<Rightarrow> bool" where
  "metered N g l \<longleftrightarrow> (\<exists>ops. ml_gov l = Metered (gov_run ops g) \<and> (\<forall>op \<in> set ops. instances_at_least N op) \<and>
     app_airtime (gc_preset (gv_cfg g)) (snd (ml_air l)) \<le> gs_charged (gv_stats (gov_run ops g)) - gs_charged (gv_stats g))"

lemma metered_cong:
  "metered N g l \<Longrightarrow> ml_gov l' = ml_gov l \<Longrightarrow>
   app_airtime (gc_preset (gv_cfg g)) (snd (ml_air l')) = app_airtime (gc_preset (gv_cfg g)) (snd (ml_air l)) \<Longrightarrow> metered N g l'"
  by (simp add: metered_def)

text \<open>One governor operation that charges at least what is transmitted with it.\<close>

lemma metered_op:
  assumes "metered N g l" and "ml_gov l = Metered g1" and "instances_at_least N op" and "ml_gov l' = Metered (gov_step op g1)"
    and "app_airtime (gc_preset (gv_cfg g)) (snd (ml_air l')) - app_airtime (gc_preset (gv_cfg g)) (snd (ml_air l)) \<le>
      gs_charged (gv_stats (gov_step op g1)) - gs_charged (gv_stats g1)"
  shows "metered N g l'"
proof -
  obtain ops where ops: "ml_gov l = Metered (gov_run ops g)" "\<forall>op \<in> set ops. instances_at_least N op"
    "app_airtime (gc_preset (gv_cfg g)) (snd (ml_air l)) \<le> gs_charged (gv_stats (gov_run ops g)) - gs_charged (gv_stats g)"
    using assms(1) unfolding metered_def by blast
  have g1: "g1 = gov_run ops g" using assms(2) ops(1) by simp
  have "gov_run (ops @ [op]) g = gov_step op g1" by (simp add: gov_run_def g1)
  then show ?thesis
    unfolding metered_def using assms(3,4,5) ops(2,3) g1 by (intro exI [of _ "ops @ [op]"]) auto
qed

lemma conn_send_recorded:
  "snd (ml_air (snd (conn_send (recorded E) m l))) \<in> {snd (ml_air l), snd (ml_air l) @ [m]}"
  "ml_gov (snd (conn_send E' m l)) = ml_gov l"
  by (auto simp: conn_send_def recorded_def split: prod.splits option.splits)

lemma send_frame_recorded:
  "snd (ml_air (snd (send_frame (recorded E) c dest payload ack l))) = snd (ml_air l) \<or>
   (\<exists>p. snd (ml_air (snd (send_frame (recorded E) c dest payload ack l))) = snd (ml_air l) @ [TRPacket p] \<and>
      mp_body p = Decoded PortPrivateApp payload \<and> mp_channel p = ml_chan l \<and> mp_to p = dest)"
  by (auto simp: send_frame_def next_packet_id_def conn_send_def recorded_def Let_def split: prod.splits option.splits)

lemma send_frame_gov [simp]: "ml_gov (snd (send_frame E c dest payload ack l)) = ml_gov l"
  by (simp add: send_frame_def next_packet_id_def conn_send_def Let_def split: prod.split)

lemma charged_airtime:
  assumes "gov_ok g1" and "allow_charge t now n ch True g1 = (ok, g2)"
  shows "gs_charged (gv_stats g1) + (if ok then packet_cost (gc_preset (gv_cfg g1)) 1 n else 0) \<le> gs_charged (gv_stats g2)"
  using assms(1)
proof (cases rule: allow_cases [of g1 t now n ch True])
  case (refused g3)
  then show ?thesis using assms(2) by simp
next
  case (paid g3 g4)
  have ok3: "gov_ok g3" using check_ok [OF assms(1), of t n "ch_class ch"] paid(1) by simp
  have "gv_cfg g3 = gv_cfg g1"
    using check_state [of t n "ch_class ch" g1] paid(1) by (auto simp: prune_tx_def)
  then have "packet_cost (gc_preset (gv_cfg g1)) 1 n \<le> cost_locked g3 n"
    using packet_cost_multiplier [of "gc_preset (gv_cfg g3)" "gv_r g3" n] ok3 by (simp add: cost_locked_def gov_ok_def)
  then show ?thesis using paid assms(2) by (auto simp: pay_def)
qed

lemma app_payload_packet:
  "mp_body p = Decoded PortPrivateApp b \<Longrightarrow> app_payload (TRPacket p) = (if b \<noteq> [] \<and> b ! 0 \<notin> {FrameAnnounce, FrameWhoIs} then Some b else None)"
  by simp

lemma own_not_app:
  "payload = own_announcement E now l \<or> (\<exists>r. payload = encode_who_is r) \<Longrightarrow> payload \<noteq> [] \<and> payload ! 0 \<in> {FrameAnnounce, FrameWhoIs}"
  by (auto simp: own_announcement_def encode_announce_def encode_who_is_def Let_def)

lemma metered_frame:
  assumes "metered N g l" and "payload \<noteq> [] \<and> payload ! 0 \<in> {FrameAnnounce, FrameWhoIs}"
  shows "metered N g (snd (send_frame (recorded E) c dest payload ack l))"
proof (rule metered_cong [OF assms(1)])
  show "app_airtime (gc_preset (gv_cfg g)) (snd (ml_air (snd (send_frame (recorded E) c dest payload ack l)))) =
    app_airtime (gc_preset (gv_cfg g)) (snd (ml_air l))"
    using send_frame_recorded [of E c dest payload ack l] assms(2)
    by (auto simp: app_airtime_def)
qed simp

lemma frame_airtime:
  assumes "preset_ok p"
  shows "app_airtime p (snd (ml_air (snd (send_frame (recorded E) c dest payload ack l)))) - app_airtime p (snd (ml_air l))
    \<le> packet_cost p 1 (int (length payload))"
proof -
  have "0 \<le> packet_cost p 1 (int (length payload))" using packet_cost_mono(2) [OF assms _ order_refl, of 1] by simp
  then show ?thesis
    using send_frame_recorded [of E c dest payload ack l] by (auto simp: app_airtime_def)
qed

lemma metered_send:
  assumes "gov_ok g" and "metered N g l"
  shows "metered N g (snd (ml_send_charged (recorded E) c t now dest payload ch l))"
proof -
  obtain ops where ops: "ml_gov l = Metered (gov_run ops g)" using assms(2) unfolding metered_def by blast
  define g1 where "g1 = gov_run ops g"
  have g1: "ml_gov l = Metered g1" "gov_ok g1" "gc_preset (gv_cfg g1) = gc_preset (gv_cfg g)"
    using ops run_ok [OF assms(1)] run_preset [OF assms(1)] by (simp_all add: g1_def)
  obtain ok g2 where ac: "allow_charge t now (int (length payload)) ch True g1 = (ok, g2)" by fastforce
  note charged = charged_airtime [OF g1(2) ac, unfolded g1(3)]
  have p: "preset_ok (gc_preset (gv_cfg g))" using assms(1) by (simp add: gov_ok_def)
  have paid: "metered N g l'" if "ml_gov l' = Metered g2"
    and "app_airtime (gc_preset (gv_cfg g)) (snd (ml_air l')) - app_airtime (gc_preset (gv_cfg g)) (snd (ml_air l)) \<le>
      (if ok then packet_cost (gc_preset (gv_cfg g)) 1 (int (length payload)) else 0)" for l'
    by (rule metered_op [OF assms(2) g1(1), of "OpAllow t now (int (length payload)) ch True"])
      (use that charged ac in simp_all)
  have refused: "metered N g (ml_count f (l\<lparr>ml_gov := Metered g2\<rparr>))" if "\<not> ok" for f
    using that by (intro paid) (simp_all add: ml_count_def)
  have sent: "metered N g l3 \<and> metered N g (ml_count f l3)"
    if "ok" and "send_frame (recorded E) c radio payload ack (ml_count h (l\<lparr>ml_gov := Metered g2\<rparr>)) = (e, l3)" for f h radio ack e l3
    using that frame_airtime [OF p, of E c radio payload ack "ml_count h (l\<lparr>ml_gov := Metered g2\<rparr>)"]
      send_frame_gov [of "recorded E" c radio payload ack "ml_count h (l\<lparr>ml_gov := Metered g2\<rparr>)"]
    by (intro conjI paid) (simp_all add: ml_count_def)
  show ?thesis
    using assms(2) refused sent
    by (auto simp: ml_send_charged_def Let_def gov_admits_def g1(1) ac split: option.splits prod.splits if_splits)
qed

lemma metered_gov_op:
  assumes "metered N g l" and "instances_at_least N op" and "\<And>g1. gs_charged (gv_stats (gov_step op g1)) = gs_charged (gv_stats g1)"
    and "\<And>g1. ml_gov l = Metered g1 \<Longrightarrow> ml_gov l' = Metered (gov_step op g1)" and "ml_air l' = ml_air l"
  shows "metered N g l'"
proof -
  obtain ops where "ml_gov l = Metered (gov_run ops g)" using assms(1) unfolding metered_def by blast
  then show ?thesis using metered_op [OF assms(1) _ assms(2) assms(4)] assms(3,5) by simp
qed

lemma drop_recorded: "snd (ml_air (drop_connection (recorded E) l)) = snd (ml_air l)" "ml_gov (drop_connection E' l) = ml_gov l"
  by (simp_all add: drop_connection_def recorded_def split: prod.split)

lemma metered_invariant:
  assumes ok: "gov_ok g"
  shows "mesh_invariant (recorded E) (\<lambda>_. True) (metered N g)"
proof
  fix l :: "('a \<times> to_radio list) mesh_link" and payload now cancelled
  assume "metered N g l" "payload = own_announcement (recorded E) now l \<or> (\<exists>r. payload = encode_who_is r)"
  then show "metered N g (snd (send_frame (recorded E) cancelled broadcastAddr payload False l))"
    by (intro metered_frame own_not_app)
next
  fix l :: "('a \<times> to_radio list) mesh_link" and m
  assume "metered N g l" "\<And>p. m \<noteq> TRPacket p"
  moreover from this have "app_payload m = None" by (cases m) auto
  ultimately show "metered N g (snd (conn_send (recorded E) m l))"
    using conn_send_recorded(1) [of E m l]
    by (intro metered_cong [OF \<open>metered N g l\<close>]) (auto simp: conn_send_recorded(2) app_airtime_def)
next
  fix l :: "('a \<times> to_radio list) mesh_link"
  assume "metered N g l"
  then show "metered N g (l\<lparr>ml_gov := gov_echo (ml_gov l)\<rparr>)"
    by (rule metered_gov_op [where op = OpEcho]) (simp_all add: gov_echo_def note_echo_def reestimate_def Let_def)
next
  fix l :: "('a \<times> to_radio list) mesh_link" and now
  assume m: "metered N g l"
  show "metered N g (snd (ml_budget now l))"
    by (rule metered_gov_op [OF m, where op = "OpBudget now"])
      (auto simp: ml_budget_def gov_budget_def Let_def split: link_governor.splits)
next
  fix l :: "('a \<times> to_radio list) mesh_link" and payload now rcv peer
  assume m: "metered N g l"
  show "metered N g (hand_up now rcv peer payload l)"
    by (rule metered_gov_op [OF m, where op = "OpInbound now peer (int (length payload))"])
      (auto simp: hand_up_def gov_inbound_def ml_count_def Let_def inbound_fields split: link_governor.splits prod.splits)
next
  fix l :: "('a \<times> to_radio list) mesh_link" and t now dest payload ch cancelled
  assume "metered N g l"
  then show "metered N g (snd (ml_send_charged (recorded E) cancelled t now dest payload ch l))"
    by (rule metered_send [OF ok])
qed (auto simp: ml_count_def next_packet_id_def attach_def drop_recorded elim!: metered_cong)

interpretation airtime_kept: mesh_invariant "recorded E" "\<lambda>_. True" "\<lambda>l. gov_ok g \<and> metered N g l" for E N g
proof (cases "gov_ok g")
  case True
  then show "mesh_invariant (recorded E) (\<lambda>_. True) (\<lambda>l. gov_ok g \<and> metered N g l)" using metered_invariant by simp
next
  case False
  then show "mesh_invariant (recorded E) (\<lambda>_. True) (\<lambda>l. gov_ok g \<and> metered N g l)" by unfold_locales simp_all
qed

section \<open>The channel of a licensed node\<close>

text \<open>
  What the connection was made under: the radio's description, in which the channel was found
  and passed the check of the policy in force.
\<close>

definition channel_checked :: "'r mesh_link \<Rightarrow> bool" where
  "channel_checked l \<longleftrightarrow> (ml_conn l \<noteq> None \<longrightarrow>
     (\<exists>info. ml_radio l = Some info \<and> channel_index (ri_channels info) (mc_channel (ml_cfg l)) = Some (ml_chan l) \<and>
        ml_policy l = policy_from_radio (Some info) (mc_override (ml_cfg l)) \<and>
        check_channel (ml_policy l) (ri_channels info) (mc_channel (ml_cfg l)) = Inr ()))"

lemma channel_checked_cong:
  "channel_checked l \<Longrightarrow> ml_conn l' = ml_conn l \<Longrightarrow> ml_radio l' = ml_radio l \<Longrightarrow> ml_cfg l' = ml_cfg l \<Longrightarrow>
   ml_chan l' = ml_chan l \<Longrightarrow> ml_policy l' = ml_policy l \<Longrightarrow> channel_checked l'"
  by (simp add: channel_checked_def)

lemma send_frame_fields [simp]:
  "ml_conn (snd (send_frame E c dest payload ack l)) = ml_conn l" "ml_radio (snd (send_frame E c dest payload ack l)) = ml_radio l"
  "ml_cfg (snd (send_frame E c dest payload ack l)) = ml_cfg l" "ml_chan (snd (send_frame E c dest payload ack l)) = ml_chan l"
  "ml_policy (snd (send_frame E c dest payload ack l)) = ml_policy l" "ml_inbox (snd (send_frame E c dest payload ack l)) = ml_inbox l"
  "ml_peers (snd (send_frame E c dest payload ack l)) = ml_peers l" "ml_connected (snd (send_frame E c dest payload ack l)) = ml_connected l"
  "ml_asks (snd (send_frame E c dest payload ack l)) = ml_asks l" "ml_answers (snd (send_frame E c dest payload ack l)) = ml_answers l"
  "ml_self (snd (send_frame E c dest payload ack l)) = ml_self l"
  by (simp_all add: send_frame_def next_packet_id_def conn_send_def Let_def split: prod.split)

lemma ml_count_fields [simp]:
  "ml_conn (ml_count f l) = ml_conn l" "ml_radio (ml_count f l) = ml_radio l" "ml_cfg (ml_count f l) = ml_cfg l"
  "ml_chan (ml_count f l) = ml_chan l" "ml_policy (ml_count f l) = ml_policy l" "ml_inbox (ml_count f l) = ml_inbox l"
  "ml_peers (ml_count f l) = ml_peers l" "ml_gov (ml_count f l) = ml_gov l" "ml_air (ml_count f l) = ml_air l"
  "ml_connected (ml_count f l) = ml_connected l" "ml_asks (ml_count f l) = ml_asks l" "ml_answers (ml_count f l) = ml_answers l"
  "ml_self (ml_count f l) = ml_self l" "ml_drawn (ml_count f l) = ml_drawn l" "ml_hop (ml_count f l) = ml_hop l"
  by (simp_all add: ml_count_def)

lemma send_charged_fields [simp]:
  "ml_conn (snd (ml_send_charged E c t now dest payload ch l)) = ml_conn l"
  "ml_radio (snd (ml_send_charged E c t now dest payload ch l)) = ml_radio l"
  "ml_cfg (snd (ml_send_charged E c t now dest payload ch l)) = ml_cfg l"
  "ml_chan (snd (ml_send_charged E c t now dest payload ch l)) = ml_chan l"
  "ml_policy (snd (ml_send_charged E c t now dest payload ch l)) = ml_policy l"
  "ml_inbox (snd (ml_send_charged E c t now dest payload ch l)) = ml_inbox l"
  "ml_peers (snd (ml_send_charged E c t now dest payload ch l)) = ml_peers l"
  "ml_connected (snd (ml_send_charged E c t now dest payload ch l)) = ml_connected l"
  by (simp_all add: ml_send_charged_def Let_def split_beta split: option.split)

lemma budget_fields [simp]:
  "ml_conn (snd (ml_budget now l)) = ml_conn l" "ml_radio (snd (ml_budget now l)) = ml_radio l"
  "ml_cfg (snd (ml_budget now l)) = ml_cfg l" "ml_chan (snd (ml_budget now l)) = ml_chan l"
  "ml_policy (snd (ml_budget now l)) = ml_policy l" "ml_inbox (snd (ml_budget now l)) = ml_inbox l"
  "ml_peers (snd (ml_budget now l)) = ml_peers l"
  by (simp_all add: ml_budget_def Let_def split_beta split: link_governor.split)

lemma hand_up_fields [simp]:
  "ml_conn (hand_up now rcv peer payload l) = ml_conn l" "ml_radio (hand_up now rcv peer payload l) = ml_radio l"
  "ml_cfg (hand_up now rcv peer payload l) = ml_cfg l" "ml_chan (hand_up now rcv peer payload l) = ml_chan l"
  "ml_policy (hand_up now rcv peer payload l) = ml_policy l" "ml_peers (hand_up now rcv peer payload l) = ml_peers l"
  by (simp_all add: hand_up_def Let_def split_beta)

lemma conn_send_fields [simp]:
  "ml_conn (snd (conn_send E m l)) = ml_conn l" "ml_radio (snd (conn_send E m l)) = ml_radio l"
  "ml_cfg (snd (conn_send E m l)) = ml_cfg l" "ml_chan (snd (conn_send E m l)) = ml_chan l"
  "ml_policy (snd (conn_send E m l)) = ml_policy l" "ml_inbox (snd (conn_send E m l)) = ml_inbox l"
  "ml_peers (snd (conn_send E m l)) = ml_peers l"
  by (simp_all add: conn_send_def split_beta)

interpretation channel_kept: mesh_invariant E "\<lambda>_. True" channel_checked for E :: "'r mesh_env"
proof
  fix l :: "'r mesh_link" and info idx policy now
  assume "channel_index (ri_channels info) (mc_channel (ml_cfg l)) = Some idx"
    "check_channel policy (ri_channels info) (mc_channel (ml_cfg l)) = Inr ()"
    "policy = policy_from_radio (Some info) (mc_override (ml_cfg l))"
  then show "channel_checked (attach now info idx policy l)"
    by (simp add: channel_checked_def attach_def)
next
  fix l :: "'r mesh_link"
  show "channel_checked (l\<lparr>ml_conn := None\<rparr>)" by (simp add: channel_checked_def)
qed (auto simp: drop_connection_def next_packet_id_def elim!: channel_checked_cong)

section \<open>The inbox and the peers\<close>

text \<open>
  \<open>named_by H c r i\<close>: among the packets satisfying \<open>H\<close> there is one from radio \<open>r\<close> that carries a key,
  that same radio's number, a time, and a signature by the key over all of them which verifies; and
  \<open>i\<close> is the hash of the key. It does not mention the link's own parser.
\<close>

definition named_by :: "(mesh_packet \<Rightarrow> bool) \<Rightarrow> crypto \<Rightarrow> u32 \<Rightarrow> node_id \<Rightarrow> bool" where
  "named_by H c r i \<longleftrightarrow> (\<exists>p pub s sig. H p \<and> mp_from p = r \<and>
     mp_body p = Decoded PortPrivateApp (FrameAnnounce # pub @ put_u32 r @ put_u32 s @ sig) \<and>
     length pub = PublicKeySize \<and> length sig = 64 \<and>
     ed_verify c pub (FrameAnnounce # pub @ put_u32 r @ put_u32 s) sig \<and>
     i = node_id_from_public_key (blake3 c) pub)"

definition datagram_ok :: "(mesh_packet \<Rightarrow> bool) \<Rightarrow> crypto \<Rightarrow> datagram \<Rightarrow> bool" where
  "datagram_ok H c dg \<longleftrightarrow> dg_data dg \<noteq> [] \<and> dg_data dg ! 0 \<notin> {FrameAnnounce, FrameWhoIs} \<and>
     (\<exists>q. H q \<and> mp_body q = Decoded PortPrivateApp (dg_data dg) \<and> named_by H c (mp_from q) (dg_from dg))"

definition inbox_ok_for :: "(mesh_packet \<Rightarrow> bool) \<Rightarrow> crypto \<Rightarrow> 'r mesh_link \<Rightarrow> bool" where
  "inbox_ok_for H c l \<longleftrightarrow> int (length (ml_inbox l)) \<le> max 0 (mc_inbox (ml_cfg l)) \<and> pt_ok (ml_peers l) \<and>
     (\<forall>r i. id_for r (ml_peers l) = Some i \<longrightarrow> named_by H c r i) \<and>
     list_all (datagram_ok H c) (map fst (ml_inbox l))"

lemma mesh_inbox_cong:
  "inbox_ok_for H c l \<Longrightarrow> ml_inbox l' = ml_inbox l \<Longrightarrow> ml_peers l' = ml_peers l \<Longrightarrow> ml_cfg l' = ml_cfg l \<Longrightarrow> inbox_ok_for H c l'"
  by (simp add: inbox_ok_for_def)

lemma hand_up_inbox:
  "ml_inbox (hand_up now rcv peer payload l) =
     (if fst (gov_inbound now peer (int (length payload)) (ml_gov l)) \<and> int (length (ml_inbox l)) < mc_inbox (ml_cfg l)
      then ml_inbox l @ [(\<lparr>dg_from = peer, dg_data = payload\<rparr>, rcv)] else ml_inbox l)"
  by (simp add: hand_up_def Let_def split_beta)

lemma learn_names:
  "id_for r (snd (pt_learn a now t)) = Some i \<Longrightarrow> id_for r t = Some i \<or> (r = an_radio a \<and> i = an_id a)"
  by (auto simp: id_for_def pt_learn_def pt_bind_lookup split: if_splits option.splits)

interpretation inbox_kept: mesh_invariant E H "inbox_ok_for H (me_crypto E)" for E :: "'r mesh_env" and H
proof
  fix l :: "'r mesh_link" and p payload now rcv peer
  assume "inbox_ok_for H (me_crypto E) l" "H p" "mp_body p = Decoded PortPrivateApp payload"
    "id_for (mp_from p) (ml_peers l) = Some peer" "payload \<noteq> []" "payload ! 0 \<notin> {FrameAnnounce, FrameWhoIs}"
  then show "inbox_ok_for H (me_crypto E) (hand_up now rcv peer payload l)"
    by (auto simp: inbox_ok_for_def hand_up_inbox datagram_ok_def)
next
  fix l :: "'r mesh_link" and p payload a now
  assume l: "inbox_ok_for H (me_crypto E) l" and p: "H p" "mp_body p = Decoded PortPrivateApp payload"
    and dec: "decode_announce (me_crypto E) payload (mp_from p) = Inr a"
  obtain s sig where a: "payload = FrameAnnounce # an_key a @ put_u32 (mp_from p) @ put_u32 s @ sig" "length (an_key a) = 32"
      "length sig = 64" "ed_verify (me_crypto E) (an_key a) (FrameAnnounce # an_key a @ put_u32 (mp_from p) @ put_u32 s) sig"
    and fields: "a = \<lparr>an_id = node_id_from_public_key (blake3 (me_crypto E)) (an_key a), an_key = an_key a,
      an_radio = mp_from p, an_at = uint s * time_second\<rparr>"
    using dec unfolding decode_announce_iff by blast
  have "an_radio a = mp_from p" "an_id a = node_id_from_public_key (blake3 (me_crypto E)) (an_key a)"
    by (subst fields, simp)+
  then have "named_by H (me_crypto E) (an_radio a) (an_id a)"
    using p a unfolding named_by_def PublicKeySize_def by auto
  then show "inbox_ok_for H (me_crypto E) (l\<lparr>ml_peers := snd (pt_learn a now (ml_peers l))\<rparr>)"
    using l by (auto simp: inbox_ok_for_def pt_learn_ok dest: learn_names)
next
  fix l :: "'r mesh_link"
  assume "inbox_ok_for H (me_crypto E) l"
  then show "inbox_ok_for H (me_crypto E) (l\<lparr>ml_inbox := tl (ml_inbox l)\<rparr>)"
    by (cases "ml_inbox l") (auto simp: inbox_ok_for_def)
qed (auto simp: drop_connection_def next_packet_id_def attach_def elim!: mesh_inbox_cong)

section \<open>Keeping the connection\<close>

text \<open>The keepalive loop at given wake-up times: when it ends, if it does, and the link it leaves.\<close>

fun keepalive_loop :: "'r mesh_env \<Rightarrow> keepalive \<Rightarrow> int list \<Rightarrow> 'r mesh_link \<Rightarrow> int option \<times> 'r mesh_link" where
  "keepalive_loop E k [] l = (None, l)"
| "keepalive_loop E k (t # ts) l =
     (case keepalive_turn E False t k l of
        (None, l') \<Rightarrow> (Some t, l')
      | (Some k', l') \<Rightarrow> keepalive_loop E k' ts l')"

definition wakeups :: "int \<Rightarrow> int \<Rightarrow> nat \<Rightarrow> nat \<Rightarrow> int list" where
  "wakeups start tick i n = map (\<lambda>j. start + int j * tick) [i..<n]"

lemma wakeups_Cons: "i < n \<Longrightarrow> wakeups start tick i n = (start + int i * tick) # wakeups start tick (Suc i) n"
  by (simp add: wakeups_def upt_rec [of i n])

lemma send_frame_last_rx [simp]: "ml_last_rx (snd (send_frame E c dest payload ack l)) = ml_last_rx l"
  by (simp add: send_frame_def next_packet_id_def conn_send_def Let_def split: prod.split)

lemma announce_link_fields [simp]:
  "ml_conn (snd (ml_announce E c now l)) = ml_conn l" "ml_cfg (snd (ml_announce E c now l)) = ml_cfg l"
  "ml_last_rx (snd (ml_announce E c now l)) = ml_last_rx l"
  by (simp_all add: ml_announce_def Let_def split_beta ml_count_def split: option.split)

lemma conn_send_last_rx [simp]: "ml_last_rx (snd (conn_send E m l)) = ml_last_rx l"
  by (simp add: conn_send_def split_beta)

text \<open>A turn on a connection that accepts what is written: it ends the loop exactly on a stall.\<close>

lemma keepalive_turn_ok:
  assumes "\<And>m w. fst (me_send E m w) = None" and "ml_conn l = ka_session k" and "ka_session k \<noteq> None"
  shows "fst (keepalive_turn E False t k l) = None \<longleftrightarrow> rx_stalled t l"
    and "fst (keepalive_turn E False t k l) = Some k' \<Longrightarrow> ka_session k' = ka_session k \<and> ka_tick k' = ka_tick k"
    and "ml_conn (snd (keepalive_turn E False t k l)) = ml_conn l"
    and "ml_cfg (snd (keepalive_turn E False t k l)) = ml_cfg l"
    and "ml_last_rx (snd (keepalive_turn E False t k l)) = ml_last_rx l"
proof -
  have ann: "fst (announce_turn E False t k1 l1) \<noteq> None" for k1 l1
    by (simp add: announce_turn_def Let_def)
  have ann': "fst (announce_turn E False t k1 l1) = Some k' \<Longrightarrow> ka_session k' = ka_session k1 \<and> ka_tick k' = ka_tick k1" for k1 l1
    by (auto simp: announce_turn_def Let_def split: if_splits)
  have ann'': "ml_conn (snd (announce_turn E False t k1 l1)) = ml_conn l1 \<and> ml_cfg (snd (announce_turn E False t k1 l1)) = ml_cfg l1 \<and>
      ml_last_rx (snd (announce_turn E False t k1 l1)) = ml_last_rx l1" for k1 l1
    by (simp add: announce_turn_def Let_def)
  have hb: "fst (conn_send E TRHeartbeat l) = None" using assms(1) by (simp add: conn_send_def split_beta)
  then obtain l1 where l1: "conn_send E TRHeartbeat l = (None, l1)" by (cases "conn_send E TRHeartbeat l") simp
  have f: "ml_conn l1 = ml_conn l" "ml_cfg l1 = ml_cfg l" "ml_last_rx l1 = ml_last_rx l"
    using conn_send_fields [of E TRHeartbeat l] conn_send_last_rx [of E TRHeartbeat l] l1 by simp_all
  have st: "rx_stalled t l1 = rx_stalled t l" using f by (simp add: rx_stalled_def)
  note defs = keepalive_turn_def stall_turn_def Let_def
  show "fst (keepalive_turn E False t k l) = None \<longleftrightarrow> rx_stalled t l"
    using assms(2,3) l1 ann st by (auto simp: defs)
  show "fst (keepalive_turn E False t k l) = Some k' \<Longrightarrow> ka_session k' = ka_session k \<and> ka_tick k' = ka_tick k"
    using assms(2,3) l1 by (auto simp: defs dest!: ann' split: if_splits)
  show "ml_conn (snd (keepalive_turn E False t k l)) = ml_conn l" "ml_cfg (snd (keepalive_turn E False t k l)) = ml_cfg l"
    "ml_last_rx (snd (keepalive_turn E False t k l)) = ml_last_rx l"
    using assms(2,3) l1 f by (simp_all add: defs ann'' drop_connection_def ml_count_def)
qed

lemma keepalive_detects:
  assumes "\<And>m w. fst (me_send E m w) = None"
    and "ml_conn l = ka_session k" and "ka_session k \<noteq> None"
    and "ml_last_rx l = a" and "a \<noteq> 0" and "0 < mc_rx_timeout (ml_cfg l)" and "0 < tick"
    and "i \<le> s" and "s < n" and "s = Suc (nat (mc_rx_timeout (ml_cfg l) div tick))"
  shows "fst (keepalive_loop E k (wakeups a tick i n) l) = Some (a + int s * tick)"
  using assms(2-4,6,8-10)
proof (induction "s - i" arbitrary: i k l)
  case 0
  let ?R = "mc_rx_timeout (ml_cfg l)"
  have i: "i = s" using 0 by simp
  have "?R < tick * (?R div tick) + tick" using assms(7) by (metis add.commute div_mult_mod_eq mult.commute pos_mod_bound add_less_cancel_left)
  then have "?R < int s * tick" using 0 assms(7) by (simp add: algebra_simps pos_imp_zdiv_nonneg_iff)
  then have "rx_stalled (a + int s * tick) l" using 0 assms(5) by (simp add: rx_stalled_def)
  then obtain l2 where turn: "keepalive_turn E False (a + int s * tick) k l = (None, l2)"
    using keepalive_turn_ok(1) [OF assms(1) 0(2,3)] by (metis prod.collapse)
  show ?case unfolding i wakeups_Cons [OF \<open>s < n\<close>] by (simp only: keepalive_loop.simps turn) simp
next
  case (Suc d)
  let ?R = "mc_rx_timeout (ml_cfg l)" and ?t = "a + int i * tick"
  have q: "0 \<le> ?R div tick" using Suc.prems(4) assms(7) by (simp add: pos_imp_zdiv_nonneg_iff)
  have "i \<le> nat (?R div tick)" using Suc.hyps(2) Suc.prems(7) by simp
  then have "int i \<le> ?R div tick" using q by linarith
  then have "int i * tick \<le> ?R div tick * tick" using assms(7) by (intro mult_right_mono) simp_all
  also have "\<dots> \<le> ?R" using assms(7) by (metis add.commute div_mult_mod_eq le_add_same_cancel2 mult.commute pos_mod_sign add_increasing2 order_refl)
  finally have "int i * tick \<le> ?R" .
  then have "\<not> rx_stalled ?t l" using Suc.prems by (simp add: rx_stalled_def)
  then obtain k' where k': "fst (keepalive_turn E False ?t k l) = Some k'"
    using keepalive_turn_ok(1) [OF assms(1) Suc.prems(1,2), of ?t] by auto
  let ?l = "snd (keepalive_turn E False ?t k l)"
  note f = keepalive_turn_ok(3-5) [OF assms(1) Suc.prems(1,2), of ?t]
  have "fst (keepalive_loop E k' (wakeups a tick (Suc i) n) ?l) = Some (a + int s * tick)"
    by (rule Suc.hyps(1)) (use Suc f keepalive_turn_ok(2) [OF assms(1) Suc.prems(1,2) k'] in auto)
  moreover have "i < n" using Suc by simp
  ultimately show ?case using k' by (cases "keepalive_turn E False ?t k l") (simp add: wakeups_Cons)
qed

section \<open>The first connection\<close>

text \<open>
  The attempts of \<open>connectWithRetry\<close> on a clock that sleeps at least as long as asked: each is
  made no earlier than the delay after the one before.
\<close>

fun paced :: "int \<Rightarrow> int \<Rightarrow> (bool \<times> int \<times> (nat + from_radio list)) list \<Rightarrow> bool" where
  "paced earliest backoff [] = True"
| "paced earliest backoff ((c, now, d) # attempts) =
     (earliest \<le> now \<and> paced (now + backoff) (if backoff * 2 > time_minute then time_minute else backoff * 2) attempts)"

lemma retry_ends:
  assumes "paced start backoff attempts" and "0 < m" and "m \<le> backoff" and "m \<le> time_minute"
    and "deadline \<le> start + int n * m" and "n < length attempts"
  shows "connect_with_retry E deadline backoff attempts l \<noteq> None"
  using assms(1,3,5,6)
proof (induction attempts arbitrary: start backoff n l)
  case (Cons x attempts)
  obtain c now d where x: "x = (c, now, d)" by (cases x)
  obtain err rest l1 where conn: "connect E c now d l = (err, rest, l1)" by (cases "connect E c now d l")
  let ?b = "if backoff * 2 > time_minute then time_minute else backoff * 2"
  have again: "connect_with_retry E deadline ?b attempts l1 \<noteq> None" if "now + backoff < deadline"
  proof -
    have "start \<le> now" using Cons.prems(1) by (simp add: x)
    then have "m < int n * m" using that Cons.prems(2,3) assms(2) by linarith
    then have "1 < int n" using assms(2) by simp
    then obtain n' where n': "n = Suc n'" "0 < n'" by (cases n) simp_all
    show ?thesis
    proof (rule Cons.IH)
      show "paced (now + backoff) ?b attempts" using Cons.prems(1) by (simp add: x)
      show "m \<le> ?b" using Cons.prems(2) assms(2,4) by auto
      show "deadline \<le> now + backoff + int n' * m"
        using Cons.prems(2,3) \<open>start \<le> now\<close> n' by (simp add: algebra_simps)
      show "n' < length attempts" using Cons.prems(4) n' by simp
    qed
  qed
  show ?case using again by (auto simp: x conn split: option.split)
qed simp

end
