(* ===== verification/Discovery.thy ===== *)
theory Discovery
  imports MeshRuns
begin

text \<open>
  Properties of the mesh link, proved over the runs of \<open>MeshRuns\<close>: what reaches the air is paid
  for, what reaches the inbox is attributed, a licensed node stays in the clear, a silent radio
  is noticed, the first connection does not wait for ever, and two links that cannot name each
  other repair that by themselves. The last property is about a budget the code applies where
  its comment says it must not.
\<close>

section \<open>One transmission\<close>

definition outgoing :: "'r mesh_env \<Rightarrow> u32 \<Rightarrow> bytes \<Rightarrow> bool \<Rightarrow> 'r mesh_link \<Rightarrow> mesh_packet" where
  "outgoing E dest payload ack l = \<lparr>mp_from = 0, mp_to = dest, mp_channel = ml_chan l, mp_id = fst (next_packet_id E l),
     mp_hop_limit = ml_hop l, mp_want_ack = ack, mp_pki = False, mp_body = Decoded PortPrivateApp payload\<rparr>"

text \<open>A transmission as a neighbour's radio hands it over: with its sender and the local channel.\<close>

definition heard_as :: "u32 \<Rightarrow> u32 \<Rightarrow> mesh_packet \<Rightarrow> mesh_packet" where
  "heard_as sender ch p = p\<lparr>mp_from := sender, mp_channel := ch\<rparr>"

lemma heard_as_sel [simp]:
  "mp_from (heard_as s ch p) = s" "mp_to (heard_as s ch p) = mp_to p" "mp_channel (heard_as s ch p) = ch"
  "mp_body (heard_as s ch p) = mp_body p"
  by (simp_all add: heard_as_def)

lemma send_frame_sent:
  assumes "\<And>m w. fst (me_send E m w) = None" and "ml_conn l \<noteq> None"
  shows "snd (ml_air (snd (send_frame (recorded E) False dest payload ack l))) =
      snd (ml_air l) @ [TRPacket (outgoing (recorded E) dest payload ack l)]"
    and "fst (send_frame (recorded E) False dest payload ack l) = None"
proof -
  have "\<exists>w'. me_send E m w = (None, w')" for m w using assms(1) [of m w] by (metis prod.collapse)
  then obtain w' where w': "me_send E (TRPacket (outgoing (recorded E) dest payload ack l)) (fst (ml_air l)) = (None, w')" by blast
  show "snd (ml_air (snd (send_frame (recorded E) False dest payload ack l))) =
      snd (ml_air l) @ [TRPacket (outgoing (recorded E) dest payload ack l)]"
    "fst (send_frame (recorded E) False dest payload ack l) = None"
    using assms(2) w' by (simp_all add: send_frame_def next_packet_id_def conn_send_def recorded_def outgoing_def Let_def split_beta)
qed

lemma own_radio_frame [simp]:
  "own_radio (ml_count f l) = own_radio l" "own_radio (l\<lparr>ml_asks := r\<rparr>) = own_radio l" "own_radio (l\<lparr>ml_answers := r\<rparr>) = own_radio l"
  by (simp_all add: own_radio_def ml_count_def)

lemma deliver_unknown:
  assumes "mp_body p = Decoded PortPrivateApp payload" and "payload \<noteq> []" and "payload ! 0 \<notin> {FrameAnnounce, FrameWhoIs}"
    and "mp_channel p = ml_chan l" and "mp_from p \<noteq> own_radio l" and "id_for (mp_from p) (ml_peers l) = None"
  shows "deliver E now rcv p l = ask_who_is E now (mp_from p) (ml_count (\<lambda>s. s\<lparr>mt_unattributed := mt_unattributed s + 1\<rparr>) l)"
  using assms by (simp add: deliver_def on_our_channel_def)

lemma deliver_who_is:
  assumes "mp_body p = Decoded PortPrivateApp (encode_who_is (own_radio l))" and "mp_channel p = ml_chan l"
    and "mp_from p \<noteq> own_radio l" and "fst (ar_allow broadcastAddr now (ml_answers l))"
  shows "deliver E now rcv p l = snd (ml_announce E False now (l\<lparr>ml_answers := snd (ar_allow broadcastAddr now (ml_answers l))\<rparr>))"
proof -
  have "decode_who_is (encode_who_is r) = Inr r" for r
    using get_put_u32 [of r "[]"] by (simp add: decode_who_is_def encode_who_is_def announce_consts)
  then show ?thesis
    using assms by (simp add: deliver_def on_our_channel_def on_who_is_def Let_def split_beta)
      (simp add: encode_who_is_def announce_consts on_who_is_def)
qed

lemma deliver_announce:
  assumes "mp_body p = Decoded PortPrivateApp b" and "decode_announce (me_crypto E) b (mp_from p) = Inr a"
    and "mp_channel p = ml_chan l" and "mp_from p \<noteq> own_radio l" and "an_id a \<noteq> ml_self l"
  shows "deliver E now rcv p l = l\<lparr>ml_peers := snd (pt_learn a now (ml_peers l))\<rparr>"
proof -
  have "b \<noteq> []" "b ! 0 = FrameAnnounce" using assms(2) unfolding decode_announce_iff by auto
  then show ?thesis using assms by (simp add: deliver_def on_our_channel_def on_announce_def)
qed

lemma pt_learn_new:
  assumes "an_at a \<le> now + maxClockSkew" and "\<And>b. fmlookup (pt_by_id t) (an_id a) = Some b \<Longrightarrow> bd_at b < an_at a"
  shows "id_for (an_radio a) (snd (pt_learn a now t)) = Some (an_id a)"
  using assms by (auto simp: pt_learn_def id_for_def pt_bind_lookup split: option.split)

section \<open>Concrete links\<close>

definition toy_mesh_config :: "node_key \<Rightarrow> mesh_config" where
  "toy_mesh_config k = \<lparr>mc_key = k, mc_dial = True, mc_rand = True, mc_channel = [98, 98, 115], mc_override = False,
     mc_hop_limit = 0, mc_announce = 0, mc_ask = 0, mc_answer = 0, mc_heartbeat = 0, mc_retry_window = 0,
     mc_connect_timeout = 0, mc_rx_timeout = 0, mc_inbox = 0, mc_backoff = 60 * time_second, mc_max_backoff = 0\<rparr>"

definition toy_mesh_env :: "unit mesh_env" where
  "toy_mesh_env = \<lparr>me_crypto = toy_crypto, me_send = (\<lambda>m w. (None, w)), me_close = id, me_packet_id = of_nat,
     me_int_n = (\<lambda>i n. 0)\<rparr>"

definition toy_fresh :: "node_key \<Rightarrow> link_governor \<Rightarrow> (unit \<times> to_radio list) mesh_link" where
  "toy_fresh k gov = the (new_mesh_link toy_crypto (toy_mesh_config k) gov ((), []))"

definition toy_link :: "node_key \<Rightarrow> u32 \<Rightarrow> (unit \<times> to_radio list) mesh_link" where
  "toy_link k r = attach 1 (blank_radio\<lparr>ri_node_num := r\<rparr>) 2 \<lparr>hp_licensed = False, hp_override = False\<rparr> (toy_fresh k Unmetered)"

definition toy_key2 :: node_key where
  "toy_key2 = \<lparr>nk_public = replicate 32 6, nk_private = replicate 32 6\<rparr>"

lemma toy_fresh_new: "new_mesh_link toy_crypto (toy_mesh_config k) gov ((), []) = Some (toy_fresh k gov)"
  by (simp add: toy_fresh_def new_mesh_link_def toy_mesh_config_def Let_def)

lemma toy_fresh_sel [simp]:
  "mc_key (ml_cfg (toy_fresh k gov)) = k" "ml_gov (toy_fresh k gov) = gov" "ml_air (toy_fresh k gov) = ((), [])"
  "ml_peers (toy_fresh k gov) = new_peer_table" "ml_self (toy_fresh k gov) = node_key_id toy_crypto k"
  "ml_asks (toy_fresh k gov) = new_ask_rate (15 * time_minute)" "ml_answers (toy_fresh k gov) = new_ask_rate time_minute"
  "mc_channel (ml_cfg (toy_fresh k gov)) = [98, 98, 115]" "mc_override (ml_cfg (toy_fresh k gov)) = False"
  "mc_rx_timeout (ml_cfg (toy_fresh k gov)) = 5 * time_minute" "ml_closed (toy_fresh k gov) = False"
  by (simp_all add: toy_fresh_def new_mesh_link_def toy_mesh_config_def mesh_defaults_def or_default_def zero_default_def Let_def time_defs)

lemma toy_link_sel [simp]:
  "ml_conn (toy_link k r) = Some (ml_sessions (toy_fresh k Unmetered))" "ml_connected (toy_link k r)" "ml_chan (toy_link k r) = 2"
  "own_radio (toy_link k r) = r" "mc_key (ml_cfg (toy_link k r)) = k" "ml_peers (toy_link k r) = new_peer_table"
  "ml_self (toy_link k r) = node_key_id toy_crypto k" "ml_asks (toy_link k r) = new_ask_rate (15 * time_minute)"
  "ml_answers (toy_link k r) = new_ask_rate time_minute" "ml_air (toy_link k r) = ((), [])" "ml_last_rx (toy_link k r) = 1"
  "mc_rx_timeout (ml_cfg (toy_link k r)) = 5 * time_minute"
  by (simp_all add: toy_link_def attach_def own_radio_def)

lemma toy_mesh_env_sel [simp]: "fst (me_send toy_mesh_env m w) = None" "me_crypto toy_mesh_env = toy_crypto"
  "me_crypto (recorded E) = me_crypto E"
  by (simp_all add: toy_mesh_env_def recorded_def)

lemma toy_keys_differ: "node_key_id toy_crypto toy_key \<noteq> node_key_id toy_crypto toy_key2"
  by (simp add: node_key_id_def node_id_from_public_key_def toy_crypto_def toy_key_def toy_key2_def array_eq_iff numeral_eq_Suc)

section \<open>Properties\<close>

text \<open>
  C16. Discovery repairs itself. A link that hears a radio it cannot name asks who it is, in one
  packet to the broadcast address; the radio's own link answers what it hears with its
  announcement, again in one packet to the broadcast address; and when the asker hears that, the
  radio is bound to the node that signed for it. Neither side's budget is touched. Hypotheses:
  writes succeed, the rate limits admit the question and the answer, no newer announcement of that
  node is known, and the signature scheme verifies its own signatures.
\<close>

theorem discovery_heals:
  assumes conn: "ml_conn A \<noteq> None" "ml_conn B \<noteq> None" "ml_connected B"
    and sends: "\<And>m w. fst (me_send EA m w) = None" "\<And>m w. fst (me_send EB m w) = None"
    and crypto: "me_crypto EA = c" "me_crypto EB = c"
    and key: "length (nk_public (mc_key (ml_cfg A))) = 32" "\<And>m. length (node_key_sign c (mc_key (ml_cfg A)) m) = 64"
      "\<And>m. ed_verify c (nk_public (mc_key (ml_cfg A))) m (node_key_sign c (mc_key (ml_cfg A)) m)"
    and radios: "own_radio A \<noteq> own_radio B" "node_key_id c (mc_key (ml_cfg A)) \<noteq> ml_self B"
    and unknown: "id_for (own_radio A) (ml_peers B) = None"
    and older: "\<And>b. fmlookup (pt_by_id (ml_peers B)) (node_key_id c (mc_key (ml_cfg A))) = Some b \<Longrightarrow> bd_at b < ta - ta mod time_second"
    and times: "0 \<le> ta" "ta < 2 ^ 32 * time_second" "ta \<le> tb' + maxClockSkew"
    and allowed: "fst (ar_allow (own_radio A) tb (ml_asks B))" "fst (ar_allow broadcastAddr ta (ml_answers A))"
    and packet: "mp_body p = Decoded PortPrivateApp payload" "payload \<noteq> []" "payload ! 0 \<notin> {FrameAnnounce, FrameWhoIs}"
      "mp_channel p = ml_chan B" "mp_from p = own_radio A"
  shows "\<exists>B1 A1 q r. B1 = deliver (recorded EB) tb tb p B \<and> snd (ml_air B1) = snd (ml_air B) @ [TRPacket q] \<and>
    mp_to q = broadcastAddr \<and> mp_channel q = ml_chan B \<and>
    A1 = deliver (recorded EA) ta ta (heard_as (own_radio B) (ml_chan A) q) A \<and> snd (ml_air A1) = snd (ml_air A) @ [TRPacket r] \<and>
    mp_to r = broadcastAddr \<and> mp_channel r = ml_chan A \<and> ml_gov A1 = ml_gov A \<and> ml_gov B1 = ml_gov B \<and>
    id_for (own_radio A) (ml_peers (deliver (recorded EB) tb' tb' (heard_as (own_radio A) (ml_chan B) r) B1)) =
      Some (node_key_id c (mc_key (ml_cfg A)))"
proof -
  define B0 where "B0 = (ml_count (\<lambda>s. s\<lparr>mt_unattributed := mt_unattributed s + 1\<rparr>) B)\<lparr>ml_asks := snd (ar_allow (own_radio A) tb (ml_asks B))\<rparr>"
  define B1 where "B1 = snd (send_frame (recorded EB) False broadcastAddr (encode_who_is (own_radio A)) False B0)"
  define q where "q = outgoing (recorded EB) broadcastAddr (encode_who_is (own_radio A)) False B0"
  have B0: "ml_conn B0 = ml_conn B" "ml_peers B0 = ml_peers B" "ml_air B0 = ml_air B" "ml_chan B0 = ml_chan B" "ml_self B0 = ml_self B"
    "ml_radio B0 = ml_radio B"
    by (simp_all add: B0_def)
  have ask: "deliver (recorded EB) tb tb p B = B1"
    using deliver_unknown [OF packet(1-4)] packet(5) radios(1) unknown conn(3) allowed(1)
    by (simp add: ask_who_is_def split_beta Let_def B1_def B0_def)
  have B1: "snd (ml_air B1) = snd (ml_air B) @ [TRPacket q]" "ml_peers B1 = ml_peers B" "ml_chan B1 = ml_chan B"
    "ml_self B1 = ml_self B" "own_radio B1 = own_radio B"
    using send_frame_sent(1) [OF sends(2), of B0] conn(2) B0 by (simp_all add: B1_def q_def own_radio_def)
  have fields: "mp_to q = broadcastAddr" "mp_channel q = ml_chan B" "ml_gov B1 = ml_gov B"
    using B0 by (simp_all add: q_def B1_def outgoing_def) (simp add: B0_def)
  define A0 where "A0 = ml_count (\<lambda>s. s\<lparr>mt_announces := mt_announces s + 1\<rparr>) (A\<lparr>ml_answers := snd (ar_allow broadcastAddr ta (ml_answers A))\<rparr>)"
  define b where "b = own_announcement (recorded EA) ta A0"
  define r where "r = outgoing (recorded EA) broadcastAddr b False A0"
  have A0: "ml_conn A0 = ml_conn A" "ml_air A0 = ml_air A" "own_radio A0 = own_radio A" "ml_cfg A0 = ml_cfg A"
    by (simp_all add: A0_def)
  have "fst (send_frame (recorded EA) False broadcastAddr b False A0) = None"
    using send_frame_sent(2) [OF sends(1), of A0] conn(1) A0(1) by simp
  then have "snd (ml_announce (recorded EA) False ta (A\<lparr>ml_answers := snd (ar_allow broadcastAddr ta (ml_answers A))\<rparr>)) =
      snd (send_frame (recorded EA) False broadcastAddr b False A0)"
    by (cases "send_frame (recorded EA) False broadcastAddr b False A0") (simp add: ml_announce_def Let_def A0_def b_def)
  then have answer: "deliver (recorded EA) ta ta (heard_as (own_radio B) (ml_chan A) q) A = snd (send_frame (recorded EA) False broadcastAddr b False A0)"
    using deliver_who_is [of "heard_as (own_radio B) (ml_chan A) q" A ta "recorded EA" ta] radios(1) allowed(2)
    by (simp add: q_def outgoing_def)
  then have A1: "snd (ml_air (deliver (recorded EA) ta ta (heard_as (own_radio B) (ml_chan A) q) A)) = snd (ml_air A) @ [TRPacket r]"
    using send_frame_sent(1) [OF sends(1), of A0] conn(1) A0(1,2) by (simp add: r_def)
  have fields': "mp_to r = broadcastAddr" "mp_channel r = ml_chan A"
    "ml_gov (deliver (recorded EA) ta ta (heard_as (own_radio B) (ml_chan A) q) A) = ml_gov A"
    unfolding answer by (simp_all add: r_def outgoing_def) (simp_all add: A0_def)
  define a where "a = \<lparr>an_id = node_key_id c (mc_key (ml_cfg A)), an_key = nk_public (mc_key (ml_cfg A)),
    an_radio = own_radio A, an_at = ta - ta mod time_second\<rparr>"
  have dec: "decode_announce c b (own_radio A) = Inr a"
    using announce_written [OF key times(1,2)] crypto(1) A0(3,4) by (simp add: b_def own_announcement_def a_def)
  have "deliver (recorded EB) tb' tb' (heard_as (own_radio A) (ml_chan B) r) B1 = B1\<lparr>ml_peers := snd (pt_learn a tb' (ml_peers B1))\<rparr>"
    by (rule deliver_announce [where b = b])
      (use dec crypto(2) radios B1 in \<open>simp_all add: r_def outgoing_def a_def\<close>)
  moreover have "id_for (an_radio a) (snd (pt_learn a tb' (ml_peers B1))) = Some (an_id a)"
  proof (rule pt_learn_new)
    have "0 \<le> ta mod time_second" by (simp add: time_second_def)
    then show "an_at a \<le> tb' + maxClockSkew" using times(3) by (simp add: a_def)
  qed (use older B1(2) in \<open>simp add: a_def\<close>)
  ultimately show ?thesis
    using ask B1(1) A1 fields fields' by (intro exI [of _ B1] exI [of _ q] exI [of _ r]) (auto simp: a_def)
qed

theorem discovery_heals_witness:
  "\<exists>B1 A1 q r. B1 = deliver (recorded toy_mesh_env) 1 1 (heard_as 7 2 (outgoing (recorded toy_mesh_env) 0 [1, 9] False (toy_link toy_key 7))) (toy_link toy_key2 8) \<and>
    snd (ml_air B1) = [TRPacket q] \<and> mp_to q = broadcastAddr \<and>
    A1 = deliver (recorded toy_mesh_env) 1000000000 1000000000 (heard_as 8 2 q) (toy_link toy_key 7) \<and>
    snd (ml_air A1) = [TRPacket r] \<and> mp_to r = broadcastAddr \<and>
    id_for 7 (ml_peers (deliver (recorded toy_mesh_env) 1 1 (heard_as 7 2 r) B1)) = Some (node_key_id toy_crypto toy_key)"
proof -
  let ?A = "toy_link toy_key 7" and ?B = "toy_link toy_key2 8"
  have "\<exists>B1 A1 q r. B1 = deliver (recorded toy_mesh_env) 1 1 (heard_as 7 2 (outgoing (recorded toy_mesh_env) 0 [1, 9] False ?A)) ?B \<and>
    snd (ml_air B1) = snd (ml_air ?B) @ [TRPacket q] \<and> mp_to q = broadcastAddr \<and> mp_channel q = ml_chan ?B \<and>
    A1 = deliver (recorded toy_mesh_env) 1000000000 1000000000 (heard_as (own_radio ?B) (ml_chan ?A) q) ?A \<and>
    snd (ml_air A1) = snd (ml_air ?A) @ [TRPacket r] \<and> mp_to r = broadcastAddr \<and> mp_channel r = ml_chan ?A \<and>
    ml_gov A1 = ml_gov ?A \<and> ml_gov B1 = ml_gov ?B \<and>
    id_for (own_radio ?A) (ml_peers (deliver (recorded toy_mesh_env) 1 1 (heard_as (own_radio ?A) (ml_chan ?B) r) B1)) =
      Some (node_key_id toy_crypto (mc_key (ml_cfg ?A)))"
    by (rule discovery_heals [where payload = "[1, 9]"])
      (use toy_signs toy_keys_differ in \<open>simp_all add: outgoing_def announce_consts new_peer_table_def id_for_def
         ar_allow_def new_ask_rate_def time_defs maxClockSkew_def toy_signs\<close>)
  then show ?thesis by auto
qed

text \<open>
  C4. The link spends no airtime of its own accord for the layers above. From the construction
  of a link on, over any run of sends, received messages, keepalive turns, reconnections and
  announcements, the time on air of everything transmitted for the layers above is at most the
  tokens the governor started with plus the elapsed time times the instance's share of the
  ceiling, up to the rounding of three floating-point operations. Only the link's own questions
  and announcements are outside the bound.
\<close>

theorem mesh_airtime_share:
  assumes "new_mesh_link c cfg (Metered g) (w, []) = Some l"
    and "gov_ok g" and "1 \<le> N" and "N \<le> gc_instances (gv_cfg g)"
  shows "\<exists>g'. ml_gov (mesh_run (recorded E) ops l) = Metered g' \<and>
    of_int (app_airtime (gc_preset (gv_cfg g)) (snd (ml_air (mesh_run (recorded E) ops l)))) \<le>
      of_int (gv_tokens g) + of_int (gv_last g' - gv_last g) * fair_share (gc_ceiling (gv_cfg g)) N * ulp_slack ^ 3"
proof -
  have "ml_gov l = Metered g" "ml_air l = (w, [])" using assms(1) by (auto simp: new_mesh_link_def Let_def split: if_splits)
  then have "gov_ok g \<and> metered N g l"
    using assms(2) by (auto simp: metered_def gov_run_def intro!: exI [of _ "[]"])
  then have "metered N g (mesh_run (recorded E) ops l)"
    using airtime_kept.run [of g N l ops E] by (simp add: list_all_iff)
  then obtain gops where gops: "ml_gov (mesh_run (recorded E) ops l) = Metered (gov_run gops g)"
    "\<forall>op \<in> set gops. instances_at_least N op"
    "app_airtime (gc_preset (gv_cfg g)) (snd (ml_air (mesh_run (recorded E) ops l))) \<le>
      gs_charged (gv_stats (gov_run gops g)) - gs_charged (gv_stats g)"
    unfolding metered_def by blast
  let ?g' = "gov_run gops g"
  have "0 \<le> gv_tokens ?g'" using run_ok [OF assms(2), of gops] by (simp add: gov_ok_def)
  then have "app_airtime (gc_preset (gv_cfg g)) (snd (ml_air (mesh_run (recorded E) ops l))) \<le>
      potential ?g' - gs_charged (gv_stats g)"
    using gops(3) by (simp add: potential_def)
  then have "(of_int (app_airtime (gc_preset (gv_cfg g)) (snd (ml_air (mesh_run (recorded E) ops l)))) :: rat) \<le>
      of_int (potential ?g') - of_int (gs_charged (gv_stats g))"
    by (metis of_int_diff of_int_le_iff)
  also have "\<dots> \<le> of_int (gv_tokens g) + of_int (gv_last ?g' - gv_last g) * fair_share (gc_ceiling (gv_cfg g)) N * ulp_slack ^ 3"
    using run_potential [OF assms(2-4) gops(2)] by (simp add: potential_def)
  finally show ?thesis using gops(1) by blast
qed

text \<open>
  C10. Whatever the radio hands over, the inbox never holds more than its bound, and every
  datagram in it is the payload of a packet from a radio that a node announced as its own: among
  the packets handed over is one from that radio with a key, the radio's number and a time, under a
  signature that verifies with the key (\<open>named_by\<close>, over \<open>ed_verify\<close>), and the datagram's sender is
  the hash of the key. The link's own frame types never get there.
\<close>

theorem inbox_attributed:
  assumes "new_mesh_link c cfg gov w = Some l" and "me_crypto E = c"
  shows "int (length (ml_inbox (mesh_run E ops l))) \<le> max 0 (mc_inbox (ml_cfg (mesh_run E ops l))) \<and>
    list_all (datagram_ok (\<lambda>p. p \<in> set (concat (map op_packets ops))) c) (map fst (ml_inbox (mesh_run E ops l)))"
proof -
  let ?H = "\<lambda>p. p \<in> set (concat (map op_packets ops))"
  have "ml_inbox l = []" "ml_peers l = new_peer_table"
    using assms(1) by (auto simp: new_mesh_link_def Let_def split: if_splits)
  then have "inbox_ok_for ?H (me_crypto E) l"
    using pt_ok_new by (simp add: inbox_ok_for_def id_for_def new_peer_table_def)
  then have "inbox_ok_for ?H (me_crypto E) (mesh_run E ops l)"
    by (rule inbox_kept.run) (auto simp: list_all_iff)
  then show ?thesis using assms(2) by (simp add: inbox_ok_for_def)
qed

text \<open>
  C35. Under an amateur licence without the override, a link that is attached after any run is
  on the channel its configuration names, enabled on the radio, and no channel of that name has
  a key; everything it then transmits goes out on that channel.
\<close>

theorem ham_channel_clear:
  assumes "new_mesh_link c cfg gov w = Some l0" and "l = mesh_run (recorded E) ops l0"
    and "ml_conn l \<noteq> None" and "ml_radio l = Some info" and "ri_licensed info" and "\<not> mc_override (ml_cfg l)"
  shows "\<exists>ch \<in> set (ri_channels info). ci_name ch = mc_channel (ml_cfg l) \<and> ci_role ch \<noteq> ''DISABLED'' \<and>
    list_all (\<lambda>ch'. ci_name ch' = ci_name ch \<longrightarrow> \<not> ci_encrypted ch') (ri_channels info) \<and>
    (snd (ml_air (snd (send_frame (recorded E) cancelled dest payload ack l))) = snd (ml_air l) \<or>
     (\<exists>p. snd (ml_air (snd (send_frame (recorded E) cancelled dest payload ack l))) = snd (ml_air l) @ [TRPacket p] \<and>
        mp_channel p = ci_index ch))"
proof -
  have "channel_checked l0" using assms(1) by (auto simp: new_mesh_link_def channel_checked_def Let_def split: if_splits)
  then have "channel_checked l" unfolding assms(2) by (rule channel_kept.run) (simp add: list_all_iff)
  then have idx: "channel_index (ri_channels info) (mc_channel (ml_cfg l)) = Some (ml_chan l)"
    and pol: "ml_policy l = policy_from_radio (Some info) (mc_override (ml_cfg l))"
    and chk: "check_channel (ml_policy l) (ri_channels info) (mc_channel (ml_cfg l)) = Inr ()"
    using assms(3,4) by (auto simp: channel_checked_def)
  have "restricted (ml_policy l)" using pol assms(5,6) by (simp add: policy_from_radio_def restricted_def)
  note clear = check_channel_clear [OF chk this]
  obtain ch where ch: "ch \<in> set (ri_channels info)" "ci_role ch \<noteq> ''DISABLED''" "ci_name ch = mc_channel (ml_cfg l)" "ci_index ch = ml_chan l"
    using channel_index_Some [OF idx] by blast
  show ?thesis
    using ch clear send_frame_recorded [of E cancelled dest payload ack l]
    by (intro bexI [OF _ ch(1)]) (auto simp: list_all_iff)
qed

definition toy_channels :: "from_radio list" where
  "toy_channels = [FRMyInfo 7, FRNodeInfo 7 None True, FRChannel 2 [98, 98, 115] ''SECONDARY'' [], FRConfigComplete 1]"

definition toy_ham :: "(unit \<times> to_radio list) mesh_link" where
  "toy_ham = mesh_run (recorded toy_mesh_env) [MConnectOp False 1 (Inr toy_channels)] (toy_fresh toy_key Unmetered)"

lemma announce_keeps [simp]:
  "ml_radio (snd (ml_announce E c now l)) = ml_radio l" "ml_gov (snd (ml_announce E c now l)) = ml_gov l"
  "ml_peers (snd (ml_announce E c now l)) = ml_peers l" "ml_self (snd (ml_announce E c now l)) = ml_self l"
  "ml_inbox (snd (ml_announce E c now l)) = ml_inbox l" "ml_chan (snd (ml_announce E c now l)) = ml_chan l"
  "ml_connected (snd (ml_announce E c now l)) = ml_connected l"
  by (simp_all add: ml_announce_def Let_def split_beta split: option.split)

lemma toy_ham_fields:
  "ml_conn toy_ham \<noteq> None" "ml_radio toy_ham = Some (blank_radio\<lparr>ri_node_num := 7, ri_licensed := True,
     ri_channels := [\<lparr>ci_index = 2, ci_name = [98, 98, 115], ci_role = ''SECONDARY'', ci_encrypted = False\<rparr>]\<rparr>)"
  "\<not> mc_override (ml_cfg toy_ham)" "mc_channel (ml_cfg toy_ham) = [98, 98, 115]"
proof -
  let ?l = "toy_fresh toy_key Unmetered"
  have drawn: "ml_drawn ?l = 0" by (simp add: toy_fresh_def new_mesh_link_def toy_mesh_config_def Let_def)
  have one: "(0 OR 1 :: u32) = 1" by simp
  note eval = toy_ham_def mesh_run_def connect_def next_packet_id_def conn_send_def recorded_def toy_mesh_env_def
    toy_channels_def blank_radio_def policy_from_radio_def check_channel_def restricted_def attach_def Let_def sanitise_text_def drawn one
  show "ml_conn toy_ham \<noteq> None" "\<not> mc_override (ml_cfg toy_ham)" "mc_channel (ml_cfg toy_ham) = [98, 98, 115]"
    "ml_radio toy_ham = Some (blank_radio\<lparr>ri_node_num := 7, ri_licensed := True,
     ri_channels := [\<lparr>ci_index = 2, ci_name = [98, 98, 115], ci_role = ''SECONDARY'', ci_encrypted = False\<rparr>]\<rparr>)"
    by (simp_all add: eval)
qed

definition toy_packet :: "bytes \<Rightarrow> mesh_packet" where
  "toy_packet b = \<lparr>mp_from = 8, mp_to = broadcastAddr, mp_channel = 2, mp_id = 1, mp_hop_limit = 3, mp_want_ack = False,
     mp_pki = False, mp_body = Decoded PortPrivateApp b\<rparr>"

definition toy_traffic :: "mesh_op list" where
  "toy_traffic = [MConnectOp False 1 (Inr toy_channels),
     MReadOp False 2 2 (FRPacket (toy_packet (encode_announce toy_crypto toy_key2 8 time_second))),
     MReadOp False 3 3 (FRPacket (toy_packet [1, 9]))]"

lemma toy_ham_more:
  "ml_chan toy_ham = 2" "ml_peers toy_ham = new_peer_table" "ml_self toy_ham = node_key_id toy_crypto toy_key"
  "ml_inbox toy_ham = []" "ml_gov toy_ham = Unmetered" "ml_cfg toy_ham = ml_cfg (toy_fresh toy_key Unmetered)"
  "mc_inbox (ml_cfg (toy_fresh toy_key Unmetered)) = 256"
proof -
  let ?l = "toy_fresh toy_key Unmetered"
  have start: "ml_drawn ?l = 0" "ml_inbox ?l = []" "mc_inbox (ml_cfg ?l) = 256"
    by (simp_all add: toy_fresh_def new_mesh_link_def toy_mesh_config_def mesh_defaults_def or_default_def Let_def)
  have one: "(0 OR 1 :: u32) = 1" by simp
  note eval = toy_ham_def mesh_run_def connect_def next_packet_id_def conn_send_def recorded_def toy_mesh_env_def
    toy_channels_def blank_radio_def policy_from_radio_def check_channel_def restricted_def attach_def Let_def sanitise_text_def start one
  show "mc_inbox (ml_cfg ?l) = 256" by (rule start)
  show "ml_chan toy_ham = 2" "ml_peers toy_ham = new_peer_table" "ml_self toy_ham = node_key_id toy_crypto toy_key"
    "ml_inbox toy_ham = []" "ml_gov toy_ham = Unmetered" "ml_cfg toy_ham = ml_cfg ?l"
    by (simp_all add: eval)
qed

lemma toy_signs2:
  "length (nk_public toy_key2) = 32" "length (node_key_sign toy_crypto toy_key2 m) = 64"
  "ed_verify toy_crypto (nk_public toy_key2) m (node_key_sign toy_crypto toy_key2 m)"
  by (simp_all add: toy_key2_def toy_crypto_def node_key_sign_def)

theorem inbox_attributed_witness:
  "ml_inbox (mesh_run (recorded toy_mesh_env) toy_traffic (toy_fresh toy_key Unmetered)) =
     [(\<lparr>dg_from = node_key_id toy_crypto toy_key2, dg_data = [1, 9]\<rparr>, 3)] \<and>
   datagram_ok (\<lambda>p. p \<in> set (concat (map op_packets toy_traffic))) toy_crypto
     \<lparr>dg_from = node_key_id toy_crypto toy_key2, dg_data = [1, 9]\<rparr>"
proof -
  define a where "a = \<lparr>an_id = node_key_id toy_crypto toy_key2, an_key = nk_public toy_key2, an_radio = 8, an_at = time_second\<rparr>"
  let ?b = "encode_announce toy_crypto toy_key2 8 time_second" and ?E = "recorded toy_mesh_env"
  define l1 where "l1 = deliver ?E 2 2 (toy_packet ?b) (toy_ham\<lparr>ml_last_rx := 2, ml_session_rx := True\<rparr>)"
  have own: "own_radio (toy_ham\<lparr>ml_last_rx := t, ml_session_rx := True\<rparr>) = 7" for t
    by (simp add: own_radio_def toy_ham_fields(2))
  have "decode_announce toy_crypto ?b 8 = Inr a"
    using announce_written [OF toy_signs2, of time_second 8 8] by (simp add: a_def time_defs)
  then have l1: "l1 = toy_ham\<lparr>ml_last_rx := 2, ml_session_rx := True, ml_peers := snd (pt_learn a 2 new_peer_table)\<rparr>"
    unfolding l1_def
    by (subst deliver_announce [where b = ?b and a = a])
      (use own toy_ham_more toy_keys_differ in \<open>simp_all add: toy_packet_def a_def\<close>)
  have "id_for (an_radio a) (snd (pt_learn a 2 new_peer_table)) = Some (an_id a)"
    by (rule pt_learn_new) (simp_all add: a_def time_defs maxClockSkew_def new_peer_table_def)
  then have known: "id_for 8 (snd (pt_learn a 2 new_peer_table)) = Some (node_key_id toy_crypto toy_key2)" by (simp add: a_def)
  have "mesh_run ?E toy_traffic (toy_fresh toy_key Unmetered) =
      deliver ?E 3 3 (toy_packet [1, 9]) (l1\<lparr>ml_last_rx := 3, ml_session_rx := True\<rparr>)"
    by (simp add: toy_traffic_def mesh_run_def toy_ham_def [unfolded mesh_run_def, symmetric] read_message_def l1_def Let_def)
      (simp add: toy_ham_def mesh_run_def)
  also have "\<dots> = hand_up 3 3 (node_key_id toy_crypto toy_key2) [1, 9] (l1\<lparr>ml_last_rx := 3, ml_session_rx := True\<rparr>)"
    using known own [of 3] toy_ham_more
    by (simp add: deliver_def toy_packet_def on_our_channel_def l1 announce_consts own_radio_def toy_ham_fields(2))
  finally have run: "mesh_run ?E toy_traffic (toy_fresh toy_key Unmetered) = \<dots>" .
  have "ml_inbox (mesh_run ?E toy_traffic (toy_fresh toy_key Unmetered)) =
     [(\<lparr>dg_from = node_key_id toy_crypto toy_key2, dg_data = [1, 9]\<rparr>, 3)]"
    unfolding run using toy_ham_more by (simp add: hand_up_inbox gov_inbound_def l1)
  moreover have "list_all (datagram_ok (\<lambda>p. p \<in> set (concat (map op_packets toy_traffic))) toy_crypto)
      (map fst (ml_inbox (mesh_run ?E toy_traffic (toy_fresh toy_key Unmetered))))"
    by (rule inbox_attributed [OF toy_fresh_new, THEN conjunct2]) simp
  ultimately show ?thesis by simp
qed

theorem ham_channel_clear_witness:
  "\<exists>p. snd (ml_air (snd (send_frame (recorded toy_mesh_env) False 1 [1] False toy_ham))) = snd (ml_air toy_ham) @ [TRPacket p] \<and>
     mp_channel p = 2"
proof -
  have "snd (ml_air (snd (send_frame (recorded toy_mesh_env) False 1 [1] False toy_ham))) \<noteq> snd (ml_air toy_ham)"
    using send_frame_sent(1) [of toy_mesh_env toy_ham] toy_ham_fields(1) by simp
  then show ?thesis
    using ham_channel_clear [OF toy_fresh_new toy_ham_def toy_ham_fields(1,2) _ toy_ham_fields(3), of False 1 "[1]" False]
    by auto
qed

text \<open>
  A radio that stops talking is noticed. With writes that keep succeeding, and waking at the
  watchdog's interval, the keepalive loop gives the connection up at its first wake-up after
  the receive timeout has passed: later than the timeout, and by less than one interval.
\<close>

theorem silent_radio_noticed:
  assumes "\<And>m w. fst (me_send E m w) = None"
    and "ml_conn l = ka_session k" and "ka_session k \<noteq> None" and "ml_last_rx l \<noteq> 0" and "0 < mc_rx_timeout (ml_cfg l)"
    and "0 < watchdog_tick (ml_cfg l)" and "Suc (nat (mc_rx_timeout (ml_cfg l) div watchdog_tick (ml_cfg l))) < n"
  shows "\<exists>t. fst (keepalive_loop E k (wakeups (ml_last_rx l) (watchdog_tick (ml_cfg l)) 1 n) l) = Some t \<and>
    mc_rx_timeout (ml_cfg l) < t - ml_last_rx l \<and> t - ml_last_rx l \<le> mc_rx_timeout (ml_cfg l) + watchdog_tick (ml_cfg l)"
proof -
  let ?R = "mc_rx_timeout (ml_cfg l)" and ?T = "watchdog_tick (ml_cfg l)"
  let ?s = "Suc (nat (?R div ?T))"
  have q: "0 \<le> ?R div ?T" using assms(5,6) by (simp add: pos_imp_zdiv_nonneg_iff)
  have "fst (keepalive_loop E k (wakeups (ml_last_rx l) ?T 1 n) l) = Some (ml_last_rx l + int ?s * ?T)"
    by (rule keepalive_detects [OF assms(1-3) refl assms(4-6) _ assms(7) refl]) simp
  moreover have "?R < int ?s * ?T" "int ?s * ?T \<le> ?R + ?T"
  proof -
    have "?R = ?R div ?T * ?T + ?R mod ?T" by simp
    moreover have "0 \<le> ?R mod ?T" "?R mod ?T < ?T" using assms(6) by simp_all
    moreover have "int ?s * ?T = ?R div ?T * ?T + ?T" using q by (simp add: algebra_simps)
    ultimately show "?R < int ?s * ?T" "int ?s * ?T \<le> ?R + ?T" by linarith+
  qed
  ultimately show ?thesis by auto
qed

definition toy_keepalive :: keepalive where
  "toy_keepalive = \<lparr>ka_session = ml_conn (toy_link toy_key 7), ka_until_announce = 1, ka_until_heartbeat = 1, ka_tick = 100 * time_second\<rparr>"

lemma toy_tick: "watchdog_tick (ml_cfg (toy_link toy_key 7)) = 100 * time_second"
  by (simp add: watchdog_tick_def toy_link_def attach_def toy_fresh_def new_mesh_link_def toy_mesh_config_def mesh_defaults_def
      or_default_def zero_default_def Let_def time_defs)

lemma toy_sends: "fst (me_send (recorded toy_mesh_env) m w) = None"
  by (simp add: recorded_def toy_mesh_env_def split_beta)

theorem silent_radio_noticed_witness:
  "\<exists>t. fst (keepalive_loop (recorded toy_mesh_env) toy_keepalive (wakeups 1 (100 * time_second) 1 9) (toy_link toy_key 7)) = Some t \<and>
     5 * time_minute < t - 1"
proof -
  have "ml_conn (toy_link toy_key 7) = ka_session toy_keepalive" "ka_session toy_keepalive \<noteq> None"
    by (simp_all add: toy_keepalive_def)
  then show ?thesis
    using silent_radio_noticed [of "recorded toy_mesh_env" "toy_link toy_key 7" toy_keepalive 9, OF toy_sends]
    by (auto simp: toy_tick time_defs)
qed

text \<open>
  C39. The first connection does not wait for ever: whatever each attempt gives, if the clock
  lets each delay pass, \<open>Start\<close> has returned after at most one attempt more than the retry
  window holds delays of the initial length (or of a minute, if that is shorter).
\<close>

theorem first_connection_ends:
  assumes "\<not> ml_closed l" and "0 < mc_backoff (ml_cfg l)" and "paced now (mc_backoff (ml_cfg l)) attempts"
    and "mc_retry_window (ml_cfg l) \<le> int n * min (mc_backoff (ml_cfg l)) time_minute" and "n < length attempts"
  shows "ml_start E now attempts l \<noteq> None"
  using retry_ends [OF assms(3), of "min (mc_backoff (ml_cfg l)) time_minute" "now + mc_retry_window (ml_cfg l)" n E l]
    assms by (simp add: ml_start_def time_defs)


theorem first_connection_ends_witness:
  "ml_start (recorded toy_mesh_env) 0 [(False, 0, Inl 1), (False, 60000000000, Inl 1)] (toy_fresh toy_key Unmetered) \<noteq> None"
proof -
  have c: "mc_backoff (ml_cfg (toy_fresh toy_key Unmetered)) = 60 * time_second"
    "mc_retry_window (ml_cfg (toy_fresh toy_key Unmetered)) = 45 * time_second"
    by (simp_all add: toy_fresh_def new_mesh_link_def toy_mesh_config_def mesh_defaults_def or_default_def zero_default_def Let_def time_defs)
  show ?thesis
    by (rule first_connection_ends [where n = 1]) (simp_all add: c time_defs)
qed

text \<open>
  The link's own cap on the roster reaches the control traffic. A control frame given to
  \<open>Send\<close> is charged with the zero area tag as if it belonged to the roster, so when the roster's
  sub-budget is spent the frame is refused although the governor would admit it as the traffic
  of no area, which is how the comments on \<open>SendCharged\<close> and \<open>AllowCharge\<close> say it is charged.
\<close>

theorem roster_cap_on_control:
  assumes "payload \<noteq> []" and "length payload \<le> MaxPayload" and "payload ! 0 = FrameControl"
    and "ml_gov l = Metered g" and "ml_connected l"
    and "gov_check t (int (length payload)) ClassControl g = (None, g1)"
    and "bucket_for zero_array now g1 = (Some b, g2)" and "ab_tokens b < cost_locked g1 (int (length payload))"
  shows "fst (ml_send E cancelled t now Broadcast payload l) = Some MNoBudget \<and>
    fst (gov_allow t now (int (length payload)) ClassControl g)"
  using assms
  by (simp add: ml_send_def ml_send_charged_def destination_def gov_admits_def allow_charge_def gov_allow_def Let_def
      FrameControl_def FrameAnnounce_def FrameWhoIs_def)

definition toy_roster_bucket :: area_bucket where
  "toy_roster_bucket = \<lparr>ab_share = 1 / 2, ab_tokens = 0, ab_capacity = 8626176000, ab_last = 0\<rparr>"

definition toy_roster_gov :: governor where
  "toy_roster_gov = toy_gov\<lparr>gv_area_shares := fmupd zero_array (1 / 2) fmempty,
     gv_area_buckets := fmupd zero_array toy_roster_bucket fmempty\<rparr>"

lemma longfast_preamble: "1 \<le> airtime_packet LongFast n"
proof -
  define ts where "ts = fl (128 / 15625)"
  define de :: rat where "de = (if ts > fl (1638 / 100000) then 1 else 0)"
  have ts: "ts = 4722366482869645 / 2 ^ 59" unfolding ts_def by (rule fl_value [where m = 4722366482869645, simplified]) simp_all
  have pre: "fl (382511685112441245 / 2305843009213693952) = 5976745079881894 / 2 ^ 55"
    by (rule fl_value [where m = 5976745079881894, simplified]) simp_all
  have pre2: "fl (2988372539940947 / 18014398509481984) = 5976745079881894 / 2 ^ 55"
    by (rule fl_value [where m = 5976745079881894, simplified]) simp_all
  have r: "fl (5836665117072162109375 / 35184372088832) = 5566277615615999 / 2 ^ 25"
    by (rule fl_value [where m = 5566277615615999, simplified]) simp_all
  let ?x = "fl (payload_symbols LongFast de (n + HeaderBytes) * ts)"
  have x: "0 \<le> ?x" using payload_symbols_nonneg by (intro fl_nonneg mult_nonneg_nonneg) (simp_all add: ts)
  have eq: "airtime_packet LongFast n = trunc (fl (fl (fl ((16 + 17 / 4) * ts) + ?x) * nanosecond_rate))"
    by (simp add: airtime_packet_def airtime_raw_def Let_def ts_def de_def LongFast_def fl_numeral)
  have "trunc (fl (fl (fl ((16 + 17 / 4) * ts) + 0) * nanosecond_rate)) \<le> airtime_packet LongFast n"
    unfolding eq using x by (intro trunc_mono fl_mono mult_right_mono add_left_mono) (simp_all add: nanosecond_rate_def)
  moreover have "1 \<le> trunc (fl (fl (fl ((16 + 17 / 4) * ts) + 0) * nanosecond_rate))"
    by (simp add: ts pre pre2 r nanosecond_rate_def trunc_def)
  ultimately show ?thesis by linarith
qed

lemma toy_cost_positive: "0 < cost_locked toy_gov n"
proof -
  have "fl (of_int 1) \<le> fl (of_int (airtime_packet LongFast n))" using longfast_preamble by (intro fl_mono) simp
  then have "of_int 1 \<le> fl (of_int (airtime_packet LongFast n))" using fl_of_int [of 1] by simp
  then have "trunc (fl (of_int 4)) \<le> packet_cost LongFast 4 n" unfolding packet_cost_def by (intro trunc_mono fl_mono) simp
  moreover have "trunc (fl (of_int 4)) = 4" by (simp add: fl_numeral trunc_def)
  ultimately show ?thesis using toy_gov_idle(5) toy_gov_fields(3) by (simp add: cost_locked_def)
qed

lemma toy_roster_check: "gov_check toy_instant 2 ClassControl toy_roster_gov = (None, toy_roster_gov)"
proof -
  have last: "gv_last toy_gov = 0" by (simp add: toy_gov_def gov_new_def Let_def toy_defaults toy_spread)
  have "airtime_packet LongFast 2 \<le> airtime_packet LongFast 233"
    using airtime_raw_mono(1) [OF toy_preset, of "2 + HeaderBytes" "233 + HeaderBytes"] by (simp add: airtime_packet_def toy_gov_config_def)
  then have "fst (duty_allows 0 (airtime_packet LongFast 2) toy_gov)"
    using toy_duty by (auto simp: duty_allows_def Let_def split: option.splits)
  then have duty: "duty_allows 0 (airtime_packet LongFast 2) toy_roster_gov = (True, toy_roster_gov)"
    by (simp add: duty_allows_def toy_roster_gov_def prune_tx_def toy_gov_fields split: option.splits)
  have "packet_cost LongFast 4 2 \<le> packet_cost LongFast 4 233"
    using packet_cost_mono(1) [OF toy_preset, of 4 2 233] by (simp add: toy_gov_config_def)
  then have "packet_cost LongFast 4 2 \<le> gv_capacity toy_gov" using toy_cost toy_capacity(2) by simp
  then have "cost_locked toy_roster_gov 2 \<le> gv_tokens toy_roster_gov"
    using toy_gov_idle(3,5) toy_gov_fields(3) by (simp add: cost_locked_def toy_roster_gov_def)
  then show ?thesis
    using duty toy_gov_idle last
    by (simp add: gov_check_def toy_instant_def refill_def Let_def toy_roster_gov_def reserve_def class_consts fl_numeral trunc_def)
qed

theorem roster_cap_on_control_witness:
  "fst (ml_send (recorded toy_mesh_env) False toy_instant 0 Broadcast [1, 9]
      (attach 1 blank_radio 2 \<lparr>hp_licensed = False, hp_override = False\<rparr> (toy_fresh toy_key (Metered toy_roster_gov)))) = Some MNoBudget \<and>
   fst (gov_allow toy_instant 0 2 ClassControl toy_roster_gov)"
proof -
  let ?l = "attach 1 blank_radio 2 \<lparr>hp_licensed = False, hp_override = False\<rparr> (toy_fresh toy_key (Metered toy_roster_gov))"
  have b: "bucket_for zero_array 0 toy_roster_gov = (Some toy_roster_bucket, toy_roster_gov)"
    by (simp add: bucket_for_def toy_roster_gov_def bucket_refilled_def toy_roster_bucket_def Let_def)
  have c: "ab_tokens toy_roster_bucket < cost_locked toy_roster_gov 2"
    using toy_cost_positive [of 2] by (simp add: toy_roster_bucket_def toy_roster_gov_def cost_locked_def)
  show ?thesis
    using roster_cap_on_control [of "[1, 9]" ?l toy_roster_gov toy_instant toy_roster_gov 0 toy_roster_bucket toy_roster_gov "recorded toy_mesh_env" False]
      toy_roster_check b c
    by (simp add: FrameControl_def MaxPayload_def meshMTU_def mtuReserve_def attach_def)
qed

lemma toy_frame_admitted:
  "fst (allow_charge toy_instant 2 2 \<lparr>ch_class = ClassControl, ch_area = zero_array\<rparr> True toy_gov)"
proof -
  have last: "gv_last toy_gov = 0" "gv_area_shares toy_gov = fmempty"
    by (simp_all add: toy_gov_def gov_new_def Let_def toy_defaults toy_spread) (simp add: toy_gov_config_def positive_shares_def)
  have "airtime_packet LongFast 2 \<le> airtime_packet LongFast 233"
    using airtime_raw_mono(1) [OF toy_preset, of "2 + HeaderBytes" "233 + HeaderBytes"] by (simp add: airtime_packet_def toy_gov_config_def)
  then have "fst (duty_allows 0 (airtime_packet LongFast 2) toy_gov)"
    using toy_duty by (auto simp: duty_allows_def Let_def split: option.splits)
  then have duty: "duty_allows 0 (airtime_packet LongFast 2) toy_gov = (True, toy_gov)"
    by (simp add: duty_allows_def prune_tx_def toy_gov_fields split: option.splits)
  have "packet_cost LongFast 4 2 \<le> packet_cost LongFast 4 233"
    using packet_cost_mono(1) [OF toy_preset, of 4 2 233] by (simp add: toy_gov_config_def)
  then have "packet_cost LongFast 4 2 \<le> gv_capacity toy_gov" using toy_cost toy_capacity(2) by simp
  then have "cost_locked toy_gov 2 \<le> gv_tokens toy_gov"
    using toy_gov_idle(3,5) toy_gov_fields(3) by (simp add: cost_locked_def)
  then have "gov_check toy_instant 2 ClassControl toy_gov = (None, toy_gov)"
    using duty toy_gov_idle last
    by (simp add: gov_check_def toy_instant_def refill_def Let_def reserve_def class_consts fl_numeral trunc_def)
  then show ?thesis using last by (simp add: allow_charge_def bucket_for_def)
qed

text \<open>The bound at work: a run in which the link connects and sends a packet for the layers above.\<close>

definition toy_send_run :: "mesh_op list" where
  "toy_send_run = [MConnectOp False 1 (Inr toy_channels),
     MSendChargedOp False toy_instant 2 Broadcast [2, 9] \<lparr>ch_class = ClassControl, ch_area = zero_array\<rparr>]"

lemma toy_frame_sent:
  "\<exists>p. snd (ml_air (mesh_run (recorded toy_mesh_env) toy_send_run (toy_fresh toy_key (Metered toy_gov)))) =
      snd (ml_air (mesh_run (recorded toy_mesh_env) [MConnectOp False 1 (Inr toy_channels)] (toy_fresh toy_key (Metered toy_gov)))) @ [TRPacket p] \<and>
    mp_body p = Decoded PortPrivateApp [2, 9]"
proof -
  let ?l = "toy_fresh toy_key (Metered toy_gov)"
  define l1 where "l1 = mesh_run (recorded toy_mesh_env) [MConnectOp False 1 (Inr toy_channels)] ?l"
  have start: "ml_drawn ?l = 0" by (simp add: toy_fresh_def new_mesh_link_def toy_mesh_config_def Let_def)
  have one: "(0 OR 1 :: u32) = 1" by simp
  note eval = mesh_run_def connect_def next_packet_id_def conn_send_def recorded_def toy_mesh_env_def
    toy_channels_def blank_radio_def policy_from_radio_def check_channel_def restricted_def attach_def Let_def sanitise_text_def start one
  have l1: "ml_conn l1 \<noteq> None" "ml_connected l1" "ml_gov l1 = Metered toy_gov"
    unfolding l1_def by (simp_all add: eval)
  obtain g where g: "allow_charge toy_instant 2 2 \<lparr>ch_class = ClassControl, ch_area = zero_array\<rparr> True toy_gov = (True, g)"
    using toy_frame_admitted by (metis (full_types) prod.collapse)
  define l2 where "l2 = ml_count (\<lambda>s. s\<lparr>mt_sent := mt_sent s + 1\<rparr>) (l1\<lparr>ml_gov := Metered g\<rparr>)"
  have sent: "fst (send_frame (recorded toy_mesh_env) False broadcastAddr [2, 9] False l2) = None"
    "snd (ml_air (snd (send_frame (recorded toy_mesh_env) False broadcastAddr [2, 9] False l2))) =
      snd (ml_air l2) @ [TRPacket (outgoing (recorded toy_mesh_env) broadcastAddr [2, 9] False l2)]"
    using send_frame_sent [of toy_mesh_env l2] l1(1) by (simp_all add: l2_def)
  have "snd (ml_send_charged (recorded toy_mesh_env) False toy_instant 2 Broadcast [2, 9] \<lparr>ch_class = ClassControl, ch_area = zero_array\<rparr> l1) =
      snd (send_frame (recorded toy_mesh_env) False broadcastAddr [2, 9] False l2)"
    using l1 g sent(1)
    by (cases "send_frame (recorded toy_mesh_env) False broadcastAddr [2, 9] False l2")
      (simp add: ml_send_charged_def destination_def gov_admits_def MaxPayload_def meshMTU_def mtuReserve_def
        FrameAnnounce_def FrameWhoIs_def Let_def l2_def)
  then have "snd (ml_air (mesh_run (recorded toy_mesh_env) toy_send_run ?l)) =
      snd (ml_air l1) @ [TRPacket (outgoing (recorded toy_mesh_env) broadcastAddr [2, 9] False l2)]"
    using sent(2) by (simp add: toy_send_run_def mesh_run_def l1_def [unfolded mesh_run_def] l2_def)
  then show ?thesis unfolding l1_def by (auto simp: outgoing_def)
qed

theorem mesh_airtime_share_witness:
  "\<exists>g' p. TRPacket p \<in> set (snd (ml_air (mesh_run (recorded toy_mesh_env) toy_send_run (toy_fresh toy_key (Metered toy_gov))))) \<and>
    mp_body p = Decoded PortPrivateApp [2, 9] \<and>
    ml_gov (mesh_run (recorded toy_mesh_env) toy_send_run (toy_fresh toy_key (Metered toy_gov))) = Metered g' \<and>
    of_int (app_airtime (gc_preset (gv_cfg toy_gov))
      (snd (ml_air (mesh_run (recorded toy_mesh_env) toy_send_run (toy_fresh toy_key (Metered toy_gov)))))) \<le>
      of_int (gv_tokens toy_gov) + of_int (gv_last g' - gv_last toy_gov) * fair_share (gc_ceiling (gv_cfg toy_gov)) 1 * ulp_slack ^ 3"
proof -
  have "1 \<le> gc_instances (gv_cfg toy_gov)" using toy_gov_ok by (simp add: gov_ok_def)
  then show ?thesis
    using mesh_airtime_share [OF toy_fresh_new toy_gov_ok, of 1 toy_mesh_env toy_send_run] toy_frame_sent by fastforce
qed

end
