(* ===== verification/GossipLog.thy ===== *)
theory GossipLog
  imports LogStore Exchange
begin

text \<open>
  \<open>GossipStore\<close> of \<open>internal/store/gossipstore.go\<close>, the adapter through which the gossip engine
  of a running board works on its SQLite log: the cached list of federated areas, the vector of
  contiguous marks read from the record table, the records served, and \<open>Apply\<close> with its checks of
  area, type, roster key and signature.

  Shown: the adapter satisfies the engine's store contract (it interprets \<open>gossip_store\<close>), its
  vector is exactly the contiguous marks of what the log can serve, only verified records enter the log, \<open>Apply\<close>
  admits what the in-memory double of the simulator admits.
\<close>

section \<open>The adapter\<close>

datatype problem =
    WrongArea record_id
  | MailOffered node_id
  | NotALeague node_id
  | LeagueOnly node_id
  | NodeRejected record_error
  | NodeNotStored store_error
  | NoKey node_id
  | NotVerified record_id record_error
  | Divergent store_error

record gossip_log =
  gl_db :: log_db
  gl_keys :: "(node_id, bytes) fmap"
  gl_areas :: "area_tag list"
  gl_file_areas :: "area_tag fset"
  gl_door_areas :: "area_tag fset"
  gl_problems :: "problem list"

definition RosterArea :: area_tag where
  "RosterArea = zero_array"

definition report :: "problem \<Rightarrow> gossip_log \<Rightarrow> gossip_log" where
  "report p g = g\<lparr>gl_problems := gl_problems g @ [p]\<rparr>"

text \<open>One row of \<open>Refresh\<close>'s query, and the query's order.\<close>

definition refresh_row ::
  "crypto \<Rightarrow> area_row \<Rightarrow> area_tag list \<times> area_tag fset \<times> area_tag fset \<Rightarrow> area_tag list \<times> area_tag fset \<times> area_tag fset" where
  "refresh_row c w st =
     (case st of (out, files, doors) \<Rightarrow>
        if aw_tag w = dm_area c then st
        else (out @ [aw_tag w],
              (if aw_kind w = KindFile then finsert (aw_tag w) files else files),
              (if aw_kind w = KindDoor then finsert (aw_tag w) doors else doors)))"

definition refresh :: "crypto \<Rightarrow> gossip_log \<Rightarrow> gossip_log" where
  "refresh c g =
     (case fold (refresh_row c) (sort_key aw_tag (filter aw_federated (db_areas (gl_db g)))) ([], {||}, {||}) of
        (out, files, doors) \<Rightarrow> g\<lparr>gl_areas := out, gl_file_areas := files, gl_door_areas := doors\<rparr>)"

definition new_gossip_log :: "crypto \<Rightarrow> log_db \<Rightarrow> gossip_log" where
  "new_gossip_log c db =
     refresh c \<lparr>gl_db = db, gl_keys = fmempty, gl_areas = [], gl_file_areas = {||}, gl_door_areas = {||}, gl_problems = []\<rparr>"

definition is_file_area :: "area_tag \<Rightarrow> gossip_log \<Rightarrow> bool" where
  "is_file_area tag g \<longleftrightarrow> tag |\<in>| gl_file_areas g"

definition is_door_area :: "area_tag \<Rightarrow> gossip_log \<Rightarrow> bool" where
  "is_door_area tag g \<longleftrightarrow> tag |\<in>| gl_door_areas g"

definition notReplicated :: "u8 list" where
  "notReplicated = [TypeDM]"

definition is_not_replicated :: "u8 \<Rightarrow> bool" where
  "is_not_replicated t \<longleftrightarrow> list_ex (\<lambda>x. t = x) notReplicated"

definition gl_federated :: "gossip_log \<Rightarrow> area_tag list" where
  "gl_federated g = RosterArea # gl_areas g"

section \<open>Reading\<close>

text \<open>The rows a query with the predicate of \<open>typeFilterSQL\<close> sees.\<close>

definition served_rows :: "area_tag \<Rightarrow> log_db \<Rightarrow> log_row list" where
  "served_rows area db =
     filter (\<lambda>x. lr_area x = area \<and> list_all (\<lambda>t. lr_type x \<noteq> t) notReplicated) (db_records db)"

definition flush_origin :: "node_id option \<Rightarrow> u64 \<Rightarrow> vector \<Rightarrow> vector" where
  "flush_origin cur contiguous v =
     (case cur of Some o' \<Rightarrow> if contiguous > 0 then vv_set v o' contiguous else v | None \<Rightarrow> v)"

fun vector_loop :: "(node_id \<times> u64) list \<Rightarrow> node_id option \<Rightarrow> u64 \<Rightarrow> vector \<Rightarrow> vector" where
  "vector_loop [] cur contiguous v = flush_origin cur contiguous v"
| "vector_loop ((o', q) # rows) cur contiguous v =
     (if cur \<noteq> Some o'
      then vector_loop rows (Some o') (if q = 0 + 1 then q else 0) (flush_origin cur contiguous v)
      else vector_loop rows cur (if q = contiguous + 1 then q else contiguous) v)"

definition gl_vector :: "gossip_log \<Rightarrow> area_tag \<Rightarrow> vector" where
  "gl_vector g area =
     vector_loop (sort_key fst (sort_key snd (map (\<lambda>x. (lr_origin x, lr_seq x)) (served_rows area (gl_db g)))))
       None 0 vv_new"

definition maxRecordsPerRange :: nat where
  "maxRecordsPerRange = 256"

definition page_rows :: "area_tag \<Rightarrow> vv_range \<Rightarrow> log_db \<Rightarrow> log_row list" where
  "page_rows area rg db =
     take maxRecordsPerRange (sort_key lr_seq
       (filter (\<lambda>x. lr_origin x = rg_origin rg \<and> rg_from rg \<le> lr_seq x \<and> lr_seq x \<le> rg_to rg) (served_rows area db)))"

definition gl_records :: "crypto \<Rightarrow> gossip_log \<Rightarrow> area_tag \<Rightarrow> vv_range \<Rightarrow> rec list" where
  "gl_records c g area rg =
     (if \<not> bindable (rg_from rg) \<or> \<not> bindable (rg_to rg) then []
      else concat (map (\<lambda>x. case row_record c x of Inl _ \<Rightarrow> [] | Inr r \<Rightarrow> [r]) (page_rows area rg (gl_db g))))"

section \<open>Apply\<close>

definition key_for :: "crypto \<Rightarrow> node_id \<Rightarrow> gossip_log \<Rightarrow> (store_error + bytes) \<times> gossip_log" where
  "key_for c i g =
     (case fmlookup (gl_keys g) i of
        Some pub \<Rightarrow> (Inr pub, g)
      | None \<Rightarrow>
          (case get_node i (gl_db g) of
             Inl e \<Rightarrow> (Inl e, g)
           | Inr n \<Rightarrow>
               if \<not> node_id_matches (blake3 c) i (rn_public_key n) then (Inl KeyMismatch, g)
               else (Inr (rn_public_key n), g\<lparr>gl_keys := fmupd i (rn_public_key n) (gl_keys g)\<rparr>)))"

definition forget_key :: "node_id \<Rightarrow> gossip_log \<Rightarrow> gossip_log" where
  "forget_key i g = g\<lparr>gl_keys := fmdrop i (gl_keys g)\<rparr>"

text \<open>The key and signature checks: \<open>False\<close> when the loop goes on to the next record.\<close>

definition authenticate :: "crypto \<Rightarrow> int \<Rightarrow> rec \<Rightarrow> gossip_log \<Rightarrow> bool \<times> gossip_log" where
  "authenticate c now r g =
     (if r_type r = TypeNode then
        (case verify_node_record c r of
           Inl e \<Rightarrow> (False, report (NodeRejected e) g)
         | Inr _ \<Rightarrow>
             (case put_node_from_record c now r (gl_db g) of
                (Inl e, _) \<Rightarrow> (False, report (NodeNotStored e) g)
              | (Inr _, db) \<Rightarrow> (True, forget_key (r_origin r) (g\<lparr>gl_db := db\<rparr>))))
      else
        (case key_for c (r_origin r) g of
           (Inl _, g1) \<Rightarrow> (False, report (NoKey (r_origin r)) g1)
         | (Inr pub, g1) \<Rightarrow>
             (case record_verify c r pub of
                Inl e \<Rightarrow> (False, report (NotVerified (r_id r) e) g1)
              | Inr _ \<Rightarrow> (True, g1))))"

datatype admission = Refused | Failed store_error | Stored bool

text \<open>The end of the loop's body: \<open>HasRecord\<close>, then \<open>PutRecord\<close>.\<close>

definition store_record :: "int \<Rightarrow> rec \<Rightarrow> gossip_log \<Rightarrow> admission \<times> gossip_log" where
  "store_record now r g =
     (let held = has_record (r_id r) (gl_db g)
      in case put_record now r (gl_db g) of
           (Inl (SeqConflict o' a q), _) \<Rightarrow> (Refused, report (Divergent (SeqConflict o' a q)) g)
         | (Inl e, _) \<Rightarrow> (Failed e, g)
         | (Inr _, db) \<Rightarrow> (Stored (\<not> held), g\<lparr>gl_db := db\<rparr>))"

definition gl_admit :: "crypto \<Rightarrow> int \<Rightarrow> area_tag \<Rightarrow> rec \<Rightarrow> gossip_log \<Rightarrow> admission \<times> gossip_log" where
  "gl_admit c now area r g =
     (if r_area r \<noteq> area then (Refused, report (WrongArea (r_id r)) g)
      else if is_not_replicated (r_type r) then (Refused, report (MailOffered (r_origin r)) g)
      else if (r_type r = TypeDoorEvent) \<noteq> is_door_area area g then
        (Refused, report (if r_type r = TypeDoorEvent then NotALeague (r_origin r) else LeagueOnly (r_origin r)) g)
      else case authenticate c now r g of
             (False, g1) \<Rightarrow> (Refused, g1)
           | (True, g1) \<Rightarrow> store_record now r g1)"

fun gl_apply_loop ::
  "crypto \<Rightarrow> int \<Rightarrow> area_tag \<Rightarrow> rec list \<Rightarrow> nat \<Rightarrow> gossip_log \<Rightarrow> nat \<times> store_error option \<times> gossip_log" where
  "gl_apply_loop c now area [] added g = (added, None, g)"
| "gl_apply_loop c now area (r # rs) added g =
     (case gl_admit c now area r g of
        (Refused, g1) \<Rightarrow> gl_apply_loop c now area rs added g1
      | (Failed e, g1) \<Rightarrow> (added, Some e, g1)
      | (Stored fresh, g1) \<Rightarrow> gl_apply_loop c now area rs (if fresh then added + 1 else added) g1)"

definition gl_apply :: "crypto \<Rightarrow> int \<Rightarrow> gossip_log \<Rightarrow> area_tag \<Rightarrow> rec list \<Rightarrow> nat \<times> store_error option \<times> gossip_log" where
  "gl_apply c now g area recs = gl_apply_loop c now area recs 0 g"

section \<open>The vector\<close>

text \<open>The run the loop over one origin's rows keeps.\<close>

definition run_from :: "u64 \<Rightarrow> u64 list \<Rightarrow> u64" where
  "run_from t qs = fold (\<lambda>q t. if q = t + 1 then q else t) qs t"

lemma run_from_simps [simp]:
  "run_from t [] = t" "run_from t (q # qs) = run_from (if q = t + 1 then q else t) qs"
  by (simp_all add: run_from_def)

definition run_of :: "(u64 \<Rightarrow> bool) \<Rightarrow> u64 \<Rightarrow> bool" where
  "run_of held t \<longleftrightarrow> (\<forall>q. 0 < q \<and> q \<le> t \<longrightarrow> held q) \<and> \<not> held (t + 1)"

lemma run_from_ascending:
  assumes "ascending qs" and "\<forall>q \<in> set qs. bindable q" and "bindable t"
  shows "t \<le> run_from t qs \<and> (\<forall>q. t < q \<and> q \<le> run_from t qs \<longrightarrow> q \<in> set qs) \<and> run_from t qs + 1 \<notin> set qs \<and> bindable (run_from t qs)"
  using assms
proof (induction qs arbitrary: t)
  case (Cons q qs)
  let ?t = "if q = t + 1 then q else t"
  have t: "t \<le> ?t" "bindable ?t" using Cons.prems(2,3) bindable_plus1 [OF Cons.prems(3)] by auto
  note IH = Cons.IH [of ?t, OF _ _ t(2)]
  have ih: "?t \<le> run_from ?t qs" "\<forall>p. ?t < p \<and> p \<le> run_from ?t qs \<longrightarrow> p \<in> set qs"
    "run_from ?t qs + 1 \<notin> set qs" "bindable (run_from ?t qs)"
    using IH Cons.prems by auto
  have "p \<in> set (q # qs)" if "t < p" "p \<le> run_from ?t qs" for p
  proof (cases "?t < p")
    case False
    then have "p = q" using that(1) word_plus1_le [OF that(1), of p] by (auto split: if_splits)
    then show ?thesis by simp
  qed (use ih(2) that in auto)
  moreover have "run_from ?t qs + 1 \<noteq> q"
  proof
    assume eq: "run_from ?t qs + 1 = q"
    have up: "run_from ?t qs < run_from ?t qs + 1" using bindable_plus1 [OF ih(4)] .
    show False
    proof (cases "run_from ?t qs = t")
      case True
      then show ?thesis using eq ih(1) bindable_plus1 [OF Cons.prems(3)] by (auto split: if_splits)
    next
      case False
      then have "t < run_from ?t qs" using t(1) ih(1) by (auto simp: less_le)
      then have "run_from ?t qs \<in> set qs \<or> run_from ?t qs = ?t" using ih(1,2) by (auto simp: less_le)
      then show ?thesis
      proof
        assume "run_from ?t qs \<in> set qs"
        then have "q < run_from ?t qs" using Cons.prems(1) by simp
        then show False using up eq by simp
      next
        assume "run_from ?t qs = ?t"
        then show False using False up eq by (auto split: if_splits)
      qed
    qed
  qed
  ultimately show ?case using ih t(1) by (auto simp del: run_from_simps(1))
qed (use bindable_plus1 in auto)

lemma run_of_unique_le:
  assumes "run_of held t" and "run_of held' u" and "\<And>q. held q \<Longrightarrow> held' q"
  shows "t \<le> u"
proof (rule ccontr)
  assume "\<not> t \<le> u"
  then have lt: "u < t" by simp
  then have "u + 1 \<le> t" using word_plus1_le [OF lt, of t] by simp
  moreover have "0 < u + 1" using word_plus1_le [OF lt, of 0] by (auto simp: word_gt_0)
  ultimately have "held' (u + 1)" using assms(1,3) by (simp add: run_of_def)
  then show False using assms(2) by (simp add: run_of_def)
qed

lemma vector_loop_marks:
  assumes "sorted (map fst rows)" and "\<And>o'. cur = Some o' \<Longrightarrow> \<forall>k \<in> fst ` set rows. o' \<le> k"
    and "\<And>k. cur = Some k \<or> k \<in> fst ` set rows \<Longrightarrow> vv_get v k = 0"
  shows "vv_get (vector_loop rows cur t v) k =
    (if cur = Some k \<or> k \<in> fst ` set rows
     then run_from (if cur = Some k then t else 0) (map snd (filter (\<lambda>p. fst p = k) rows)) else vv_get v k)"
  using assms
proof (induction rows cur t v rule: vector_loop.induct)
  case (1 cur t v)
  then show ?case by (auto simp: flush_origin_def word_gt_0 split: option.splits)
next
  case (2 o' q rows cur t v)
  show ?case
  proof (cases "cur = Some o'")
    case True
    have "vv_get (vector_loop rows cur (if q = t + 1 then q else t) v) k =
        (if cur = Some k \<or> k \<in> fst ` set rows
         then run_from (if cur = Some k then if q = t + 1 then q else t else 0) (map snd (filter (\<lambda>p. fst p = k) rows))
         else vv_get v k)"
      using 2 True by (intro "2.IH"(2)) auto
    then show ?thesis using True by auto
  next
    case False
    let ?v = "flush_origin cur t v"
    have flushed: "vv_get ?v k = (if cur = Some k then t else vv_get v k)" for k
      using "2.prems"(3) by (auto simp: flush_origin_def word_gt_0 split: option.splits)
    have later: "cur = Some k \<Longrightarrow> k \<notin> fst ` set ((o', q) # rows)" for k
      using "2.prems"(1,2) False by (fastforce simp: less_le_not_le)
    have "vv_get (vector_loop rows (Some o') (if q = 0 + 1 then q else 0) ?v) k =
        (if Some o' = Some k \<or> k \<in> fst ` set rows
         then run_from (if Some o' = Some k then if q = 0 + 1 then q else 0 else 0) (map snd (filter (\<lambda>p. fst p = k) rows))
         else vv_get ?v k)"
      using False "2.prems" later by (intro "2.IH"(1)) (auto simp: flushed)
    moreover have "map snd (filter (\<lambda>p. fst p = k) rows) = []" if "cur = Some k"
      using later [OF that] by (auto simp: filter_empty_conv)
    ultimately show ?thesis using False later [of k] flushed [of k] by (cases "cur = Some k") auto
  qed
qed

lemma flush_wf: "vv_wf v \<Longrightarrow> vv_wf (flush_origin cur t v)"
  by (auto simp: flush_origin_def vv_wf_set split: option.splits)

lemma vector_loop_wf: "vv_wf v \<Longrightarrow> vv_wf (vector_loop rows cur t v)"
  by (induction rows cur t v rule: vector_loop.induct) (auto simp: flush_wf)

text \<open>What the log can serve at a coordinate of an area.\<close>

definition gl_held :: "gossip_log \<Rightarrow> area_tag \<Rightarrow> node_id \<Rightarrow> u64 \<Rightarrow> bool" where
  "gl_held g area o' q \<longleftrightarrow> (\<exists>x \<in> set (served_rows area (gl_db g)). lr_origin x = o' \<and> lr_seq x = q)"

lemma served_rows_set:
  "x \<in> set (served_rows area db) \<longleftrightarrow> x \<in> set (db_records db) \<and> lr_area x = area \<and> lr_type x \<noteq> TypeDM"
  by (auto simp: served_rows_def notReplicated_def)

lemma served_coordinates:
  assumes "rows_ok db" and "x \<in> set (served_rows area db)" and "y \<in> set (served_rows area db)"
    and "lr_origin x = lr_origin y" and "lr_seq x = lr_seq y"
  shows "x = y"
proof -
  have "coordinate x = coordinate y" using assms by (simp add: served_rows_set coordinate_def)
  then show ?thesis using assms(1-3) by (auto simp: served_rows_set rows_ok_def distinct_map dest: inj_onD)
qed

lemma gl_vector_mark:
  assumes "rows_ok (gl_db g)"
  shows "run_of (gl_held g area o') (vv_get (gl_vector g area) o') \<and> bindable (vv_get (gl_vector g area) o')"
proof -
  let ?S = "served_rows area (gl_db g)"
  let ?pairs = "map (\<lambda>x. (lr_origin x, lr_seq x)) ?S"
  let ?rows = "sort_key fst (sort_key snd ?pairs)"
  let ?qs = "map snd (filter (\<lambda>p. fst p = o') ?rows)"
  have stable: "filter (\<lambda>p. fst p = o') ?rows = filter (\<lambda>p. fst p = o') (sort_key snd ?pairs)"
    by (rule sort_key_stable)
  have srt: "sorted ?qs" unfolding stable by (rule sorted_filter) simp
  have dS: "distinct ?S" using assms by (simp add: rows_ok_def served_rows_def distinct_map)
  have "inj_on (\<lambda>x. (lr_origin x, lr_seq x)) (set ?S)"
    using served_coordinates [OF assms] by (auto intro!: inj_onI)
  then have "distinct ?rows" using dS by (simp add: distinct_map)
  then have "distinct ?qs"
    by (auto simp: distinct_map inj_on_def intro: distinct_filter)
  then have asc: "ascending ?qs" using srt by (simp add: strict_sorted_iff)
  have mem: "q \<in> set ?qs \<longleftrightarrow> gl_held g area o' q" for q by (auto simp: gl_held_def image_iff)
  have bnd: "\<forall>q \<in> set ?qs. bindable q" using assms by (auto simp: rows_ok_def served_rows_set)
  have mark: "vv_get (gl_vector g area) o' = run_from 0 ?qs"
  proof (cases "o' \<in> fst ` set ?rows")
    case False
    then have "filter (\<lambda>p. fst p = o') ?rows = []" by (force simp: filter_empty_conv)
    then show ?thesis unfolding gl_vector_def using False by (subst vector_loop_marks) simp_all
  next
    case True
    then show ?thesis unfolding gl_vector_def by (subst vector_loop_marks) simp_all
  qed
  note run = run_from_ascending [OF asc bnd, of 0]
  then show ?thesis unfolding mark run_of_def using mem bindable_def by auto
qed

lemma gl_vector_wf: "vv_wf (gl_vector g area)"
  by (simp add: gl_vector_def vector_loop_wf)

section \<open>What Apply keeps\<close>

definition authentic :: "crypto \<Rightarrow> rec \<Rightarrow> bool" where
  "authentic c r \<longleftrightarrow>
     (if r_type r = TypeNode then \<exists>b. verify_node_record c r = Inr b else \<exists>pub. record_verify c r pub = Inr ())"

definition rows_authentic :: "crypto \<Rightarrow> log_db \<Rightarrow> bool" where
  "rows_authentic c db \<longleftrightarrow> (\<forall>x \<in> set (db_records db). \<exists>r now n. x = row_of r now n \<and> authentic c r)"

definition keys_ok :: "gossip_log \<Rightarrow> bool" where
  "keys_ok g \<longleftrightarrow> (\<forall>i pub. fmlookup (gl_keys g) i = Some pub \<longrightarrow>
     (\<exists>n. fmlookup (db_nodes (gl_db g)) i = Some n \<and> rn_public_key n = pub))"

definition gl_ok :: "crypto \<Rightarrow> gossip_log \<Rightarrow> bool" where
  "gl_ok c g \<longleftrightarrow> rows_ok (gl_db g) \<and> roster_ok c (gl_db g) \<and> rows_authentic c (gl_db g) \<and> keys_ok g"

text \<open>The log after a step: the same rows, then new ones; the adapter's caches of areas unchanged.\<close>

definition log_grows :: "gossip_log \<Rightarrow> gossip_log \<Rightarrow> bool" where
  "log_grows g h \<longleftrightarrow> (\<exists>xs. db_records (gl_db h) = db_records (gl_db g) @ xs) \<and> gl_areas h = gl_areas g \<and>
     gl_file_areas h = gl_file_areas g \<and> gl_door_areas h = gl_door_areas g \<and>
     (\<forall>i n. fmlookup (db_nodes (gl_db g)) i = Some n \<longrightarrow>
        (\<exists>m. fmlookup (db_nodes (gl_db h)) i = Some m \<and> rn_public_key m = rn_public_key n))"

lemma log_grows_refl [simp]: "log_grows g g"
  by (simp add: log_grows_def)

lemma log_grows_trans: "log_grows g h \<Longrightarrow> log_grows h k \<Longrightarrow> log_grows g k"
  by (auto simp: log_grows_def) metis

lemma report_sel [simp]:
  "gl_db (report p g) = gl_db g" "gl_keys (report p g) = gl_keys g" "gl_areas (report p g) = gl_areas g"
  "gl_door_areas (report p g) = gl_door_areas g" "gl_file_areas (report p g) = gl_file_areas g"
  by (simp_all add: report_def)

lemma key_for_result:
  assumes "key_for c i g = (res, h)" and "keys_ok g"
  shows "gl_db h = gl_db g \<and> keys_ok h \<and> gl_areas h = gl_areas g \<and> gl_file_areas h = gl_file_areas g \<and>
    gl_door_areas h = gl_door_areas g \<and>
    (\<forall>pub. res = Inr pub \<longrightarrow> (\<exists>n. fmlookup (db_nodes (gl_db g)) i = Some n \<and> rn_public_key n = pub))"
  using assms
  by (auto simp: key_for_def keys_ok_def get_node_def split: option.splits if_splits sum.splits)

lemma authenticate_result:
  assumes "authenticate c now r g = (ok, h)" and "gl_ok c g"
  shows "gl_ok c h \<and> log_grows g h \<and> db_records (gl_db h) = db_records (gl_db g) \<and>
    db_local_seq (gl_db h) = db_local_seq (gl_db g) \<and> (ok \<longrightarrow> authentic c r)"
proof (cases "r_type r = TypeNode")
  case True
  show ?thesis
  proof (cases "verify_node_record c r")
    case (Inl e)
    then show ?thesis using assms True
      by (auto simp: authenticate_def gl_ok_def keys_ok_def log_grows_def)
  next
    case (Inr b)
    obtain res db where put: "put_node_from_record c now r (gl_db g) = (res, db)"
      by (cases "put_node_from_record c now r (gl_db g)")
    have db: "db = snd (put_node_from_record c now r (gl_db g))" using put by simp
    have keep: "db_records db = db_records (gl_db g)" "db_local_seq db = db_local_seq (gl_db g)" "roster_ok c db"
      "\<And>i n. fmlookup (db_nodes (gl_db g)) i = Some n \<Longrightarrow> \<exists>m. fmlookup (db_nodes db) i = Some m \<and> rn_public_key m = rn_public_key n"
      using assms(2) put_node_from_record_key unfolding db
      by (auto simp: gl_ok_def put_node_from_record_keeps)
    have rows: "rows_ok db = rows_ok (gl_db g)" by (rule rows_ok_cong) (simp_all add: keep)
    show ?thesis
    proof (cases res)
      case e: (Inl e)
      then show ?thesis using assms True Inr put
        by (auto simp: authenticate_def gl_ok_def keys_ok_def log_grows_def)
    next
      case u: (Inr u)
      have h: "ok" "h = forget_key (r_origin r) (g\<lparr>gl_db := db\<rparr>)"
        using assms(1) True Inr put u by (simp_all add: authenticate_def)
      have sel: "gl_db h = db" "gl_areas h = gl_areas g" "gl_file_areas h = gl_file_areas g" "gl_door_areas h = gl_door_areas g"
        by (simp_all add: h forget_key_def)
      have "keys_ok h"
        using assms(2) keep(4) unfolding gl_ok_def keys_ok_def sel by (auto simp: h forget_key_def) metis
      then show ?thesis
        using assms(2) keep rows Inr True
        by (auto simp: gl_ok_def log_grows_def sel rows_authentic_def authentic_def)
    qed
  qed
next
  case False
  obtain res g1 where k: "key_for c (r_origin r) g = (res, g1)" by (cases "key_for c (r_origin r) g")
  note kr = key_for_result [OF k]
  show ?thesis
    using assms False k kr
    by (auto simp: authenticate_def gl_ok_def log_grows_def authentic_def keys_ok_def split: sum.splits)
qed

lemma store_record_result:
  assumes "store_record now r g = (adm, h)" and "gl_ok c g" and "authentic c r"
  shows "gl_ok c h \<and> log_grows g h"
proof -
  obtain res db where put: "put_record now r (gl_db g) = (res, db)" by (cases "put_record now r (gl_db g)")
  have "rows_ok db" "db_nodes db = db_nodes (gl_db g)"
    using put_record_rows_ok [of "gl_db g" now r] put_record_nodes(1) [of now r "gl_db g"] put assms(2)
    by (simp_all add: gl_ok_def)
  moreover have "\<exists>xs. db_records db = db_records (gl_db g) @ xs \<and> (\<forall>x \<in> set xs. \<exists>r now n. x = row_of r now n \<and> authentic c r)"
    using put assms(3) by (auto simp: put_record_result split: if_splits) blast
  ultimately show ?thesis
    using assms put
    by (auto simp: store_record_def Let_def gl_ok_def log_grows_def rows_authentic_def keys_ok_def roster_ok_def
        split: sum.splits store_error.splits)
qed

lemma gl_admit_result:
  assumes "gl_admit c now area r g = (adm, h)" and "gl_ok c g"
  shows "gl_ok c h \<and> log_grows g h"
proof -
  have rep: "gl_ok c (report p g) \<and> log_grows g (report p g)" for p
    using assms(2) by (simp add: gl_ok_def log_grows_def keys_ok_def)
  obtain ok g1 where au: "authenticate c now r g = (ok, g1)" by (cases "authenticate c now r g")
  note ar = authenticate_result [OF au assms(2)]
  show ?thesis
    using assms(1) rep ar au store_record_result [of now r g1 adm h c] log_grows_trans [of g g1 h]
    by (auto simp: gl_admit_def split: if_splits bool.splits)
qed

lemma gl_apply_loop_result:
  "gl_ok c g \<Longrightarrow> gl_ok c (snd (snd (gl_apply_loop c now area rs k g))) \<and> log_grows g (snd (snd (gl_apply_loop c now area rs k g)))"
proof (induction rs arbitrary: k g)
  case (Cons r rs)
  obtain adm g1 where ad: "gl_admit c now area r g = (adm, g1)" by (cases "gl_admit c now area r g")
  note g1 = gl_admit_result [OF ad Cons.prems]
  show ?case
    using Cons.IH [OF conjunct1 [OF g1]] g1 log_grows_trans ad by (auto split: admission.splits)
qed simp

lemma gl_apply_ok: "gl_ok c g \<Longrightarrow> gl_ok c (snd (snd (gl_apply c now g area recs)))"
  by (simp add: gl_apply_def gl_apply_loop_result)

lemma gl_apply_grows: "gl_ok c g \<Longrightarrow> log_grows g (snd (snd (gl_apply c now g area recs)))"
  by (simp add: gl_apply_def gl_apply_loop_result)

lemma log_grows_mark:
  assumes "rows_ok (gl_db g)" and "rows_ok (gl_db h)" and "log_grows g h"
  shows "vv_get (gl_vector g area) o' \<le> vv_get (gl_vector h area) o'"
proof (rule run_of_unique_le)
  show "run_of (gl_held g area o') (vv_get (gl_vector g area) o')" using gl_vector_mark [OF assms(1)] by simp
  show "run_of (gl_held h area o') (vv_get (gl_vector h area) o')" using gl_vector_mark [OF assms(2)] by simp
  show "gl_held g area o' q \<Longrightarrow> gl_held h area o' q" for q
    using assms(3) by (auto simp: gl_held_def served_rows_set log_grows_def)
qed

section \<open>The engine's store\<close>

text \<open>
  The engine's environment with the log of a running board. \<open>clk\<close> is the clock, which only dates
  the rows; a storage error is one error of the interface.
\<close>

definition log_store_env ::
  "crypto \<Rightarrow> (gossip_log \<Rightarrow> int) \<Rightarrow> (node_id \<Rightarrow> bytes \<Rightarrow> 'o \<Rightarrow> nat option \<times> 'o) \<Rightarrow>
   (area_tag \<Rightarrow> rec list \<Rightarrow> 'o \<Rightarrow> nat option \<times> 'o) \<Rightarrow> ('o \<Rightarrow> budget) \<Rightarrow>
   (('o \<Rightarrow> rat) \<times> (rat \<Rightarrow> 'o \<Rightarrow> 'o)) option \<Rightarrow> (nat \<Rightarrow> rat) \<Rightarrow> (gossip_log, 'o) gossip_env" where
  "log_store_env c clk send send_recs bud loss rnd =
     \<lparr>ge_areas = gl_federated, ge_vector = gl_vector, ge_records = gl_records c,
      ge_apply = (\<lambda>g area recs. case gl_apply c (clk g) g area recs of (n, err, g') \<Rightarrow> (n, map_option (\<lambda>_. 0) err, g')),
      ge_send_message = send, ge_send_records = send_recs, ge_budget = bud, ge_loss_adapter = loss,
      ge_blake3 = blake3 c, ge_rnd = rnd\<rparr>"

lemma log_store_env_sel [simp]:
  "ge_areas (log_store_env c clk send sr bud loss rnd) = gl_federated"
  "ge_vector (log_store_env c clk send sr bud loss rnd) = gl_vector"
  "ge_apply (log_store_env c clk send sr bud loss rnd) g area recs =
     (case gl_apply c (clk g) g area recs of (n, err, g') \<Rightarrow> (n, map_option (\<lambda>_. 0) err, g'))"
  by (simp_all add: log_store_env_def)

interpretation gl: gossip_store "log_store_env c clk send sr bud loss rnd" "gl_ok c" for c clk send sr bud loss rnd
proof (unfold_locales, goal_cases)
  case (1 s area recs)
  then show ?case using gl_apply_ok [of c s "clk s" area recs] by (cases "gl_apply c (clk s) s area recs") simp
next
  case (2 s tag origin area recs)
  have "gl_ok c (snd (snd (gl_apply c (clk s) s area recs)))" "log_grows s (snd (snd (gl_apply c (clk s) s area recs)))"
    using gl_apply_ok [OF 2] gl_apply_grows [OF 2] by blast+
  then have "vv_get (gl_vector s tag) origin \<le> vv_get (gl_vector (snd (snd (gl_apply c (clk s) s area recs))) tag) origin"
    using 2 by (intro log_grows_mark) (simp_all add: gl_ok_def)
  then show ?case by (cases "gl_apply c (clk s) s area recs") simp
next
  case (3 s area recs)
  have "gl_areas (snd (snd (gl_apply c (clk s) s area recs))) = gl_areas s"
    using gl_apply_grows [OF 3, of "clk s" area recs] by (simp add: log_grows_def)
  then show ?case by (cases "gl_apply c (clk s) s area recs") (simp add: gl_federated_def)
qed

section \<open>The double of the simulator\<close>

definition row_at :: "log_db \<Rightarrow> area_tag \<Rightarrow> node_id \<Rightarrow> u64 \<Rightarrow> record_id option" where
  "row_at db area o' q =
     map_option lr_id (find (\<lambda>x. lr_area x = area \<and> lr_origin x = o' \<and> lr_seq x = q) (db_records db))"

text \<open>The two stores hold the same records of an area and trust the same keys.\<close>

definition same_area :: "mem_store \<Rightarrow> gossip_log \<Rightarrow> area_tag \<Rightarrow> bool" where
  "same_area s g area \<longleftrightarrow> (\<forall>o' q. map_option r_id (mem_held s area o' q) = row_at (gl_db g) area o' q) \<and>
     (\<forall>o'. fmlookup (ms_keys s) o' = map_option rn_public_key (fmlookup (db_nodes (gl_db g)) o'))"

text \<open>The records both stores treat alike, and the assumption that no two IDs of the log and the batch collide.\<close>

definition plain :: "rec \<Rightarrow> bool" where
  "plain r \<longleftrightarrow> r_type r \<notin> {TypeDM, TypeNode, TypeDoorEvent} \<and> r_seq r \<noteq> 0 \<and> bindable (r_seq r)"

definition rec_coordinate :: "rec \<Rightarrow> node_id \<times> area_tag \<times> u64" where
  "rec_coordinate r = (r_origin r, r_area r, r_seq r)"

definition named_coordinates :: "log_db \<Rightarrow> rec list \<Rightarrow> (record_id \<times> node_id \<times> area_tag \<times> u64) set" where
  "named_coordinates db recs =
     (\<lambda>x. (lr_id x, coordinate x)) ` set (db_records db) \<union> (\<lambda>r. (r_id r, rec_coordinate r)) ` set recs"

definition ids_name_coordinates :: "log_db \<Rightarrow> rec list \<Rightarrow> bool" where
  "ids_name_coordinates db recs \<longleftrightarrow> single_valued (named_coordinates db recs)"

definition like_log :: "area_log \<Rightarrow> gossip_log \<Rightarrow> area_tag \<Rightarrow> bool" where
  "like_log a g area \<longleftrightarrow> (\<forall>o' q. map_option r_id (fmlookup (slots a o') q) = row_at (gl_db g) area o' q)"

definition like_keys :: "(node_id, bytes) fmap \<Rightarrow> gossip_log \<Rightarrow> bool" where
  "like_keys keys g \<longleftrightarrow> (\<forall>o'. fmlookup keys o' = map_option rn_public_key (fmlookup (db_nodes (gl_db g)) o'))"

lemma ids_name_mono: "ids_name_coordinates db rs \<Longrightarrow> named_coordinates db' rs' \<subseteq> named_coordinates db rs \<Longrightarrow>
    ids_name_coordinates db' rs'"
  unfolding ids_name_coordinates_def by (rule single_valued_subset)

lemma ids_name_tail: "ids_name_coordinates db (r # rs) \<Longrightarrow> ids_name_coordinates db rs"
  by (erule ids_name_mono) (auto simp: named_coordinates_def)

lemma ids_name_new:
  assumes "ids_name_coordinates db (r # rs)" and "x \<in> set (db_records db)" and "lr_id x = r_id r"
  shows "coordinate x = rec_coordinate r"
proof -
  have "(r_id r, coordinate x) \<in> named_coordinates db (r # rs)"
    unfolding named_coordinates_def assms(3) [symmetric] using assms(2) by blast
  moreover have "(r_id r, rec_coordinate r) \<in> named_coordinates db (r # rs)" by (simp add: named_coordinates_def)
  ultimately show ?thesis using assms(1) unfolding ids_name_coordinates_def by (blast dest: single_valuedD)
qed

lemma ids_name_stored:
  assumes "ids_name_coordinates db (r # rs)" and "db_records db' = db_records db @ [row_of r now n]"
  shows "ids_name_coordinates db' rs"
  by (rule ids_name_mono [OF assms(1)])
    (auto simp: named_coordinates_def assms(2) coordinate_def rec_coordinate_def)

lemma coordinate_image: "(o', area, q) \<in> coordinate ` S \<longleftrightarrow> (\<exists>x \<in> S. lr_area x = area \<and> lr_origin x = o' \<and> lr_seq x = q)"
  by (auto simp: coordinate_def image_def)

lemma row_at_None: "row_at db area o' q = None \<longleftrightarrow> (o', area, q) \<notin> coordinate ` set (db_records db)"
  by (auto simp: row_at_def find_None_iff coordinate_image)

lemma row_at_Some: "row_at db area o' q = Some i \<Longrightarrow>
    \<exists>x \<in> set (db_records db). coordinate x = (o', area, q) \<and> lr_id x = i"
  by (auto simp: row_at_def find_Some_iff coordinate_def intro!: nth_mem bexI)

lemma find_append: "find P (xs @ ys) = (case find P xs of None \<Rightarrow> find P ys | Some x \<Rightarrow> Some x)"
  by (induction xs) auto

lemma key_for_like:
  assumes "gl_ok c g" and "like_keys keys g"
  shows "\<exists>g1 res. key_for c i g = (res, g1) \<and> gl_db g1 = gl_db g \<and> gl_door_areas g1 = gl_door_areas g \<and>
    (case fmlookup keys i of None \<Rightarrow> \<exists>e. res = Inl e | Some pub \<Rightarrow> res = Inr pub)"
proof -
  have k: "fmlookup keys i = map_option rn_public_key (fmlookup (db_nodes (gl_db g)) i)"
    using assms(2) by (simp add: like_keys_def)
  show ?thesis
  proof (cases "fmlookup (gl_keys g) i")
    case (Some pub)
    then have "fmlookup keys i = Some pub" using assms(1) k by (auto simp: gl_ok_def keys_ok_def)
    then show ?thesis using Some by (simp add: key_for_def)
  next
    case None
    show ?thesis
    proof (cases "fmlookup (db_nodes (gl_db g)) i")
      case (Some n)
      then have "node_id_matches (blake3 c) i (rn_public_key n)" using assms(1) by (simp add: gl_ok_def roster_ok_def)
      then show ?thesis using None Some k by (simp add: key_for_def get_node_def)
    qed (use None k in \<open>simp add: key_for_def get_node_def\<close>)
  qed
qed

text \<open>One record: the double and the log take it, or refuse it, together.\<close>

lemma admit_alike:
  assumes ok: "gl_ok c g" and like: "like_log a g area" "like_keys keys g" and door: "\<not> is_door_area area g"
    and pl: "plain r" and ids: "ids_name_coordinates (gl_db g) (r # rs)"
    and mem: "mem_admit c keys area r (a, rej, n) = (a', rej', n')"
    and adm: "gl_admit c now area r g = (res, g')"
  shows "like_log a' g' area \<and> like_keys keys g' \<and> \<not> is_door_area area g' \<and>
    (res = Refused \<and> n' = n \<or> res = Stored False \<and> n' = n \<or> res = Stored True \<and> n' = n + 1) \<and>
    ids_name_coordinates (gl_db g') rs"
proof -
  note ids' = ids_name_tail [OF ids]
  have quiet: "like_log a g1 area \<and> like_keys keys g1 \<and> \<not> is_door_area area g1 \<and> ids_name_coordinates (gl_db g1) rs"
    if "gl_db g1 = gl_db g" "gl_door_areas g1 = gl_door_areas g" for g1
    using that like door ids' by (simp add: like_log_def like_keys_def is_door_area_def)
  have t: "r_type r \<noteq> TypeDM" "r_type r \<noteq> TypeNode" "r_type r \<noteq> TypeDoorEvent" "r_seq r \<noteq> 0" "bindable (r_seq r)"
    using pl by (auto simp: plain_def)
  obtain g1 kres where k: "key_for c (r_origin r) g = (kres, g1)" "gl_db g1 = gl_db g" "gl_door_areas g1 = gl_door_areas g"
    "case fmlookup keys (r_origin r) of None \<Rightarrow> \<exists>e. kres = Inl e | Some pub \<Rightarrow> kres = Inr pub"
    using key_for_like [OF ok like(2)] by blast
  have adm': "(res, g') = (if r_area r \<noteq> area then (Refused, report (WrongArea (r_id r)) g)
     else case authenticate c now r g of (False, h) \<Rightarrow> (Refused, h) | (True, h) \<Rightarrow> store_record now r h)"
    using adm t door by (auto simp: gl_admit_def is_not_replicated_def notReplicated_def)
  show ?thesis
  proof (cases "fmlookup keys (r_origin r)")
    case None
    then have "a' = a" "n' = n" "res = Refused" "gl_db g' = gl_db g" "gl_door_areas g' = gl_door_areas g"
      using mem adm' t k by (auto simp: mem_admit_def authenticate_def split: if_splits)
    then show ?thesis using quiet by simp
  next
    case key: (Some pub)
    then have kr: "kres = Inr pub" using k(4) by simp
    show ?thesis
    proof (cases "r_area r = area \<and> record_verify c r pub = Inr ()")
      case False
      then have "a' = a" "n' = n" "res = Refused" "gl_db g' = gl_db g" "gl_door_areas g' = gl_door_areas g"
        using mem adm' t k key kr by (auto simp: mem_admit_def authenticate_def split: if_splits sum.splits)
      then show ?thesis using quiet by simp
    next
      case True
      then have st: "(res, g') = store_record now r g1"
        using adm' t k kr by (simp add: authenticate_def)
      let ?at = "(r_origin r, r_area r, r_seq r)"
      have slot: "map_option r_id (fmlookup (slots a (r_origin r)) (r_seq r)) = row_at (gl_db g) area (r_origin r) (r_seq r)"
        using like(1) by (simp add: like_log_def)
      show ?thesis
      proof (cases "fmlookup (slots a (r_origin r)) (r_seq r)")
        case (Some x)
        then have mem': "a' = a" "n' = n" using mem t key True by (auto simp: mem_admit_def Let_def split: if_splits)
        have "row_at (gl_db g) area (r_origin r) (r_seq r) = Some (r_id x)" using slot Some by simp
        then have "?at \<in> coordinate ` set (db_records (gl_db g))" using row_at_None True by (metis option.distinct(1))
        then have "res = Refused \<or> res = Stored False" "gl_db g' = gl_db g" "gl_door_areas g' = gl_door_areas g"
          using st t k(2,3) by (auto simp: store_record_def put_record_result has_record_iff Let_def split: if_splits)
        then show ?thesis using quiet mem' by simp
      next
        case free: None
        then have mem': "a' = a\<lparr>al_records := fmupd (r_origin r) (fmupd (r_seq r) r (slots a (r_origin r))) (al_records a)\<rparr>" "n' = n + 1"
          using mem t key True by (auto simp: mem_admit_def Let_def split: if_splits)
        have "row_at (gl_db g) area (r_origin r) (r_seq r) = None" using slot free by simp
        then have at: "?at \<notin> coordinate ` set (db_records (gl_db g))" using row_at_None True by blast
        then have new: "r_id r \<notin> lr_id ` set (db_records (gl_db g))"
          using ids_name_new [OF ids] unfolding rec_coordinate_def by (metis imageE image_eqI)
        let ?row = "row_of r now (db_local_seq (gl_db g) + 1)"
        have res: "res = Stored True"
          and rows: "db_records (gl_db g') = db_records (gl_db g) @ [?row]" "db_nodes (gl_db g') = db_nodes (gl_db g)"
            "gl_door_areas g' = gl_door_areas g"
          using st t k(2,3) at new by (simp_all add: store_record_def put_record_result has_record_iff Let_def)
        have "row_at (gl_db g') area o' q = (if o' = r_origin r \<and> q = r_seq r then Some (r_id r) else row_at (gl_db g) area o' q)" for o' q
        proof (cases "o' = r_origin r \<and> q = r_seq r")
          case c: True
          then have "find (\<lambda>x. lr_area x = area \<and> lr_origin x = o' \<and> lr_seq x = q) (db_records (gl_db g)) = None"
            using at True by (force simp: find_None_iff coordinate_def image_iff)
          then show ?thesis using c True by (simp add: row_at_def rows find_append)
        qed (auto simp: row_at_def rows find_append split: option.splits)
        then have "like_log a' g' area" using like(1) by (auto simp: like_log_def mem' slots_upd)
        moreover have "ids_name_coordinates (gl_db g') rs" by (rule ids_name_stored [OF ids rows(1)])
        ultimately show ?thesis
          using res mem' like(2) door rows by (simp add: like_keys_def is_door_area_def)
      qed
    qed
  qed
qed

lemma store_record_rows:
  "db_records (gl_db (snd (store_record now r g))) \<in>
     {db_records (gl_db g), db_records (gl_db g) @ [row_of r now (db_local_seq (gl_db g) + 1)]}"
  by (auto simp: store_record_def put_record_result Let_def)

lemma gl_admit_rows:
  assumes "gl_ok c g" and "gl_admit c now area r g = (adm, h)"
  shows "db_records (gl_db h) = db_records (gl_db g) \<or>
    db_records (gl_db h) = db_records (gl_db g) @ [row_of r now (db_local_seq (gl_db g) + 1)] \<and> r_area r = area \<and> r_type r \<noteq> TypeDM"
proof -
  obtain ok g1 where au: "authenticate c now r g = (ok, g1)" by (cases "authenticate c now r g")
  show ?thesis
    using assms authenticate_result [OF au assms(1)] au store_record_rows [of now r g1]
    by (auto simp: gl_admit_def is_not_replicated_def notReplicated_def split: if_splits bool.splits)
qed

definition no_mail :: "area_tag \<Rightarrow> log_db \<Rightarrow> bool" where
  "no_mail area db \<longleftrightarrow> (\<forall>x \<in> set (db_records db). lr_area x = area \<longrightarrow> lr_type x \<noteq> TypeDM)"

lemma gl_admit_no_mail:
  "gl_ok c g \<Longrightarrow> gl_admit c now a r g = (adm, h) \<Longrightarrow> no_mail area (gl_db g) \<Longrightarrow> no_mail area (gl_db h)"
  using gl_admit_rows [of c g now a r adm h] by (auto simp: no_mail_def)

lemma gl_held_row_at: "no_mail area (gl_db g) \<Longrightarrow> gl_held g area o' q \<longleftrightarrow> row_at (gl_db g) area o' q \<noteq> None"
  unfolding row_at_None coordinate_image by (auto simp: gl_held_def served_rows_set no_mail_def)

lemma apply_alike:
  "gl_ok c g \<Longrightarrow> like_log a g area \<Longrightarrow> like_keys keys g \<Longrightarrow> \<not> is_door_area area g \<Longrightarrow> list_all plain recs \<Longrightarrow>
   ids_name_coordinates (gl_db g) recs \<Longrightarrow> no_mail area (gl_db g) \<Longrightarrow>
   fold (mem_admit c keys area) recs (a, rej, n) = (a', rej', n') \<Longrightarrow>
   gl_apply_loop c now area recs n g = (m, err, g') \<Longrightarrow>
   like_log a' g' area \<and> like_keys keys g' \<and> m = n' \<and> err = None \<and> no_mail area (gl_db g') \<and> gl_ok c g'"
proof (induction recs arbitrary: g a rej n)
  case (Cons r rs)
  obtain res g1 where adm: "gl_admit c now area r g = (res, g1)" by (cases "gl_admit c now area r g")
  obtain a1 rej1 n1 where mem: "mem_admit c keys area r (a, rej, n) = (a1, rej1, n1)" by (metis prod_cases3)
  have one: "like_log a1 g1 area" "like_keys keys g1" "\<not> is_door_area area g1"
    "res = Refused \<and> n1 = n \<or> res = Stored False \<and> n1 = n \<or> res = Stored True \<and> n1 = n + 1"
    "ids_name_coordinates (gl_db g1) rs"
    using admit_alike [OF Cons.prems(1-4) _ Cons.prems(6) mem adm] Cons.prems(5) by simp_all
  have "gl_ok c g1" "no_mail area (gl_db g1)"
    using gl_admit_result [OF adm Cons.prems(1)] gl_admit_no_mail [OF Cons.prems(1) adm Cons.prems(7)] by simp_all
  moreover have "gl_apply_loop c now area rs n1 g1 = (m, err, g')" using Cons.prems(9) adm one(4) by auto
  moreover have "fold (mem_admit c keys area) rs (a1, rej1, n1) = (a', rej', n')" using Cons.prems(8) mem by simp
  ultimately show ?case using Cons.IH [OF _ one(1-3) _ one(5)] Cons.prems(5) by simp
qed simp

lemma same_area_iff:
  "fmlookup (ms_areas s) area = Some a \<Longrightarrow>
   same_area s g area \<longleftrightarrow> like_log a g area \<and> like_keys (ms_keys s) g"
  by (simp add: same_area_def like_log_def like_keys_def mem_held_def)

lemma same_area_vectors:
  assumes "mem_ok c s" and "gl_ok c g" and "fmlookup (ms_areas s) area = Some a" and "same_area s g area"
    and "no_mail area (gl_db g)"
  shows "mem_vector s area = gl_vector g area"
proof (rule vv_wf_eqI)
  show "vv_wf (mem_vector s area)" using assms(1,3) by (auto simp: mem_ok_def log_ok_def mem_vector_def)
  show "vv_wf (gl_vector g area)" by (rule gl_vector_wf)
  fix o'
  have mark: "run_of (\<lambda>q. fmlookup (slots a o') q \<noteq> None) (vv_get (mem_vector s area) o')"
    using mem_vector_mark [OF assms(1,3), of o'] by (simp add: contiguous_at_def run_of_def)
  have held: "fmlookup (slots a o') q \<noteq> None \<longleftrightarrow> gl_held g area o' q" for q
  proof -
    have "map_option r_id (fmlookup (slots a o') q) = row_at (gl_db g) area o' q"
      using assms(4) same_area_iff [OF assms(3)] by (simp add: like_log_def)
    then show ?thesis using gl_held_row_at [OF assms(5)] by (metis option.map_disc_iff)
  qed
  have mark': "run_of (gl_held g area o') (vv_get (gl_vector g area) o')"
    using gl_vector_mark assms(2) by (simp add: gl_ok_def)
  show "vv_get (mem_vector s area) o' = vv_get (gl_vector g area) o'"
    using run_of_unique_le [OF mark mark'] run_of_unique_le [OF mark' mark] held by (blast intro: order_antisym)
qed

section \<open>Properties of the adapter\<close>

text \<open>
  C9. The log behind the federation stays sound, and its vector tells the truth. From a sound log
  \<open>Apply\<close> on any records leaves: no ID and no coordinate twice, arrival numbers ascending, every
  row an authenticated record, every roster key hashing to its node; earlier rows unchanged.
  \<open>Vector\<close> then gives for each origin the last of the run from 1 of sequences that \<open>Records\<close> can serve.
\<close>

theorem log_store_sound:
  assumes "gl_ok c g" and "gl_apply c now g area recs = (n, err, h)"
  shows "gl_ok c h \<and> (\<exists>xs. db_records (gl_db h) = db_records (gl_db g) @ xs) \<and>
    run_of (gl_held h tag origin) (vv_get (gl_vector h tag) origin)"
  using gl_apply_ok [OF assms(1), of now area recs] gl_apply_grows [OF assms(1), of now area recs] assms(2)
    gl_vector_mark [of h tag origin]
  by (simp add: gl_ok_def log_grows_def)

text \<open>
  C6. The engine of a running board keeps its log sound. Whatever sequence of heartbeats, received
  payloads, publications and deliveries the gossip engine goes through on the SQLite store,
  with any outbox, the log stays sound, the areas stay the same and no mark of any area goes
  down.
\<close>

theorem engine_on_log_sound:
  assumes "engine_run (log_store_env c clk send sr bud loss rnd) e e'" and "gl_ok c (eg_store e)"
  shows "gl_ok c (eg_store e') \<and> gl_federated (eg_store e') = gl_federated (eg_store e) \<and>
    vv_dominates (gl_vector (eg_store e') tag) (gl_vector (eg_store e) tag)"
  using gl.run_keeps [OF assms, of tag] by simp

text \<open>
  C15. The simulator's double stands for the log. Holding the same records of an area and trusting
  the same keys, the in-memory store and the SQLite log given the same batch take the same
  records, count the same number as new, hold the same records afterwards and report the same
  vector. For the batches the two treat alike: no mail, roster or door records, sequences from 1 to
  the largest SQLite integer, and no two records of log and batch whose truncated hashes collide.
\<close>

theorem log_agrees_with_double:
  assumes "mem_ok c s" and "gl_ok c g" and "fmlookup (ms_areas s) area \<noteq> None" and "same_area s g area"
    and "no_mail area (gl_db g)" and "\<not> is_door_area area g"
    and "list_all plain recs" and "ids_name_coordinates (gl_db g) recs"
    and "mem_apply c s area recs = Some (n, err, s')" and "gl_apply c now g area recs = (m, err', g')"
  shows "m = n \<and> err = None \<and> err' = None \<and> same_area s' g' area \<and> mem_vector s' area = gl_vector g' area"
proof -
  obtain a where a: "fmlookup (ms_areas s) area = Some a" using assms(3) by blast
  obtain a1 rej k where fold: "fold (mem_admit c (ms_keys s) area) recs (a, ms_rejected s, 0) = (a1, rej, k)"
    by (metis prod_cases3)
  have "\<exists>v. n = k \<and> err = None \<and>
      s' = s\<lparr>ms_areas := fmupd area (a1\<lparr>al_vector := v\<rparr>) (ms_areas s), ms_rejected := rej\<rparr>"
    using assms(9) a fold by (auto simp: mem_apply_def Let_def split: if_splits intro: exI [of _ "al_vector a1"])
  then obtain v where n: "n = k" "err = None"
    and s': "s' = s\<lparr>ms_areas := fmupd area (a1\<lparr>al_vector := v\<rparr>) (ms_areas s), ms_rejected := rej\<rparr>" by blast
  have like: "like_log a g area" "like_keys (ms_keys s) g" using assms(4) same_area_iff [OF a] by simp_all
  have alike: "like_log a1 g' area" "like_keys (ms_keys s) g'" "m = k" "err' = None" "no_mail area (gl_db g')" "gl_ok c g'"
    using apply_alike [OF assms(2) like assms(6-8,5) fold] assms(10) by (simp_all add: gl_apply_def)
  have b: "fmlookup (ms_areas s') area = Some (a1\<lparr>al_vector := v\<rparr>)" by (simp add: s')
  have same: "same_area s' g' area"
    using alike(1,2) unfolding same_area_iff [OF b] by (simp add: like_log_def s')
  have "mem_ok c s'" using mem_apply_ok [OF assms(1), of area recs] assms(9) by auto
  then have "mem_vector s' area = gl_vector g' area" using same_area_vectors b same alike(5,6) by blast
  then show ?thesis using same alike(3,4) n by simp
qed

section \<open>A small log\<close>

definition toy_node :: roster_node where
  "toy_node = \<lparr>rn_id = node_key_id toy_crypto toy_key, rn_public_key = nk_public toy_key, rn_display_name = [],
     rn_sysop_contact = [], rn_incarnation = 0, rn_is_self = False, rn_first_seen = 1, rn_last_seen = 1\<rparr>"

definition toy_log :: gossip_log where
  "toy_log = new_gossip_log toy_crypto
     ((new_db [])\<lparr>db_nodes := fmupd (node_key_id toy_crypto toy_key) toy_node fmempty\<rparr>)"

lemma toy_log_sel:
  "gl_db toy_log = (new_db [])\<lparr>db_nodes := fmupd (node_key_id toy_crypto toy_key) toy_node fmempty\<rparr>"
  "gl_keys toy_log = fmempty" "gl_areas toy_log = []" "gl_door_areas toy_log = {||}"
  by (simp_all add: toy_log_def new_gossip_log_def refresh_def new_db_def)

lemma toy_log_ok: "gl_ok toy_crypto toy_log"
proof -
  have "node_id_matches (blake3 toy_crypto) (node_key_id toy_crypto toy_key) (nk_public toy_key)"
    by (simp add: node_id_matches_def node_key_id_def)
  then show ?thesis
    by (simp add: gl_ok_def toy_log_sel rows_ok_def roster_ok_def rows_authentic_def keys_ok_def new_db_def toy_node_def)
qed

theorem log_store_sound_witness:
  "gl_ok toy_crypto (snd (snd (gl_apply toy_crypto 9 toy_log zero_array [toy_rec 1, toy_rec 3])))"
  using log_store_sound [OF toy_log_ok] by (metis prod.collapse)

definition toy_log_env :: "(gossip_log, sent list) gossip_env" where
  "toy_log_env = log_store_env toy_crypto (\<lambda>_. 9) log_message log_records (\<lambda>_. toy_budget) None (\<lambda>_. 0)"

theorem engine_on_log_sound_witness:
  "\<exists>e. eg_store e = toy_log \<and> gl_ok toy_crypto (eg_store (snd (engine_tick toy_log_env 5 e)))"
proof -
  let ?e = "engine_new toy_log_env 0 (copy_array [1]) toy_log [] default_config 0"
  have store: "eg_store ?e = toy_log" by (simp add: engine_new_def split_beta Let_def)
  have "engine_run toy_log_env ?e (snd (engine_tick toy_log_env 5 ?e))"
    by (rule engine_run.more [OF engine_run.start engine_step.tick])
  then have "gl_ok toy_crypto (eg_store (snd (engine_tick toy_log_env 5 ?e)))"
    using engine_on_log_sound [of toy_crypto "\<lambda>_. 9" log_message log_records "\<lambda>_. toy_budget" None "\<lambda>_. 0"] store toy_log_ok
    unfolding toy_log_env_def by simp
  then show ?thesis using store by blast
qed

lemma toy_same: "same_area toy_store toy_log zero_array"
proof -
  have "mem_held toy_store zero_array o' q = None" for o' q
    by (simp add: mem_held_def toy_store_def trust_key_def new_store_def empty_log_def slots_def)
  moreover have "row_at (gl_db toy_log) zero_array o' q = None" for o' q
    by (simp add: row_at_def toy_log_sel new_db_def)
  moreover have "ms_keys toy_store = fmupd (node_key_id toy_crypto toy_key) (nk_public toy_key) fmempty"
    by (simp add: toy_store_def trust_key_def new_store_def)
  ultimately show ?thesis by (simp add: same_area_def toy_log_sel toy_node_def)
qed

theorem log_agrees_with_double_witness:
  "\<exists>n err s'. mem_apply toy_crypto toy_store zero_array [toy_rec 2, toy_rec 1] = Some (n, err, s') \<and>
     mem_vector s' zero_array = gl_vector (snd (snd (gl_apply toy_crypto 9 toy_log zero_array [toy_rec 2, toy_rec 1]))) zero_array"
proof -
  let ?recs = "[toy_rec 2, toy_rec 1]"
  have pl: "list_all plain ?recs" by code_simp
  have "r_id (toy_rec 2) \<noteq> r_id (toy_rec 1)" by code_simp
  then have ids: "ids_name_coordinates (gl_db toy_log) ?recs"
    by (simp add: ids_name_coordinates_def named_coordinates_def toy_log_sel new_db_def single_valued_def)
  obtain n err s' where ap: "mem_apply toy_crypto toy_store zero_array ?recs = Some (n, err, s')"
    using mem_apply_ok [OF toy_store_ok] by blast
  obtain m err' g' where gl: "gl_apply toy_crypto 9 toy_log zero_array ?recs = (m, err', g')" by (metis prod_cases3)
  have "no_mail zero_array (gl_db toy_log)" "\<not> is_door_area zero_array toy_log"
    by (simp_all add: no_mail_def toy_log_sel new_db_def is_door_area_def)
  from log_agrees_with_double [OF toy_store_ok toy_log_ok toy_store_area toy_same this pl ids ap gl]
  show ?thesis using ap gl by simp
qed

end
