(* ===== verification/CatchUp.thy ===== *)
theory CatchUp
  imports GossipLog
begin

text \<open>
  What one exchange between two boards achieves on their SQLite logs: the records one serves for
  the ranges the other lacks, applied there. \<open>Records\<close> serves at most one page per range, so the
  requester reaches the server's mark or one page further, per origin.
\<close>

section \<open>Pages\<close>

lemma ascending_index:
  "ascending (qs :: u64 list) \<Longrightarrow> \<forall>q \<in> set qs. lo \<le> unat q \<Longrightarrow> i < length qs \<Longrightarrow> lo + i \<le> unat (qs ! i)"
proof (induction i)
  case (Suc i)
  then have "qs ! i < qs ! Suc i" by (simp add: sorted_wrt_iff_nth_less)
  then show ?case using Suc by (simp add: word_less_nat_alt)
qed auto

definition range_rows :: "area_tag \<Rightarrow> vv_range \<Rightarrow> log_db \<Rightarrow> log_row list" where
  "range_rows area rg db = sort_key lr_seq
     (filter (\<lambda>x. lr_origin x = rg_origin rg \<and> rg_from rg \<le> lr_seq x \<and> lr_seq x \<le> rg_to rg) (served_rows area db))"

lemma range_rows_set:
  "x \<in> set (range_rows area rg db) \<longleftrightarrow> x \<in> set (served_rows area db) \<and> lr_origin x = rg_origin rg \<and>
     rg_from rg \<le> lr_seq x \<and> lr_seq x \<le> rg_to rg"
  by (auto simp: range_rows_def)

lemma range_rows_ascending:
  assumes "rows_ok db"
  shows "ascending (map lr_seq (range_rows area rg db))"
proof -
  have "distinct (range_rows area rg db)"
    using assms by (simp add: rows_ok_def served_rows_def distinct_map range_rows_def)
  moreover have "inj_on lr_seq (set (range_rows area rg db))"
    using served_coordinates [OF assms] by (auto simp: range_rows_set intro!: inj_onI)
  ultimately have "distinct (map lr_seq (range_rows area rg db))" by (simp add: distinct_map)
  moreover have "sorted (map lr_seq (range_rows area rg db))" by (simp add: range_rows_def)
  ultimately show ?thesis by (simp add: strict_sorted_iff)
qed

text \<open>A page holds every row of the range within the first 256 sequences.\<close>

lemma page_holds:
  assumes "rows_ok db" and "x \<in> set (range_rows area rg db)" and "unat (lr_seq x) < unat (rg_from rg) + maxRecordsPerRange"
  shows "x \<in> set (page_rows area rg db)"
proof -
  let ?rows = "range_rows area rg db"
  obtain i where i: "i < length ?rows" "?rows ! i = x" using assms(2) by (metis in_set_conv_nth)
  have "unat (rg_from rg) + i \<le> unat (map lr_seq ?rows ! i)"
    by (rule ascending_index [OF range_rows_ascending [OF assms(1)]])
      (use i range_rows_set in \<open>auto simp: word_le_nat_alt\<close>)
  then have "i < maxRecordsPerRange" using i assms(3) by simp
  then have "x \<in> set (take maxRecordsPerRange ?rows)" using i by (metis in_set_conv_nth length_take min_less_iff_conj nth_take)
  then show ?thesis by (simp add: page_rows_def range_rows_def)
qed

definition rows_wf :: "crypto \<Rightarrow> log_db \<Rightarrow> bool" where
  "rows_wf c db \<longleftrightarrow> (\<forall>x \<in> set (db_records db). \<exists>r now n. x = row_of r now n \<and> record_wf c r)"

lemma row_record_wf: "record_wf c r \<Longrightarrow> row_record c (row_of r now n) = Inr r"
  using rcc.dec_enc [of c r] by (simp add: row_record_def record_marshal_def)

lemma gl_records_set:
  "bindable (rg_from rg) \<Longrightarrow> bindable (rg_to rg) \<Longrightarrow>
   r \<in> set (gl_records c g area rg) \<longleftrightarrow> (\<exists>x \<in> set (page_rows area rg (gl_db g)). row_record c x = Inr r)"
  by (auto simp: gl_records_def split: sum.splits) force

lemma page_length: "length (gl_records c g area rg) \<le> maxRecordsPerRange"
proof -
  have "length (concat (map (\<lambda>x. case row_record c x of Inl _ \<Rightarrow> [] | Inr r \<Rightarrow> [r]) xs)) \<le> length xs" for xs
    by (induction xs) (auto split: sum.splits)
  then have "length (concat (map (\<lambda>x. case row_record c x of Inl _ \<Rightarrow> [] | Inr r \<Rightarrow> [r]) (page_rows area rg (gl_db g))))
      \<le> length (page_rows area rg (gl_db g))" .
  also have "\<dots> \<le> maxRecordsPerRange" by (simp add: page_rows_def)
  finally show ?thesis by (simp add: gl_records_def)
qed

text \<open>What a log serves for a range are rows of that area, origin and range, read back as the records they were.\<close>

lemma served_record:
  assumes "rows_wf c (gl_db g)" and "rows_authentic c (gl_db g)" and "r \<in> set (gl_records c g area rg)"
  obtains x where "x \<in> set (served_rows area (gl_db g))" and "row_record c x = Inr r"
    and "lr_origin x = rg_origin rg" and "rg_from rg \<le> lr_seq x" and "lr_seq x \<le> rg_to rg"
    and "lr_id x = r_id r" and "coordinate x = rec_coordinate r" and "lr_type x = r_type r"
proof -
  have "bindable (rg_from rg) \<and> bindable (rg_to rg)" using assms(3) by (auto simp: gl_records_def split: if_splits)
  then obtain x where x: "x \<in> set (page_rows area rg (gl_db g))" "row_record c x = Inr r"
    using assms(3) gl_records_set by blast
  have "x \<in> set (range_rows area rg (gl_db g))"
    using x(1) by (auto simp: page_rows_def range_rows_def dest: in_set_takeD)
  then have s: "x \<in> set (served_rows area (gl_db g))" "lr_origin x = rg_origin rg" "rg_from rg \<le> lr_seq x" "lr_seq x \<le> rg_to rg"
    by (simp_all add: range_rows_set)
  then obtain r' now n where "x = row_of r' now n" "record_wf c r'"
    using assms(1) by (auto simp: rows_wf_def served_rows_set)
  then have "x = row_of r now n" using x(2) row_record_wf by auto
  then show ?thesis using that [OF s(1) x(2) s(2-4)] by (simp add: coordinate_def rec_coordinate_def)
qed

section \<open>Records that Apply takes\<close>

definition vouched :: "crypto \<Rightarrow> log_db \<Rightarrow> rec \<Rightarrow> bool" where
  "vouched c db r \<longleftrightarrow>
     (if r_type r = TypeNode then \<exists>b. verify_node_record c r = Inr b
      else \<exists>n. fmlookup (db_nodes db) (r_origin r) = Some n \<and> record_verify c r (rn_public_key n) = Inr ())"

lemma vouched_mono: "log_grows g h \<Longrightarrow> vouched c (gl_db g) r \<Longrightarrow> vouched c (gl_db h) r"
  by (auto simp: vouched_def log_grows_def split: if_splits) metis

lemma authenticate_vouched:
  assumes "gl_ok c g" and "vouched c (gl_db g) r"
  shows "fst (authenticate c now r g)"
proof (cases "r_type r = TypeNode")
  case True
  then obtain b where b: "verify_node_record c r = Inr b" using assms(2) by (auto simp: vouched_def)
  then have "node_id_matches (blake3 c) (r_origin r) (nb_public_key b)"
    by (auto simp: verify_node_record_def split: if_splits sum.splits)
  then have "fst (put_node_from_record c now r (gl_db g)) = Inr ()"
    using b by (auto simp: put_node_from_record_def put_node_def Let_def split: option.splits)
  then show ?thesis using True b by (auto simp: authenticate_def split: prod.splits sum.splits)
next
  case False
  then obtain n where n: "fmlookup (db_nodes (gl_db g)) (r_origin r) = Some n" "record_verify c r (rn_public_key n) = Inr ()"
    using assms(2) by (auto simp: vouched_def)
  have "\<exists>g1. key_for c (r_origin r) g = (Inr (rn_public_key n), g1)"
  proof (cases "fmlookup (gl_keys g) (r_origin r)")
    case None
    have "node_id_matches (blake3 c) (r_origin r) (rn_public_key n)"
      using assms(1) n(1) by (simp add: gl_ok_def roster_ok_def)
    then show ?thesis using None n by (simp add: key_for_def get_node_def)
  next
    case (Some pub)
    then have "pub = rn_public_key n" using assms(1) n unfolding gl_ok_def keys_ok_def by fastforce
    then show ?thesis using Some by (simp add: key_for_def)
  qed
  then show ?thesis using False n by (auto simp: authenticate_def)
qed

definition takeable :: "crypto \<Rightarrow> gossip_log \<Rightarrow> area_tag \<Rightarrow> rec \<Rightarrow> bool" where
  "takeable c g area r \<longleftrightarrow> r_area r = area \<and> r_type r \<noteq> TypeDM \<and>
     ((r_type r = TypeDoorEvent) = is_door_area area g) \<and> bindable (r_seq r) \<and> vouched c (gl_db g) r"

lemma gl_admit_takes:
  assumes "gl_ok c g" and "takeable c g area r" and "ids_name_coordinates (gl_db g) (r # rs)"
    and "gl_admit c now area r g = (adm, h)"
  shows "(\<exists>b. adm = Stored b) \<or> adm = Refused" and "rec_coordinate r \<in> coordinate ` set (db_records (gl_db h))"
    and "ids_name_coordinates (gl_db h) rs"
proof -
  obtain ok g1 where au: "authenticate c now r g = (ok, g1)" by (cases "authenticate c now r g")
  then have ok: ok using authenticate_vouched [OF assms(1), of r now] assms(2) by (simp add: takeable_def)
  have g1: "db_records (gl_db g1) = db_records (gl_db g)" using authenticate_result [OF au assms(1)] by simp
  have st: "store_record now r g1 = (adm, h)"
    using assms(2,4) au ok by (auto simp: gl_admit_def takeable_def is_not_replicated_def notReplicated_def)
  have coord: "rec_coordinate r \<in> coordinate ` set (db_records (gl_db g))" if known: "r_id r \<in> lr_id ` set (db_records (gl_db g))"
  proof -
    obtain x where "x \<in> set (db_records (gl_db g))" "lr_id x = r_id r" using known by auto
    then show ?thesis using ids_name_new [OF assms(3)] by (metis image_eqI)
  qed
  have new: "coordinate (row_of r now n) = rec_coordinate r" for n by (simp add: coordinate_def rec_coordinate_def)
  show "(\<exists>b. adm = Stored b) \<or> adm = Refused" "rec_coordinate r \<in> coordinate ` set (db_records (gl_db h))"
    using st assms(2) coord new g1
    by (auto simp: store_record_def put_record_result Let_def takeable_def rec_coordinate_def split: if_splits)
  have "db_records (gl_db h) = db_records (gl_db g) \<or> db_records (gl_db h) = db_records (gl_db g) @ [row_of r now (db_local_seq (gl_db g) + 1)]"
    using gl_admit_rows [OF assms(1,4)] by blast
  then show "ids_name_coordinates (gl_db h) rs"
    using ids_name_stored [OF assms(3)] ids_name_tail [OF assms(3)]
    by (auto simp: ids_name_coordinates_def named_coordinates_def)
qed

lemma takeable_mono: "log_grows g h \<Longrightarrow> takeable c g area r \<Longrightarrow> takeable c h area r"
  by (auto simp: takeable_def is_door_area_def dest: vouched_mono) (simp_all add: log_grows_def)

lemma gl_apply_takes_more:
  "gl_ok c g \<Longrightarrow> list_all (takeable c g area) recs \<Longrightarrow> ids_name_coordinates (gl_db g) (recs @ rest) \<Longrightarrow>
   gl_apply_loop c now area recs k g = (n, err, h) \<Longrightarrow>
   err = None \<and> rec_coordinate ` set recs \<subseteq> coordinate ` set (db_records (gl_db h)) \<and> ids_name_coordinates (gl_db h) rest"
proof (induction recs arbitrary: g k)
  case (Cons r rs)
  obtain adm g1 where ad: "gl_admit c now area r g = (adm, g1)" by (cases "gl_admit c now area r g")
  have take: "takeable c g area r" using Cons.prems(2) by simp
  have ids: "ids_name_coordinates (gl_db g) (r # rs @ rest)" using Cons.prems(3) by simp
  note one = gl_admit_takes [OF Cons.prems(1) take ids ad] and keep = gl_admit_result [OF ad Cons.prems(1)]
  have tail: "list_all (takeable c g1 area) rs" using Cons.prems(2) keep takeable_mono by (auto simp: list_all_iff)
  obtain k1 where loop: "gl_apply_loop c now area rs k1 g1 = (n, err, h)"
    using Cons.prems(4) ad one(1) by (auto split: admission.splits)
  have "log_grows g1 h" using gl_apply_loop_result [of c g1 now area rs k1] keep loop by simp
  then have "coordinate ` set (db_records (gl_db g1)) \<subseteq> coordinate ` set (db_records (gl_db h))"
    by (auto simp: log_grows_def)
  then show ?case using Cons.IH [OF conjunct1 [OF keep] tail one(3) loop] one(2) by auto
qed simp

lemmas gl_apply_takes = gl_apply_takes_more [where rest = "[]", simplified]

section \<open>One exchange\<close>

text \<open>What board \<open>b\<close> serves board \<open>a\<close> of an area, given the vector \<open>a\<close> declared.\<close>

definition served_for :: "crypto \<Rightarrow> gossip_log \<Rightarrow> area_tag \<Rightarrow> vector \<Rightarrow> rec list" where
  "served_for c b area v = concat (map (gl_records c b area) (vv_missing v (gl_vector b area)))"

text \<open>Board \<open>a\<close> can check what \<open>b\<close> serves: it holds the keys and agrees on what the area carries.\<close>

definition can_check :: "crypto \<Rightarrow> gossip_log \<Rightarrow> gossip_log \<Rightarrow> area_tag \<Rightarrow> bool" where
  "can_check c a b area \<longleftrightarrow> (\<forall>x \<in> set (served_rows area (gl_db b)). \<forall>r. row_record c x = Inr r \<longrightarrow>
     vouched c (gl_db a) r \<and> ((r_type r = TypeDoorEvent) = is_door_area area a))"

definition no_collisions :: "log_db \<Rightarrow> log_db \<Rightarrow> bool" where
  "no_collisions d e \<longleftrightarrow> single_valued ((\<lambda>x. (lr_id x, coordinate x)) ` (set (db_records d) \<union> set (db_records e)))"

definition board_ok :: "crypto \<Rightarrow> gossip_log \<Rightarrow> bool" where
  "board_ok c g \<longleftrightarrow> gl_ok c g \<and> rows_wf c (gl_db g)"

lemma served_for_takeable:
  assumes "board_ok c b" and "can_check c a b area" and "no_collisions (gl_db a) (gl_db b)"
  shows "list_all (takeable c a area) (served_for c b area v)" and "ids_name_coordinates (gl_db a) (served_for c b area v)"
proof -
  have b: "rows_wf c (gl_db b)" "rows_authentic c (gl_db b)" "rows_ok (gl_db b)" using assms(1) by (simp_all add: board_ok_def gl_ok_def)
  have one: "takeable c a area r \<and> (\<exists>x \<in> set (db_records (gl_db b)). lr_id x = r_id r \<and> coordinate x = rec_coordinate r)"
    if "r \<in> set (served_for c b area v)" for r
  proof -
    obtain rg where "r \<in> set (gl_records c b area rg)" using \<open>r \<in> set (served_for c b area v)\<close> by (auto simp: served_for_def)
    then obtain x where x: "x \<in> set (served_rows area (gl_db b))" "row_record c x = Inr r"
      "lr_id x = r_id r" "coordinate x = rec_coordinate r" "lr_type x = r_type r"
      by (rule served_record [OF b(1,2)]) blast
    have "r_area r = area" "r_type r \<noteq> TypeDM" "bindable (r_seq r)"
      using x b(3) by (auto simp: served_rows_set coordinate_def rec_coordinate_def rows_ok_def)
    then have "takeable c a area r" using assms(2) x(1,2) by (simp add: takeable_def can_check_def)
    then show ?thesis using x by (auto simp: served_rows_set)
  qed
  then show "list_all (takeable c a area) (served_for c b area v)" by (auto simp: list_all_iff)
  have "named_coordinates (gl_db a) (served_for c b area v) \<subseteq>
      (\<lambda>x. (lr_id x, coordinate x)) ` (set (db_records (gl_db a)) \<union> set (db_records (gl_db b)))"
    unfolding named_coordinates_def
  proof (intro Un_least image_subsetI)
    fix r assume "r \<in> set (served_for c b area v)"
    then obtain x where "x \<in> set (db_records (gl_db b))" "lr_id x = r_id r" "coordinate x = rec_coordinate r" using one by blast
    then show "(r_id r, rec_coordinate r) \<in> (\<lambda>x. (lr_id x, coordinate x)) ` (set (db_records (gl_db a)) \<union> set (db_records (gl_db b)))"
      by (metis (no_types, lifting) UnI2 image_eqI)
  qed blast
  then show "ids_name_coordinates (gl_db a) (served_for c b area v)"
    using assms(3) unfolding no_collisions_def ids_name_coordinates_def by (blast intro: single_valued_subset)
qed

lemma coordinate_held:
  "no_mail area (gl_db h) \<Longrightarrow> (o', area, q) \<in> coordinate ` set (db_records (gl_db h)) \<Longrightarrow> gl_held h area o' q"
  using row_at_None gl_held_row_at by blast

text \<open>Once the served records have their coordinates filled, the marks are up.\<close>

lemma marks_reach:
  assumes "gl_ok c a" and "board_ok c b" and "gl_ok c h" and "log_grows a h" and "no_mail area (gl_db h)"
    and "rec_coordinate ` set (served_for c b area (gl_vector a area)) \<subseteq> coordinate ` set (db_records (gl_db h))"
  shows "min (unat (vv_get (gl_vector b area) o')) (unat (vv_get (gl_vector a area) o') + maxRecordsPerRange)
    \<le> unat (vv_get (gl_vector h area) o')"
proof -
  let ?m = "vv_get (gl_vector a area) o'" and ?t = "vv_get (gl_vector b area) o'" and ?u = "vv_get (gl_vector h area) o'"
  have ra: "rows_ok (gl_db a)" "rows_ok (gl_db b)" "rows_ok (gl_db h)" using assms(1-3) by (simp_all add: gl_ok_def board_ok_def)
  note ma = gl_vector_mark [OF ra(1), of area o'] and mb = gl_vector_mark [OF ra(2), of area o']
    and mh = gl_vector_mark [OF ra(3), of area o']
  have grow: "?m \<le> ?u" by (rule log_grows_mark [OF ra(1,3) assms(4)])
  have held: "gl_held h area o' q" if q: "?m < q" "q \<le> ?t" "unat q < unat (?m + 1) + maxRecordsPerRange" for q
  proof -
    let ?rg = "\<lparr>rg_origin = o', rg_from = ?m + 1, rg_to = ?t\<rparr>"
    have lt: "?m < ?t" using q by simp
    then have rg: "?rg \<in> set (vv_missing (gl_vector a area) (gl_vector b area))" by (simp add: vv_missing_member)
    have "?m + 1 \<le> ?t" using word_plus1_le [OF lt, of ?t] lt by simp
    then have bd: "bindable (?m + 1)" "bindable ?t" using mb by (auto simp: bindable_def intro: le_less_trans)
    have "0 < q" using q(1) by (auto intro: le_less_trans)
    then obtain x where x: "x \<in> set (served_rows area (gl_db b))" "lr_origin x = o'" "lr_seq x = q"
      using mb q(2) by (auto simp: run_of_def gl_held_def)
    have "x \<in> set (range_rows area ?rg (gl_db b))"
      using x q word_plus1_le [OF lt, of q] by (simp add: range_rows_set)
    then have page: "x \<in> set (page_rows area ?rg (gl_db b))" by (rule page_holds [OF ra(2)]) (use x(3) q(3) in simp)
    obtain r n k where r: "x = row_of r n k" "record_wf c r"
      using assms(2) x(1) by (auto simp: board_ok_def rows_wf_def served_rows_set)
    have "r \<in> set (gl_records c b area ?rg)" using page r row_record_wf [OF r(2), of n k] bd by (auto simp: gl_records_set)
    then have "r \<in> set (served_for c b area (gl_vector a area))" using rg by (force simp: served_for_def)
    then have "rec_coordinate r \<in> coordinate ` set (db_records (gl_db h))" using assms(6) by blast
    moreover have "rec_coordinate r = (o', area, q)" using x r by (auto simp: served_rows_set rec_coordinate_def)
    ultimately show ?thesis using coordinate_held [OF assms(5)] by simp
  qed
  show ?thesis
  proof (rule ccontr)
    assume "\<not> ?thesis"
    then have low: "unat ?u < unat ?t" "unat ?u < unat ?m + maxRecordsPerRange" by simp_all
    have u1: "unat (?u + 1) = unat ?u + 1"
      using bindable_plus1 [of ?u] mh unat_u64_less [of ?u] by (auto simp: bindable_def word_less_nat_alt unat_word_ariths)
    have m1: "unat (?m + 1) = unat ?m + 1"
      using ma unat_u64_less [of ?m] by (auto simp: bindable_def word_less_nat_alt unat_word_ariths)
    have "gl_held h area o' (?u + 1)"
      by (rule held) (use low u1 m1 grow in \<open>simp_all add: word_less_nat_alt word_le_nat_alt\<close>)
    then show False using mh by (simp add: run_of_def)
  qed
qed

lemma gl_apply_no_mail: "gl_ok c g \<Longrightarrow> no_mail area (gl_db g) \<Longrightarrow> gl_apply_loop c now a recs k g = (n, err, h) \<Longrightarrow> no_mail area (gl_db h)"
proof (induction recs arbitrary: g k)
  case (Cons r rs)
  obtain adm g1 where ad: "gl_admit c now a r g = (adm, g1)" by (cases "gl_admit c now a r g")
  then show ?case
    using Cons gl_admit_result [OF ad Cons.prems(1)] gl_admit_no_mail [OF Cons.prems(1) ad Cons.prems(2)]
    by (auto split: admission.splits)
qed simp

text \<open>
  C14. A board catches up. When board \<open>a\<close> applies what board \<open>b\<close> serves for the ranges \<open>a\<close> is missing,
  \<open>a\<close>'s mark of every origin reaches \<open>b\<close>'s or moves on by a page of 256 records, whichever is less,
  so finitely many exchanges close any gap. For boards with sound logs that agree on what the
  area carries, where \<open>a\<close> holds the keys of the origins and no truncated IDs collide.
\<close>

theorem board_catches_up:
  assumes "gl_ok c a" and "board_ok c b" and "no_mail area (gl_db a)" and "can_check c a b area"
    and "no_collisions (gl_db a) (gl_db b)"
    and "gl_apply c now a area (served_for c b area (gl_vector a area)) = (n, err, a')"
  shows "err = None \<and> gl_ok c a' \<and>
    min (unat (vv_get (gl_vector b area) origin)) (unat (vv_get (gl_vector a area) origin) + maxRecordsPerRange)
      \<le> unat (vv_get (gl_vector a' area) origin)"
proof -
  note t = served_for_takeable [OF assms(2,4,5), of "gl_vector a area"]
  have loop: "gl_apply_loop c now area (served_for c b area (gl_vector a area)) 0 a = (n, err, a')"
    using assms(6) by (simp add: gl_apply_def)
  have "gl_ok c a'" "log_grows a a'" using gl_apply_loop_result [OF assms(1), of now area "served_for c b area (gl_vector a area)" 0] loop by simp_all
  then show ?thesis
    using gl_apply_takes [OF assms(1) t loop] gl_apply_no_mail [OF assms(1,3) loop] marks_reach [OF assms(1,2)] by blast
qed


lemma gl_apply_rows:
  "gl_ok c g \<Longrightarrow> gl_apply_loop c now area recs k g = (n, err, h) \<Longrightarrow>
   \<exists>xs. db_records (gl_db h) = db_records (gl_db g) @ xs \<and> (\<forall>x \<in> set xs. \<exists>r \<in> set recs. \<exists>m. x = row_of r now m)"
proof (induction recs arbitrary: g k)
  case (Cons r rs)
  obtain adm g1 where ad: "gl_admit c now area r g = (adm, g1)" by (cases "gl_admit c now area r g")
  have one: "\<exists>ys. db_records (gl_db g1) = db_records (gl_db g) @ ys \<and> (\<forall>x \<in> set ys. \<exists>m. x = row_of r now m)"
    using gl_admit_rows [OF Cons.prems(1) ad] by auto
  show ?case
  proof (cases adm)
    case (Failed e)
    then show ?thesis using Cons.prems(2) ad one by auto
  next
    case Refused
    then have "gl_apply_loop c now area rs k g1 = (n, err, h)" using Cons.prems(2) ad by simp
    then show ?thesis using Cons.IH gl_admit_result [OF ad Cons.prems(1)] one by fastforce
  next
    case (Stored b)
    then obtain k1 where "gl_apply_loop c now area rs k1 g1 = (n, err, h)" using Cons.prems(2) ad by auto
    then show ?thesis using Cons.IH gl_admit_result [OF ad Cons.prems(1)] one by fastforce
  qed
qed simp

lemma board_ok_apply:
  assumes "board_ok c g" and "list_all (record_wf c) recs" and "gl_apply c now g area recs = (n, err, h)"
  shows "board_ok c h"
proof -
  obtain xs where "db_records (gl_db h) = db_records (gl_db g) @ xs" "\<forall>x \<in> set xs. \<exists>r \<in> set recs. \<exists>m. x = row_of r now m"
    using gl_apply_rows assms(1,3) unfolding gl_apply_def board_ok_def by blast
  moreover have "gl_ok c h" using gl_apply_ok [of c g now area recs] assms(1,3) by (simp add: board_ok_def)
  ultimately show ?thesis using assms(1,2) unfolding board_ok_def rows_wf_def list_all_iff by fastforce
qed

section \<open>A small board\<close>

definition toy_board :: gossip_log where
  "toy_board = snd (snd (gl_apply toy_crypto 9 toy_log zero_array [toy_rec 1, toy_rec 2]))"

lemma toy_rec_wf: "record_wf toy_crypto (toy_rec 1)" "record_wf toy_crypto (toy_rec 2)"
proof -
  have "record_new toy_crypto toy_key (toy_post\<lparr>r_seq := n\<rparr>) = Inr (toy_rec n)" if "n \<in> {1, 2}" for n
    using that by (elim insertE emptyE) (simp_all only:, code_simp+)
  then show "record_wf toy_crypto (toy_rec 1)" "record_wf toy_crypto (toy_rec 2)"
    using record_new_wf by blast+
qed

lemma toy_log_board: "board_ok toy_crypto toy_log"
  by (simp add: board_ok_def toy_log_ok rows_wf_def toy_log_sel new_db_def)

lemma toy_board_applied: "\<exists>n err. gl_apply toy_crypto 9 toy_log zero_array [toy_rec 1, toy_rec 2] = (n, err, toy_board)"
  by (metis toy_board_def prod.collapse)

lemma toy_board_ok: "board_ok toy_crypto toy_board"
proof -
  obtain n err where "gl_apply toy_crypto 9 toy_log zero_array [toy_rec 1, toy_rec 2] = (n, err, toy_board)"
    using toy_board_applied by blast
  from board_ok_apply [OF toy_log_board _ this] show ?thesis using toy_rec_wf by simp
qed

lemma toy_board_rows: "x \<in> set (db_records (gl_db toy_board)) \<Longrightarrow> \<exists>r \<in> {toy_rec 1, toy_rec 2}. \<exists>m. x = row_of r 9 m"
proof -
  have "db_records (gl_db toy_log) = []" by (simp add: toy_log_sel new_db_def)
  then show "x \<in> set (db_records (gl_db toy_board)) \<Longrightarrow> \<exists>r \<in> {toy_rec 1, toy_rec 2}. \<exists>m. x = row_of r 9 m"
    using gl_apply_rows [OF toy_log_ok] toy_board_applied unfolding gl_apply_def by fastforce
qed

lemma toy_can_check: "can_check toy_crypto toy_log toy_board zero_array"
proof -
  have "vouched toy_crypto (gl_db toy_log) r \<and> ((r_type r = TypeDoorEvent) = is_door_area zero_array toy_log)"
    if "r \<in> {toy_rec 1, toy_rec 2}" for r
  proof -
    have "r_type r \<noteq> TypeNode \<and> r_type r \<noteq> TypeDoorEvent \<and> r_origin r = node_key_id toy_crypto toy_key \<and>
        record_verify toy_crypto r (nk_public toy_key) = Inr ()"
      using that by (elim insertE emptyE) (simp_all only:, code_simp+)
    then show ?thesis by (simp add: vouched_def toy_log_sel toy_node_def is_door_area_def)
  qed
  moreover have "row_record toy_crypto x = Inr r \<Longrightarrow> r \<in> {toy_rec 1, toy_rec 2}" if "x \<in> set (served_rows zero_array (gl_db toy_board))" for x r
  proof -
    have "x \<in> set (db_records (gl_db toy_board))" using that by (simp add: served_rows_set)
    then obtain r' m where "r' \<in> {toy_rec 1, toy_rec 2}" "x = row_of r' 9 m" using toy_board_rows by blast
    then show "row_record toy_crypto x = Inr r \<Longrightarrow> r \<in> {toy_rec 1, toy_rec 2}" using row_record_wf toy_rec_wf by auto
  qed
  ultimately show ?thesis unfolding can_check_def by blast
qed

lemma toy_ids_differ: "r_id (toy_rec 1) \<noteq> r_id (toy_rec 2)"
  by code_simp

lemma toy_no_collisions: "no_collisions (gl_db toy_log) (gl_db toy_board)"
proof -
  let ?name = "\<lambda>r. (r_id r, rec_coordinate r)"
  have "(lr_id x, coordinate x) \<in> ?name ` {toy_rec 1, toy_rec 2}" if x: "x \<in> set (db_records (gl_db toy_board))" for x
  proof -
    obtain r m where r: "r \<in> {toy_rec 1, toy_rec 2}" "x = row_of r 9 m" using toy_board_rows [OF x] by blast
    then have "(lr_id x, coordinate x) = ?name r" by (simp add: coordinate_def rec_coordinate_def)
    then show ?thesis using r(1) by blast
  qed
  moreover have "db_records (gl_db toy_log) = []" by (simp add: toy_log_sel new_db_def)
  ultimately have sub: "(\<lambda>x. (lr_id x, coordinate x)) ` (set (db_records (gl_db toy_log)) \<union> set (db_records (gl_db toy_board)))
      \<subseteq> ?name ` {toy_rec 1, toy_rec 2}" by (intro image_subsetI) simp
  have "single_valued (?name ` {toy_rec 1, toy_rec 2})"
    using toy_ids_differ by (simp add: single_valued_def)
  then show ?thesis unfolding no_collisions_def using sub single_valued_subset by blast
qed

theorem board_catches_up_witness:
  "\<exists>n a'. gl_apply toy_crypto 9 toy_log zero_array (served_for toy_crypto toy_board zero_array (gl_vector toy_log zero_array)) = (n, None, a') \<and>
     min (unat (vv_get (gl_vector toy_board zero_array) (node_key_id toy_crypto toy_key)))
         (unat (vv_get (gl_vector toy_log zero_array) (node_key_id toy_crypto toy_key)) + maxRecordsPerRange)
       \<le> unat (vv_get (gl_vector a' zero_array) (node_key_id toy_crypto toy_key))"
proof -
  obtain n err a' where ap: "gl_apply toy_crypto 9 toy_log zero_array
      (served_for toy_crypto toy_board zero_array (gl_vector toy_log zero_array)) = (n, err, a')" by (metis prod_cases3)
  have "no_mail zero_array (gl_db toy_log)" by (simp add: no_mail_def toy_log_sel new_db_def)
  from board_catches_up [OF toy_log_ok toy_board_ok this toy_can_check toy_no_collisions ap]
  show ?thesis using ap by blast
qed

section \<open>Old NODE records\<close>

text \<open>
  C38. A replayed NODE record rewrites the roster. \<open>Apply\<close> updates the roster before it looks whether
  the record is already held and without comparing ages: applying again a NODE record the log
  holds stores nothing, yet sets display name and contact back to those of that record and
  dates the node as just seen, however many newer NODE records of the node the log holds.
\<close>

theorem old_node_record_rewrites_roster:
  assumes "verify_node_record c r = Inr b" and "has_record (r_id r) (gl_db g)" and "r_area r = area" and "\<not> is_door_area area g"
    and "fmlookup (db_nodes (gl_db g)) (r_origin r) = Some old" and "now \<noteq> 0" and "gl_apply c now g area [r] = (n, err, h)"
  shows "n = 0 \<and> err = None \<and> db_records (gl_db h) = db_records (gl_db g) \<and>
    (\<exists>m. fmlookup (db_nodes (gl_db h)) (r_origin r) = Some m \<and> rn_display_name m = nb_display_name b \<and>
       rn_sysop_contact m = nb_sysop_contact b \<and> rn_last_seen m = now)"
proof -
  have t: "r_type r = TypeNode" "node_id_matches (blake3 c) (r_origin r) (nb_public_key b)"
    using assms(1) by (auto simp: verify_node_record_def split: if_splits sum.splits)
  obtain db where put: "put_node_from_record c now r (gl_db g) = (Inr (), db)"
    and m: "fmlookup (db_nodes db) (r_origin r) = Some (old\<lparr>rn_display_name := nb_display_name b, rn_sysop_contact := nb_sysop_contact b,
      rn_incarnation := max (rn_incarnation old) (nb_incarnation b), rn_last_seen := now\<rparr>)"
    using assms(1,5,6) t by (simp add: put_node_from_record_def put_node_def Let_def)
  have rows: "db_records db = db_records (gl_db g)"
    using put_node_from_record_db(1) [of c now r "gl_db g"] put by simp
  have "gl_admit c now area r g = (Stored False, forget_key (r_origin r) (g\<lparr>gl_db := db\<rparr>))"
    using assms(1-4) t(1) put rows
    by (simp add: gl_admit_def authenticate_def is_not_replicated_def notReplicated_def type_consts store_record_def
        forget_key_def put_record_result has_record_iff Let_def)
  then have "n = 0 \<and> err = None \<and> h = forget_key (r_origin r) (g\<lparr>gl_db := db\<rparr>)"
    using assms(7) by (simp add: gl_apply_def)
  then show ?thesis using m rows by (simp add: forget_key_def)
qed

definition toy_node_record :: rec where
  "toy_node_record =
     (case record_new toy_crypto toy_key (blank_record (node_key_id toy_crypto toy_key) 1 3 TypeNode zero_array
             (replicate 32 5 @ [0, 0, 0, 0, 0, 0])) of
        Inr r \<Rightarrow> r | Inl _ \<Rightarrow> toy_post)"

text \<open>A log that holds that record, with the name a newer one gave the node.\<close>

definition toy_renamed :: gossip_log where
  "toy_renamed = toy_log\<lparr>gl_db := (gl_db toy_log)\<lparr>db_records := [row_of toy_node_record 9 1], db_local_seq := 1,
     db_nodes := fmupd (node_key_id toy_crypto toy_key) (toy_node\<lparr>rn_display_name := [98]\<rparr>) fmempty\<rparr>\<rparr>"

lemma toy_node_record_sel:
  "r_origin toy_node_record = node_key_id toy_crypto toy_key" "r_area toy_node_record = zero_array"
  "r_type toy_node_record = TypeNode" "r_body toy_node_record = replicate 32 5 @ [0, 0, 0, 0, 0, 0]"
  "record_verify toy_crypto toy_node_record (replicate 32 5) = Inr ()"
  by code_simp+

lemma toy_node_record_verified:
  "verify_node_record toy_crypto toy_node_record =
     Inr \<lparr>nb_public_key = replicate 32 5, nb_display_name = [], nb_sysop_contact = [], nb_incarnation = 0\<rparr>"
proof -
  have "unmarshal_node_body (replicate 32 5 @ [0, 0, 0, 0, 0, 0]) =
      Inr \<lparr>nb_public_key = replicate 32 5, nb_display_name = [], nb_sysop_contact = [], nb_incarnation = 0\<rparr>"
    by (rule nbc.unmar_mar) (simp add: marshal_node_body_def check_label_def put_u32_def PublicKeySize_def)
  moreover have "node_id_matches (blake3 toy_crypto) (node_key_id toy_crypto toy_key) (replicate 32 5)" by code_simp
  ultimately show ?thesis by (simp add: verify_node_record_def toy_node_record_sel)
qed

theorem old_node_record_rewrites_roster_witness:
  "map_option rn_display_name (fmlookup (db_nodes (gl_db toy_renamed)) (node_key_id toy_crypto toy_key)) = Some [98] \<and>
   map_option rn_display_name (fmlookup (db_nodes (gl_db (snd (snd (gl_apply toy_crypto 11 toy_renamed zero_array [toy_node_record])))))
     (node_key_id toy_crypto toy_key)) = Some []"
proof
  let ?r = toy_node_record
  show before: "map_option rn_display_name (fmlookup (db_nodes (gl_db toy_renamed)) (node_key_id toy_crypto toy_key)) = Some [98]"
    by (simp add: toy_renamed_def)
  have facts: "has_record (r_id ?r) (gl_db toy_renamed)" "\<not> is_door_area zero_array toy_renamed"
    by (simp_all add: toy_renamed_def has_record_iff is_door_area_def toy_log_sel)
  obtain old where old: "fmlookup (db_nodes (gl_db toy_renamed)) (r_origin ?r) = Some old"
    by (simp add: toy_renamed_def toy_node_record_sel)
  obtain n err h where ap: "gl_apply toy_crypto 11 toy_renamed zero_array [?r] = (n, err, h)" by (metis prod_cases3)
  from old_node_record_rewrites_roster [OF toy_node_record_verified facts(1) toy_node_record_sel(2) facts(2) old _ ap]
  show "map_option rn_display_name (fmlookup (db_nodes (gl_db (snd (snd (gl_apply toy_crypto 11 toy_renamed zero_array [?r])))))
     (node_key_id toy_crypto toy_key)) = Some []"
    unfolding ap toy_node_record_sel(1) [symmetric] by auto
qed

end
