(* ===== verification/Carrier.thy ===== *)
theory Carrier
  imports VersionVector InsertionSort
begin

text \<open>
  The hand-off file of \<open>internal/sneakernet\<close>: the manifest (\<open>carrier.go\<close>), the blob store of
  \<open>internal/blobstore\<close> it fills, and the stream of manifest and file bodies (\<open>stream.go\<close>). Shown:
  the manifest has one wire form, which is found again in front of whatever follows it; a
  written file is read back with exactly its bodies stored whenever the whole file is within
  the bound meant for the manifest, and is refused otherwise; nothing is ever stored under a
  hash that is not its own.

  The directory of the blob store is a finite map from hash to content; I/O errors of the file
  system are left out, so every call succeeds unless the code's own conditions refuse.
\<close>

section \<open>The manifest\<close>

definition CarrierMagic :: bytes where "CarrierMagic = [0x4D, 0x42, 0x58, 0x46]"
definition CarrierVersion :: u8 where "CarrierVersion = 3"
definition MaxBundles :: nat where "MaxBundles = 1024"
definition MaxVectors :: nat where "MaxVectors = 256"
definition MaxBlobRefs :: nat where "MaxBlobRefs = 256"
definition MaxRequests :: nat where "MaxRequests = MaxBlobRefs"
definition MaxBlobBytes :: u64 where "MaxBlobBytes = push_bit 20 256"
definition MaxCarrierBytes :: nat where "MaxCarrierBytes = 64 * 2 ^ 20"

lemmas carrier_consts = CarrierMagic_def CarrierVersion_def MaxBundles_def MaxVectors_def MaxBlobRefs_def
  MaxRequests_def MaxBlobBytes_def MaxCarrierBytes_def

type_synonym blob_hash = "32 barray"
type_synonym wire_hash = "16 barray"
type_synonym area = "4 barray"

record blob_ref =
  br_hash :: blob_hash
  br_size :: u64

record carrier =
  ca_origin :: node_id
  ca_created_at :: u32
  ca_min_dictionary :: u8
  ca_vectors :: "(area, vector) fmap"
  ca_bundles :: "bytes list"
  ca_blobs :: "blob_ref list"
  ca_requests :: "wire_hash list"

datatype carrier_error =
    CNotACarrier
  | CTruncated
  | CTooMany u64
  | CTooLarge nat
  | CNotCanonical
  | CEmptyBundle
  | CNoHash
  | CBlobSize u64
  | CVector vv_error
  | CReencode carrier_error

definition sort_areas :: "area list \<Rightarrow> area list" where
  "sort_areas as = insertion_sort (\<lambda>a. a) as"

definition encode_vector_entry :: "carrier \<Rightarrow> area \<Rightarrow> bytes" where
  "encode_vector_entry c a =
     (let enc = vv_encode (the (fmlookup (ca_vectors c) a))
      in array_bytes a @ append_uvarint (of_nat (length enc)) @ enc)"

definition encode_bundle_entry :: "bytes \<Rightarrow> carrier_error + bytes" where
  "encode_bundle_entry b =
     (if length b = 0 then Inl CEmptyBundle else Inr (append_uvarint (of_nat (length b)) @ b))"

definition encode_blob_entry :: "blob_ref \<Rightarrow> carrier_error + bytes" where
  "encode_blob_entry b =
     (if br_hash b = zero_array then Inl CNoHash
      else if br_size b > MaxBlobBytes then Inl (CBlobSize (br_size b))
      else Inr (array_bytes (br_hash b) @ append_uvarint (br_size b)))"

fun encode_requests :: "wire_hash list \<Rightarrow> wire_hash list \<Rightarrow> carrier_error + bytes" where
  "encode_requests seen [] = Inr []"
| "encode_requests seen (h # hs) =
     (if h = zero_array then Inl CNoHash
      else if h \<in> set seen then Inl CNotCanonical
      else res_bind (encode_requests (h # seen) hs) (\<lambda>b. Inr (array_bytes h @ b)))"

text \<open>A loop that appends one entry after the other and stops at the first error.\<close>

fun encode_each :: "('a \<Rightarrow> 'e + bytes) \<Rightarrow> 'a list \<Rightarrow> 'e + bytes" where
  "encode_each f [] = Inr []"
| "encode_each f (x # xs) = res_bind (f x) (\<lambda>b. res_bind (encode_each f xs) (\<lambda>bs. Inr (b @ bs)))"

text \<open>\<open>keys\<close> is the order in which the loop over the map of vectors visits the areas.\<close>

definition carrier_encode_from :: "area list \<Rightarrow> carrier \<Rightarrow> carrier_error + bytes" where
  "carrier_encode_from keys c =
     (if fcard (fmdom (ca_vectors c)) > MaxVectors then Inl (CTooMany (of_nat (fcard (fmdom (ca_vectors c)))))
      else if length (ca_bundles c) > MaxBundles then Inl (CTooMany (of_nat (length (ca_bundles c))))
      else if length (ca_blobs c) > MaxBlobRefs then Inl (CTooMany (of_nat (length (ca_blobs c))))
      else if length (ca_requests c) > MaxRequests then Inl (CTooMany (of_nat (length (ca_requests c))))
      else let areas = sort_areas keys
        in res_bind (encode_each encode_bundle_entry (ca_bundles c)) (\<lambda>bundles.
           res_bind (encode_each encode_blob_entry (ca_blobs c)) (\<lambda>blobs.
           res_bind (encode_requests [] (ca_requests c)) (\<lambda>requests.
           let buf = CarrierMagic @ [CarrierVersion] @ array_bytes (ca_origin c) @ put_u32 (ca_created_at c) @
                 [ca_min_dictionary c] @ append_uvarint (of_nat (length areas)) @
                 concat (map (encode_vector_entry c) areas) @
                 append_uvarint (of_nat (length (ca_bundles c))) @ bundles @
                 append_uvarint (of_nat (length (ca_blobs c))) @ blobs @
                 append_uvarint (of_nat (length (ca_requests c))) @ requests
           in if length buf > MaxCarrierBytes then Inl (CTooLarge (length buf)) else Inr buf))))"

definition carrier_encode :: "carrier \<Rightarrow> carrier_error + bytes" where
  "carrier_encode c = carrier_encode_from (map fst (fmap_items (ca_vectors c))) c"

section \<open>Parsing\<close>

text \<open>The closures \<open>take\<close> and \<open>uvarint\<close> of \<open>decode\<close>: the value and what is left of the input.\<close>

definition ca_take :: "nat \<Rightarrow> bytes \<Rightarrow> carrier_error + bytes \<times> bytes" where
  "ca_take n rest = (if length rest < n then Inl CTruncated else Inr (take n rest, drop n rest))"

definition ca_uvarint :: "bytes \<Rightarrow> carrier_error + u64 \<times> bytes" where
  "ca_uvarint rest = (let (v, n) = uvarint rest in if n \<le> 0 then Inl CTruncated else Inr (v, drop (nat n) rest))"

definition decode_vector_entry :: "(area, vector) fmap \<Rightarrow> bytes \<Rightarrow> carrier_error + (area, vector) fmap \<times> bytes" where
  "decode_vector_entry m rest =
     res_bind (ca_take 4 rest) (\<lambda>(tag, rest).
     res_bind (ca_uvarint rest) (\<lambda>(n, rest).
     if unat n > length rest then Inl CTruncated
     else res_bind (ca_take (unat n) rest) (\<lambda>(body, rest).
       case vv_decode body of
         Inl e \<Rightarrow> Inl (CVector e)
       | Inr vec \<Rightarrow>
           let a = copy_array tag
           in if fmlookup m a \<noteq> None then Inl CNotCanonical else Inr (fmupd a vec m, rest))))"

definition decode_bundle_entry :: "bytes list \<Rightarrow> bytes \<Rightarrow> carrier_error + bytes list \<times> bytes" where
  "decode_bundle_entry out rest =
     res_bind (ca_uvarint rest) (\<lambda>(n, rest).
     if n = 0 then Inl CEmptyBundle
     else if unat n > length rest then Inl CTruncated
     else res_bind (ca_take (unat n) rest) (\<lambda>(body, rest). Inr (out @ [body], rest)))"

definition decode_blob_entry :: "blob_ref list \<Rightarrow> bytes \<Rightarrow> carrier_error + blob_ref list \<times> bytes" where
  "decode_blob_entry out rest =
     res_bind (ca_take 32 rest) (\<lambda>(h, rest).
     res_bind (ca_uvarint rest) (\<lambda>(size, rest).
     if size > MaxBlobBytes then Inl (CBlobSize size)
     else if copy_array h = (zero_array :: blob_hash) then Inl CNoHash
     else Inr (out @ [\<lparr>br_hash = copy_array h, br_size = size\<rparr>], rest)))"

definition decode_request_entry :: "wire_hash list \<Rightarrow> bytes \<Rightarrow> carrier_error + wire_hash list \<times> bytes" where
  "decode_request_entry out rest =
     res_bind (ca_take 16 rest) (\<lambda>(h, rest).
     let want = copy_array h
     in if want = zero_array then Inl CNoHash else Inr (out @ [want], rest))"

fun decode_each :: "('s \<Rightarrow> bytes \<Rightarrow> 'e + 's \<times> bytes) \<Rightarrow> nat \<Rightarrow> 's \<Rightarrow> bytes \<Rightarrow> 'e + 's \<times> bytes" where
  "decode_each f 0 out rest = Inr (out, rest)"
| "decode_each f (Suc n) out rest = res_bind (f out rest) (\<lambda>(out, rest). decode_each f n out rest)"

text \<open>A section of the manifest: its count, bounded, and that many entries.\<close>

definition decode_section ::
  "nat \<Rightarrow> ('s \<Rightarrow> bytes \<Rightarrow> carrier_error + 's \<times> bytes) \<Rightarrow> 's \<Rightarrow> bytes \<Rightarrow> carrier_error + 's \<times> bytes" where
  "decode_section limit f out rest =
     res_bind (ca_uvarint rest) (\<lambda>(n, rest).
     if n > of_nat limit then Inl (CTooMany n) else decode_each f (unat n) out rest)"

definition carrier_decode_at :: "bytes \<Rightarrow> bool \<Rightarrow> carrier_error + carrier \<times> nat" where
  "carrier_decode_at data allowTrailing =
     (if length data > MaxCarrierBytes then Inl (CTooLarge (length data))
      else case ca_take 4 data of
        Inl _ \<Rightarrow> Inl CNotACarrier
      | Inr (magic, rest) \<Rightarrow>
          if magic \<noteq> CarrierMagic then Inl CNotACarrier
          else res_bind (ca_take 1 rest) (\<lambda>(version, rest).
            if version ! 0 \<noteq> CarrierVersion then Inl CNotACarrier
            else res_bind (ca_take 8 rest) (\<lambda>(origin, rest).
              res_bind (ca_take 4 rest) (\<lambda>(created, rest).
              res_bind (ca_take 1 rest) (\<lambda>(minDict, rest).
              res_bind (decode_section MaxVectors decode_vector_entry fmempty rest) (\<lambda>(vectors, rest).
              res_bind (decode_section MaxBundles decode_bundle_entry [] rest) (\<lambda>(bundles, rest).
              res_bind (decode_section MaxBlobRefs decode_blob_entry [] rest) (\<lambda>(blobs, rest).
              res_bind (decode_section MaxRequests decode_request_entry [] rest) (\<lambda>(requests, rest).
              let c = \<lparr>ca_origin = copy_array origin, ca_created_at = get_u32 created,
                    ca_min_dictionary = minDict ! 0, ca_vectors = vectors, ca_bundles = bundles,
                    ca_blobs = blobs, ca_requests = requests\<rparr>;
                  consumed = length data - length rest
              in if length rest \<noteq> 0 \<and> \<not> allowTrailing then Inl CNotCanonical
                 else case carrier_encode c of
                   Inl e \<Rightarrow> Inl (CReencode e)
                 | Inr reencoded \<Rightarrow>
                     if reencoded \<noteq> take consumed data then Inl CNotCanonical else Inr (c, consumed))))))))))"

definition carrier_decode :: "bytes \<Rightarrow> carrier_error + carrier" where
  "carrier_decode data = res_bind (carrier_decode_at data False) (\<lambda>(c, _). Inr c)"

section \<open>Reading back what was written\<close>

lemma sort_areas_any_order:
  assumes "distinct keys" and "set keys = fset (fmdom m)"
  shows "sort_areas keys = map fst (fmap_items m)"
proof (rule ascending_unique)
  show "ascending (sort_areas keys)"
    using assms(1) by (simp add: sort_areas_def insertion_sort_eq strict_sorted_iff)
qed (use assms in \<open>simp_all add: sort_areas_def insertion_sort_eq\<close>)

lemma sort_areas_items [simp]: "sort_areas (sorted_list_of_fset (fmdom m)) = sorted_list_of_fset (fmdom m)"
  using sort_areas_any_order [OF distinct_fmap_items, of m m] by simp

lemma ca_take_append [simp]: "length xs = n \<Longrightarrow> ca_take n (xs @ rest) = Inr (xs, rest)"
  by (simp add: ca_take_def)

lemma ca_uvarint_append [simp]: "ca_uvarint (append_uvarint v @ rest) = Inr (v, rest)"
  by (simp add: ca_uvarint_def)

lemma ca_take_sound: "ca_take n b = Inr (x, r) \<Longrightarrow> b = x @ r \<and> length x = n"
  by (auto simp: ca_take_def split: if_splits)

lemma ca_uvarint_sound: "ca_uvarint b = Inr (v, r) \<Longrightarrow> \<exists>k. r = drop k b"
  by (auto simp: ca_uvarint_def split: prod.splits if_splits)

text \<open>A section is read back entry by entry; \<open>P\<close> is what the entries still to come need.\<close>

lemma decode_each_written:
  assumes "\<And>out x ys rest. P out (x # ys) \<Longrightarrow> f out (e x @ rest) = Inr (g out x, rest) \<and> P (g out x) ys"
    and "P out xs"
  shows "decode_each f (length xs) out (concat (map e xs) @ rest) = Inr (foldl g out xs, rest)"
  using assms(2)
proof (induction xs arbitrary: out)
  case (Cons x xs)
  from assms(1) [OF Cons.prems] Cons.IH show ?case by simp
qed simp

lemma decode_section_written:
  assumes "\<And>out x ys rest. P out (x # ys) \<Longrightarrow> f out (e x @ rest) = Inr (g out x, rest) \<and> P (g out x) ys"
    and "P out xs" and "length xs \<le> limit" and "limit < 2 ^ 32"
  shows "decode_section limit f out (append_uvarint (of_nat (length xs)) @ concat (map e xs) @ rest) =
    Inr (foldl g out xs, rest)"
proof -
  have "unat (of_nat (length xs) :: u64) = length xs" "unat (of_nat limit :: u64) = limit"
    using assms(3,4) by (simp_all add: unat_of_nat)
  then show ?thesis
    using assms(3) decode_each_written [where P = P and f = f and e = e and g = g, OF assms(1,2)]
    by (simp add: decode_section_def word_less_nat_alt)
qed

lemma encode_each_Inr:
  "encode_each f xs = Inr b \<longleftrightarrow> (\<forall>x \<in> set xs. \<exists>y. f x = Inr y) \<and> b = concat (map (\<lambda>x. projr (f x)) xs)"
  by (induction xs arbitrary: b) auto

lemma encode_requests_Inr:
  "encode_requests seen hs = Inr b \<longleftrightarrow>
     zero_array \<notin> set hs \<and> distinct hs \<and> set hs \<inter> set seen = {} \<and> b = concat (map array_bytes hs)"
  by (induction hs arbitrary: seen b) auto

section \<open>The manifest is canonical\<close>

definition carrier_wf :: "carrier \<Rightarrow> bool" where
  "carrier_wf c \<longleftrightarrow> (\<forall>a v. fmlookup (ca_vectors c) a = Some v \<longrightarrow> vv_len v \<le> MaxOrigins)"

definition vector_bytes :: "area \<times> vector \<Rightarrow> bytes" where
  "vector_bytes e = array_bytes (fst e) @ append_uvarint (of_nat (length (vv_encode (snd e)))) @ vv_encode (snd e)"

definition bundle_bytes :: "bytes \<Rightarrow> bytes" where
  "bundle_bytes b = append_uvarint (of_nat (length b)) @ b"

definition blob_bytes :: "blob_ref \<Rightarrow> bytes" where
  "blob_bytes b = array_bytes (br_hash b) @ append_uvarint (br_size b)"

definition manifest_bytes :: "carrier \<Rightarrow> bytes" where
  "manifest_bytes c =
     CarrierMagic @ [CarrierVersion] @ array_bytes (ca_origin c) @ put_u32 (ca_created_at c) @ [ca_min_dictionary c] @
     append_uvarint (of_nat (length (fmap_items (ca_vectors c)))) @ concat (map vector_bytes (fmap_items (ca_vectors c))) @
     append_uvarint (of_nat (length (ca_bundles c))) @ concat (map bundle_bytes (ca_bundles c)) @
     append_uvarint (of_nat (length (ca_blobs c))) @ concat (map blob_bytes (ca_blobs c)) @
     append_uvarint (of_nat (length (ca_requests c))) @ concat (map array_bytes (ca_requests c))"

definition carrier_fits :: "carrier \<Rightarrow> bool" where
  "carrier_fits c \<longleftrightarrow>
     fcard (fmdom (ca_vectors c)) \<le> MaxVectors \<and> length (ca_bundles c) \<le> MaxBundles \<and>
     length (ca_blobs c) \<le> MaxBlobRefs \<and> length (ca_requests c) \<le> MaxRequests \<and>
     [] \<notin> set (ca_bundles c) \<and> (\<forall>b \<in> set (ca_blobs c). br_hash b \<noteq> zero_array \<and> br_size b \<le> MaxBlobBytes) \<and>
     zero_array \<notin> set (ca_requests c) \<and> distinct (ca_requests c) \<and> length (manifest_bytes c) \<le> MaxCarrierBytes"

lemma vector_entries_bytes:
  "concat (map (encode_vector_entry c) (sorted_list_of_fset (fmdom (ca_vectors c)))) =
   concat (map vector_bytes (fmap_items (ca_vectors c)))"
proof -
  have "map (encode_vector_entry c) (map fst (fmap_items (ca_vectors c))) = map vector_bytes (fmap_items (ca_vectors c))"
    by (auto simp: encode_vector_entry_def vector_bytes_def Let_def simp del: map_fst_fmap_items)
  then show ?thesis by simp
qed

lemma encode_bundles_Inr:
  "encode_each encode_bundle_entry bs = Inr b \<longleftrightarrow> [] \<notin> set bs \<and> b = concat (map bundle_bytes bs)"
  by (induction bs arbitrary: b) (auto simp: encode_bundle_entry_def bundle_bytes_def)

lemma encode_blobs_Inr:
  "encode_each encode_blob_entry bs = Inr b \<longleftrightarrow>
     (\<forall>x \<in> set bs. br_hash x \<noteq> zero_array \<and> br_size x \<le> MaxBlobBytes) \<and> b = concat (map blob_bytes bs)"
  by (induction bs arbitrary: b) (auto simp: encode_blob_entry_def blob_bytes_def not_le)

lemma carrier_encode_Inr: "carrier_encode c = Inr b \<longleftrightarrow> carrier_fits c \<and> b = manifest_bytes c"
proof -
  have s: "length (sorted_list_of_fset (fmdom (ca_vectors c))) = fcard (fmdom (ca_vectors c))" by simp
  show ?thesis
    by (auto simp: carrier_encode_def carrier_encode_from_def Let_def encode_bundles_Inr encode_blobs_Inr
        encode_requests_Inr vector_entries_bytes carrier_fits_def manifest_bytes_def not_le split: if_splits)
qed

lemma length_le_concat: "x \<in> set xs \<Longrightarrow> length (f x) \<le> length (concat (map f xs))"
  by (induction xs) auto

lemma decode_vector_written:
  assumes "vv_len v \<le> MaxOrigins" "length (vv_encode v) < 2 ^ 64" "fmlookup m a = None"
  shows "decode_vector_entry m (vector_bytes (a, v) @ rest) = Inr (fmupd a v m, rest)"
  using assms(3) vv_decode_encode [OF assms(1)] assms(2)
  by (simp add: decode_vector_entry_def vector_bytes_def Let_def unat_of_nat)

lemma decode_bundle_written:
  assumes "b \<noteq> []" "length b < 2 ^ 64"
  shows "decode_bundle_entry out (bundle_bytes b @ rest) = Inr (out @ [b], rest)"
proof -
  have "unat (of_nat (length b) :: u64) = length b" using assms(2) by (simp add: unat_of_nat)
  moreover from this have "(of_nat (length b) :: u64) \<noteq> 0" using assms(1) by (metis length_0_conv unat_0)
  ultimately show ?thesis by (simp add: decode_bundle_entry_def bundle_bytes_def)
qed

lemma decode_blob_written:
  assumes "br_hash b \<noteq> zero_array" "br_size b \<le> MaxBlobBytes"
  shows "decode_blob_entry out (blob_bytes b @ rest) = Inr (out @ [b], rest)"
  using assms by (simp add: decode_blob_entry_def blob_bytes_def not_less)

lemma decode_request_written:
  "h \<noteq> zero_array \<Longrightarrow> decode_request_entry out (array_bytes h @ rest) = Inr (out @ [h], rest)"
  by (simp add: decode_request_entry_def Let_def)

lemma foldl_snoc [simp]: "foldl (\<lambda>out x. out @ [x]) out xs = out @ xs"
  by (induction xs arbitrary: out) auto

lemma vectors_section:
  assumes "carrier_wf c" "carrier_fits c"
  shows "decode_section MaxVectors decode_vector_entry fmempty
      (append_uvarint (of_nat (length (fmap_items (ca_vectors c)))) @
       concat (map vector_bytes (fmap_items (ca_vectors c))) @ rest) = Inr (ca_vectors c, rest)"
proof -
  let ?xs = "fmap_items (ca_vectors c)"
  define P where "P m xs \<longleftrightarrow> distinct (map fst xs) \<and> set (map fst xs) \<inter> fset (fmdom m) = {} \<and>
    (\<forall>e \<in> set xs. vv_len (snd e) \<le> MaxOrigins \<and> length (vv_encode (snd e)) < 2 ^ 64)"
    for m :: "(area, vector) fmap" and xs :: "(area \<times> vector) list"
  have step: "decode_vector_entry m (vector_bytes x @ r) = Inr (fmupd (fst x) (snd x) m, r) \<and> P (fmupd (fst x) (snd x) m) ys"
    if "P m (x # ys)" for m x ys r
    using that decode_vector_written [of "snd x" m "fst x" r] by (auto simp: P_def fmdom_notD)
  have "length (vv_encode (snd e)) \<le> MaxCarrierBytes" if "e \<in> set ?xs" for e
    using length_le_concat [OF that, of vector_bytes] assms(2)
    by (simp add: carrier_fits_def manifest_bytes_def vector_bytes_def)
  then have P: "P fmempty ?xs"
    using assms(1) distinct_fmap_items [of "ca_vectors c"]
    by (force simp: P_def carrier_wf_def MaxCarrierBytes_def simp del: map_fst_fmap_items)
  have fold: "foldl (\<lambda>m x. fmupd (fst x) (snd x) m) fmempty ?xs = ca_vectors c"
    using fold_fmupd_of_list [OF distinct_fmap_items, of "ca_vectors c"]
    by (simp add: foldl_conv_fold split_def)
  show ?thesis
    using decode_section_written [where P = P and g = "\<lambda>m x. fmupd (fst x) (snd x) m", OF step P, of MaxVectors rest] assms(2)
    by (simp add: fold carrier_fits_def carrier_consts)
qed

lemma bundles_section:
  assumes "carrier_fits c"
  shows "decode_section MaxBundles decode_bundle_entry []
      (append_uvarint (of_nat (length (ca_bundles c))) @ concat (map bundle_bytes (ca_bundles c)) @ rest) =
    Inr (ca_bundles c, rest)"
proof -
  have "length b \<le> MaxCarrierBytes" if "b \<in> set (ca_bundles c)" for b
    using length_le_concat [OF that, of bundle_bytes] assms
    by (simp add: carrier_fits_def manifest_bytes_def bundle_bytes_def)
  then have "\<forall>b \<in> set (ca_bundles c). b \<noteq> [] \<and> length b < 2 ^ 64"
    using assms by (force simp: carrier_fits_def MaxCarrierBytes_def)
  then show ?thesis
    using decode_section_written [where P = "\<lambda>_ xs. \<forall>b \<in> set xs. b \<noteq> [] \<and> length b < 2 ^ 64"
        and f = decode_bundle_entry and g = "\<lambda>out x. out @ [x]" and e = bundle_bytes] assms
    by (simp add: decode_bundle_written carrier_fits_def carrier_consts)
qed

lemma blobs_section:
  assumes "carrier_fits c"
  shows "decode_section MaxBlobRefs decode_blob_entry []
      (append_uvarint (of_nat (length (ca_blobs c))) @ concat (map blob_bytes (ca_blobs c)) @ rest) =
    Inr (ca_blobs c, rest)"
  using decode_section_written [where P = "\<lambda>_ xs. \<forall>b \<in> set xs. br_hash b \<noteq> zero_array \<and> br_size b \<le> MaxBlobBytes"
      and f = decode_blob_entry and g = "\<lambda>out x. out @ [x]" and e = blob_bytes] assms
  by (simp add: decode_blob_written carrier_fits_def carrier_consts)

lemma requests_section:
  assumes "carrier_fits c"
  shows "decode_section MaxRequests decode_request_entry []
      (append_uvarint (of_nat (length (ca_requests c))) @ concat (map array_bytes (ca_requests c)) @ rest) =
    Inr (ca_requests c, rest)"
  using decode_section_written [where P = "\<lambda>_ xs. \<forall>h \<in> set xs. h \<noteq> zero_array"
      and f = decode_request_entry and g = "\<lambda>out x. out @ [x]" and e = array_bytes] assms
  by (force simp: decode_request_written carrier_fits_def carrier_consts)

lemma manifest_split:
  "manifest_bytes c @ tail = CarrierMagic @ [CarrierVersion] @ array_bytes (ca_origin c) @ put_u32 (ca_created_at c) @
     [ca_min_dictionary c] @
     append_uvarint (of_nat (length (fmap_items (ca_vectors c)))) @ concat (map vector_bytes (fmap_items (ca_vectors c))) @
     append_uvarint (of_nat (length (ca_bundles c))) @ concat (map bundle_bytes (ca_bundles c)) @
     append_uvarint (of_nat (length (ca_blobs c))) @ concat (map blob_bytes (ca_blobs c)) @
     append_uvarint (of_nat (length (ca_requests c))) @ concat (map array_bytes (ca_requests c)) @ tail"
  by (simp only: manifest_bytes_def append.assoc)

lemma carrier_decode_written:
  assumes "carrier_wf c" "carrier_fits c" "length (manifest_bytes c @ tail) \<le> MaxCarrierBytes" "tail = [] \<or> allow"
  shows "carrier_decode_at (manifest_bytes c @ tail) allow = Inr (c, length (manifest_bytes c))"
proof -
  have enc: "carrier_encode c = Inr (manifest_bytes c)" using assms(2) by (simp add: carrier_encode_Inr)
  have one: "ca_take 1 ([x] @ r) = Inr ([x], r)" for x r by (rule ca_take_append) simp
  have magic: "ca_take 4 (CarrierMagic @ r) = Inr (CarrierMagic, r)" for r
    by (rule ca_take_append) (simp add: CarrierMagic_def)
  have origin: "ca_take 8 (array_bytes (ca_origin c) @ r) = Inr (array_bytes (ca_origin c), r)" for r
    by (rule ca_take_append) simp
  have created: "ca_take 4 (put_u32 t @ r) = Inr (put_u32 t, r)" "get_u32 (put_u32 t) = t" for t r
    using get_put_u32 [of t "[]"] by (simp_all add: ca_take_append)
  let ?rec = "\<lparr>ca_origin = ca_origin c, ca_created_at = ca_created_at c, ca_min_dictionary = ca_min_dictionary c,
    ca_vectors = ca_vectors c, ca_bundles = ca_bundles c, ca_blobs = ca_blobs c, ca_requests = ca_requests c\<rparr>"
  have rec: "?rec = c" by simp
  have "\<not> length (manifest_bytes c @ tail) > MaxCarrierBytes" using assms(3) by simp
  then show ?thesis
    unfolding carrier_decode_at_def manifest_split [of c tail]
    by (simp only: if_False magic one origin created vectors_section [OF assms(1,2)] bundles_section [OF assms(2)]
        blobs_section [OF assms(2)] requests_section [OF assms(2)] res_bind_simps prod.case sum.case nth_Cons_0
        copy_array_bytes Let_def rec enc simp_thms, simp only: manifest_split [of c tail, symmetric])
      (use assms(4) in auto)
qed

definition small_vectors :: "(area, vector) fmap \<Rightarrow> bool" where
  "small_vectors m \<longleftrightarrow> (\<forall>a v. fmlookup m a = Some v \<longrightarrow> vv_len v \<le> MaxOrigins)"

lemma decode_vector_small:
  assumes "decode_vector_entry m b = Inr (m', r)" and "small_vectors m"
  shows "small_vectors m'"
proof -
  have "\<exists>body a vec. vv_decode body = Inr vec \<and> m' = fmupd a vec m"
    using assms(1) unfolding decode_vector_entry_def Let_def
    by (auto split: if_splits sum.split_asm simp del: res_bind_eq_Inr simp: res_bind_def) blast
  then obtain body a vec where "vv_decode body = Inr vec" "m' = fmupd a vec m" by blast
  then show ?thesis using vv_encode_decode [of body vec] assms(2) by (auto simp: small_vectors_def)
qed

lemma decode_vectors_small:
  "decode_each decode_vector_entry n m b = Inr (m', r) \<Longrightarrow> small_vectors m \<Longrightarrow> small_vectors m'"
  by (induction n arbitrary: m b) (auto dest: decode_vector_small)

lemma decode_section_small:
  "decode_section limit decode_vector_entry m b = Inr (m', r) \<Longrightarrow> small_vectors m \<Longrightarrow> small_vectors m'"
  by (auto simp: decode_section_def split: if_splits dest: decode_vectors_small)

lemma carrier_decode_sound:
  assumes "carrier_decode_at data allow = Inr (c, n)"
  shows "carrier_wf c \<and> carrier_encode c = Inr (take n data) \<and> n \<le> length data \<and> (\<not> allow \<longrightarrow> n = length data) \<and>
    length data \<le> MaxCarrierBytes"
proof -
  obtain limit b r where dec: "decode_section limit decode_vector_entry fmempty b = Inr (ca_vectors c, r)"
    and rest: "carrier_encode c = Inr (take n data) \<and> n \<le> length data \<and> (\<not> allow \<longrightarrow> n = length data) \<and>
      length data \<le> MaxCarrierBytes"
    using assms unfolding carrier_decode_at_def
    by (simp only: Let_def split: if_splits sum.splits) (auto split: if_splits sum.splits)
  have "small_vectors (ca_vectors c)" using decode_section_small [OF dec] by (simp add: small_vectors_def)
  then show ?thesis using rest by (simp add: carrier_wf_def small_vectors_def)
qed

lemma carrier_decode_iff: "carrier_decode data = Inr c \<longleftrightarrow> carrier_wf c \<and> carrier_encode c = Inr data"
proof
  assume "carrier_decode data = Inr c"
  then obtain n where "carrier_decode_at data False = Inr (c, n)" by (auto simp: carrier_decode_def)
  from carrier_decode_sound [OF this] show "carrier_wf c \<and> carrier_encode c = Inr data" by simp
next
  assume "carrier_wf c \<and> carrier_encode c = Inr data"
  then have "carrier_wf c" "carrier_fits c" "data = manifest_bytes c @ []" by (simp_all add: carrier_encode_Inr)
  then show "carrier_decode data = Inr c"
    using carrier_decode_written [of c "[]" False] by (simp add: carrier_decode_def carrier_fits_def)
qed

interpretation cac: canonical_codec "\<lambda>c. carrier_wf c \<and> carrier_fits c" manifest_bytes carrier_decode
  by unfold_locales (auto simp: carrier_decode_iff carrier_encode_Inr)

section \<open>The blob store\<close>

text \<open>\<open>digest\<close> is BLAKE3-256. \<open>Put\<close> reads its reader to the end; an existing blob is kept.\<close>

type_synonym blob_store = "(blob_hash, bytes) fmap"

definition blob_address :: "(bytes \<Rightarrow> bytes) \<Rightarrow> bytes \<Rightarrow> blob_hash" where
  "blob_address digest content = copy_array (digest content)"

definition blob_put :: "(bytes \<Rightarrow> bytes) \<Rightarrow> bytes \<Rightarrow> blob_store \<Rightarrow> blob_hash \<times> nat \<times> blob_store" where
  "blob_put digest content st =
     (let h = blob_address digest content
      in (h, length content, if fmlookup st h \<noteq> None then st else fmupd h content st))"

definition blob_adopt :: "(bytes \<Rightarrow> bytes) \<Rightarrow> bytes \<Rightarrow> blob_store \<Rightarrow> blob_hash \<times> nat \<times> blob_store" where
  "blob_adopt digest staged st =
     (let h = blob_address digest staged
      in (h, length staged, if fmlookup st h \<noteq> None then st else fmupd h staged st))"

definition blob_open :: "blob_store \<Rightarrow> blob_hash \<Rightarrow> bytes option" where
  "blob_open st h = fmlookup st h"

definition blob_has :: "blob_store \<Rightarrow> blob_hash \<Rightarrow> bool" where
  "blob_has st h \<longleftrightarrow> fmlookup st h \<noteq> None"

definition blob_size :: "blob_store \<Rightarrow> blob_hash \<Rightarrow> nat option" where
  "blob_size st h = map_option length (fmlookup st h)"

definition blob_remove :: "blob_hash \<Rightarrow> blob_store \<Rightarrow> blob_store" where
  "blob_remove h st = fmdrop h st"

text \<open>\<open>Verify\<close>: \<open>None\<close> when the blob is not held, otherwise whether the content still matches.\<close>

definition blob_verify :: "(bytes \<Rightarrow> bytes) \<Rightarrow> blob_store \<Rightarrow> blob_hash \<Rightarrow> bool option" where
  "blob_verify digest st h = map_option (\<lambda>content. blob_address digest content = h) (blob_open st h)"

definition blobs_sound :: "(bytes \<Rightarrow> bytes) \<Rightarrow> blob_store \<Rightarrow> bool" where
  "blobs_sound digest st \<longleftrightarrow> (\<forall>h content. fmlookup st h = Some content \<longrightarrow> blob_address digest content = h)"

section \<open>The file\<close>

datatype stream_error =
    SManifest carrier_error
  | SNoSource
  | SOpen blob_hash
  | SWrote blob_hash nat
  | SNotCanonical
  | SNoStore nat
  | SShortBlob nat
  | SMismatch blob_hash blob_hash

text \<open>\<open>Write\<close>: what has reached the writer, and the error if there was one.\<close>

fun write_bodies :: "(blob_hash \<Rightarrow> bytes option) option \<Rightarrow> blob_ref list \<Rightarrow> bytes \<times> stream_error option" where
  "write_bodies src [] = ([], None)"
| "write_bodies src (ref # refs) =
     (case src of
        None \<Rightarrow> ([], Some SNoSource)
      | Some f \<Rightarrow>
          (case f (br_hash ref) of
             None \<Rightarrow> ([], Some (SOpen (br_hash ref)))
           | Some body \<Rightarrow>
               let out = take (unat (br_size ref)) body
               in if length out \<noteq> unat (br_size ref) then (out, Some (SWrote (br_hash ref) (length out)))
                  else let (more, err) = write_bodies src refs in (out @ more, err)))"

definition carrier_write :: "carrier \<Rightarrow> (blob_hash \<Rightarrow> bytes option) option \<Rightarrow> bytes \<times> stream_error option" where
  "carrier_write c src =
     (case carrier_encode c of
        Inl e \<Rightarrow> ([], Some (SManifest e))
      | Inr manifest \<Rightarrow> let (bodies, err) = write_bodies src (ca_blobs c) in (manifest @ bodies, err))"

text \<open>\<open>Read\<close>: the bodies are the rest of what was read for the manifest and then the rest of the stream.\<close>

fun read_bodies ::
  "(bytes \<Rightarrow> bytes) \<Rightarrow> blob_ref list \<Rightarrow> bytes \<Rightarrow> blob_store \<Rightarrow> (stream_error + unit) \<times> blob_store" where
  "read_bodies digest [] bodies st = ((if length bodies \<noteq> 0 then Inl SNotCanonical else Inr ()), st)"
| "read_bodies digest (ref # refs) bodies st =
     (case blob_put digest (take (unat (br_size ref)) bodies) st of
        (got, n, st') \<Rightarrow>
          if n \<noteq> unat (br_size ref) then (Inl (SShortBlob n), st')
          else if got \<noteq> br_hash ref then (Inl (SMismatch (br_hash ref) got), st')
          else read_bodies digest refs (drop (unat (br_size ref)) bodies) st')"

definition carrier_read ::
  "(bytes \<Rightarrow> bytes) \<Rightarrow> bytes \<Rightarrow> blob_store option \<Rightarrow> (stream_error + carrier) \<times> blob_store option" where
  "carrier_read digest stream into =
     (let head = take (MaxCarrierBytes + 1) stream; later = drop (MaxCarrierBytes + 1) stream
      in case carrier_decode_at head True of
           Inl e \<Rightarrow> (Inl (SManifest e), into)
         | Inr (c, consumed) \<Rightarrow>
             if length (ca_blobs c) = 0 then
               (if consumed \<noteq> length head then (Inl SNotCanonical, into) else (Inr c, into))
             else case into of
                    None \<Rightarrow> (Inl (SNoStore (length (ca_blobs c))), into)
                  | Some st \<Rightarrow>
                      (case read_bodies digest (ca_blobs c) (drop consumed head @ later) st of
                         (Inl e, st') \<Rightarrow> (Inl e, Some st')
                       | (Inr _, st') \<Rightarrow> (Inr c, Some st')))"

definition read_manifest :: "bytes \<Rightarrow> carrier_error + carrier" where
  "read_manifest stream = res_bind (carrier_decode_at (take (MaxCarrierBytes + 1) stream) True) (\<lambda>(c, _). Inr c)"

section \<open>Reading a file back\<close>

lemma blob_put_sound: "blobs_sound digest st \<Longrightarrow> blobs_sound digest (snd (snd (blob_put digest content st)))"
  by (auto simp: blob_put_def blobs_sound_def Let_def)

lemma blob_put_holds: "blob_put digest content st = (h, n, st') \<Longrightarrow>
    h = blob_address digest content \<and> n = length content \<and> fmlookup st' h \<noteq> None \<and>
    (\<forall>k. fmlookup st k \<noteq> None \<longrightarrow> fmlookup st' k = fmlookup st k)"
  by (auto simp: blob_put_def Let_def split: if_splits)

lemma read_bodies_step:
  assumes "read_bodies digest (ref # refs) bodies st = (res, st')"
  obtains st1 where "snd (snd (blob_put digest (take (unat (br_size ref)) bodies) st)) = st1"
    and "st' = st1 \<or> read_bodies digest refs (drop (unat (br_size ref)) bodies) st1 = (res, st')"
  using assms by (auto split: prod.splits if_splits)

lemma read_bodies_keeps:
  "read_bodies digest refs bodies st = (res, st') \<Longrightarrow> fmlookup st k \<noteq> None \<Longrightarrow> fmlookup st' k = fmlookup st k"
proof (induction refs arbitrary: bodies st)
  case (Cons ref refs)
  have "fmlookup (snd (snd (blob_put digest b st))) k = fmlookup st k" for b
    using Cons.prems(2) by (auto simp: blob_put_def Let_def)
  then show ?case using read_bodies_step [OF Cons.prems(1)] Cons.IH Cons.prems(2) by metis
qed (auto split: if_splits)

lemma read_bodies_sound:
  "read_bodies digest refs bodies st = (res, st') \<Longrightarrow> blobs_sound digest st \<Longrightarrow> blobs_sound digest st'"
proof (induction refs arbitrary: bodies st)
  case (Cons ref refs)
  show ?case using read_bodies_step [OF Cons.prems(1)] Cons.IH blob_put_sound [OF Cons.prems(2)] by metis
qed (auto split: if_splits)

text \<open>A body read without an error has the declared size and the declared hash, and nothing follows the last.\<close>

lemma read_bodies_ok:
  "read_bodies digest refs bodies st = (Inr u, st') \<Longrightarrow>
   \<exists>parts. bodies = concat parts \<and> map length parts = map (\<lambda>r. unat (br_size r)) refs \<and>
     map (blob_address digest) parts = map br_hash refs \<and> (\<forall>r \<in> set refs. fmlookup st' (br_hash r) \<noteq> None)"
proof (induction refs arbitrary: bodies st)
  case Nil
  then show ?case by (simp split: if_splits)
next
  case (Cons ref refs)
  let ?part = "take (unat (br_size ref)) bodies"
  obtain got n st1 where p: "blob_put digest ?part st = (got, n, st1)" by (cases "blob_put digest ?part st")
  then have ok: "n = unat (br_size ref)" "got = br_hash ref"
    and rest: "read_bodies digest refs (drop (unat (br_size ref)) bodies) st1 = (Inr u, st')"
    using Cons.prems by (auto split: if_splits)
  obtain parts where parts: "drop (unat (br_size ref)) bodies = concat parts"
    "map length parts = map (\<lambda>r. unat (br_size r)) refs" "map (blob_address digest) parts = map br_hash refs"
    "\<forall>r \<in> set refs. fmlookup st' (br_hash r) \<noteq> None"
    using Cons.IH [OF rest] by blast
  have "fmlookup st' (br_hash ref) \<noteq> None"
    using read_bodies_keeps [OF rest] blob_put_holds [OF p] ok(2) by metis
  moreover have "bodies = ?part @ concat parts" using parts(1) by (metis append_take_drop_id)
  ultimately show ?case
    using parts ok blob_put_holds [OF p] by (intro exI [of _ "?part # parts"]) auto
qed

lemma read_bodies_written:
  assumes "write_bodies (Some f) refs = (bodies, None)"
    and "\<And>r body. r \<in> set refs \<Longrightarrow> f (br_hash r) = Some body \<Longrightarrow> blob_address digest (take (unat (br_size r)) body) = br_hash r"
  shows "\<exists>st'. read_bodies digest refs bodies st = (Inr (), st')"
  using assms
proof (induction refs arbitrary: bodies st)
  case (Cons ref refs)
  obtain body more where b: "f (br_hash ref) = Some body" "length (take (unat (br_size ref)) body) = unat (br_size ref)"
    "write_bodies (Some f) refs = (more, None)" "bodies = take (unat (br_size ref)) body @ more"
    using Cons.prems(1) by (auto simp: Let_def split: option.splits if_splits prod.splits)
  have addr: "blob_address digest (take (unat (br_size ref)) body) = br_hash ref" using Cons.prems(2) b(1) by simp
  have tk: "take (unat (br_size ref)) bodies = take (unat (br_size ref)) body"
    "drop (unat (br_size ref)) bodies = more"
    using b(2) unfolding b(4) by simp_all
  obtain st1 where put: "blob_put digest (take (unat (br_size ref)) body) st = (br_hash ref, unat (br_size ref), st1)"
    using addr b(2) by (simp add: blob_put_def Let_def)
  obtain st' where "read_bodies digest refs more st1 = (Inr (), st')"
    using Cons.IH [OF b(3)] Cons.prems(2) by (meson list.set_intros(2))
  then show ?case by (simp add: tk put)
qed simp

lemma write_bodies_some: "write_bodies src (r # rs) = (b, None) \<Longrightarrow> \<exists>f. src = Some f"
  by (cases src) auto

lemma carrier_write_file:
  assumes "carrier_write c src = (file, None)"
  obtains bodies where "carrier_fits c" and "file = manifest_bytes c @ bodies" and "write_bodies src (ca_blobs c) = (bodies, None)"
  using assms by (auto simp: carrier_write_def carrier_encode_Inr split: sum.splits prod.splits)

lemma carrier_read_too_large:
  assumes "length stream > MaxCarrierBytes"
  shows "carrier_read digest stream into = (Inl (SManifest (CTooLarge (MaxCarrierBytes + 1))), into)"
    and "read_manifest stream = Inl (CTooLarge (MaxCarrierBytes + 1))"
proof -
  have "carrier_decode_at (take (MaxCarrierBytes + 1) stream) True = Inl (CTooLarge (MaxCarrierBytes + 1))"
    using assms by (simp add: carrier_decode_at_def min_def)
  then show "carrier_read digest stream into = (Inl (SManifest (CTooLarge (MaxCarrierBytes + 1))), into)"
    "read_manifest stream = Inl (CTooLarge (MaxCarrierBytes + 1))"
    by (simp_all only: carrier_read_def read_manifest_def Let_def sum.case res_bind_simps)
qed

lemma carrier_read_written:
  assumes "carrier_wf c" and "carrier_write c (Some f) = (file, None)" and "length file \<le> MaxCarrierBytes"
    and "\<And>r body. r \<in> set (ca_blobs c) \<Longrightarrow> f (br_hash r) = Some body \<Longrightarrow>
           blob_address digest (take (unat (br_size r)) body) = br_hash r"
  shows "\<exists>st'. carrier_read digest file (Some st) = (Inr c, Some st') \<and> read_manifest file = Inr c"
proof -
  obtain bodies where w: "carrier_fits c" "file = manifest_bytes c @ bodies" "write_bodies (Some f) (ca_blobs c) = (bodies, None)"
    using carrier_write_file [OF assms(2)] .
  have head: "take (MaxCarrierBytes + 1) file = file" "drop (MaxCarrierBytes + 1) file = []" using assms(3) by simp_all
  have dec: "carrier_decode_at file True = Inr (c, length (manifest_bytes c))"
    unfolding w(2) by (rule carrier_decode_written) (use assms(1,3) w in simp_all)
  have split: "drop (length (manifest_bytes c)) file = bodies" by (simp add: w(2))
  show ?thesis
  proof (cases "ca_blobs c = []")
    case True
    then have "bodies = []" using w(3) by simp
    then show ?thesis unfolding carrier_read_def read_manifest_def head dec Let_def using True w(2) by simp
  next
    case False
    obtain st' where "read_bodies digest (ca_blobs c) bodies st = (Inr (), st')"
      using read_bodies_written [OF w(3) assms(4)] by blast
    then show ?thesis unfolding carrier_read_def read_manifest_def head dec Let_def using False split by simp
  qed
qed

lemma carrier_read_result:
  assumes "carrier_read digest stream (Some st) = (res, into)" and "blobs_sound digest st"
  shows "\<exists>st'. into = Some st' \<and> blobs_sound digest st' \<and>
    (\<forall>k. fmlookup st k \<noteq> None \<longrightarrow> fmlookup st' k = fmlookup st k) \<and>
    (\<forall>c. res = Inr c \<longrightarrow> carrier_wf c \<and> carrier_fits c \<and>
       (\<exists>parts. stream = manifest_bytes c @ concat parts \<and> map length parts = map (\<lambda>r. unat (br_size r)) (ca_blobs c) \<and>
          map (blob_address digest) parts = map br_hash (ca_blobs c) \<and>
          (\<forall>r \<in> set (ca_blobs c). fmlookup st' (br_hash r) \<noteq> None)))"
proof (cases "carrier_decode_at (take (MaxCarrierBytes + 1) stream) True")
  case (Inl e)
  then show ?thesis using assms by (auto simp: carrier_read_def Let_def)
next
  case (Inr p)
  obtain c n where p: "p = (c, n)" by (cases p)
  let ?head = "take (MaxCarrierBytes + 1) stream" and ?later = "drop (MaxCarrierBytes + 1) stream"
  note snd = carrier_decode_sound [OF Inr [unfolded p]]
  have fits: "carrier_wf c" "carrier_fits c" "take n ?head = manifest_bytes c" "n \<le> length ?head"
    using snd unfolding carrier_encode_Inr by auto
  have stream: "stream = manifest_bytes c @ drop n ?head @ ?later"
    using fits(3) by (metis append.assoc append_take_drop_id)
  have read: "carrier_read digest stream (Some st) =
      (if ca_blobs c = [] then (if n \<noteq> length ?head then (Inl SNotCanonical, Some st) else (Inr c, Some st))
       else (case read_bodies digest (ca_blobs c) (drop n ?head @ ?later) st of
               (Inl e, st') \<Rightarrow> (Inl e, Some st') | (Inr _, st') \<Rightarrow> (Inr c, Some st')))"
    unfolding carrier_read_def Let_def Inr p by simp
  show ?thesis
  proof (cases "ca_blobs c = []")
    case True
    have "length ?head \<le> MaxCarrierBytes" using snd by blast
    then have "?later = []" by (simp add: min_def split: if_splits)
    then have "stream = manifest_bytes c @ concat []" if "n = length ?head" using that stream by simp
    then show ?thesis using assms read True fits by (auto intro: exI [of _ "[]"] split: if_splits)
  next
    case False
    obtain r st' where rb: "read_bodies digest (ca_blobs c) (drop n ?head @ ?later) st = (r, st')" by (cases "read_bodies digest (ca_blobs c) (drop n ?head @ ?later) st")
    have into: "into = Some st'" and res: "res = (case r of Inl e \<Rightarrow> Inl e | Inr _ \<Rightarrow> Inr c)"
      using assms(1) read False rb by (auto split: sum.splits)
    have keep: "blobs_sound digest st'" "\<And>k. fmlookup st k \<noteq> None \<Longrightarrow> fmlookup st' k = fmlookup st k"
      using read_bodies_sound [OF rb assms(2)] read_bodies_keeps [OF rb] by blast+
    show ?thesis
    proof (cases r)
      case (Inr u)
      show ?thesis using read_bodies_ok [OF rb [unfolded Inr]] fits stream keep into res Inr by force
    qed (use keep into res in auto)
  qed
qed

section \<open>Properties of the carrier\<close>

lemma encode_any_order:
  "distinct keys \<Longrightarrow> set keys = fset (fmdom (ca_vectors c)) \<Longrightarrow> carrier_encode_from keys c = carrier_encode c"
  using sort_areas_any_order [of keys "ca_vectors c"] by (simp add: carrier_encode_def carrier_encode_from_def)

text \<open>
  C26. One carrier has one wire form. In whatever order \<open>Encode\<close> visits the map of vectors (\<open>keys\<close>),
  it writes exactly the carriers within the limits of the format, and \<open>Decode\<close> accepts exactly what
  it writes of a carrier whose vectors are within the decoder's bound on origins, giving the
  carrier back.
\<close>

theorem carrier_canonical:
  assumes "distinct keys" and "set keys = fset (fmdom (ca_vectors c))"
  shows "(carrier_decode data = Inr c \<longleftrightarrow> carrier_wf c \<and> carrier_encode_from keys c = Inr data) \<and>
    ((\<exists>b. carrier_encode_from keys c = Inr b) \<longleftrightarrow> carrier_fits c)"
  unfolding encode_any_order [OF assms] by (simp add: carrier_decode_iff carrier_encode_Inr)

text \<open>
  C17. Which carrier files can be read. A file that \<open>Write\<close> completed, whose bodies hash to what the
  manifest says, is read back as the carrier it was, every declared body ends up in the blob
  store, and the store stays sound. That is so exactly up to \<open>MaxCarrierBytes\<close> for manifest and
  bodies together: \<open>Read\<close> and \<open>ReadManifest\<close> apply the manifest's bound to the start of the whole
  stream, so a larger file, which \<open>Write\<close> writes without complaint, is refused and nothing of it is kept.
\<close>

theorem carrier_file_read_back:
  assumes "carrier_wf c" and "carrier_write c (Some f) = (file, None)" and "blobs_sound digest st"
    and "\<forall>r \<in> set (ca_blobs c). \<forall>body. f (br_hash r) = Some body \<longrightarrow>
           blob_address digest (take (unat (br_size r)) body) = br_hash r"
  shows "if length file \<le> MaxCarrierBytes
    then read_manifest file = Inr c \<and>
      (\<exists>st'. carrier_read digest file (Some st) = (Inr c, Some st') \<and> blobs_sound digest st' \<and>
         (\<forall>r \<in> set (ca_blobs c). fmlookup st' (br_hash r) \<noteq> None))
    else read_manifest file = Inl (CTooLarge (MaxCarrierBytes + 1)) \<and>
      carrier_read digest file (Some st) = (Inl (SManifest (CTooLarge (MaxCarrierBytes + 1))), Some st)"
proof (cases "length file \<le> MaxCarrierBytes")
  case True
  then obtain st' where r: "carrier_read digest file (Some st) = (Inr c, Some st')" "read_manifest file = Inr c"
    using carrier_read_written [OF assms(1,2)] assms(4) by metis
  then show ?thesis using carrier_read_result [OF r(1) assms(3)] True by auto
next
  case False
  then show ?thesis using carrier_read_too_large by simp
qed

definition toy_digest :: "bytes \<Rightarrow> bytes" where
  "toy_digest b = take 32 (b @ replicate 32 7)"

definition toy_blob :: blob_ref where
  "toy_blob = \<lparr>br_hash = blob_address toy_digest [1, 2, 3], br_size = 3\<rparr>"

definition toy_carrier :: carrier where
  "toy_carrier = \<lparr>ca_origin = zero_array, ca_created_at = 9, ca_min_dictionary = 0,
     ca_vectors = fmupd zero_array (vv_sample 1 4) fmempty, ca_bundles = [[1, 2]], ca_blobs = [toy_blob],
     ca_requests = [copy_array [5]]\<rparr>"

definition toy_shelf :: "blob_hash \<Rightarrow> bytes option" where
  "toy_shelf h = (if h = br_hash toy_blob then Some [1, 2, 3] else None)"

lemma toy_carrier_written:
  "\<exists>file. carrier_write toy_carrier (Some toy_shelf) = (file, None) \<and> length file \<le> MaxCarrierBytes"
proof -
  have size: "length (manifest_bytes toy_carrier) \<le> 1000" by code_simp
  have "toy_blob \<in> set (ca_blobs toy_carrier)" "br_hash toy_blob \<noteq> zero_array" "copy_array [5] \<noteq> (zero_array :: wire_hash)"
    "br_size toy_blob \<le> MaxBlobBytes" by code_simp+
  then have "carrier_fits toy_carrier"
    using size by (simp add: carrier_fits_def toy_carrier_def carrier_consts fcard.rep_eq)
  then have "carrier_encode toy_carrier = Inr (manifest_bytes toy_carrier)" by (simp add: carrier_encode_Inr)
  moreover have "write_bodies (Some toy_shelf) (ca_blobs toy_carrier) = ([1, 2, 3], None)" by code_simp
  ultimately show ?thesis using size by (simp add: carrier_write_def MaxCarrierBytes_def)
qed

theorem carrier_file_read_back_witness:
  "\<exists>file st. carrier_write toy_carrier (Some toy_shelf) = (file, None) \<and>
     carrier_read toy_digest file (Some fmempty) = (Inr toy_carrier, Some st) \<and> fmlookup st (br_hash toy_blob) \<noteq> None"
proof -
  obtain data where w: "carrier_write toy_carrier (Some toy_shelf) = (data, None)" "length data \<le> MaxCarrierBytes"
    using toy_carrier_written by blast
  have wf: "carrier_wf toy_carrier"
    by (simp add: carrier_wf_def toy_carrier_def vv_zero_sample MaxOrigins_def)
  have "blobs_sound toy_digest fmempty" by (simp add: blobs_sound_def)
  moreover have "\<forall>r \<in> set (ca_blobs toy_carrier). \<forall>body. toy_shelf (br_hash r) = Some body \<longrightarrow>
      blob_address toy_digest (take (unat (br_size r)) body) = br_hash r"
    by (simp add: toy_carrier_def toy_shelf_def) (simp add: toy_blob_def)
  ultimately show ?thesis
    using carrier_file_read_back [OF wf w(1)] w by (fastforce simp: toy_carrier_def)
qed

text \<open>
  What is read from an unsigned carrier is what it says. Whatever the bytes on the medium,
  \<open>Read\<close> stores nothing under a hash that is not its own and changes no blob that was held; and
  when it succeeds the stream was the one wire form of the carrier followed by exactly the
  declared bodies, each of its declared size and hash and now held, with nothing behind them.
\<close>

theorem carrier_read_honest:
  assumes "carrier_read digest stream (Some st) = (res, into)" and "blobs_sound digest st"
  shows "\<exists>st'. into = Some st' \<and> blobs_sound digest st' \<and>
    (\<forall>k. fmlookup st k \<noteq> None \<longrightarrow> fmlookup st' k = fmlookup st k) \<and>
    (\<forall>c. res = Inr c \<longrightarrow> (\<exists>manifest parts. stream = manifest @ concat parts \<and> carrier_encode c = Inr manifest \<and>
       map length parts = map (\<lambda>r. unat (br_size r)) (ca_blobs c) \<and>
       map (blob_address digest) parts = map br_hash (ca_blobs c) \<and>
       (\<forall>r \<in> set (ca_blobs c). fmlookup st' (br_hash r) \<noteq> None)))"
  using carrier_read_result [OF assms] by (simp add: carrier_encode_Inr) blast

theorem carrier_read_honest_witness:
  "\<exists>st'. snd (carrier_read toy_digest [0x4D, 0x42, 0x58] (Some fmempty)) = Some st' \<and> blobs_sound toy_digest st'"
proof -
  have "blobs_sound toy_digest fmempty" by (simp add: blobs_sound_def)
  then show ?thesis
    using carrier_read_honest [where digest = toy_digest and st = fmempty] by (metis prod.collapse)
qed

definition toy_pair :: carrier where
  "toy_pair = toy_carrier\<lparr>ca_vectors := fmupd (copy_array [1]) (vv_sample 1 4) (fmupd zero_array (vv_sample 1 4) fmempty)\<rparr>"

theorem carrier_canonical_witness:
  "\<exists>data. carrier_encode_from [copy_array [1], zero_array] toy_pair = Inr data \<and> carrier_decode data = Inr toy_pair"
proof -
  have "(copy_array [1] :: area) \<noteq> zero_array" by code_simp
  then have keys: "distinct [copy_array [1], zero_array :: area]"
    "set [copy_array [1], zero_array] = fset (fmdom (ca_vectors toy_pair))" by (auto simp: toy_pair_def)
  have size: "length (manifest_bytes toy_pair) \<le> 1000" by code_simp
  have "toy_blob \<in> set (ca_blobs toy_carrier)" "br_hash toy_blob \<noteq> zero_array" "copy_array [5] \<noteq> (zero_array :: wire_hash)"
    "br_size toy_blob \<le> MaxBlobBytes" "fcard (fmdom (ca_vectors toy_pair)) \<le> 2" by code_simp+
  then have "carrier_fits toy_pair"
    using size by (simp add: carrier_fits_def toy_pair_def toy_carrier_def carrier_consts)
  moreover have "carrier_wf toy_pair"
    by (simp add: carrier_wf_def toy_pair_def vv_zero_sample MaxOrigins_def)
  ultimately show ?thesis using carrier_canonical [OF keys] by blast
qed

end
