(* ===== verification/HandOff.thy ===== *)
theory HandOff
  imports CatchUp Carrier Bundle
begin

text \<open>
  Exchanges by hand (\<open>internal/sneakernet/exchange.go\<close>) on the log of a running board: \<open>Export\<close>
  builds a carrier from what the other side lacks, \<open>Import\<close> applies one, \<open>BlobsToCarry\<close> picks the
  files. Shown: a carrier is refused before anything is applied when its dictionary is newer
  than the reader's; a bundle that does not unpack costs only its own records; a reply brings the
  asker up to the sender's marks or one page of 256 records further, per origin and area; the
  files carried are exactly the wanted ones within the limits.
\<close>

section \<open>Export\<close>

record exporter =
  ex_areas :: "area_tag list"
  ex_vector :: "area_tag \<Rightarrow> vector"
  ex_records :: "area_tag \<Rightarrow> vv_range \<Rightarrow> rec list"

record export_options =
  eo_self :: node_id
  eo_now :: u32
  eo_reply :: "carrier option"
  eo_areas :: "area_tag list"
  eo_blobs :: "blob_ref list"
  eo_requests :: "wire_hash list"

datatype handoff_error =
    HPack area_tag bundle_error
  | HTooManyBundles
  | HUnknownDictionary u8
  | HApply nat store_error

definition area_batch :: "area_tag \<Rightarrow> rec list \<Rightarrow> batch" where
  "area_batch area recs = \<lparr>bn_area = area, bn_base_ts = 0, bn_dict_id = 0, bn_records = recs\<rparr>"

definition flush_batch :: "area_tag \<Rightarrow> dictionary \<Rightarrow> rec list \<Rightarrow> bytes list \<Rightarrow> handoff_error + bytes list" where
  "flush_batch area d recs bundles =
     (if length recs = 0 then Inr bundles
      else case bundle_pack (area_batch area recs) d of
             Inl e \<Rightarrow> Inl (HPack area e)
           | Inr packed \<Rightarrow>
               if length bundles \<ge> MaxBundles then Inl HTooManyBundles else Inr (bundles @ [packed]))"

text \<open>The loop over the records: the batch under construction and the bundles so far.\<close>

fun batch_records ::
  "area_tag \<Rightarrow> dictionary \<Rightarrow> rec list \<Rightarrow> rec list \<Rightarrow> bytes list \<Rightarrow> handoff_error + rec list \<times> bytes list" where
  "batch_records area d [] pending bundles = Inr (pending, bundles)"
| "batch_records area d (r # rs) pending bundles =
     (let pending' = pending @ [r]
      in if length pending' = MaxRecords then
           res_bind (flush_batch area d pending' bundles) (\<lambda>bundles'. batch_records area d rs [] bundles')
         else batch_records area d rs pending' bundles)"

definition their_vector :: "carrier option \<Rightarrow> area_tag \<Rightarrow> vector" where
  "their_vector reply area =
     (case reply of
        None \<Rightarrow> vv_new
      | Some ca \<Rightarrow> (case fmlookup (ca_vectors ca) area of None \<Rightarrow> vv_new | Some v \<Rightarrow> v))"

definition lacking :: "exporter \<Rightarrow> carrier option \<Rightarrow> area_tag \<Rightarrow> rec list" where
  "lacking ex reply area =
     concat (map (ex_records ex area) (vv_missing (their_vector reply area) (ex_vector ex area)))"

definition export_area :: "exporter \<Rightarrow> dictionary \<Rightarrow> export_options \<Rightarrow> area_tag \<Rightarrow> carrier \<Rightarrow> handoff_error + carrier" where
  "export_area ex d opt area ca =
     (if eo_areas opt \<noteq> [] \<and> area \<notin> set (eo_areas opt) then Inr ca
      else res_bind (batch_records area d (lacking ex (eo_reply opt) area) [] (ca_bundles ca)) (\<lambda>(pending, bundles).
           res_bind (flush_batch area d pending bundles) (\<lambda>bundles'.
           Inr (ca\<lparr>ca_vectors := fmupd area (ex_vector ex area) (ca_vectors ca), ca_bundles := bundles'\<rparr>))))"

fun export_areas :: "exporter \<Rightarrow> dictionary \<Rightarrow> export_options \<Rightarrow> area_tag list \<Rightarrow> carrier \<Rightarrow> handoff_error + carrier" where
  "export_areas ex d opt [] ca = Inr ca"
| "export_areas ex d opt (a # as) ca = res_bind (export_area ex d opt a ca) (export_areas ex d opt as)"

definition carrier_export :: "exporter \<Rightarrow> dictionary \<Rightarrow> export_options \<Rightarrow> handoff_error + carrier" where
  "carrier_export ex d opt =
     export_areas ex d opt (ex_areas ex)
       \<lparr>ca_origin = eo_self opt, ca_created_at = eo_now opt, ca_min_dictionary = di_id d, ca_vectors = fmempty,
        ca_bundles = [], ca_blobs = eo_blobs opt, ca_requests = eo_requests opt\<rparr>"

section \<open>Import\<close>

record import_result =
  ir_bundles :: nat
  ir_records :: nat
  ir_rejected :: "(nat \<times> bundle_error) list"

definition no_import :: import_result where
  "no_import = \<lparr>ir_bundles = 0, ir_records = 0, ir_rejected = []\<rparr>"

fun import_bundles ::
  "crypto \<Rightarrow> (area_tag \<Rightarrow> rec list \<Rightarrow> 's \<Rightarrow> nat \<times> store_error option \<times> 's) \<Rightarrow> dictionary_set \<Rightarrow> nat \<Rightarrow> bytes list \<Rightarrow>
   import_result \<Rightarrow> 's \<Rightarrow> import_result \<times> handoff_error option \<times> 's" where
  "import_bundles c app dicts i [] res s = (res, None, s)"
| "import_bundles c app dicts i (raw # raws) res s =
     (case bundle_unpack c raw dicts of
        Inl e \<Rightarrow> import_bundles c app dicts (i + 1) raws (res\<lparr>ir_rejected := ir_rejected res @ [(i + 1, e)]\<rparr>) s
      | Inr b \<Rightarrow>
          (case app (bn_area b) (bn_records b) s of
             (added, Some e, s') \<Rightarrow> (res, Some (HApply (i + 1) e), s')
           | (added, None, s') \<Rightarrow> import_bundles c app dicts (i + 1) raws
               (res\<lparr>ir_bundles := ir_bundles res + 1, ir_records := ir_records res + added\<rparr>) s'))"

definition carrier_import ::
  "crypto \<Rightarrow> (area_tag \<Rightarrow> rec list \<Rightarrow> 's \<Rightarrow> nat \<times> store_error option \<times> 's) \<Rightarrow> dictionary_set \<Rightarrow> carrier \<Rightarrow> 's \<Rightarrow>
   import_result \<times> handoff_error option \<times> 's" where
  "carrier_import c app dicts ca s =
     (if ca_min_dictionary ca > dict_highest dicts then (no_import, Some (HUnknownDictionary (ca_min_dictionary ca)), s)
      else import_bundles c app dicts 0 (ca_bundles ca) no_import s)"

section \<open>The files\<close>

record held_file =
  hf_name :: bytes
  hf_hash :: blob_hash

datatype skip_reason = SkipTooLarge bytes nat | SkipAndLater bytes

record blob_plan =
  bp_refs :: "blob_ref list"
  bp_skipped :: "skip_reason list"
  bp_unanswered :: "wire_hash list"

definition wire_hash_of :: "blob_hash \<Rightarrow> wire_hash" where
  "wire_hash_of h = copy_array (take FileHashLen (array_bytes h))"

text \<open>The loop over the files; a file already chosen is recognised by its hash.\<close>

fun choose_files ::
  "blob_store \<Rightarrow> blob_hash fset \<Rightarrow> wire_hash list \<Rightarrow> held_file list \<Rightarrow> blob_ref list \<Rightarrow> skip_reason list \<Rightarrow>
   blob_ref list \<times> skip_reason list" where
  "choose_files held theyHave wanted [] refs skipped = (refs, skipped)"
| "choose_files held theyHave wanted (f # fs) refs skipped =
     (if hf_hash f \<in> br_hash ` set refs \<or> hf_hash f |\<in>| theyHave then choose_files held theyHave wanted fs refs skipped
      else if wanted \<noteq> [] \<and> wire_hash_of (hf_hash f) \<notin> set wanted then choose_files held theyHave wanted fs refs skipped
      else case blob_size held (hf_hash f) of
             None \<Rightarrow> choose_files held theyHave wanted fs refs skipped
           | Some sz \<Rightarrow>
               if sz > unat MaxBlobBytes then
                 choose_files held theyHave wanted fs refs (skipped @ [SkipTooLarge (hf_name f) sz])
               else if length refs \<ge> MaxBlobRefs then (refs, skipped @ [SkipAndLater (hf_name f)])
               else choose_files held theyHave wanted fs
                      (refs @ [\<lparr>br_hash = hf_hash f, br_size = of_nat sz\<rparr>]) skipped)"

definition blobs_to_carry :: "held_file list \<Rightarrow> blob_store \<Rightarrow> blob_hash fset \<Rightarrow> wire_hash list \<Rightarrow> blob_plan" where
  "blobs_to_carry files held theyHave wanted =
     (let (refs, skipped) = choose_files held theyHave wanted files [] [];
          answered = map (\<lambda>r. wire_hash_of (br_hash r)) refs
      in \<lparr>bp_refs = refs, bp_skipped = skipped,
          bp_unanswered = filter (\<lambda>h. h \<notin> set answered) wanted\<rparr>)"

section \<open>What an export writes\<close>

text \<open>The batches of one area: the records in order, at most 256 to a bundle.\<close>

definition chunks_of :: "rec list \<Rightarrow> rec list list \<Rightarrow> bool" where
  "chunks_of recs css \<longleftrightarrow> concat css = recs \<and> (\<forall>cs \<in> set css. cs \<noteq> [] \<and> length cs \<le> MaxRecords)"

definition packed :: "dictionary \<Rightarrow> area_tag \<Rightarrow> rec list list \<Rightarrow> bytes list \<Rightarrow> bool" where
  "packed d area css bs \<longleftrightarrow> list_all2 (\<lambda>cs b. bundle_pack (area_batch area cs) d = Inr b) css bs"

lemma flush_batch_packs:
  assumes "flush_batch area d recs bundles = Inr bundles'" and "length recs \<le> MaxRecords"
  obtains css bs where "chunks_of recs css" "packed d area css bs" "bundles' = bundles @ bs"
proof (cases "recs = []")
  case True
  then show ?thesis using that [of "[]" "[]"] assms by (simp add: flush_batch_def chunks_of_def packed_def)
next
  case False
  then obtain b where "bundle_pack (area_batch area recs) d = Inr b" "bundles' = bundles @ [b]"
    using assms(1) by (auto simp: flush_batch_def split: sum.splits if_splits)
  then show ?thesis using that [of "[recs]" "[b]"] False assms(2) by (simp add: chunks_of_def packed_def)
qed

lemma batch_records_packs:
  "batch_records area d recs pending bundles = Inr (pending', bundles') \<Longrightarrow> length pending < MaxRecords \<Longrightarrow>
   length pending' < MaxRecords \<and> (\<exists>css bs. concat css @ pending' = pending @ recs \<and>
     (\<forall>cs \<in> set css. cs \<noteq> [] \<and> length cs \<le> MaxRecords) \<and> packed d area css bs \<and> bundles' = bundles @ bs)"
proof (induction area d recs pending bundles rule: batch_records.induct)
  case (1 area d pending bundles)
  then show ?case by (auto simp: packed_def intro!: exI [of _ "[]"])
next
  case (2 area d r rs pending bundles)
  show ?case
  proof (cases "length (pending @ [r]) = MaxRecords")
    case False
    then show ?thesis using 2 by (auto simp: Let_def)
  next
    case True
    then obtain mid where mid: "flush_batch area d (pending @ [r]) bundles = Inr mid"
      "batch_records area d rs [] mid = Inr (pending', bundles')" using "2.prems"(1) by (auto simp: Let_def)
    obtain b where b: "bundle_pack (area_batch area (pending @ [r])) d = Inr b" "mid = bundles @ [b]"
      using mid(1) by (auto simp: flush_batch_def split: sum.splits if_splits)
    have "length pending' < MaxRecords \<and> (\<exists>css bs. concat css @ pending' = [] @ rs \<and>
        (\<forall>cs \<in> set css. cs \<noteq> [] \<and> length cs \<le> MaxRecords) \<and> packed d area css bs \<and> bundles' = mid @ bs)"
      using "2.IH"(1) [OF refl True mid(2)] by (simp add: MaxRecords_def)
    then obtain css bs where css: "length pending' < MaxRecords" "concat css @ pending' = rs"
      "\<forall>cs \<in> set css. cs \<noteq> [] \<and> length cs \<le> MaxRecords" "packed d area css bs" "bundles' = mid @ bs" by auto
    show ?thesis
      using css True b
      by (intro conjI exI [of _ "(pending @ [r]) # css"] exI [of _ "b # bs"]) (auto simp: packed_def)
  qed
qed

definition chosen_areas :: "export_options \<Rightarrow> area_tag list \<Rightarrow> area_tag list" where
  "chosen_areas opt areas = filter (\<lambda>a. eo_areas opt = [] \<or> a \<in> set (eo_areas opt)) areas"

lemma export_area_packs:
  assumes "export_area ex d opt area ca = Inr ca'" and "eo_areas opt = [] \<or> area \<in> set (eo_areas opt)"
  obtains css bs where "chunks_of (lacking ex (eo_reply opt) area) css" "packed d area css bs"
    "ca_bundles ca' = ca_bundles ca @ bs" "ca_vectors ca' = fmupd area (ex_vector ex area) (ca_vectors ca)"
    "ca_min_dictionary ca' = ca_min_dictionary ca" "ca_origin ca' = ca_origin ca"
    "ca_blobs ca' = ca_blobs ca" "ca_requests ca' = ca_requests ca"
proof -
  obtain pending mid bundles' where
    loop: "batch_records area d (lacking ex (eo_reply opt) area) [] (ca_bundles ca) = Inr (pending, mid)"
    and last: "flush_batch area d pending mid = Inr bundles'"
    and ca': "ca' = ca\<lparr>ca_vectors := fmupd area (ex_vector ex area) (ca_vectors ca), ca_bundles := bundles'\<rparr>"
    using assms by (auto simp: export_area_def)
  obtain css bs where css: "length pending < MaxRecords" "concat css @ pending = lacking ex (eo_reply opt) area"
    "\<forall>cs \<in> set css. cs \<noteq> [] \<and> length cs \<le> MaxRecords" "packed d area css bs" "mid = ca_bundles ca @ bs"
    using batch_records_packs [OF loop] by (auto simp: MaxRecords_def)
  obtain css' bs' where "chunks_of pending css'" "packed d area css' bs'" "bundles' = mid @ bs'"
    using flush_batch_packs [OF last] css(1) by (metis less_imp_le)
  then show ?thesis
    using css ca' by (intro that [of "css @ css'" "bs @ bs'"]) (auto simp: chunks_of_def packed_def intro: list_all2_appendI)
qed

text \<open>The bundles of an export as a list of area, batch and bytes.\<close>

definition jobs_ok :: "dictionary \<Rightarrow> (area_tag \<times> rec list) list \<Rightarrow> bytes list \<Rightarrow> bool" where
  "jobs_ok d jobs bs \<longleftrightarrow> list_all2 (\<lambda>(area, cs) b. bundle_pack (area_batch area cs) d = Inr b) jobs bs \<and>
     (\<forall>(area, cs) \<in> set jobs. cs \<noteq> [] \<and> length cs \<le> MaxRecords)"

definition job_records :: "(area_tag \<times> rec list) list \<Rightarrow> area_tag \<Rightarrow> rec set" where
  "job_records jobs area = {r. \<exists>cs. (area, cs) \<in> set jobs \<and> r \<in> set cs}"

lemma job_records_append [simp]: "job_records (js @ ks) a = job_records js a \<union> job_records ks a"
  by (auto simp: job_records_def)

lemma jobs_of_packed:
  "chunks_of recs css \<Longrightarrow> packed d area css bs \<Longrightarrow> jobs_ok d (map (Pair area) css) bs \<and>
   (\<forall>a. job_records (map (Pair area) css) a = (if a = area then set recs else {}))"
  by (auto simp: chunks_of_def packed_def jobs_ok_def list_all2_map1 job_records_def image_iff)

lemma export_areas_jobs:
  "export_areas ex d opt areas ca = Inr ca' \<Longrightarrow>
   \<exists>jobs bs. jobs_ok d jobs bs \<and> ca_bundles ca' = ca_bundles ca @ bs \<and> ca_min_dictionary ca' = ca_min_dictionary ca \<and>
     (\<forall>a. job_records jobs a = (if a \<in> set (chosen_areas opt areas) then set (lacking ex (eo_reply opt) a) else {})) \<and>
     (\<forall>a. fmlookup (ca_vectors ca') a =
        (if a \<in> set (chosen_areas opt areas) then Some (ex_vector ex a) else fmlookup (ca_vectors ca) a))"
proof (induction ex d opt areas ca rule: export_areas.induct)
  case (1 ex d opt ca)
  then show ?case by (auto simp: jobs_ok_def job_records_def chosen_areas_def intro!: exI [of _ "[]"])
next
  case (2 ex d opt a as ca)
  obtain mid where mid: "export_area ex d opt a ca = Inr mid" "export_areas ex d opt as mid = Inr ca'"
    using "2.prems" by auto
  obtain jobs bs where later: "jobs_ok d jobs bs" "ca_bundles ca' = ca_bundles mid @ bs" "ca_min_dictionary ca' = ca_min_dictionary mid"
    "\<forall>a. job_records jobs a = (if a \<in> set (chosen_areas opt as) then set (lacking ex (eo_reply opt) a) else {})"
    "\<forall>a. fmlookup (ca_vectors ca') a = (if a \<in> set (chosen_areas opt as) then Some (ex_vector ex a) else fmlookup (ca_vectors mid) a)"
    using "2.IH" [OF mid(2)] by blast
  show ?case
  proof (cases "eo_areas opt = [] \<or> a \<in> set (eo_areas opt)")
    case False
    then have "mid = ca" using mid(1) by (simp add: export_area_def)
    moreover have "chosen_areas opt (a # as) = chosen_areas opt as" using False by (simp add: chosen_areas_def)
    ultimately show ?thesis using later by auto
  next
    case True
    obtain css cs where first: "chunks_of (lacking ex (eo_reply opt) a) css" "packed d a css cs"
      "ca_bundles mid = ca_bundles ca @ cs" "ca_vectors mid = fmupd a (ex_vector ex a) (ca_vectors ca)"
      "ca_min_dictionary mid = ca_min_dictionary ca"
      using export_area_packs [OF mid(1) True] by metis
    note j = jobs_of_packed [OF first(1,2)]
    have ch: "set (chosen_areas opt (a # as)) = insert a (set (chosen_areas opt as))"
      using True by (auto simp: chosen_areas_def)
    show ?thesis
      using later first j unfolding ch
      by (intro exI [of _ "map (Pair a) css @ jobs"] exI [of _ "cs @ bs"])
        (auto simp: jobs_ok_def intro: list_all2_appendI)
  qed
qed

section \<open>What an import applies\<close>

lemma dict_highest_upper:
  assumes "dict_get dicts k = Inr d"
  shows "k \<le> dict_highest dicts"
proof -
  have grow: "m \<le> fold (\<lambda>(k, _) mx. if k > mx then k else mx) xs m" for xs :: "(u8 \<times> dictionary) list" and m
  proof (induction xs arbitrary: m)
    case (Cons p xs)
    show ?case using Cons [of "if fst p > m then fst p else m"] by (cases p) (auto split: if_splits)
  qed simp
  have "k \<in> fst ` set xs \<Longrightarrow> k \<le> fold (\<lambda>(k, _) mx. if k > mx then k else mx) xs m" for xs :: "(u8 \<times> dictionary) list" and m
  proof (induction xs arbitrary: m)
    case (Cons p xs)
    show ?case
    proof (cases "k = fst p")
      case True
      then show ?thesis using grow [of "if k > m then k else m" xs] by (cases p) (auto split: if_splits)
    qed (use Cons in \<open>cases p; auto\<close>)
  qed simp
  moreover have "(k, d) \<in> set (fmap_items dicts)"
    using assms by (simp add: dict_get_def split: option.splits)
  then have "k \<in> fst ` set (fmap_items dicts)" by (rule image_eqI [rotated]) simp
  ultimately show ?thesis by (simp add: dict_highest_def)
qed

text \<open>
  256 records of at most 4,000 bytes fit the decompression bound, so their bundle unpacks; \<open>Pack\<close>
  itself would write larger ones.
\<close>

lemma body_bytes_short:
  assumes "list_all (record_wf c) (bn_records b)" and "\<forall>r \<in> set (bn_records b). length (record_marshal r) \<le> 4000"
    and "batch_wf c b" and "encode_body b = Inr p"
  shows "length p \<le> MaxDecompressed"
proof -
  let ?os = "origin_table (bn_records b)" and ?rs = "bn_records b"
  have "(\<Sum>r\<leftarrow>?rs. length (frame_record ?os (bn_base_ts b) r)) \<le> 4021 * length ?rs"
  proof (rule sum_list_bound)
    fix r assume "r \<in> set ?rs"
    then show "length (frame_record ?os (bn_base_ts b) r) \<le> 4021"
      using assms(2) append_uvarint_max [of "zigzag (ucast (r_ts r) - ucast (bn_base_ts b))"]
        append_uvarint_max [of "of_nat (length (record_marshal r))"]
      by (fastforce simp: frame_record_def append_varint_def)
  qed
  moreover have "length ?rs \<le> 256" "length ?os \<le> 64" using assms(3) by (simp_all add: batch_wf_def bundle_consts)
  ultimately show ?thesis
    using assms(4) append_uvarint_max [of "of_nat (length ?rs)"]
    by (auto simp: encode_body_ok length_concat o_def sum_list_triv MaxDecompressed_def)
qed

definition short_record :: "crypto \<Rightarrow> rec \<Rightarrow> bool" where
  "short_record c r \<longleftrightarrow> record_wf c r \<and> length (record_marshal r) \<le> 4000"

lemma job_unpacks:
  assumes "bundle_pack (area_batch area cs) d = Inr data" and "cs \<noteq> []" and "length cs \<le> MaxRecords"
    and "list_all (short_record c) cs" and "dict_get dicts (di_id d) = Inr d'"
    and "\<forall>x. length x \<le> MaxDecompressed \<longrightarrow> di_decode_all d' (di_compress d x) = Some x"
  shows "bundle_unpack c data dicts = Inr (area_batch area cs)"
proof -
  obtain p where p: "encode_body (area_batch area cs) = Inr p" using assms(1) by (auto simp: bundle_pack_def split: if_splits)
  have wf: "batch_wf c (area_batch area cs)"
    using p assms(2-4) by (auto simp: batch_wf_def area_batch_def encode_body_ok short_record_def list_all_iff)
  have "length p \<le> MaxDecompressed"
    by (rule body_bytes_short [OF _ _ wf p]) (use assms(4) in \<open>auto simp: area_batch_def short_record_def list_all_iff\<close>)
  then show ?thesis using bundle_unpack_packed [OF wf assms(1,5,6)] p by (simp add: body_bytes_def)
qed

lemma no_mail_grows: "gl_ok c g \<Longrightarrow> gl_apply c now g a recs = (n, err, h) \<Longrightarrow> no_mail area (gl_db g) \<Longrightarrow> no_mail area (gl_db h)"
  unfolding gl_apply_def by (rule gl_apply_no_mail)

lemma import_jobs:
  assumes "dict_get dicts (di_id d) = Inr d'" and "\<forall>x. length x \<le> MaxDecompressed \<longrightarrow> di_decode_all d' (di_compress d x) = Some x"
  shows "jobs_ok d jobs bs \<Longrightarrow> gl_ok c g \<Longrightarrow>
    (\<forall>(area, cs) \<in> set jobs. list_all (short_record c) cs \<and> list_all (takeable c g area) cs) \<Longrightarrow>
    ids_name_coordinates (gl_db g) (concat (map snd jobs)) \<Longrightarrow>
    import_bundles c (\<lambda>a recs g. gl_apply c now g a recs) dicts i bs res g = (res', err, h) \<Longrightarrow>
    err = None \<and> ir_rejected res' = ir_rejected res \<and> gl_ok c h \<and> log_grows g h \<and>
    (\<forall>a. rec_coordinate ` job_records jobs a \<subseteq> coordinate ` set (db_records (gl_db h))) \<and>
    (\<forall>a. no_mail a (gl_db g) \<longrightarrow> no_mail a (gl_db h))"
proof (induction jobs arbitrary: bs i res g)
  case Nil
  then show ?case by (auto simp: jobs_ok_def job_records_def)
next
  case (Cons job jobs)
  obtain area cs where job: "job = (area, cs)" by (cases job)
  obtain b bs' where bs: "bs = b # bs'" "bundle_pack (area_batch area cs) d = Inr b" "cs \<noteq> []" "length cs \<le> MaxRecords" "jobs_ok d jobs bs'"
    using Cons.prems(1) by (auto simp: jobs_ok_def job list_all2_Cons1)
  have un: "bundle_unpack c b dicts = Inr (area_batch area cs)"
    using job_unpacks [OF bs(2-4) _ assms] Cons.prems(3) job by auto
  obtain n e g1 where ap: "gl_apply c now g area cs = (n, e, g1)" by (metis prod_cases3)
  have loop: "gl_apply_loop c now area cs 0 g = (n, e, g1)" using ap by (simp add: gl_apply_def)
  have take: "list_all (takeable c g area) cs" using Cons.prems(3) job by auto
  have ids: "ids_name_coordinates (gl_db g) (cs @ concat (map snd jobs))" using Cons.prems(4) job by simp
  note one = gl_apply_takes_more [OF Cons.prems(2) take ids loop]
  have g1: "gl_ok c g1" "log_grows g g1"
    using gl_apply_ok [OF Cons.prems(2), of now area cs] gl_apply_grows [OF Cons.prems(2), of now area cs] ap by simp_all
  obtain res1 where rest: "import_bundles c (\<lambda>a recs g. gl_apply c now g a recs) dicts (i + 1) bs' res1 g1 = (res', err, h)"
      and res1: "ir_rejected res1 = ir_rejected res"
    using Cons.prems(5) un ap one by (auto simp: bs(1) area_batch_def)
  have "\<forall>(area, cs) \<in> set jobs. list_all (short_record c) cs \<and> list_all (takeable c g1 area) cs"
    using Cons.prems(3) takeable_mono [OF g1(2)] by (fastforce simp: list_all_iff)
  note ih = Cons.IH [OF bs(5) g1(1) this conjunct2 [OF conjunct2 [OF one]] rest]
  then have grow: "log_grows g1 h" by blast
  then have "coordinate ` set (db_records (gl_db g1)) \<subseteq> coordinate ` set (db_records (gl_db h))"
    by (auto simp: log_grows_def)
  moreover have "job_records (job # jobs) a = (if a = area then set cs else {}) \<union> job_records jobs a" for a
    by (auto simp: job_records_def job)
  ultimately have "\<forall>a. rec_coordinate ` job_records (job # jobs) a \<subseteq> coordinate ` set (db_records (gl_db h))"
    using ih one by (simp add: image_Un) blast
  then show ?case
    using ih log_grows_trans [OF g1(2) grow] no_mail_grows [OF Cons.prems(2) ap] res1 by auto
qed

lemma import_alike:
  "ir_bundles res = ir_bundles res' \<Longrightarrow> ir_records res = ir_records res' \<Longrightarrow>
   import_bundles c app dicts i raws res s = (r, e, t) \<Longrightarrow> import_bundles c app dicts j raws res' s = (r', e', t') \<Longrightarrow>
   t = t' \<and> ir_bundles r = ir_bundles r' \<and> ir_records r = ir_records r' \<and> (e = None \<longleftrightarrow> e' = None) \<and>
   length (ir_rejected r) + length (ir_rejected res') = length (ir_rejected r') + length (ir_rejected res)"
proof (induction raws arbitrary: i j res res' s)
  case (Cons raw raws)
  show ?case
  proof (cases "bundle_unpack c raw dicts")
    case (Inl x)
    then show ?thesis
      using Cons.IH [of "res\<lparr>ir_rejected := ir_rejected res @ [(i + 1, x)]\<rparr>"
          "res'\<lparr>ir_rejected := ir_rejected res' @ [(j + 1, x)]\<rparr>" "i + 1" s "j + 1"] Cons.prems by simp
  next
    case (Inr b)
    obtain n err u where ap: "app (bn_area b) (bn_records b) s = (n, err, u)" by (metis prod_cases3)
    show ?thesis
    proof (cases err)
      case None
      then show ?thesis
        using Cons.IH [of "res\<lparr>ir_bundles := ir_bundles res + 1, ir_records := ir_records res + n\<rparr>"
            "res'\<lparr>ir_bundles := ir_bundles res' + 1, ir_records := ir_records res' + n\<rparr>" "i + 1" u "j + 1"] Cons.prems Inr ap
        by simp
    qed (use Cons.prems Inr ap in auto)
  qed
qed simp

lemma import_bundles_append:
  "import_bundles c app dicts i (xs @ ys) res s =
     (case import_bundles c app dicts i xs res s of
        (r, Some e, t) \<Rightarrow> (r, Some e, t)
      | (r, None, t) \<Rightarrow> import_bundles c app dicts (i + length xs) ys r t)"
  by (induction xs arbitrary: i res s) (auto split: sum.splits prod.splits option.splits)

section \<open>Properties of the hand-off\<close>

text \<open>
  A damaged bundle costs only itself. Where one bundle of a carrier does not unpack, the import
  leaves the store, the counts of bundles and records and whether it fails exactly as if that
  bundle were not on the stick, and reports one rejection more when it ends. And a
  carrier declaring a dictionary newer than the reader's is refused with the store untouched.
\<close>

theorem damaged_bundle_skipped:
  assumes "bundle_unpack c raw dicts = Inl bad" and "ca_bundles ca = xs @ raw # ys"
    and "carrier_import c app dicts ca s = (res, err, t)"
    and "carrier_import c app dicts (ca\<lparr>ca_bundles := xs @ ys\<rparr>) s = (res', err', t')"
  shows "t = t' \<and> ir_bundles res = ir_bundles res' \<and> ir_records res = ir_records res' \<and> (err = None \<longleftrightarrow> err' = None) \<and>
    (err = None \<longrightarrow> length (ir_rejected res) = Suc (length (ir_rejected res'))) \<and>
    (dict_highest dicts < ca_min_dictionary ca \<longrightarrow> t = s \<and> err = Some (HUnknownDictionary (ca_min_dictionary ca)))"
proof (cases "dict_highest dicts < ca_min_dictionary ca")
  case True
  then show ?thesis using assms(3,4) by (auto simp: carrier_import_def)
next
  case False
  obtain r e u where front: "import_bundles c app dicts 0 xs no_import s = (r, e, u)" by (metis prod_cases3)
  show ?thesis
  proof (cases e)
    case (Some x)
    then show ?thesis using assms False front by (auto simp: carrier_import_def import_bundles_append)
  next
    case None
    have "import_bundles c app dicts (length xs + 1) ys (r\<lparr>ir_rejected := ir_rejected r @ [(length xs + 1, bad)]\<rparr>) u = (res, err, t)"
      "import_bundles c app dicts (length xs) ys r u = (res', err', t')"
      using assms False front None by (simp_all add: carrier_import_def import_bundles_append)
    from import_alike [OF _ _ this] show ?thesis using False by simp
  qed
qed

definition log_exporter :: "crypto \<Rightarrow> gossip_log \<Rightarrow> exporter" where
  "log_exporter c g = \<lparr>ex_areas = gl_federated g, ex_vector = gl_vector g, ex_records = gl_records c g\<rparr>"

definition short_rows :: "area_tag \<Rightarrow> log_db \<Rightarrow> bool" where
  "short_rows area db \<longleftrightarrow> (\<forall>x \<in> set (served_rows area db). length (lr_signed x) \<le> 3936)"

lemma log_exporter_sel [simp]:
  "ex_areas (log_exporter c g) = gl_federated g" "ex_vector (log_exporter c g) = gl_vector g"
  by (simp_all add: log_exporter_def)

lemma lacking_served: "lacking (log_exporter c g) reply area = served_for c g area (their_vector reply area)"
  by (simp add: lacking_def log_exporter_def served_for_def)

lemma served_for_short:
  assumes "board_ok c b" and "short_rows area (gl_db b)"
  shows "list_all (short_record c) (served_for c b area v)"
  unfolding list_all_iff
proof
  have b: "rows_wf c (gl_db b)" "rows_authentic c (gl_db b)" using assms(1) by (simp_all add: board_ok_def gl_ok_def)
  fix r assume "r \<in> set (served_for c b area v)"
  then obtain rg where "r \<in> set (gl_records c b area rg)" by (auto simp: served_for_def)
  then obtain x where x: "x \<in> set (served_rows area (gl_db b))" "row_record c x = Inr r"
    by (rule served_record [OF b]) blast
  then obtain r' now n where r': "x = row_of r' now n" "record_wf c r'" using b(1) by (auto simp: rows_wf_def served_rows_set)
  then have "r' = r" using x(2) row_record_wf by auto
  then show "short_record c r" using r' x(1) assms(2) by (auto simp: short_record_def short_rows_def record_marshal_def)
qed

lemma exports_jobs:
  assumes "carrier_export (log_exporter c g) d opt = Inr ca"
  obtains jobs where "jobs_ok d jobs (ca_bundles ca)" "ca_min_dictionary ca = di_id d"
    "\<And>a. job_records jobs a =
      (if a \<in> set (chosen_areas opt (gl_federated g)) then set (served_for c g a (their_vector (eo_reply opt) a)) else {})"
    "\<And>a. fmlookup (ca_vectors ca) a = (if a \<in> set (chosen_areas opt (gl_federated g)) then Some (gl_vector g a) else None)"
proof -
  obtain jobs bs where j: "jobs_ok d jobs bs" "ca_bundles ca = [] @ bs" "ca_min_dictionary ca = di_id d"
    "\<forall>a. job_records jobs a = (if a \<in> set (chosen_areas opt (ex_areas (log_exporter c g)))
       then set (lacking (log_exporter c g) (eo_reply opt) a) else {})"
    "\<forall>a. fmlookup (ca_vectors ca) a = (if a \<in> set (chosen_areas opt (ex_areas (log_exporter c g)))
       then Some (ex_vector (log_exporter c g) a) else fmlookup fmempty a)"
    using export_areas_jobs [OF assms [unfolded carrier_export_def]] by auto
  show ?thesis
  proof (rule that)
    show "jobs_ok d jobs (ca_bundles ca)" "ca_min_dictionary ca = di_id d" using j by simp_all
  qed (use j(4,5) in \<open>simp_all add: lacking_served\<close>)
qed

text \<open>All a carrier's records together meet what \<open>Apply\<close> needs of them.\<close>

lemma served_jobs_named:
  assumes "board_ok c b" and "no_collisions (gl_db a) (gl_db b)"
    and "\<And>area r. r \<in> job_records jobs area \<Longrightarrow> \<exists>v. r \<in> set (served_for c b area v)"
  shows "ids_name_coordinates (gl_db a) (concat (map snd jobs))"
proof -
  have b: "rows_wf c (gl_db b)" "rows_authentic c (gl_db b)" using assms(1) by (simp_all add: board_ok_def gl_ok_def)
  have "(r_id r, rec_coordinate r) \<in> (\<lambda>x. (lr_id x, coordinate x)) ` set (db_records (gl_db b))"
    if r: "r \<in> set (concat (map snd jobs))" for r
  proof -
    obtain area cs where "(area, cs) \<in> set jobs" "r \<in> set cs" using r by auto
    then have "r \<in> job_records jobs area" by (auto simp: job_records_def)
    then obtain v where "r \<in> set (served_for c b area v)" using assms(3) by blast
    then obtain rg where "r \<in> set (gl_records c b area rg)" by (auto simp: served_for_def)
    then obtain x where x: "x \<in> set (served_rows area (gl_db b))" "lr_id x = r_id r" "coordinate x = rec_coordinate r"
      by (rule served_record [OF b]) blast
    show ?thesis by (rule image_eqI [of _ _ x]) (use x in \<open>simp_all add: served_rows_set\<close>)
  qed
  then have "named_coordinates (gl_db a) (concat (map snd jobs)) \<subseteq>
      (\<lambda>x. (lr_id x, coordinate x)) ` (set (db_records (gl_db a)) \<union> set (db_records (gl_db b)))"
    unfolding named_coordinates_def by blast
  then show ?thesis
    using assms(2) single_valued_subset unfolding no_collisions_def ids_name_coordinates_def by blast
qed

text \<open>
  C3. A hand-off in two legs catches a board up. Board \<open>a\<close> writes a carrier, board \<open>b\<close> answers it
  from \<open>a\<close>'s vectors alone, \<open>a\<close> imports the answer: no bundle is rejected, nothing fails, the log
  stays sound, and in every area both carriers cover \<open>a\<close>'s mark of each origin reaches \<open>b\<close>'s or moves
  on by a page of 256 records, whichever is less. For sound logs without colliding IDs, a board \<open>a\<close> that
  can check what \<open>b\<close> serves, records of at most 4,000 bytes, and a decoder that gives back what was
  compressed up to its memory limit. Larger records can exceed that limit (\<open>bundle_pack_unpack\<close>).
\<close>

theorem hand_off_catches_up:
  assumes "gl_ok c a" and "board_ok c b" and "no_collisions (gl_db a) (gl_db b)"
    and "\<forall>area \<in> set (chosen_areas opt_b (gl_federated b)). can_check c a b area \<and> short_rows area (gl_db b)"
    and "dict_get dicts (di_id d) = Inr d'" and "\<forall>x. length x \<le> MaxDecompressed \<longrightarrow> di_decode_all d' (di_compress d x) = Some x"
    and "carrier_export (log_exporter c a) d_a opt_a = Inr ask"
    and "carrier_export (log_exporter c b) d opt_b = Inr answer" and "eo_reply opt_b = Some ask"
    and "carrier_import c (\<lambda>area recs g. gl_apply c now g area recs) dicts answer a = (res, err, a')"
    and "area \<in> set (chosen_areas opt_a (gl_federated a))" and "area \<in> set (chosen_areas opt_b (gl_federated b))"
    and "no_mail area (gl_db a)"
  shows "err = None \<and> ir_rejected res = [] \<and> gl_ok c a' \<and>
    min (unat (vv_get (gl_vector b area) origin)) (unat (vv_get (gl_vector a area) origin) + maxRecordsPerRange)
      \<le> unat (vv_get (gl_vector a' area) origin)"
proof -
  obtain jobs where jobs: "jobs_ok d jobs (ca_bundles answer)" "ca_min_dictionary answer = di_id d"
    "\<And>x. job_records jobs x = (if x \<in> set (chosen_areas opt_b (gl_federated b))
       then set (served_for c b x (their_vector (Some ask) x)) else {})"
    using exports_jobs [OF assms(8)] unfolding assms(9) by metis
  have theirs: "their_vector (Some ask) area = gl_vector a area"
    using exports_jobs [OF assms(7)] assms(11) by (metis (no_types, lifting) option.simps(5) their_vector_def)
  have "list_all (short_record c) cs \<and> list_all (takeable c a x) cs" if "(x, cs) \<in> set jobs" for x cs
  proof -
    have sub: "set cs \<subseteq> job_records jobs x" using that by (auto simp: job_records_def)
    moreover have "cs \<noteq> []" using jobs(1) that by (auto simp: jobs_ok_def)
    ultimately have x: "x \<in> set (chosen_areas opt_b (gl_federated b))" using jobs(3) [of x] by (cases cs) (auto split: if_splits)
    then have "set cs \<subseteq> set (served_for c b x (their_vector (Some ask) x))" using sub jobs(3) by simp
    then show ?thesis
      using served_for_short [OF assms(2)] served_for_takeable(1) [OF assms(2) _ assms(3)] assms(4) x
      by (fastforce simp: list_all_iff)
  qed
  then have checked: "\<forall>(x, cs) \<in> set jobs. list_all (short_record c) cs \<and> list_all (takeable c a x) cs" by blast
  have named: "ids_name_coordinates (gl_db a) (concat (map snd jobs))"
    by (rule served_jobs_named [OF assms(2,3)]) (use jobs(3) in \<open>auto split: if_splits\<close>)
  have "import_bundles c (\<lambda>area recs g. gl_apply c now g area recs) dicts 0 (ca_bundles answer) no_import a = (res, err, a')"
    using assms(10) leD [OF dict_highest_upper [OF assms(5)]] jobs(2) by (simp add: carrier_import_def)
  note imported = import_jobs [OF assms(5,6) jobs(1) assms(1) checked named this]
  then have "rec_coordinate ` set (served_for c b area (gl_vector a area)) \<subseteq> coordinate ` set (db_records (gl_db a'))"
    using jobs(3) [of area] assms(12) theirs by metis
  then have "min (unat (vv_get (gl_vector b area) origin)) (unat (vv_get (gl_vector a area) origin) + maxRecordsPerRange)
      \<le> unat (vv_get (gl_vector a' area) origin)"
    using marks_reach [OF assms(1,2)] imported assms(13) by blast
  then show ?thesis using imported by (simp add: no_import_def)
qed

theorem damaged_bundle_skipped_witness:
  "\<exists>res t. carrier_import toy_crypto (\<lambda>_ _ n. (0, None, n + 1)) (fmupd 0 stored_dictionary fmempty)
      (toy_carrier\<lparr>ca_bundles := [[1, 2], []]\<rparr>) (0 :: nat) = (res, None, t) \<and> t = 0"
proof -
  let ?app = "\<lambda>_ _ n. (0, None, n + 1 :: nat)" and ?d = "fmupd 0 stored_dictionary fmempty"
  have bad: "bundle_unpack toy_crypto [1, 2] ?d = Inl BTruncated" "bundle_unpack toy_crypto [] ?d = Inl BTruncated"
    by (simp_all add: bundle_unpack_def)
  have min: "ca_min_dictionary (toy_carrier\<lparr>ca_bundles := bs\<rparr>) \<le> dict_highest ?d" for bs by (simp add: toy_carrier_def)
  obtain res err t where whole: "carrier_import toy_crypto ?app ?d (toy_carrier\<lparr>ca_bundles := [[1, 2], []]\<rparr>) 0 = (res, err, t)"
    by (metis prod_cases3)
  have "carrier_import toy_crypto ?app ?d (toy_carrier\<lparr>ca_bundles := [[1, 2], []], ca_bundles := [[1, 2]] @ []\<rparr>) 0
      = (no_import\<lparr>ir_rejected := [(1, BTruncated)]\<rparr>, None, 0)"
    using min [of "[[1, 2]]"] bad by (simp add: carrier_import_def no_import_def)
  from damaged_bundle_skipped [OF bad(2), of "toy_carrier\<lparr>ca_bundles := [[1, 2], []]\<rparr>" "[[1, 2]]" "[]", OF _ whole this]
  show ?thesis using whole by auto
qed

definition toy_options :: "carrier option \<Rightarrow> export_options" where
  "toy_options reply = \<lparr>eo_self = zero_array, eo_now = 7, eo_reply = reply, eo_areas = [], eo_blobs = [], eo_requests = []\<rparr>"

text \<open>The limit, a large number in unary, plays no part in the evaluation of an export.\<close>

declare MaxDecompressed_def [code del]

lemma toy_exports:
  "\<exists>ask answer. carrier_export (log_exporter toy_crypto toy_log) stored_dictionary (toy_options None) = Inr ask \<and>
     carrier_export (log_exporter toy_crypto toy_board) stored_dictionary (toy_options (Some ask)) = Inr answer"
proof -
  let ?ask = "carrier_export (log_exporter toy_crypto toy_log) stored_dictionary (toy_options None)"
  have "case ?ask of Inl _ \<Rightarrow> False | Inr ask \<Rightarrow>
      (case carrier_export (log_exporter toy_crypto toy_board) stored_dictionary (toy_options (Some ask)) of Inl _ \<Rightarrow> False | Inr _ \<Rightarrow> True)"
    by code_simp
  then show ?thesis by (auto split: sum.splits)
qed

declare MaxDecompressed_def [code]

lemma toy_board_areas: "gl_federated toy_board = [zero_array]" "gl_federated toy_log = [zero_array]"
  by code_simp+

lemma toy_short: "short_rows zero_array (gl_db toy_board)"
  by code_simp

theorem hand_off_catches_up_witness:
  "\<exists>ask answer res a'. carrier_export (log_exporter toy_crypto toy_log) stored_dictionary (toy_options None) = Inr ask \<and>
     carrier_export (log_exporter toy_crypto toy_board) stored_dictionary (toy_options (Some ask)) = Inr answer \<and>
     carrier_import toy_crypto (\<lambda>area recs g. gl_apply toy_crypto 9 g area recs) (fmupd 0 stored_dictionary fmempty) answer toy_log
       = (res, None, a') \<and>
     min (unat (vv_get (gl_vector toy_board zero_array) (node_key_id toy_crypto toy_key)))
         (unat (vv_get (gl_vector toy_log zero_array) (node_key_id toy_crypto toy_key)) + maxRecordsPerRange)
       \<le> unat (vv_get (gl_vector a' zero_array) (node_key_id toy_crypto toy_key))"
proof -
  obtain ask answer where ex: "carrier_export (log_exporter toy_crypto toy_log) stored_dictionary (toy_options None) = Inr ask"
      "carrier_export (log_exporter toy_crypto toy_board) stored_dictionary (toy_options (Some ask)) = Inr answer"
    using toy_exports by blast
  obtain res err a' where im: "carrier_import toy_crypto (\<lambda>area recs g. gl_apply toy_crypto 9 g area recs)
      (fmupd 0 stored_dictionary fmempty) answer toy_log = (res, err, a')" by (metis prod_cases3)
  have areas: "chosen_areas (toy_options r) [zero_array] = [zero_array]" for r by (simp add: chosen_areas_def toy_options_def)
  have dict: "dict_get (fmupd 0 stored_dictionary fmempty) (di_id stored_dictionary) = Inr stored_dictionary"
    by (simp add: dict_get_def)
  have reply: "eo_reply (toy_options (Some ask)) = Some ask" by (simp add: toy_options_def)
  have ok: "\<forall>area \<in> set (chosen_areas (toy_options (Some ask)) (gl_federated toy_board)).
      can_check toy_crypto toy_log toy_board area \<and> short_rows area (gl_db toy_board)"
    using toy_can_check toy_short by (simp add: toy_board_areas areas)
  have "zero_array \<in> set (chosen_areas (toy_options None) (gl_federated toy_log))"
    "zero_array \<in> set (chosen_areas (toy_options (Some ask)) (gl_federated toy_board))" "no_mail zero_array (gl_db toy_log)"
    by (simp_all add: toy_board_areas areas no_mail_def toy_log_sel new_db_def)
  from hand_off_catches_up [OF toy_log_ok toy_board_ok toy_no_collisions ok dict stored_recovers ex reply im this]
  show ?thesis using ex im by blast
qed

section \<open>Choosing the files\<close>

definition wanted_file :: "blob_store \<Rightarrow> blob_hash fset \<Rightarrow> wire_hash list \<Rightarrow> held_file \<Rightarrow> bool" where
  "wanted_file held theyHave wanted f \<longleftrightarrow> hf_hash f |\<notin>| theyHave \<and> (wanted = [] \<or> wire_hash_of (hf_hash f) \<in> set wanted) \<and>
     (\<exists>sz. blob_size held (hf_hash f) = Some sz \<and> sz \<le> unat MaxBlobBytes)"

lemma choose_files_result:
  "choose_files held have' wanted fs refs skipped = (refs', skipped') \<Longrightarrow> distinct (map br_hash refs) \<Longrightarrow> length refs \<le> MaxBlobRefs \<Longrightarrow>
   (\<exists>new. refs' = refs @ new \<and> (\<forall>r \<in> set new. \<exists>f \<in> set fs. hf_hash f = br_hash r \<and> wanted_file held have' wanted f \<and>
      blob_size held (br_hash r) = Some (unat (br_size r)))) \<and>
   distinct (map br_hash refs') \<and> length refs' \<le> MaxBlobRefs \<and>
   (length refs' < MaxBlobRefs \<longrightarrow> (\<forall>f \<in> set fs. wanted_file held have' wanted f \<longrightarrow> hf_hash f \<in> br_hash ` set refs'))"
proof (induction held have' wanted fs refs skipped arbitrary: refs' skipped' rule: choose_files.induct)
  case (2 held have' wanted f fs refs skipped)
  let ?h = "hf_hash f"
  consider (seen) "?h \<in> br_hash ` set refs \<or> ?h |\<in>| have'"
    | (unwanted) "\<not> (?h \<in> br_hash ` set refs \<or> ?h |\<in>| have')" "wanted \<noteq> [] \<and> wire_hash_of ?h \<notin> set wanted"
    | (chosen) "\<not> (?h \<in> br_hash ` set refs \<or> ?h |\<in>| have')" "\<not> (wanted \<noteq> [] \<and> wire_hash_of ?h \<notin> set wanted)" by blast
  then show ?case
  proof cases
    case seen
    then have "choose_files held have' wanted fs refs skipped = (refs', skipped')" using "2.prems"(1) by simp
    from "2.IH"(1) [OF seen this "2.prems"(2,3)] show ?thesis using seen by (fastforce simp: wanted_file_def)
  next
    case unwanted
    then have "choose_files held have' wanted fs refs skipped = (refs', skipped')" using "2.prems"(1) by simp
    from "2.IH"(2) [OF unwanted this "2.prems"(2,3)] show ?thesis using unwanted by (fastforce simp: wanted_file_def)
  next
    case chosen
    show ?thesis
    proof (cases "blob_size held ?h")
      case None
      then have "choose_files held have' wanted fs refs skipped = (refs', skipped')" using "2.prems"(1) chosen by simp
      from "2.IH"(3) [OF chosen None this "2.prems"(2,3)] show ?thesis using None by (fastforce simp: wanted_file_def)
    next
      case (Some sz)
      show ?thesis
      proof (cases "sz > unat MaxBlobBytes")
        case True
        then have "choose_files held have' wanted fs refs (skipped @ [SkipTooLarge (hf_name f) sz]) = (refs', skipped')"
          using "2.prems"(1) chosen Some by simp
        from "2.IH"(4) [OF chosen Some True this "2.prems"(2,3)] show ?thesis
          using Some True by (fastforce simp: wanted_file_def)
      next
        case small: False
        show ?thesis
        proof (cases "length refs \<ge> MaxBlobRefs")
          case True
          then have "refs' = refs" using "2.prems"(1) chosen Some small by simp
          then show ?thesis using "2.prems" True by auto
        next
          case room: False
          let ?r = "\<lparr>br_hash = ?h, br_size = of_nat sz\<rparr> :: blob_ref"
          have go: "choose_files held have' wanted fs (refs @ [?r]) skipped = (refs', skipped')"
            using "2.prems"(1) chosen Some small room by simp
          have sz: "unat (of_nat sz :: u64) = sz"
            using small unat_u64_less [of MaxBlobBytes] by (simp add: unat_of_nat)
          have w: "wanted_file held have' wanted f" using chosen Some small by (auto simp: wanted_file_def)
          obtain new where new: "refs' = (refs @ [?r]) @ new" "\<forall>r \<in> set new. \<exists>f \<in> set fs. hf_hash f = br_hash r \<and>
              wanted_file held have' wanted f \<and> blob_size held (br_hash r) = Some (unat (br_size r))"
            and rest: "distinct (map br_hash refs')" "length refs' \<le> MaxBlobRefs"
              "length refs' < MaxBlobRefs \<longrightarrow> (\<forall>f \<in> set fs. wanted_file held have' wanted f \<longrightarrow> hf_hash f \<in> br_hash ` set refs')"
            using "2.IH"(5) [OF chosen Some small room go] "2.prems"(2,3) chosen room by auto
          have "\<forall>r \<in> set (?r # new). \<exists>f' \<in> set (f # fs). hf_hash f' = br_hash r \<and> wanted_file held have' wanted f' \<and>
              blob_size held (br_hash r) = Some (unat (br_size r))" using new(2) w Some sz by auto
          moreover have "refs' = refs @ ?r # new" using new(1) by simp
          ultimately show ?thesis using rest by (intro conjI exI [of _ "?r # new"]) auto
        qed
      qed
    qed
  qed
qed simp

text \<open>
  The stick takes what was asked for and nothing else. The references chosen are distinct, at
  most 256, each a held file the other side does not have, wanted where anything was asked for,
  within the size limit and with its true size; unless the 256 are used up, no such file is left out;
  and a request is reported unanswered exactly when no chosen file carries its hash.
\<close>

theorem stick_takes_what_is_wanted:
  assumes "blobs_to_carry files held theyHave wanted = plan"
  shows "distinct (map br_hash (bp_refs plan)) \<and> length (bp_refs plan) \<le> MaxBlobRefs \<and>
    (\<forall>r \<in> set (bp_refs plan). \<exists>f \<in> set files. hf_hash f = br_hash r \<and> wanted_file held theyHave wanted f \<and>
       blob_size held (br_hash r) = Some (unat (br_size r))) \<and>
    (length (bp_refs plan) < MaxBlobRefs \<longrightarrow>
       (\<forall>f \<in> set files. wanted_file held theyHave wanted f \<longrightarrow> hf_hash f \<in> br_hash ` set (bp_refs plan))) \<and>
    (\<forall>h. h \<in> set (bp_unanswered plan) \<longleftrightarrow> h \<in> set wanted \<and> (\<forall>r \<in> set (bp_refs plan). wire_hash_of (br_hash r) \<noteq> h))"
proof -
  obtain refs skipped where ch: "choose_files held theyHave wanted files [] [] = (refs, skipped)" by force
  then have "bp_refs plan = refs" "bp_unanswered plan = filter (\<lambda>h. h \<notin> set (map (\<lambda>r. wire_hash_of (br_hash r)) refs)) wanted"
    using assms by (auto simp: blobs_to_carry_def)
  then show ?thesis using choose_files_result [OF ch] by auto
qed

theorem stick_takes_what_is_wanted_witness:
  "br_hash ` set (bp_refs (blobs_to_carry [\<lparr>hf_name = [97], hf_hash = br_hash toy_blob\<rparr>]
      (fmupd (br_hash toy_blob) [1, 2, 3] fmempty) {||} [])) = {br_hash toy_blob}"
proof -
  let ?f = "\<lparr>hf_name = [97], hf_hash = br_hash toy_blob\<rparr>" and ?held = "fmupd (br_hash toy_blob) [1, 2, 3 :: u8] fmempty"
  let ?plan = "blobs_to_carry [?f] ?held {||} []"
  have "wanted_file ?held {||} [] ?f" by (simp add: wanted_file_def blob_size_def carrier_consts)
  moreover have "length (bp_refs ?plan) < MaxBlobRefs"
    by (simp add: blobs_to_carry_def blob_size_def carrier_consts)
  moreover note plan = stick_takes_what_is_wanted [OF refl, of "[?f]" ?held "{||}" "[]"]
  ultimately have "br_hash toy_blob \<in> br_hash ` set (bp_refs ?plan)" by (metis held_file.select_convs(2) list.set_intros(1))
  moreover have "br_hash r = br_hash toy_blob" if "r \<in> set (bp_refs ?plan)" for r
    using plan that by (metis held_file.select_convs(2) list.set(1) list.set(2) singletonD)
  ultimately show ?thesis by blast
qed

end
