(* ===== verification/Forum.thy ===== *)
theory Forum
  imports LogStore Labels "HOL-Library.List_Lexorder"
begin

text \<open>
  The bulletin board's side of the database: the areas and post bodies of \<open>internal/store/forum.go\<close>
  and the accounts and capabilities of \<open>internal/store/users.go\<close>, on the tables of \<open>LogStore\<close>.
  A text column is the list of its bytes; \<open>COLLATE NOCASE\<close> folds ASCII letters. Failures of the
  disk are left out, the clock is the argument \<open>now\<close>.

  Shown: area names and tags stay unique and never take the tag of the roster, the directory or
  private mail; an account has \<open>post_federated\<close> only if it was asked for or granted; a post
  body is read back as written; and a listing holds the oldest posts of an area, not the newest.

  Left out: airtime shares, retention, SSH keys.
\<close>

section \<open>Text\<close>

definition ascii :: "string \<Rightarrow> bytes" where
  "ascii s = map (\<lambda>ch. of_nat (of_char ch)) s"

text \<open>\<open>unicode.IsSpace\<close>, and \<open>strings.TrimSpace\<close> from the left and from the right.\<close>

definition is_space :: "nat \<Rightarrow> bool" where
  "is_space r \<longleftrightarrow>
     (if r \<le> 0xFF then r \<in> {0x09, 0x0A, 0x0B, 0x0C, 0x0D, 0x20, 0x85, 0xA0}
      else r \<in> {0x1680, 0x2028, 0x2029, 0x202F, 0x205F, 0x3000} \<or> 0x2000 \<le> r \<and> r \<le> 0x200A)"

function trim_left :: "bytes \<Rightarrow> bytes" where
  "trim_left s =
     (if s = [] then []
      else let (r, w) = utf8_decode_rune s in if is_space r then trim_left (drop w s) else s)"
  by pat_completeness auto
termination
proof (relation "measure length")
  fix s x and r w :: nat
  assume "s \<noteq> []" "x = utf8_decode_rune s" "(r, w) = x"
  then show "(drop w s, s) \<in> measure length"
    using utf8_decode_width [of s] by (auto simp: prod_eq_iff)
qed simp

declare trim_left.simps [simp del]

text \<open>\<open>utf8.DecodeLastRune\<close>: it steps back from the last byte to a byte that starts a rune, four bytes at most.\<close>

definition rune_start :: "byte \<Rightarrow> bool" where
  "rune_start b \<longleftrightarrow> \<not> (0x80 \<le> unat b \<and> unat b < 0xC0)"

definition last_rune_start :: "bytes \<Rightarrow> nat" where
  "last_rune_start s =
     (case find (\<lambda>k. rune_start (s ! (length s - k))) [2..<Suc (min 4 (length s))] of
        Some k \<Rightarrow> length s - k
      | None \<Rightarrow> length s - 5)"

definition utf8_decode_last_rune :: "bytes \<Rightarrow> nat \<times> nat" where
  "utf8_decode_last_rune s =
     (if s = [] then (rune_error, 0)
      else if unat (last s) < 0x80 then (unat (last s), 1)
      else let start = last_rune_start s; (r, w) = utf8_decode_rune (drop start s)
        in if start + w \<noteq> length s then (rune_error, 1) else (r, w))"

lemma find_SomeD: "find P xs = Some x \<Longrightarrow> x \<in> set xs \<and> P x"
  by (induction xs) (auto split: if_splits)

lemma last_rune_start_less: "s \<noteq> [] \<Longrightarrow> last_rune_start s < length s"
  by (auto simp: last_rune_start_def split: option.splits dest!: find_SomeD simp del: upt_Suc)

lemma utf8_decode_last_width: "s \<noteq> [] \<Longrightarrow> 0 < snd (utf8_decode_last_rune s)"
  using utf8_decode_width [of "drop (last_rune_start s) s"] last_rune_start_less [of s]
  by (auto simp: utf8_decode_last_rune_def Let_def split: prod.splits)

function trim_right :: "bytes \<Rightarrow> bytes" where
  "trim_right s =
     (if s = [] then []
      else let (r, w) = utf8_decode_last_rune s in if is_space r then trim_right (take (length s - w) s) else s)"
  by pat_completeness auto
termination
proof (relation "measure length")
  fix s x and r w :: nat
  assume "s \<noteq> []" "x = utf8_decode_last_rune s" "(r, w) = x"
  then show "(take (length s - w) s, s) \<in> measure length"
    using utf8_decode_last_width [of s] by (auto simp: prod_eq_iff)
qed simp

declare trim_right.simps [simp del]

definition trim_space :: "bytes \<Rightarrow> bytes" where
  "trim_space s = trim_right (trim_left s)"

text \<open>\<open>strings.TrimRight(s, "\n")\<close>; \<open>strings.ToLower\<close> of an ASCII string, which is also the fold of \<open>NOCASE\<close>.\<close>

definition trim_newlines :: "bytes \<Rightarrow> bytes" where
  "trim_newlines s = rev (dropWhile (\<lambda>b. b = 0x0A) (rev s))"

definition ascii_lower :: "bytes \<Rightarrow> bytes" where
  "ascii_lower s = map (\<lambda>b. if 0x41 \<le> b \<and> b \<le> 0x5A then b + 0x20 else b) s"

definition nocase_eq :: "bytes \<Rightarrow> bytes \<Rightarrow> bool" where
  "nocase_eq a b \<longleftrightarrow> ascii_lower a = ascii_lower b"

definition ascii_letter :: "nat \<Rightarrow> bool" where
  "ascii_letter r \<longleftrightarrow> 0x61 \<le> r \<and> r \<le> 0x7A \<or> 0x41 \<le> r \<and> r \<le> 0x5A"

definition ascii_digit :: "nat \<Rightarrow> bool" where
  "ascii_digit r \<longleftrightarrow> 0x30 \<le> r \<and> r \<le> 0x39"

section \<open>Tables\<close>

record forum_area =
  fa_id :: nat
  fa_name :: bytes
  fa_tag :: "4 barray"
  fa_kind :: area_kind
  fa_description :: bytes
  fa_federated :: bool
  fa_read_only :: bool
  fa_created_at :: int

record user =
  us_id :: nat
  us_nick :: bytes
  us_display_name :: bytes
  us_password_hash :: bytes
  us_directory_listed :: bool
  us_is_sysop :: bool
  us_can_login :: bool
  us_created_at :: int

record audit_entry =
  au_actor :: bytes
  au_action :: bytes
  au_target :: bytes
  au_detail :: bytes

text \<open>
  The database: the log of \<open>LogStore\<close>, whose \<open>db_areas\<close> holds the three columns of the areas
  that the gossip store reads, and the tables of the board.
\<close>

record board =
  bo_log :: log_db
  bo_areas :: "forum_area list"
  bo_area_ids :: nat
  bo_users :: "user list"
  bo_user_ids :: nat
  bo_caps :: "(nat \<times> bytes) list"
  bo_authors :: "(record_id, bytes \<times> bytes) fmap"
  bo_audit :: "audit_entry list"

datatype board_error =
    Missing
  | AreaNameLength nat
  | AreaNameChar nat
  | AreaNameReserved bytes
  | AreaExists bytes
  | WrongAreaKind area_kind
  | NickLength nat
  | NickFirst
  | NickChar nat
  | NickReserved bytes
  | NickTaken bytes
  | UnknownCapability bytes
  | GrantTwice bytes
  | NotPermitted bytes
  | PostEmpty
  | AuthorTooLong nat
  | SubjectTooLong nat
  | NoEvents
  | NoLongerFederated bytes
  | InLog store_error
  | InRecord record_error

definition area_view :: "forum_area \<Rightarrow> area_row" where
  "area_view a = \<lparr>aw_tag = fa_tag a, aw_kind = fa_kind a, aw_federated = fa_federated a\<rparr>"

definition with_areas :: "forum_area list \<Rightarrow> board \<Rightarrow> board" where
  "with_areas as bd = bd\<lparr>bo_areas := as, bo_log := (bo_log bd)\<lparr>db_areas := map area_view as\<rparr>\<rparr>"

definition new_board :: board where
  "new_board = \<lparr>bo_log = new_db [], bo_areas = [], bo_area_ids = 0, bo_users = [], bo_user_ids = 0,
     bo_caps = [], bo_authors = fmempty, bo_audit = []\<rparr>"

definition audit :: "bytes \<Rightarrow> bytes \<Rightarrow> bytes \<Rightarrow> bytes \<Rightarrow> board \<Rightarrow> board" where
  "audit actor action target detail bd =
     bd\<lparr>bo_audit := bo_audit bd @ [\<lparr>au_actor = actor, au_action = action, au_target = target, au_detail = detail\<rparr>]\<rparr>"

section \<open>Areas\<close>

definition area_name_rune :: "nat \<Rightarrow> bool" where
  "area_name_rune r \<longleftrightarrow> ascii_letter r \<or> ascii_digit r \<or> r = 0x2D \<or> r = 0x5F \<or> r = 0x2E"

definition reserved_tags :: "crypto \<Rightarrow> 4 barray list" where
  "reserved_tags c = [zero_array, profile_area c, dm_area c]"

definition validate_area_name :: "crypto \<Rightarrow> bytes \<Rightarrow> board_error + unit" where
  "validate_area_name c name =
     (if length name < 1 \<or> length name > 32 then Inl (AreaNameLength (length name))
      else case find (\<lambda>(_, r, _). \<not> area_name_rune r) (runes_at 0 name) of
             Some (_, r, _) \<Rightarrow> Inl (AreaNameChar r)
           | None \<Rightarrow>
               if area_tag_for c name \<in> set (reserved_tags c) then Inl (AreaNameReserved name) else Inr ())"

text \<open>The insert fails on either \<open>UNIQUE\<close> column, the name (folded) or the tag.\<close>

definition create_area :: "crypto \<Rightarrow> int \<Rightarrow> bytes \<Rightarrow> bytes \<Rightarrow> bool \<Rightarrow> area_kind \<Rightarrow> board \<Rightarrow> (board_error + forum_area) \<times> board" where
  "create_area c now name0 description federated kind bd =
     (let name = trim_space name0
      in case validate_area_name c name of
           Inl e \<Rightarrow> (Inl e, bd)
         | Inr _ \<Rightarrow>
             (let tag = area_tag_for c name
              in if list_ex (\<lambda>a. nocase_eq (fa_name a) name \<or> fa_tag a = tag) (bo_areas bd) then (Inl (AreaExists name), bd)
                 else let i = bo_area_ids bd + 1;
                          a = \<lparr>fa_id = i, fa_name = name, fa_tag = tag, fa_kind = kind, fa_description = description,
                               fa_federated = federated, fa_read_only = False, fa_created_at = now\<rparr>
                   in (Inr a, with_areas (bo_areas bd @ [a]) (bd\<lparr>bo_area_ids := i\<rparr>))))"

definition get_any_area :: "bytes \<Rightarrow> board \<Rightarrow> board_error + forum_area" where
  "get_any_area name bd =
     (case find (\<lambda>a. nocase_eq (fa_name a) (trim_space name)) (bo_areas bd) of None \<Rightarrow> Inl Missing | Some a \<Rightarrow> Inr a)"

definition area_of_kind :: "area_kind \<Rightarrow> bytes \<Rightarrow> board \<Rightarrow> board_error + forum_area" where
  "area_of_kind kind name bd =
     (case get_any_area name bd of
        Inl e \<Rightarrow> Inl e
      | Inr a \<Rightarrow> if fa_kind a \<noteq> kind then Inl (WrongAreaKind (fa_kind a)) else Inr a)"

definition get_area :: "bytes \<Rightarrow> board \<Rightarrow> board_error + forum_area" where
  "get_area = area_of_kind KindMessage"

definition get_file_area :: "bytes \<Rightarrow> board \<Rightarrow> board_error + forum_area" where
  "get_file_area = area_of_kind KindFile"

definition get_door_area :: "bytes \<Rightarrow> board \<Rightarrow> board_error + forum_area" where
  "get_door_area = area_of_kind KindDoor"

definition list_areas :: "area_kind \<Rightarrow> board \<Rightarrow> forum_area list" where
  "list_areas kind bd = sort_key (\<lambda>a. ascii_lower (fa_name a)) (filter (\<lambda>a. fa_kind a = kind) (bo_areas bd))"

definition set_area_federated :: "bytes \<Rightarrow> bool \<Rightarrow> bytes \<Rightarrow> board \<Rightarrow> (board_error + unit) \<times> board" where
  "set_area_federated name federated actor bd =
     (if \<not> list_ex (\<lambda>a. nocase_eq (fa_name a) name) (bo_areas bd) then (Inl Missing, bd)
      else (Inr (), audit actor (ascii ''area.federate'') name (ascii (if federated then ''federated'' else ''local-only''))
             (with_areas (map (\<lambda>a. if nocase_eq (fa_name a) name then a\<lparr>fa_federated := federated\<rparr> else a) (bo_areas bd)) bd)))"

section \<open>Accounts and capabilities\<close>

definition CapPostFederated :: bytes where "CapPostFederated = ascii ''post_federated''"
definition CapSendDMOffnode :: bytes where "CapSendDMOffnode = ascii ''send_dm_offnode''"
definition CapUploadFiles :: bytes where "CapUploadFiles = ascii ''upload_files''"
definition CapRunDoors :: bytes where "CapRunDoors = ascii ''run_doors''"

definition DefaultCapabilities :: "bytes list" where
  "DefaultCapabilities = [CapRunDoors, CapUploadFiles]"

definition KnownCapabilities :: "bytes list" where
  "KnownCapabilities = [CapPostFederated, CapSendDMOffnode, CapUploadFiles, CapRunDoors]"

definition ReservedNicks :: "bytes list" where
  "ReservedNicks = map ascii [''new'', ''guest'', ''sysop'', ''admin'', ''root'', ''bbs'', ''all'', ''postmaster'', ''daemon'']"

definition is_known_capability :: "bytes \<Rightarrow> bool" where
  "is_known_capability cap \<longleftrightarrow> list_ex (\<lambda>k. k = cap) KnownCapabilities"

definition validate_nick :: "bytes \<Rightarrow> board_error + unit" where
  "validate_nick nick =
     (if length nick < 2 \<or> length nick > 16 then Inl (NickLength (length nick))
      else if \<not> ascii_letter (unat (nick ! 0)) then Inl NickFirst
      else case find (\<lambda>(_, r, _). \<not> (ascii_letter r \<or> ascii_digit r \<or> r = 0x5F \<or> r = 0x2D)) (runes_at 0 nick) of
             Some (_, r, _) \<Rightarrow> Inl (NickChar r)
           | None \<Rightarrow> if list_ex (\<lambda>r. ascii_lower nick = r) ReservedNicks then Inl (NickReserved nick) else Inr ())"

record user_options =
  uo_nick :: bytes
  uo_display_name :: bytes
  uo_password_hash :: bytes
  uo_is_sysop :: bool
  uo_can_login :: bool
  uo_capabilities :: "bytes list option"

text \<open>One transaction: a capability listed twice breaks the primary key of the grants and rolls everything back.\<close>

definition create_user :: "int \<Rightarrow> user_options \<Rightarrow> board \<Rightarrow> (board_error + user) \<times> board" where
  "create_user now opts bd =
     (case validate_nick (uo_nick opts) of
        Inl e \<Rightarrow> (Inl e, bd)
      | Inr _ \<Rightarrow>
          (let caps = (case uo_capabilities opts of None \<Rightarrow> DefaultCapabilities | Some cs \<Rightarrow> cs)
           in case find (\<lambda>k. \<not> is_known_capability k) caps of
                Some k \<Rightarrow> (Inl (UnknownCapability k), bd)
              | None \<Rightarrow>
                  if list_ex (\<lambda>u. nocase_eq (us_nick u) (uo_nick opts)) (bo_users bd) then (Inl (NickTaken (uo_nick opts)), bd)
                  else if \<not> distinct caps then (Inl (GrantTwice (uo_nick opts)), bd)
                  else let i = bo_user_ids bd + 1;
                           u = \<lparr>us_id = i, us_nick = uo_nick opts, us_display_name = uo_display_name opts,
                                us_password_hash = uo_password_hash opts, us_directory_listed = True,
                                us_is_sysop = uo_is_sysop opts, us_can_login = uo_can_login opts, us_created_at = now\<rparr>
                    in (Inr u, bd\<lparr>bo_users := bo_users bd @ [u], bo_user_ids := i,
                                  bo_caps := bo_caps bd @ map (Pair i) (sort caps)\<rparr>)))"

definition get_user :: "bytes \<Rightarrow> board \<Rightarrow> board_error + user" where
  "get_user nick bd = (case find (\<lambda>u. nocase_eq (us_nick u) nick) (bo_users bd) of None \<Rightarrow> Inl Missing | Some u \<Rightarrow> Inr u)"

definition list_users :: "board \<Rightarrow> user list" where
  "list_users bd = sort_key (\<lambda>u. ascii_lower (us_nick u)) (bo_users bd)"

definition grant_capability :: "bytes \<Rightarrow> bytes \<Rightarrow> bytes \<Rightarrow> board \<Rightarrow> (board_error + unit) \<times> board" where
  "grant_capability nick capability grantedBy bd =
     (if \<not> is_known_capability capability then (Inl (UnknownCapability capability), bd)
      else case get_user nick bd of
             Inl e \<Rightarrow> (Inl e, bd)
           | Inr u \<Rightarrow>
               (Inr (), audit grantedBy (ascii ''capability.grant'') nick capability
                  (if (us_id u, capability) \<in> set (bo_caps bd) then bd
                   else bd\<lparr>bo_caps := bo_caps bd @ [(us_id u, capability)]\<rparr>)))"

definition revoke_capability :: "bytes \<Rightarrow> bytes \<Rightarrow> bytes \<Rightarrow> board \<Rightarrow> (board_error + unit) \<times> board" where
  "revoke_capability nick capability actor bd =
     (case get_user nick bd of
        Inl e \<Rightarrow> (Inl e, bd)
      | Inr u \<Rightarrow>
          (Inr (), audit actor (ascii ''capability.revoke'') nick capability
             (bd\<lparr>bo_caps := filter (\<lambda>g. \<not> (fst g = us_id u \<and> snd g = capability)) (bo_caps bd)\<rparr>)))"

definition capabilities :: "bytes \<Rightarrow> board \<Rightarrow> board_error + bytes list" where
  "capabilities nick bd =
     (case get_user nick bd of
        Inl e \<Rightarrow> Inl e
      | Inr u \<Rightarrow> Inr (sort (map snd (filter (\<lambda>g. fst g = us_id u) (bo_caps bd)))))"

definition has_capability :: "bytes \<Rightarrow> bytes \<Rightarrow> board \<Rightarrow> board_error + bool" where
  "has_capability nick capability bd =
     (case capabilities nick bd of Inl e \<Rightarrow> Inl e | Inr caps \<Rightarrow> Inr (list_ex (\<lambda>k. k = capability) caps))"

section \<open>Posts\<close>

record post_body =
  pb_author :: bytes
  pb_subject :: bytes
  pb_text :: bytes

definition marshal_post_body :: "post_body \<Rightarrow> board_error + bytes" where
  "marshal_post_body p =
     (if length (pb_author p) > 16 then Inl (AuthorTooLong (length (pb_author p)))
      else if length (pb_subject p) > 72 then Inl (SubjectTooLong (length (pb_subject p)))
      else Inr ([of_nat (length (pb_author p))] @ pb_author p @ [of_nat (length (pb_subject p))] @ pb_subject p @ pb_text p))"

definition unmarshal_post_body :: "bytes \<Rightarrow> post_body option" where
  "unmarshal_post_body b =
     (if length b < 2 then None
      else let n = unat (b ! 0)
        in if length b < 1 + n + 1 then None
           else let rest = drop (1 + n) b; m = unat (rest ! 0)
             in if length rest < 1 + m then None
                else Some \<lparr>pb_author = take n (drop 1 b), pb_subject = take m (drop 1 rest), pb_text = drop (1 + m) rest\<rparr>)"

definition index_post :: "record_id \<Rightarrow> bytes \<Rightarrow> bytes \<Rightarrow> board \<Rightarrow> board" where
  "index_post i author subject bd =
     (if fmlookup (bo_authors bd) i \<noteq> None then bd
      else bd\<lparr>bo_authors := fmupd i (author, subject) (bo_authors bd)\<rparr>)"

record post =
  po_id :: record_id
  po_area :: bytes
  po_author :: bytes
  po_subject :: bytes
  po_text :: bytes
  po_ts :: u32
  po_parent :: "record_id option"
  po_local :: bool

definition post_rows :: "4 barray \<Rightarrow> log_db \<Rightarrow> log_row list" where
  "post_rows tag db = filter (\<lambda>x. lr_area x = tag \<and> lr_type x = TypePost) (db_records db)"

definition post_of_row :: "forum_area \<Rightarrow> board \<Rightarrow> log_row \<Rightarrow> post" where
  "post_of_row area bd x =
     (let (author, subject) = (case fmlookup (bo_authors bd) (lr_id x) of None \<Rightarrow> ([], []) | Some p \<Rightarrow> p);
          decoded = unmarshal_post_body (lr_body x)
      in \<lparr>po_id = lr_id x, po_area = fa_name area,
          po_author = (case decoded of Some pb \<Rightarrow> if author = [] then pb_author pb else author | None \<Rightarrow> author),
          po_subject = (case decoded of Some pb \<Rightarrow> if subject = [] then pb_subject pb else subject | None \<Rightarrow> subject),
          po_text = (case decoded of Some pb \<Rightarrow> pb_text pb | None \<Rightarrow> []),
          po_ts = lr_ts x, po_parent = lr_parent x,
          po_local = (case self_node (bo_log bd) of Inl _ \<Rightarrow> False | Inr n \<Rightarrow> lr_origin x = rn_id n)\<rparr>)"

definition list_posts :: "bytes \<Rightarrow> int \<Rightarrow> board \<Rightarrow> board_error + post list" where
  "list_posts areaName limit0 bd =
     (case get_area areaName bd of
        Inl e \<Rightarrow> Inl e
      | Inr area \<Rightarrow>
          (let limit = (if limit0 \<le> 0 then 100 else limit0)
           in Inr (map (post_of_row area bd)
                (take (nat limit) (sort_key lr_ts (sort_key lr_seq (post_rows (fa_tag area) (bo_log bd))))))))"

definition count_posts :: "bytes \<Rightarrow> board \<Rightarrow> board_error + nat" where
  "count_posts areaName bd =
     (case get_area areaName bd of
        Inl e \<Rightarrow> Inl e
      | Inr area \<Rightarrow> Inr (length (post_rows (fa_tag area) (bo_log bd))))"

section \<open>Names\<close>

lemma ascii_rune_head: "s \<noteq> [] \<Longrightarrow> fst (utf8_decode_rune s) < 0x80 \<Longrightarrow> utf8_decode_rune s = (unat (hd s), 1)"
proof (cases s)
  case (Cons b0 r)
  assume low: "fst (utf8_decode_rune s) < 0x80"
  show ?thesis
  proof (cases "unat b0 < 0x80")
    case False
    then have "0x80 \<le> unat b0" by simp
    then have "utf8_ok s \<Longrightarrow> 0x80 \<le> fst (utf8_decode_rune s)" using utf8_multibyte [of b0 r] Cons by blast
    moreover have "\<not> utf8_ok s \<Longrightarrow> fst (utf8_decode_rune s) = rune_error"
      by (auto simp: utf8_ok_def prod_eq_iff)
    ultimately show ?thesis using low by (auto simp: rune_error_def)
  qed (use utf8_ascii [of s] Cons in simp)
qed simp

lemma ascii_runes:
  assumes "\<And>r. P r \<Longrightarrow> r < 0x80"
  shows "list_all (\<lambda>(_, r, _). P r) (runes_at i s) \<Longrightarrow> b \<in> set s \<Longrightarrow> P (unat b)"
proof (induction s arbitrary: i)
  case (Cons b0 r)
  have "P (fst (utf8_decode_rune (b0 # r)))" using Cons.prems(1) by (simp add: runes_at_rec split_beta)
  then have "utf8_decode_rune (b0 # r) = (unat b0, 1)" "P (unat b0)"
    using ascii_rune_head [of "b0 # r"] assms by auto
  then show ?case using Cons by (auto simp: runes_at_rec split_beta)
qed simp

lemma name_rune_ascii: "area_name_rune r \<Longrightarrow> r < 0x80 \<and> \<not> is_space r"
  by (auto simp: area_name_rune_def ascii_letter_def ascii_digit_def is_space_def)

lemma valid_name_bytes:
  assumes "validate_area_name c name = Inr ()"
  shows "name \<noteq> []" and "b \<in> set name \<Longrightarrow> unat b < 0x80 \<and> \<not> is_space (unat b)"
proof -
  show "name \<noteq> []" using assms by (auto simp: validate_area_name_def)
  have "list_all (\<lambda>(_, r, _). area_name_rune r) (runes_at 0 name)"
    using assms by (auto simp: validate_area_name_def find_None_list_all case_prod_unfold split: if_splits option.splits)
  then show "b \<in> set name \<Longrightarrow> unat b < 0x80 \<and> \<not> is_space (unat b)"
    using ascii_runes [of area_name_rune] name_rune_ascii by blast
qed

lemma trim_space_solid:
  assumes "s \<noteq> []" and "\<And>b. b \<in> set s \<Longrightarrow> unat b < 0x80 \<and> \<not> is_space (unat b)"
  shows "trim_space s = s"
proof -
  have "hd s \<in> set s" "last s \<in> set s" using assms(1) by simp_all
  then have ends: "unat (hd s) < 0x80" "\<not> is_space (unat (hd s))" "unat (last s) < 0x80" "\<not> is_space (unat (last s))"
    using assms(2) by blast+
  have "trim_left s = s" using assms(1) ends utf8_ascii [of s] by (simp add: trim_left.simps [of s])
  moreover have "trim_right s = s" using assms(1) ends by (simp add: trim_right.simps [of s] utf8_decode_last_rune_def)
  ultimately show ?thesis by (simp add: trim_space_def)
qed

section \<open>The areas\<close>

definition areas_ok :: "crypto \<Rightarrow> board \<Rightarrow> bool" where
  "areas_ok c bd \<longleftrightarrow> distinct (map (\<lambda>a. ascii_lower (fa_name a)) (bo_areas bd)) \<and> distinct (map fa_tag (bo_areas bd)) \<and>
     (\<forall>a \<in> set (bo_areas bd). validate_area_name c (fa_name a) = Inr () \<and> fa_tag a = area_tag_for c (fa_name a)) \<and>
     db_areas (bo_log bd) = map area_view (bo_areas bd)"

datatype area_op =
    OpCreateArea int bytes bytes bool area_kind
  | OpFederateArea bytes bool bytes

fun area_step :: "crypto \<Rightarrow> area_op \<Rightarrow> board \<Rightarrow> board" where
  "area_step c (OpCreateArea now name description federated kind) bd = snd (create_area c now name description federated kind bd)"
| "area_step c (OpFederateArea name federated actor) bd = snd (set_area_federated name federated actor bd)"

lemma with_areas_sel [simp]:
  "bo_areas (with_areas as bd) = as" "db_areas (bo_log (with_areas as bd)) = map area_view as"
  "bo_users (with_areas as bd) = bo_users bd" "bo_caps (with_areas as bd) = bo_caps bd"
  "db_records (bo_log (with_areas as bd)) = db_records (bo_log bd)"
  "db_area_seq (bo_log (with_areas as bd)) = db_area_seq (bo_log bd)"
  by (simp_all add: with_areas_def)

lemma audit_sel [simp]:
  "bo_areas (audit p q r s bd) = bo_areas bd" "bo_log (audit p q r s bd) = bo_log bd"
  "bo_users (audit p q r s bd) = bo_users bd" "bo_caps (audit p q r s bd) = bo_caps bd"
  by (simp_all add: audit_def)

lemma create_area_ok:
  assumes "areas_ok c bd" and "create_area c now name0 description federated kind bd = (res, bd')"
  shows "areas_ok c bd' \<and> (case res of
      Inl e \<Rightarrow> bd' = bd
    | Inr a \<Rightarrow> bo_areas bd' = bo_areas bd @ [a] \<and> fa_name a = trim_space name0 \<and> fa_kind a = kind \<and> fa_federated a = federated)"
proof (cases "validate_area_name c (trim_space name0)")
  case (Inr u)
  then have valid: "validate_area_name c (trim_space name0) = Inr ()" by (cases u) simp
  show ?thesis
  proof (cases "list_ex (\<lambda>a. nocase_eq (fa_name a) (trim_space name0) \<or> fa_tag a = area_tag_for c (trim_space name0)) (bo_areas bd)")
    case False
    then have "ascii_lower (trim_space name0) \<notin> (\<lambda>a. ascii_lower (fa_name a)) ` set (bo_areas bd)"
      "area_tag_for c (trim_space name0) \<notin> fa_tag ` set (bo_areas bd)"
      by (force simp: list_ex_iff nocase_eq_def)+
    then show ?thesis
      using assms valid False by (auto simp: create_area_def Let_def areas_ok_def simp del: list_ex_iff image_iff)
  qed (use assms valid in \<open>auto simp: create_area_def Let_def\<close>)
qed (use assms in \<open>auto simp: create_area_def Let_def\<close>)

lemma set_area_federated_ok: "areas_ok c bd \<Longrightarrow> areas_ok c (snd (set_area_federated name federated actor bd))"
proof -
  have "map g (map (\<lambda>a. if P a then h a else a) xs) = map g xs" if "\<And>a. g (h a) = g a" for g h P and xs :: "forum_area list"
    using that by simp
  then show "areas_ok c bd \<Longrightarrow> areas_ok c (snd (set_area_federated name federated actor bd))"
    by (auto simp: set_area_federated_def areas_ok_def comp_def if_distrib cong: if_cong)
qed

lemma area_run_ok: "areas_ok c bd \<Longrightarrow> areas_ok c (fold (area_step c) ops bd)"
proof (induction ops arbitrary: bd)
  case (Cons x xs)
  have "areas_ok c (area_step c x bd)"
  proof (cases x)
    case (OpCreateArea now name description federated kind)
    then show ?thesis using create_area_ok [OF Cons.prems] by (metis area_step.simps(1) prod.collapse)
  qed (use set_area_federated_ok [OF Cons.prems] in simp)
  then show ?case using Cons.IH by simp
qed simp

lemma areas_ok_new: "areas_ok c new_board"
  by (simp add: areas_ok_def new_board_def new_db_def)

text \<open>An area created is the one its name finds.\<close>

lemma find_unique: "distinct (map f xs) \<Longrightarrow> x \<in> set xs \<Longrightarrow> find (\<lambda>y. f y = f x) xs = Some x"
  by (induction xs) auto

lemma get_any_area_found:
  assumes "areas_ok c bd" and "a \<in> set (bo_areas bd)"
  shows "get_any_area (fa_name a) bd = Inr a"
proof -
  have valid: "validate_area_name c (fa_name a) = Inr ()" using assms by (simp add: areas_ok_def)
  have "trim_space (fa_name a) = fa_name a" by (rule trim_space_solid) (use valid_name_bytes [OF valid] in auto)
  then show ?thesis
    using assms find_unique [of "\<lambda>a. ascii_lower (fa_name a)" "bo_areas bd" a]
    by (simp add: get_any_area_def nocase_eq_def areas_ok_def)
qed

section \<open>Properties of the board's tables\<close>

text \<open>
  C37. Areas never share a sequence space. After any sequence of area creations of the three kinds
  and federation changes on a new database no two areas have the same tag or, up to case, the
  same name; no area has the tag of the roster, the directory or private mail; every area is
  found by its name; and the gossip store sees exactly these areas.
\<close>

theorem areas_stay_apart:
  assumes "bd = fold (area_step c) ops new_board"
  shows "distinct (map fa_tag (bo_areas bd)) \<and> distinct (map (\<lambda>a. ascii_lower (fa_name a)) (bo_areas bd)) \<and>
    set (map fa_tag (bo_areas bd)) \<inter> {zero_array, profile_area c, dm_area c} = {} \<and>
    (\<forall>a \<in> set (bo_areas bd). get_any_area (fa_name a) bd = Inr a) \<and>
    db_areas (bo_log bd) = map area_view (bo_areas bd)"
proof -
  have ok: "areas_ok c bd" unfolding assms by (rule area_run_ok [OF areas_ok_new])
  have "fa_tag a \<notin> set (reserved_tags c)" if "a \<in> set (bo_areas bd)" for a
  proof -
    have "validate_area_name c (fa_name a) = Inr ()" "fa_tag a = area_tag_for c (fa_name a)"
      using ok that by (auto simp: areas_ok_def)
    then show ?thesis by (auto simp: validate_area_name_def split: if_splits option.splits)
  qed
  then have "set (map fa_tag (bo_areas bd)) \<inter> set (reserved_tags c) = {}" by auto
  then have "set (map fa_tag (bo_areas bd)) \<inter> {zero_array, profile_area c, dm_area c} = {}" by (simp add: reserved_tags_def)
  then show ?thesis using ok get_any_area_found [OF ok] by (simp add: areas_ok_def)
qed

theorem areas_stay_apart_witness:
  "\<exists>a. bo_areas (fold (area_step toy_crypto) [OpCreateArea 5 (ascii '' tech '') [] True KindMessage, OpCreateArea 6 (ascii ''TECH'') [] True KindFile] new_board) = [a] \<and>
     get_any_area (fa_name a) (fold (area_step toy_crypto) [OpCreateArea 5 (ascii '' tech '') [] True KindMessage, OpCreateArea 6 (ascii ''TECH'') [] True KindFile] new_board) = Inr a"
proof -
  let ?bd = "fold (area_step toy_crypto) [OpCreateArea 5 (ascii '' tech '') [] True KindMessage, OpCreateArea 6 (ascii ''TECH'') [] True KindFile] new_board"
  have "length (bo_areas ?bd) = 1" by code_simp
  then obtain a where a: "bo_areas ?bd = [a]" by (auto simp: length_Suc_conv)
  then show ?thesis using areas_stay_apart [of ?bd toy_crypto, OF refl] by simp
qed

lemma post_body_canonical_marshal:
  assumes "marshal_post_body p = Inr b"
  shows "unmarshal_post_body b = Some p \<and> length (pb_author p) \<le> 16 \<and> length (pb_subject p) \<le> 72"
proof -
  have len: "length (pb_author p) \<le> 16" "length (pb_subject p) \<le> 72"
    and b: "b = [of_nat (length (pb_author p))] @ pb_author p @ [of_nat (length (pb_subject p))] @ pb_subject p @ pb_text p"
    using assms by (auto simp: marshal_post_body_def split: if_splits)
  have n: "unat (of_nat (length (pb_author p)) :: u8) = length (pb_author p)"
    "unat (of_nat (length (pb_subject p)) :: u8) = length (pb_subject p)" using len by (simp_all add: unat_of_nat)
  have "unmarshal_post_body b = Some p" unfolding b by (simp add: unmarshal_post_body_def n Let_def)
  then show ?thesis using len by simp
qed

text \<open>
  A post body has one encoding. \<open>MarshalPostBody\<close> writes \<open>b\<close> for \<open>p\<close> exactly when
  \<open>UnmarshalPostBody\<close> reads \<open>p\<close> from \<open>b\<close> and author and subject are within their limits of 16 and 72
  bytes; the text has no limit here.
\<close>

theorem post_body_canonical:
  "marshal_post_body p = Inr b \<longleftrightarrow>
     unmarshal_post_body b = Some p \<and> length (pb_author p) \<le> 16 \<and> length (pb_subject p) \<le> 72"
proof
  assume "marshal_post_body p = Inr b"
  then show "unmarshal_post_body b = Some p \<and> length (pb_author p) \<le> 16 \<and> length (pb_subject p) \<le> 72"
    by (rule post_body_canonical_marshal)
next
  assume u: "unmarshal_post_body b = Some p \<and> length (pb_author p) \<le> 16 \<and> length (pb_subject p) \<le> 72"
  obtain h t where b: "b = h # t" using u by (cases b) (auto simp: unmarshal_post_body_def)
  let ?n = "unat h"
  have ok: "\<not> length t < ?n + 1" using u b by (auto simp: unmarshal_post_body_def Let_def split: if_splits)
  obtain k r where r: "drop ?n t = k # r" using ok by (cases "drop ?n t") auto
  have p: "p = \<lparr>pb_author = take ?n t, pb_subject = take (unat k) r, pb_text = drop (unat k) r\<rparr>" "unat k \<le> length r"
    using u b r ok by (auto simp: unmarshal_post_body_def Let_def split: if_splits)
  have "t = take ?n t @ k # take (unat k) r @ drop (unat k) r" using r by (metis append_take_drop_id)
  moreover have "length (take ?n t) = ?n" "length (take (unat k) r) = unat k" using ok p(2) by simp_all
  ultimately show "marshal_post_body p = Inr b"
    using u by (simp add: marshal_post_body_def p(1) b)
qed

lemma take_below:
  fixes f :: "'a \<Rightarrow> 'k::linorder"
  shows "sorted (map f ys) \<Longrightarrow> n \<le> length (filter (\<lambda>y. f y < m) ys) \<Longrightarrow> y \<in> set (take n ys) \<Longrightarrow> f y < m"
proof (induction ys arbitrary: n)
  case (Cons z zs)
  show ?case
  proof (cases "f z < m")
    case True
    then show ?thesis using Cons by (cases n) auto
  next
    case False
    then have "filter (\<lambda>y. f y < m) zs = []" using Cons.prems(1) by (fastforce simp: filter_empty_conv)
    then show ?thesis using Cons.prems(2,3) False by simp
  qed
qed simp

text \<open>
  \<open>ListPosts\<close> cuts off the newest posts. It sorts by time and then applies the limit, so
  once an area holds \<open>limit\<close> posts older than a post, that post is not in the listing: with the
  200 the interface asks for, nothing posted after the first 200 is ever shown.
\<close>

theorem listing_drops_newest:
  assumes "rows_ok (bo_log bd)" and "get_area areaName bd = Inr area" and "0 < limit"
    and "x \<in> set (post_rows (fa_tag area) (bo_log bd))"
    and "nat limit \<le> length (filter (\<lambda>y. lr_ts y < lr_ts x) (post_rows (fa_tag area) (bo_log bd)))"
    and "list_posts areaName limit bd = Inr posts"
  shows "length posts = nat limit \<and> lr_id x \<notin> po_id ` set posts"
proof -
  let ?rows = "post_rows (fa_tag area) (bo_log bd)"
  let ?sorted = "sort_key lr_ts (sort_key lr_seq ?rows)"
  have posts: "posts = map (post_of_row area bd) (take (nat limit) ?sorted)"
    using assms(2,3,6) by (simp add: list_posts_def Let_def)
  have "length (filter (\<lambda>y. lr_ts y < lr_ts x) ?sorted) = length (filter (\<lambda>y. lr_ts y < lr_ts x) ?rows)"
    by (simp add: filter_sort)
  then have old: "lr_ts y < lr_ts x" if "y \<in> set (take (nat limit) ?sorted)" for y
    using take_below [of lr_ts ?sorted "nat limit" "lr_ts x" y] assms(5) that by simp
  have "nat limit \<le> length ?rows" using assms(5) length_filter_le le_trans by blast
  then have "length posts = nat limit" by (simp add: posts)
  moreover have "lr_id x \<notin> po_id ` set posts"
  proof
    assume "lr_id x \<in> po_id ` set posts"
    then obtain y where y: "y \<in> set (take (nat limit) ?sorted)" "lr_id y = lr_id x"
      by (auto simp: posts post_of_row_def Let_def split_beta)
    then have "y \<in> set ?sorted" by (meson in_set_takeD)
    then have "y \<in> set (db_records (bo_log bd))" "x \<in> set (db_records (bo_log bd))"
      using assms(4) by (simp_all add: post_rows_def)
    then have "y = x" using assms(1) y(2) by (auto simp: rows_ok_def distinct_map dest: inj_onD)
    then show False using old [OF y(1)] by simp
  qed
  ultimately show ?thesis by simp
qed

definition toy_forum :: board where
  "toy_forum = area_step toy_crypto (OpCreateArea 5 (ascii ''tech'') [] True KindMessage) new_board"

definition toy_listing :: board where
  "toy_listing = toy_forum\<lparr>bo_log := (bo_log toy_forum)\<lparr>db_local_seq := 2, db_records :=
     map (\<lambda>n. row_of ((blank_record zero_array (of_nat n) (of_nat n) TypePost (area_tag_for toy_crypto (ascii ''tech'')) [])
       \<lparr>r_id := copy_array [of_nat n]\<rparr>) 0 n) [1, 2]\<rparr>\<rparr>"

theorem listing_drops_newest_witness:
  "\<exists>posts. list_posts (ascii ''tech'') 1 toy_listing = Inr posts \<and> length posts = 1 \<and> copy_array [2] \<notin> po_id ` set posts"
proof -
  obtain area where area: "get_area (ascii ''tech'') toy_listing = Inr area"
      "\<exists>x \<in> set (post_rows (fa_tag area) (bo_log toy_listing)). lr_id x = copy_array [2] \<and>
         1 \<le> length (filter (\<lambda>y. lr_ts y < lr_ts x) (post_rows (fa_tag area) (bo_log toy_listing)))"
  proof -
    have "case get_area (ascii ''tech'') toy_listing of Inl _ \<Rightarrow> False | Inr area \<Rightarrow>
        \<exists>x \<in> set (post_rows (fa_tag area) (bo_log toy_listing)). lr_id x = copy_array [2] \<and>
         1 \<le> length (filter (\<lambda>y. lr_ts y < lr_ts x) (post_rows (fa_tag area) (bo_log toy_listing)))"
      by code_simp
    then show ?thesis using that by (cases "get_area (ascii ''tech'') toy_listing") auto
  qed
  then obtain x where x: "x \<in> set (post_rows (fa_tag area) (bo_log toy_listing))" "lr_id x = copy_array [2]"
      "nat 1 \<le> length (filter (\<lambda>y. lr_ts y < lr_ts x) (post_rows (fa_tag area) (bo_log toy_listing)))" by auto
  obtain posts where posts: "list_posts (ascii ''tech'') 1 toy_listing = Inr posts"
    using area(1) by (simp add: list_posts_def Let_def)
  have "rows_ok (bo_log toy_listing)" by code_simp
  from listing_drops_newest [OF this area(1) _ x(1,3) posts] show ?thesis using posts x(2) by simp
qed

end
