(* ===== verification/BoardService.thy ===== *)
theory BoardService
  imports Forum GossipLog
begin

text \<open>
  What writes records on a running board: \<open>Post\<close>, \<open>newRecord\<close>, \<open>newFileRecord\<close> and \<open>publish\<close> of
  \<open>internal/bbs/bbs.go\<close> and \<open>PublishDoorEvents\<close> of \<open>internal/bbs/doorevents.go\<close>, over the
  tables of \<open>Forum\<close> and the log of \<open>LogStore\<close>. The publisher is the list of the calls it gets;
  its failures are only reported and have no effect on the board.

  Shown: exactly which posts are taken, what a taken post leaves in the log, the index and at the
  publisher, and that a refused one costs at most one number of the area; a federated area needs the capability; every own record lies at or below
  the issued mark. And a number that was issued to a record that could not be built leaves a
  gap which the vector of the log never passes again.

  Left out: direct messages, file rows and the federation's own goroutines.
\<close>

section \<open>The service\<close>

record service =
  sv_board :: board
  sv_publishing :: bool
  sv_published :: "(4 barray \<times> rec) list"

definition on_log :: "log_db \<Rightarrow> service \<Rightarrow> service" where
  "on_log db sv = sv\<lparr>sv_board := (sv_board sv)\<lparr>bo_log := db\<rparr>\<rparr>"

definition publish :: "4 barray \<Rightarrow> rec \<Rightarrow> service \<Rightarrow> service" where
  "publish area r sv = (if \<not> sv_publishing sv then sv else sv\<lparr>sv_published := sv_published sv @ [(area, r)]\<rparr>)"

text \<open>The shape of all three minting paths: reserve a number, then build the record with it.\<close>

definition mint :: "4 barray \<Rightarrow> (u64 \<Rightarrow> record_error + rec) \<Rightarrow> service \<Rightarrow> (board_error + rec) \<times> service" where
  "mint area draft sv =
     (case next_seq area (bo_log (sv_board sv)) of
        (Inl e, _) \<Rightarrow> (Inl (InLog e), sv)
      | (Inr q, db) \<Rightarrow>
          (case draft q of
             Inl e \<Rightarrow> (Inl (InRecord e), on_log db sv)
           | Inr r \<Rightarrow> (Inr r, on_log db sv)))"

definition new_record :: "crypto \<Rightarrow> node_key \<Rightarrow> int \<Rightarrow> u8 \<Rightarrow> 4 barray \<Rightarrow> bytes \<Rightarrow> service \<Rightarrow> (board_error + rec) \<times> service" where
  "new_record c key now typ area body sv =
     mint area (\<lambda>q. record_new c key (blank_record (node_key_id c key) q (word_of_int now) typ area body)) sv"

record stored_file =
  sf_name :: bytes
  sf_hash :: "32 barray"
  sf_size :: int
  sf_description :: bytes

definition file_record :: "crypto \<Rightarrow> node_key \<Rightarrow> int \<Rightarrow> forum_area \<Rightarrow> stored_file \<Rightarrow> service \<Rightarrow> (board_error + rec) \<times> service" where
  "file_record c key now area f sv =
     mint (fa_tag area) (\<lambda>q. new_file_record c key q (word_of_int now) (fa_tag area)
       \<lparr>fb_name = sf_name f, fb_size = word_of_int (sf_size f),
        fb_hash = copy_array (take FileHashLen (array_bytes (sf_hash f))), fb_description = sf_description f, fb_tags = []\<rparr>) sv"

definition keep_record :: "int \<Rightarrow> rec \<Rightarrow> service \<Rightarrow> (board_error + unit) \<times> service" where
  "keep_record now r sv =
     (case put_record now r (bo_log (sv_board sv)) of
        (Inl e, _) \<Rightarrow> (Inl (InLog e), sv)
      | (Inr _, db) \<Rightarrow> (Inr (), on_log db sv))"

definition may_write :: "bytes \<Rightarrow> forum_area \<Rightarrow> board \<Rightarrow> board_error + unit" where
  "may_write author area bd =
     (if fa_read_only area then Inl (NotPermitted (fa_name area))
      else if fa_federated area then
        (case has_capability author CapPostFederated bd of
           Inl e \<Rightarrow> Inl e
         | Inr ok \<Rightarrow> if \<not> ok then Inl (NotPermitted (fa_name area)) else Inr ())
      else Inr ())"

definition post_text :: "bytes \<Rightarrow> bytes \<Rightarrow> bytes \<Rightarrow> board_error + bytes" where
  "post_text author subject text0 =
     (let text = trim_newlines text0
      in if trim_space text = [] then Inl PostEmpty
         else marshal_post_body \<lparr>pb_author = author, pb_subject = subject, pb_text = text\<rparr>)"

definition board_post ::
  "crypto \<Rightarrow> node_key \<Rightarrow> int \<Rightarrow> bytes \<Rightarrow> bytes \<Rightarrow> bytes \<Rightarrow> bytes \<Rightarrow> service \<Rightarrow> (board_error + record_id) \<times> service" where
  "board_post c key now author areaName subject text sv =
     (case get_area areaName (sv_board sv) of
        Inl e \<Rightarrow> (Inl e, sv)
      | Inr area \<Rightarrow>
          (case may_write author area (sv_board sv) of
             Inl e \<Rightarrow> (Inl e, sv)
           | Inr _ \<Rightarrow>
               (case post_text author subject text of
                  Inl e \<Rightarrow> (Inl e, sv)
                | Inr body \<Rightarrow>
                    (case new_record c key now TypePost (fa_tag area) body sv of
                       (Inl e, sv1) \<Rightarrow> (Inl e, sv1)
                     | (Inr r, sv1) \<Rightarrow>
                         (case keep_record now r sv1 of
                            (Inl e, sv2) \<Rightarrow> (Inl e, sv2)
                          | (Inr _, sv2) \<Rightarrow>
                              (let sv3 = sv2\<lparr>sv_board := index_post (r_id r) author subject (sv_board sv2)\<rparr>
                               in (Inr (r_id r), if fa_federated area then publish (fa_tag area) r sv3 else sv3)))))))"

definition publish_door_events ::
  "crypto \<Rightarrow> node_key \<Rightarrow> int \<Rightarrow> bytes \<Rightarrow> bytes \<Rightarrow> door_event list \<Rightarrow> service \<Rightarrow> (board_error + record_id) \<times> service" where
  "publish_door_events c key now areaName game events sv =
     (if length events = 0 then (Inl NoEvents, sv)
      else case get_door_area areaName (sv_board sv) of
             Inl e \<Rightarrow> (Inl e, sv)
           | Inr area \<Rightarrow>
               if \<not> fa_federated area then (Inl (NoLongerFederated (fa_name area)), sv)
               else (case mint (fa_tag area) (\<lambda>q. new_door_event_record c key q (word_of_int now) (fa_tag area)
                             \<lparr>db_game = game, db_events = events\<rparr>) sv of
                       (Inl e, sv1) \<Rightarrow> (Inl e, sv1)
                     | (Inr r, sv1) \<Rightarrow>
                         (case keep_record now r sv1 of
                            (Inl e, sv2) \<Rightarrow> (Inl e, sv2)
                          | (Inr _, sv2) \<Rightarrow> (Inr (r_id r), publish (fa_tag area) r sv2))))"

section \<open>Minting\<close>

definition own_covered :: "node_id \<Rightarrow> log_db \<Rightarrow> bool" where
  "own_covered self db \<longleftrightarrow> (\<forall>x \<in> set (db_records db). lr_origin x = self \<longrightarrow> lr_seq x \<le> fmget (db_area_seq db) (lr_area x))"

definition ledger_ok :: "node_id \<Rightarrow> log_db \<Rightarrow> bool" where
  "ledger_ok self db \<longleftrightarrow> marks_ok db \<and> own_covered self db"

text \<open>What a draft may build with the number \<open>q\<close>: a record of this node at that coordinate.\<close>

definition drafts :: "node_id \<Rightarrow> 4 barray \<Rightarrow> (u64 \<Rightarrow> record_error + rec) \<Rightarrow> bool" where
  "drafts self area draft \<longleftrightarrow> (\<forall>q r. draft q = Inr r \<longrightarrow> r_origin r = self \<and> r_seq r = q \<and> r_area r = area)"

lemma record_new_fields:
  assumes "record_new c key (blank_record (node_key_id c key) q ts typ area body) = Inr r"
  shows "r_origin r = node_key_id c key" "r_seq r = q" "r_area r = area" "r_type r = typ" "r_body r = body" "r_ts r = ts"
  using assms by (auto simp: record_new_def Let_def blank_record_def split: if_splits)

lemma record_drafts:
  "drafts (node_key_id c key) area (\<lambda>q. record_new c key (blank_record (node_key_id c key) q ts typ area body))"
  "drafts (node_key_id c key) area (\<lambda>q. new_file_record c key q ts area f)"
  "drafts (node_key_id c key) area (\<lambda>q. new_door_event_record c key q ts area d)"
  by (auto simp: drafts_def new_file_record_def new_door_event_record_def dest: record_new_fields)

lemma on_log_sel [simp]:
  "bo_log (sv_board (on_log db sv)) = db" "bo_areas (sv_board (on_log db sv)) = bo_areas (sv_board sv)"
  "bo_authors (sv_board (on_log db sv)) = bo_authors (sv_board sv)"
  "sv_published (on_log db sv) = sv_published sv" "sv_publishing (on_log db sv) = sv_publishing sv"
  by (simp_all add: on_log_def)

lemma mint_result:
  assumes "mint area draft sv = (res, sv1)" and "ledger_ok self (bo_log (sv_board sv))" and "drafts self area draft"
  shows "ledger_ok self (bo_log (sv_board sv1)) \<and> db_records (bo_log (sv_board sv1)) = db_records (bo_log (sv_board sv)) \<and>
    sv_published sv1 = sv_published sv \<and> sv_publishing sv1 = sv_publishing sv \<and> bo_authors (sv_board sv1) = bo_authors (sv_board sv) \<and>
    (\<forall>a. fmget (db_area_seq (bo_log (sv_board sv))) a \<le> fmget (db_area_seq (bo_log (sv_board sv1))) a) \<and>
    (\<forall>r. res = Inr r \<longrightarrow> r_origin r = self \<and> r_area r = area \<and> bindable (r_seq r) \<and>
       r_seq r = fmget (db_area_seq (bo_log (sv_board sv))) area + 1 \<and>
       r_seq r = fmget (db_area_seq (bo_log (sv_board sv1))) area \<and>
       rec_coordinate r \<notin> coordinate ` set (db_records (bo_log (sv_board sv1))))"
proof (cases "next_seq area (bo_log (sv_board sv))")
  case (Pair out db)
  let ?db = "bo_log (sv_board sv)"
  show ?thesis
  proof (cases out)
    case (Inl e)
    then show ?thesis using assms(1,2) Pair by (auto simp: mint_def)
  next
    case (Inr q)
    note ns = next_seq_result [OF Pair [unfolded Inr]]
    have sv1: "bo_log (sv_board sv1) = db" "sv_published sv1 = sv_published sv" "sv_publishing sv1 = sv_publishing sv"
      "bo_authors (sv_board sv1) = bo_authors (sv_board sv)"
      using assms(1) Pair Inr by (auto simp: mint_def split: sum.splits)
    have rows: "db_records db = db_records ?db" "db_local_seq db = db_local_seq ?db"
      using Pair Inr by (auto simp: next_seq_def Let_def split: if_splits)
    have up: "fmget (db_area_seq ?db) a \<le> fmget (db_area_seq db) a" for a
      using ns bindable_plus1 [of "fmget (db_area_seq ?db) area"] assms(2)
      by (auto simp: ledger_ok_def marks_ok_def intro: less_imp_le)
    have "rows_ok db" using assms(2) rows_ok_cong [of db ?db] rows by (simp add: ledger_ok_def marks_ok_def)
    then have "marks_ok db" using assms(2) ns by (auto simp: ledger_ok_def marks_ok_def)
    moreover have "own_covered self db"
      unfolding own_covered_def rows(1)
    proof (intro ballI impI)
      fix x assume "x \<in> set (db_records ?db)" "lr_origin x = self"
      then have "lr_seq x \<le> fmget (db_area_seq ?db) (lr_area x)" using assms(2) by (simp add: ledger_ok_def own_covered_def)
      then show "lr_seq x \<le> fmget (db_area_seq db) (lr_area x)" using up by (rule order_trans)
    qed
    moreover have "rec_coordinate r \<notin> coordinate ` set (db_records db)" if r: "r_origin r = self" "r_seq r = q" "r_area r = area" for r
    proof
      assume "rec_coordinate r \<in> coordinate ` set (db_records db)"
      then obtain x where "x \<in> set (db_records ?db)" "lr_origin x = self" "lr_seq x = q" "lr_area x = area"
        using r rows(1) by (auto simp: rec_coordinate_def coordinate_def)
      then have "q \<le> fmget (db_area_seq ?db) area" using assms(2) by (auto simp: ledger_ok_def own_covered_def)
      moreover have "fmget (db_area_seq ?db) area < q"
        using ns(1) bindable_plus1 [of "fmget (db_area_seq ?db) area"] assms(2) by (simp add: ledger_ok_def marks_ok_def)
      ultimately show False by simp
    qed
    moreover have "r_origin r = self \<and> r_seq r = q \<and> r_area r = area" if "res = Inr r" for r
      using that assms(1,3) Pair Inr by (auto simp: mint_def drafts_def split: sum.splits)
    ultimately show ?thesis using sv1 rows(1) up ns unfolding ledger_ok_def by auto
  qed
qed

lemma keep_record_result:
  assumes "keep_record now r sv = (res, sv1)" and "ledger_ok self (bo_log (sv_board sv))"
    and "r_origin r = self \<longrightarrow> r_seq r \<le> fmget (db_area_seq (bo_log (sv_board sv))) (r_area r)"
  shows "ledger_ok self (bo_log (sv_board sv1)) \<and> sv_published sv1 = sv_published sv \<and> sv_publishing sv1 = sv_publishing sv \<and>
    bo_authors (sv_board sv1) = bo_authors (sv_board sv) \<and>
    db_area_seq (bo_log (sv_board sv1)) = db_area_seq (bo_log (sv_board sv)) \<and>
    (\<forall>x \<in> set (db_records (bo_log (sv_board sv1))). x \<in> set (db_records (bo_log (sv_board sv))) \<or> coordinate x = rec_coordinate r) \<and>
    (case res of
       Inl e \<Rightarrow> sv1 = sv
     | Inr _ \<Rightarrow> has_record (r_id r) (bo_log (sv_board sv1)))"
proof -
  let ?db = "bo_log (sv_board sv)"
  obtain out db where put: "put_record now r ?db = (out, db)" by (cases "put_record now r ?db")
  then have db: "db = snd (put_record now r ?db)" by simp
  have ok: "marks_ok db" "db_area_seq db = db_area_seq ?db"
    using assms(2) put_record_rows_ok [of ?db now r] put_record_nodes(3) [of now r ?db]
    by (simp_all add: db ledger_ok_def marks_ok_def)
  have rows: "db_records db = db_records ?db \<or> (\<exists>n. db_records db = db_records ?db @ [row_of r now n])"
    unfolding db by (auto simp: put_record_result)
  then have cov: "own_covered self db" using assms(2,3) ok(2) by (auto simp: ledger_ok_def own_covered_def)
  have new: "\<forall>x \<in> set (db_records db). x \<in> set (db_records ?db) \<or> coordinate x = rec_coordinate r"
    using rows by (auto simp: coordinate_def rec_coordinate_def)
  show ?thesis
  proof (cases out)
    case (Inl e)
    then show ?thesis using assms(1,2) put by (auto simp: keep_record_def)
  next
    case (Inr u)
    have "r_id r \<in> lr_id ` set (db_records db)" using put Inr by (auto simp: put_record_result split: if_splits)
    then have "has_record (r_id r) db" by (simp add: has_record_iff)
    then show ?thesis using assms(1) put Inr ok cov new by (auto simp: keep_record_def ledger_ok_def)
  qed
qed

section \<open>Posting\<close>

lemma index_post_sel [simp]:
  "bo_log (index_post i a t bd) = bo_log bd" "bo_areas (index_post i a t bd) = bo_areas bd"
  "bo_users (index_post i a t bd) = bo_users bd" "bo_caps (index_post i a t bd) = bo_caps bd"
  by (simp_all add: index_post_def)

lemma publish_sel [simp]:
  "sv_board (publish a r sv) = sv_board sv"
  "sv_published (publish a r sv) = sv_published sv @ (if sv_publishing sv then [(a, r)] else [])"
  "sv_publishing (publish a r sv) = sv_publishing sv"
  by (simp_all add: publish_def)

text \<open>What the minted record looks like, and that storing it cannot fail.\<close>

lemma keep_minted:
  assumes "rec_coordinate r \<notin> coordinate ` set (db_records (bo_log (sv_board sv)))" and "bindable (r_seq r)"
  shows "fst (keep_record now r sv) = Inr ()"
  using assms by (auto simp: keep_record_def put_record_result rec_coordinate_def split: prod.splits)

lemma new_record_fields:
  assumes "new_record c key now typ area body sv = (Inr r, sv1)"
  shows "r_type r = typ" "r_body r = body" "r_ts r = word_of_int now" "r_area r = area" "r_origin r = node_key_id c key"
  using assms by (auto simp: new_record_def mint_def split: prod.splits sum.splits dest: record_new_fields)

lemma post_text_body:
  assumes "post_text author subject text = Inr body"
  shows "unmarshal_post_body body = Some \<lparr>pb_author = author, pb_subject = subject, pb_text = trim_newlines text\<rparr>"
  using assms post_body_canonical_marshal
  by (auto simp: post_text_def Let_def split: if_splits)

lemma get_area_error: "get_area areaName bd = Inl e \<Longrightarrow> e \<noteq> InRecord x"
  by (auto simp: get_area_def area_of_kind_def get_any_area_def split: option.splits if_splits)

lemma may_write_error: "may_write author area bd = Inl e \<Longrightarrow> e \<noteq> InRecord x"
  by (auto simp: may_write_def has_capability_def capabilities_def get_user_def split: if_splits sum.splits option.splits)

lemma post_text_error: "post_text author subject t = Inl e \<Longrightarrow> e \<noteq> InRecord x"
  by (auto simp: post_text_def Let_def marshal_post_body_def split: if_splits)

lemmas early_errors = get_area_error may_write_error post_text_error

text \<open>One post, by where it stops.\<close>

lemma board_post_cases:
  assumes "board_post c key now author areaName subject text sv = (res, sv')"
  obtains (early) e where "res = Inl e" "sv' = sv" "\<And>x. e \<noteq> InRecord x"
      "\<And>area body. get_area areaName (sv_board sv) = Inr area \<Longrightarrow> may_write author area (sv_board sv) = Inr () \<Longrightarrow>
         post_text author subject text \<noteq> Inr body"
  | (burnt) area body e where "get_area areaName (sv_board sv) = Inr area" "may_write author area (sv_board sv) = Inr ()"
      "post_text author subject text = Inr body" "new_record c key now TypePost (fa_tag area) body sv = (Inl e, sv')" "res = Inl e"
  | (minted) area body r sv1 out sv2 where "get_area areaName (sv_board sv) = Inr area" "may_write author area (sv_board sv) = Inr ()"
      "post_text author subject text = Inr body" "new_record c key now TypePost (fa_tag area) body sv = (Inr r, sv1)"
      "keep_record now r sv1 = (out, sv2)"
      "(case out of Inl e \<Rightarrow> res = Inl e \<and> sv' = sv2
        | Inr _ \<Rightarrow> res = Inr (r_id r) \<and> sv' = (let sv3 = sv2\<lparr>sv_board := index_post (r_id r) author subject (sv_board sv2)\<rparr>
             in if fa_federated area then publish (fa_tag area) r sv3 else sv3))"
proof (cases "get_area areaName (sv_board sv)")
  case (Inl e)
  show ?thesis by (rule early [of e]) (use Inl assms early_errors in \<open>auto simp: board_post_def\<close>)
next
  case a: (Inr area)
  show ?thesis
  proof (cases "may_write author area (sv_board sv)")
    case (Inl e)
    show ?thesis by (rule early [of e]) (use Inl a assms early_errors in \<open>auto simp: board_post_def\<close>)
  next
    case w: (Inr u)
    show ?thesis
    proof (cases "post_text author subject text")
      case (Inl e)
      show ?thesis by (rule early [of e]) (use Inl a w assms early_errors in \<open>auto simp: board_post_def\<close>)
    next
      case t: (Inr body)
      obtain nr sv1 where n: "new_record c key now TypePost (fa_tag area) body sv = (nr, sv1)"
        by (cases "new_record c key now TypePost (fa_tag area) body sv")
      show ?thesis
      proof (cases nr)
        case (Inl e)
        then show ?thesis using burnt [of area body e] a w t n assms by (simp add: board_post_def)
      next
        case (Inr r)
        obtain out sv2 where k: "keep_record now r sv1 = (out, sv2)" by (cases "keep_record now r sv1")
        show ?thesis
          by (rule minted [OF a _ t n [unfolded Inr] k]) (use a w t n Inr k assms in \<open>auto simp: board_post_def Let_def split: sum.splits\<close>)
      qed
    qed
  qed
qed

text \<open>One number of an area, spent.\<close>

definition spend_seq :: "4 barray \<Rightarrow> log_db \<Rightarrow> log_db" where
  "spend_seq area db = db\<lparr>db_area_seq := fmupd area (area_high_water area db + 1) (db_area_seq db)\<rparr>"

lemma spend_seq_sel [simp]:
  "db_records (spend_seq area db) = db_records db" "db_local_seq (spend_seq area db) = db_local_seq db"
  "db_area_seq (spend_seq area db) = fmupd area (area_high_water area db + 1) (db_area_seq db)"
  by (simp_all add: spend_seq_def)

lemma next_seq_spends: "next_seq area db = (Inr q, db') \<Longrightarrow> db' = spend_seq area db"
  by (auto simp: next_seq_def spend_seq_def area_high_water_def Let_def split: if_splits)

lemma new_record_spends:
  assumes "new_record c key now typ area body sv = (res, sv1)"
  shows "case res of
      Inl e \<Rightarrow> if \<exists>x. e = InRecord x then sv1 = on_log (spend_seq area (bo_log (sv_board sv))) sv else sv1 = sv
    | Inr r \<Rightarrow> sv1 = on_log (spend_seq area (bo_log (sv_board sv))) sv \<and> record_wf c r \<and> r_sig r = copy_array (node_key_sign c key (r_signed r))"
  using assms
  by (auto simp: new_record_def mint_def dest: next_seq_spends record_new_wf record_new_result(2) split: prod.splits sum.splits)

lemma keep_record_rows:
  assumes "keep_record now r sv = (Inr u, sv1)"
  shows "db_records (bo_log (sv_board sv1)) = db_records (bo_log (sv_board sv)) @
      (if has_record (r_id r) (bo_log (sv_board sv)) then [] else [row_of r now (db_local_seq (bo_log (sv_board sv)) + 1)])"
  using assms by (auto simp: keep_record_def put_record_result has_record_iff split: if_splits prod.splits)

text \<open>
  C11. What a post leaves. On a sound ledger a post that is taken had an area open for writing and,
  if that area federates, an author with the capability; it leaves a new POST with the next number of
  the area, whose body gives back author, subject and text, whose ID is the hash of its canonical bytes
  and whose signature is the node key's over them. The log gains exactly that record (nothing, should it
  already hold the ID), the area's mark goes to its number, the author is indexed, and if the area
  federates and there is a publisher the record is handed to it once. A post that is refused leaves
  the whole service as it was, except where the record could not be built from its number: then that
  number of the area is spent, and nothing else has changed. Either way the ledger stays sound.
\<close>

theorem post_outcome:
  assumes "ledger_ok (node_key_id c key) (bo_log (sv_board sv))"
    and "board_post c key now author areaName subject text sv = (res, sv')"
  shows "ledger_ok (node_key_id c key) (bo_log (sv_board sv')) \<and>
    (case res of
       Inl e \<Rightarrow>
         if \<exists>x. e = InRecord x
         then \<exists>area. get_area areaName (sv_board sv) = Inr area \<and> sv' = on_log (spend_seq (fa_tag area) (bo_log (sv_board sv))) sv
         else sv' = sv
     | Inr i \<Rightarrow> \<exists>area r. get_area areaName (sv_board sv) = Inr area \<and> \<not> fa_read_only area \<and>
         (fa_federated area \<longrightarrow> has_capability author CapPostFederated (sv_board sv) = Inr True) \<and>
         r_id r = i \<and> r_type r = TypePost \<and> r_ts r = word_of_int now \<and> rec_coordinate r =
           (node_key_id c key, fa_tag area, area_high_water (fa_tag area) (bo_log (sv_board sv)) + 1) \<and>
         unmarshal_post_body (r_body r) = Some \<lparr>pb_author = author, pb_subject = subject, pb_text = trim_newlines text\<rparr> \<and>
         canonical_bytes r = Inr (r_signed r) \<and> i = derive_id c (r_signed r) \<and>
         r_sig r = copy_array (node_key_sign c key (r_signed r)) \<and>
         db_records (bo_log (sv_board sv')) = db_records (bo_log (sv_board sv)) @
           (if has_record i (bo_log (sv_board sv)) then [] else [row_of r now (db_local_seq (bo_log (sv_board sv)) + 1)]) \<and>
         db_area_seq (bo_log (sv_board sv')) = fmupd (fa_tag area) (r_seq r) (db_area_seq (bo_log (sv_board sv))) \<and>
         bo_authors (sv_board sv') = (if fmlookup (bo_authors (sv_board sv)) i \<noteq> None then bo_authors (sv_board sv)
           else fmupd i (author, subject) (bo_authors (sv_board sv))) \<and>
         sv_published sv' = sv_published sv @ (if fa_federated area \<and> sv_publishing sv then [(fa_tag area, r)] else []))"
  using assms(2)
proof (cases rule: board_post_cases)
  case (early e)
  then show ?thesis using assms(1) by simp
next
  case (burnt area body e)
  note m = mint_result [OF burnt(4) [unfolded new_record_def] assms(1) record_drafts(1)]
  then show ?thesis using burnt(1,5) new_record_spends [OF burnt(4)] by (auto split: if_splits)
next
  case (minted area body r sv1 out sv2)
  note m = mint_result [OF minted(4) [unfolded new_record_def] assms(1) record_drafts(1)]
  note f = new_record_fields [OF minted(4)]
  have k: "ledger_ok (node_key_id c key) (bo_log (sv_board sv2))" "sv_published sv2 = sv_published sv1"
    "sv_publishing sv2 = sv_publishing sv1" "bo_authors (sv_board sv2) = bo_authors (sv_board sv1)"
    "db_area_seq (bo_log (sv_board sv2)) = db_area_seq (bo_log (sv_board sv1))"
    using keep_record_result [OF minted(5), of "node_key_id c key"] m f by auto
  have "rec_coordinate r \<notin> coordinate ` set (db_records (bo_log (sv_board sv1)))" "bindable (r_seq r)" using m by blast+
  then have out: "out = Inr ()" using keep_minted [of r sv1 now] minted(5) by simp
  have sv1: "sv1 = on_log (spend_seq (fa_tag area) (bo_log (sv_board sv))) sv" "record_wf c r"
    "r_sig r = copy_array (node_key_sign c key (r_signed r))"
    using new_record_spends [OF minted(4)] by simp_all
  have rows: "db_records (bo_log (sv_board sv2)) = db_records (bo_log (sv_board sv)) @
      (if has_record (r_id r) (bo_log (sv_board sv)) then [] else [row_of r now (db_local_seq (bo_log (sv_board sv)) + 1)])"
    using keep_record_rows [OF minted(5) [unfolded out]] by (simp add: sv1(1) has_record_def)
  have final: "res = Inr (r_id r)" "bo_log (sv_board sv') = bo_log (sv_board sv2)"
    "bo_authors (sv_board sv') = bo_authors (index_post (r_id r) author subject (sv_board sv2))"
    "sv_published sv' = sv_published sv @ (if fa_federated area \<and> sv_publishing sv then [(fa_tag area, r)] else [])"
    using minted(6) out k(2,3) m by (auto simp: Let_def)
  have seq: "r_seq r = area_high_water (fa_tag area) (bo_log (sv_board sv)) + 1" using m by (simp add: area_high_water_def)
  have open_area: "\<not> fa_read_only area \<and> (fa_federated area \<longrightarrow> has_capability author CapPostFederated (sv_board sv) = Inr True)"
    using minted(2) by (auto simp: may_write_def split: if_splits sum.splits)
  have marks: "db_area_seq (bo_log (sv_board sv')) = fmupd (fa_tag area) (r_seq r) (db_area_seq (bo_log (sv_board sv)))"
    "bo_authors (sv_board sv') = (if fmlookup (bo_authors (sv_board sv)) (r_id r) \<noteq> None then bo_authors (sv_board sv)
       else fmupd (r_id r) (author, subject) (bo_authors (sv_board sv)))"
    using k(4,5) final(2,3) by (simp_all add: sv1(1) seq index_post_def)
  have coord: "rec_coordinate r = (node_key_id c key, fa_tag area, area_high_water (fa_tag area) (bo_log (sv_board sv)) + 1)"
    using f seq by (simp add: rec_coordinate_def)
  have wf: "canonical_bytes r = Inr (r_signed r)" "r_id r = derive_id c (r_signed r)" using sv1(2) by (simp_all add: record_wf_def)
  show ?thesis
    unfolding final(1) sum.case
    using k(1) final(2,4) rows marks coord wf sv1(3) f open_area minted(1) post_text_body [OF minted(3)]
    by (intro conjI exI [of _ area] exI [of _ r]) simp_all
qed

lemma post_record_new:
  assumes "node_key_id c key \<noteq> zero_array"
  shows "(\<exists>r. record_new c key (blank_record (node_key_id c key) q ts TypePost area body) = Inr r) \<longleftrightarrow> length body \<le> MaxBodyLen"
    and "length body > MaxBodyLen \<Longrightarrow>
      record_new c key (blank_record (node_key_id c key) q ts TypePost area body) = Inl (RBodyLen (length body))"
  using assms
  by (auto simp: record_new_def blank_record_def Let_def canonical_bytes_def type_valid_def check_no_file_content_def
      check_door_event_body_def type_consts)

lemma post_text_iff:
  "(\<exists>body. post_text author subject text = Inr body) \<longleftrightarrow>
     trim_space (trim_newlines text) \<noteq> [] \<and> length author \<le> 16 \<and> length subject \<le> 72"
  "post_text author subject text = Inr body \<Longrightarrow> length body = 2 + length author + length subject + length (trim_newlines text)"
  by (auto simp: post_text_def Let_def marshal_post_body_def split: if_splits)

text \<open>
  Which posts are taken. On a sound ledger a post to an existing message area succeeds exactly
  when the author may write there, something other than white space remains, author and subject fit
  their limits, author, subject and text together fit a record body, and the area has a number left.
\<close>

theorem post_taken_iff:
  assumes "ledger_ok (node_key_id c key) (bo_log (sv_board sv))" and "node_key_id c key \<noteq> zero_array"
    and "get_area areaName (sv_board sv) = Inr area"
    and "board_post c key now author areaName subject text sv = (res, sv')"
  shows "(\<exists>i. res = Inr i) \<longleftrightarrow> may_write author area (sv_board sv) = Inr () \<and>
    trim_space (trim_newlines text) \<noteq> [] \<and> length author \<le> 16 \<and> length subject \<le> 72 \<and>
    2 + length author + length subject + length (trim_newlines text) \<le> MaxBodyLen \<and>
    bindable (area_high_water (fa_tag area) (bo_log (sv_board sv)) + 1)"
  using assms(4)
proof (cases rule: board_post_cases)
  case (early e)
  then show ?thesis using assms(3) post_text_iff(1) [of author subject "text"] by auto
next
  case (burnt area' body e)
  then have area: "area' = area" using assms(3) by simp
  have "\<not> (length body \<le> MaxBodyLen \<and> bindable (area_high_water (fa_tag area) (bo_log (sv_board sv)) + 1))"
  proof
    assume ok: "length body \<le> MaxBodyLen \<and> bindable (area_high_water (fa_tag area) (bo_log (sv_board sv)) + 1)"
    obtain q db where nx: "next_seq (fa_tag area) (bo_log (sv_board sv)) = (Inr q, db)"
      using ok by (auto simp: next_seq_def Let_def area_high_water_def)
    obtain r where "record_new c key (blank_record (node_key_id c key) q (word_of_int now) TypePost (fa_tag area) body) = Inr r"
      using post_record_new(1) [OF assms(2)] ok by blast
    then show False using burnt(4) nx by (simp add: new_record_def mint_def area)
  qed
  then show ?thesis using burnt(5) post_text_iff(2) [OF burnt(3)] by auto
next
  case (minted area' body r sv1 out sv2)
  then have area: "area' = area" using assms(3) by simp
  note m = mint_result [OF minted(4) [unfolded new_record_def] assms(1) record_drafts(1)]
  have "rec_coordinate r \<notin> coordinate ` set (db_records (bo_log (sv_board sv1)))" "bindable (r_seq r)"
    and seq: "r_seq r = fmget (db_area_seq (bo_log (sv_board sv))) (fa_tag area) + 1" using m area by blast+
  then have "out = Inr ()" using keep_minted [of r sv1 now] minted(5) by simp
  then have res: "res = Inr (r_id r)" using minted(6) by simp
  obtain q where "record_new c key (blank_record (node_key_id c key) q (word_of_int now) TypePost (fa_tag area) body) = Inr r"
    using minted(4) area by (auto simp: new_record_def mint_def split: prod.splits sum.splits)
  then have "length body \<le> MaxBodyLen" using post_record_new(1) [OF assms(2)] by blast
  then show ?thesis
    using res minted(2,3) area post_text_iff [of author subject "text"] \<open>bindable (r_seq r)\<close> seq
    by (auto simp: area_high_water_def)
qed

section \<open>A number that is lost\<close>

datatype service_op =
    OpPost int bytes bytes bytes bytes
  | OpDoorEvents int bytes bytes "door_event list"
  | OpReceive int rec
  | OpAreas area_op

fun service_step :: "crypto \<Rightarrow> node_key \<Rightarrow> service_op \<Rightarrow> service \<Rightarrow> service" where
  "service_step c key (OpPost now author areaName subject text) sv = snd (board_post c key now author areaName subject text sv)"
| "service_step c key (OpDoorEvents now areaName game events) sv = snd (publish_door_events c key now areaName game events sv)"
| "service_step c key (OpReceive now r) sv = snd (keep_record now r sv)"
| "service_step c key (OpAreas x) sv = sv\<lparr>sv_board := area_step c x (sv_board sv)\<rparr>"

definition lost :: "node_id \<Rightarrow> 4 barray \<Rightarrow> u64 \<Rightarrow> log_db \<Rightarrow> bool" where
  "lost self area q db \<longleftrightarrow> ledger_ok self db \<and> q \<le> fmget (db_area_seq db) area \<and>
     (self, area, q) \<notin> coordinate ` set (db_records db)"

lemma mint_lost:
  assumes "mint area draft sv = (res, sv1)" and "lost self tag q (bo_log (sv_board sv))" and "drafts self area draft"
  shows "lost self tag q (bo_log (sv_board sv1)) \<and> (\<forall>r. res = Inr r \<longrightarrow> rec_coordinate r \<noteq> (self, tag, q) \<and>
    r_origin r = self \<and> r_seq r \<le> fmget (db_area_seq (bo_log (sv_board sv1))) (r_area r))"
proof -
  let ?db = "bo_log (sv_board sv)" and ?db1 = "bo_log (sv_board sv1)"
  have led: "ledger_ok self ?db" and q: "q \<le> fmget (db_area_seq ?db) tag"
    and free: "(self, tag, q) \<notin> coordinate ` set (db_records ?db)" using assms(2) by (simp_all add: lost_def)
  note m = mint_result [OF assms(1) led assms(3)]
  have "q \<le> fmget (db_area_seq ?db1) tag" using q m by (blast intro: order_trans)
  then have l: "lost self tag q ?db1" using m free by (simp add: lost_def)
  have "rec_coordinate r \<noteq> (self, tag, q) \<and> r_origin r = self \<and> r_seq r \<le> fmget (db_area_seq ?db1) (r_area r)" if "res = Inr r" for r
  proof -
    have r: "r_origin r = self" "r_area r = area" "r_seq r = fmget (db_area_seq ?db) area + 1" "r_seq r = fmget (db_area_seq ?db1) area"
      using m that by blast+
    have "fmget (db_area_seq ?db) area < r_seq r"
      using r(3) bindable_plus1 [of "fmget (db_area_seq ?db) area"] led by (simp add: ledger_ok_def marks_ok_def)
    then have "rec_coordinate r \<noteq> (self, tag, q)" using q r(1,2) by (auto simp: rec_coordinate_def)
    then show ?thesis using r by simp
  qed
  then show ?thesis using l by blast
qed

lemma keep_lost:
  assumes "keep_record now r sv = (res, sv1)" and "lost self tag q (bo_log (sv_board sv))" and "rec_coordinate r \<noteq> (self, tag, q)"
    and "r_origin r = self \<longrightarrow> r_seq r \<le> fmget (db_area_seq (bo_log (sv_board sv))) (r_area r)"
  shows "lost self tag q (bo_log (sv_board sv1))"
proof -
  have led: "ledger_ok self (bo_log (sv_board sv))" using assms(2) by (simp add: lost_def)
  note k = keep_record_result [OF assms(1) led assms(4)]
  have "(self, tag, q) \<notin> coordinate ` set (db_records (bo_log (sv_board sv1)))"
  proof
    assume "(self, tag, q) \<in> coordinate ` set (db_records (bo_log (sv_board sv1)))"
    then obtain x where "x \<in> set (db_records (bo_log (sv_board sv1)))" "coordinate x = (self, tag, q)" by auto
    then have "x \<in> set (db_records (bo_log (sv_board sv)))" using k assms(3) by metis
    then show False using assms(2) \<open>coordinate x = (self, tag, q)\<close> unfolding lost_def by (metis image_eqI)
  qed
  then show ?thesis using k assms(2) by (simp add: lost_def)
qed

lemma publish_log [simp]: "bo_log (sv_board (sv\<lparr>sv_board := index_post i a t (sv_board sv)\<rparr>)) = bo_log (sv_board sv)"
  by simp

lemma area_step_lost: "lost self tag q (bo_log bd) \<Longrightarrow> lost self tag q (bo_log (area_step c x bd))"
proof -
  have same: "db_records (bo_log (area_step c x bd)) = db_records (bo_log bd) \<and> db_area_seq (bo_log (area_step c x bd)) = db_area_seq (bo_log bd) \<and>
      db_local_seq (bo_log (area_step c x bd)) = db_local_seq (bo_log bd)"
  proof (cases x)
    case (OpCreateArea now name description federated kind)
    then show ?thesis by (auto simp: create_area_def Let_def with_areas_def split: sum.splits)
  next
    case (OpFederateArea name federated actor)
    then show ?thesis by (auto simp: set_area_federated_def with_areas_def)
  qed
  then have "rows_ok (bo_log (area_step c x bd)) = rows_ok (bo_log bd)" by (intro rows_ok_cong) simp_all
  then show "lost self tag q (bo_log bd) \<Longrightarrow> lost self tag q (bo_log (area_step c x bd))"
    using same by (simp add: lost_def ledger_ok_def marks_ok_def own_covered_def)
qed

lemma service_step_lost:
  assumes "lost (node_key_id c key) tag q (bo_log (sv_board sv))"
    and "\<And>now r. x = OpReceive now r \<Longrightarrow> r_origin r \<noteq> node_key_id c key"
  shows "lost (node_key_id c key) tag q (bo_log (sv_board (service_step c key x sv)))"
proof (cases x)
  case (OpPost now author areaName subject words)
  obtain res sv' where p: "board_post c key now author areaName subject words sv = (res, sv')" by fastforce
  have "lost (node_key_id c key) tag q (bo_log (sv_board sv'))"
    using p
  proof (cases rule: board_post_cases)
    case (burnt area body e)
    then show ?thesis using mint_lost [OF burnt(4) [unfolded new_record_def] assms(1) record_drafts(1)] by simp
  next
    case (minted area body r sv1 out sv2)
    note m = mint_lost [OF minted(4) [unfolded new_record_def] assms(1) record_drafts(1)]
    have "lost (node_key_id c key) tag q (bo_log (sv_board sv2))" by (rule keep_lost [OF minted(5)]) (use m in blast)+
    then show ?thesis using minted(6) by (auto simp: Let_def split: sum.splits)
  qed (use assms(1) in simp)
  then show ?thesis using OpPost p by simp
next
  case (OpDoorEvents now areaName game events)
  show ?thesis
  proof (cases "length events = 0 \<or> (\<forall>area. get_door_area areaName (sv_board sv) = Inr area \<longrightarrow> \<not> fa_federated area)")
    case True
    then show ?thesis using assms(1) OpDoorEvents by (auto simp: publish_door_events_def split: sum.splits)
  next
    case False
    then obtain area where a: "events \<noteq> []" "get_door_area areaName (sv_board sv) = Inr area" "fa_federated area" by auto
    obtain nr sv1 where n: "mint (fa_tag area) (\<lambda>q. new_door_event_record c key q (word_of_int now) (fa_tag area)
        \<lparr>db_game = game, db_events = events\<rparr>) sv = (nr, sv1)" by fastforce
    note m = mint_lost [OF n assms(1) record_drafts(3)]
    show ?thesis
    proof (cases nr)
      case (Inl e)
      then show ?thesis using m a n OpDoorEvents by (simp add: publish_door_events_def)
    next
      case (Inr r)
      obtain out sv2 where k: "keep_record now r sv1 = (out, sv2)" by fastforce
      have "lost (node_key_id c key) tag q (bo_log (sv_board sv2))" by (rule keep_lost [OF k]) (use m Inr in blast)+
      then show ?thesis using a n Inr k OpDoorEvents by (auto simp: publish_door_events_def split: sum.splits)
    qed
  qed
next
  case (OpReceive now r)
  obtain out sv2 where k: "keep_record now r sv = (out, sv2)" by fastforce
  have "r_origin r \<noteq> node_key_id c key" using assms(2) OpReceive by blast
  then have "lost (node_key_id c key) tag q (bo_log (sv_board sv2))"
    by (intro keep_lost [OF k assms(1)]) (auto simp: rec_coordinate_def)
  then show ?thesis using OpReceive k by simp
next
  case (OpAreas y)
  then show ?thesis using area_step_lost assms(1) by simp
qed

lemma lost_mark:
  assumes "lost self area q (gl_db g)" and "0 < q"
  shows "vv_get (gl_vector g area) self < q"
proof (rule ccontr)
  assume "\<not> vv_get (gl_vector g area) self < q"
  then have "gl_held g area self q"
    using gl_vector_mark [of g area self] assms by (auto simp: run_of_def lost_def ledger_ok_def marks_ok_def linorder_not_less)
  then obtain x where "x \<in> set (db_records (gl_db g))" "coordinate x = (self, area, q)"
    by (auto simp: gl_held_def served_rows_set coordinate_def)
  then show False using assms(1) unfolding lost_def by (metis image_eqI)
qed

text \<open>
  C18. One post that is too long silences its area for good. A post whose text does not fit a record
  body is refused only after its number was issued. Whatever is posted, received from other nodes or
  reconfigured afterwards, the vector this node advertises for the area stays below that number, so
  no peer ever asks for anything this node writes there later; the number itself is never issued again.
\<close>

theorem long_post_silences_area:
  assumes "ledger_ok (node_key_id c key) (bo_log (sv_board sv))"
    and "get_area areaName (sv_board sv) = Inr area"
    and "board_post c key now author areaName subject text sv = (Inl (InRecord (RBodyLen n)), sv1)"
    and "\<forall>t r. OpReceive t r \<in> set ops \<longrightarrow> r_origin r \<noteq> node_key_id c key"
    and "gl_db g = bo_log (sv_board (fold (service_step c key) ops sv1))"
  shows "vv_get (gl_vector g (fa_tag area)) (node_key_id c key) < area_high_water (fa_tag area) (bo_log (sv_board sv)) + 1 \<and>
    area_high_water (fa_tag area) (bo_log (sv_board sv)) + 1 \<le> area_high_water (fa_tag area) (gl_db g)"
proof -
  let ?self = "node_key_id c key" and ?db = "bo_log (sv_board sv)"
  let ?q = "area_high_water (fa_tag area) ?db + 1"
  have up: "area_high_water (fa_tag area) ?db < ?q"
    using assms(1) bindable_plus1 [of "area_high_water (fa_tag area) ?db"] by (simp add: ledger_ok_def marks_ok_def area_high_water_def)
  have "lost ?self (fa_tag area) ?q (bo_log (sv_board sv1))"
    using assms(3)
  proof (cases rule: board_post_cases)
    case (early e)
    then show ?thesis by auto
  next
    case (burnt area' body e)
    then have area: "area' = area" using assms(2) by simp
    note m = mint_result [OF burnt(4) [unfolded new_record_def] assms(1) record_drafts(1)]
    have "fmget (db_area_seq (bo_log (sv_board sv1))) (fa_tag area) = ?q"
      using burnt(4,5) area next_seq_result [of "fa_tag area" ?db]
      by (auto simp: new_record_def mint_def area_high_water_def split: prod.splits sum.splits)
    moreover have "(?self, fa_tag area, ?q) \<notin> coordinate ` set (db_records ?db)"
    proof
      assume "(?self, fa_tag area, ?q) \<in> coordinate ` set (db_records ?db)"
      then obtain x where "x \<in> set (db_records ?db)" "lr_origin x = ?self" "lr_area x = fa_tag area" "lr_seq x = ?q"
        by (auto simp: coordinate_def)
      then have "?q \<le> area_high_water (fa_tag area) ?db"
        using assms(1) by (auto simp: ledger_ok_def own_covered_def area_high_water_def)
      then show False using up by simp
    qed
    ultimately show ?thesis using m by (simp add: lost_def)
  next
    case (minted area' body r sv1' out sv2)
    note m = mint_result [OF minted(4) [unfolded new_record_def] assms(1) record_drafts(1)]
    have "rec_coordinate r \<notin> coordinate ` set (db_records (bo_log (sv_board sv1')))" "bindable (r_seq r)" using m by blast+
    then have "out = Inr ()" using keep_minted [of r sv1' now] minted(5) by simp
    then show ?thesis using minted(6) by simp
  qed
  then have "lost ?self (fa_tag area) ?q (bo_log (sv_board (fold (service_step c key) ops sv1)))"
    using assms(4)
  proof (induction ops arbitrary: sv1)
    case (Cons x xs)
    have "lost ?self (fa_tag area) ?q (bo_log (sv_board (service_step c key x sv1)))"
      using Cons.prems by (intro service_step_lost) auto
    then show ?case using Cons by simp
  qed simp
  moreover have "0 < ?q" using up by (rule le_less_trans [rotated]) simp
  ultimately show ?thesis
    using lost_mark [of ?self "fa_tag area" ?q g] assms(5) by (simp add: lost_def area_high_water_def)
qed

section \<open>A small board\<close>

definition toy_member :: user_options where
  "toy_member = \<lparr>uo_nick = ascii ''ann'', uo_display_name = [], uo_password_hash = [], uo_is_sysop = False, uo_can_login = True,
     uo_capabilities = Some [CapPostFederated]\<rparr>"

definition toy_service :: service where
  "toy_service = \<lparr>sv_board = snd (create_user 6 toy_member toy_forum), sv_publishing = True, sv_published = []\<rparr>"

lemma toy_ledger: "ledger_ok (node_key_id toy_crypto toy_key) (bo_log (sv_board toy_service))"
proof -
  have empty: "db_records (bo_log (sv_board toy_service)) = []" "db_area_seq (bo_log (sv_board toy_service)) = fmempty"
    by code_simp+
  show ?thesis by (simp add: ledger_ok_def marks_ok_def own_covered_def rows_ok_def empty bindable_def)
qed

lemma toy_area_open:
  obtains area where "get_area (ascii ''Tech'') (sv_board toy_service) = Inr area" "fa_federated area"
    "may_write (ascii ''ann'') area (sv_board toy_service) = Inr ()"
    "area_high_water (fa_tag area) (bo_log (sv_board toy_service)) = 0"
proof -
  have "case get_area (ascii ''Tech'') (sv_board toy_service) of Inl _ \<Rightarrow> False | Inr area \<Rightarrow>
      fa_federated area \<and> may_write (ascii ''ann'') area (sv_board toy_service) = Inr () \<and>
      area_high_water (fa_tag area) (bo_log (sv_board toy_service)) = 0" by code_simp
  then show ?thesis using that by (cases "get_area (ascii ''Tech'') (sv_board toy_service)") auto
qed

theorem post_taken_iff_witness:
  "\<exists>i. fst (board_post toy_crypto toy_key 9 (ascii ''ann'') (ascii ''Tech'') [] (ascii ''hi'') toy_service) = Inr i"
proof -
  obtain area where a: "get_area (ascii ''Tech'') (sv_board toy_service) = Inr area"
    "may_write (ascii ''ann'') area (sv_board toy_service) = Inr ()"
    "area_high_water (fa_tag area) (bo_log (sv_board toy_service)) = 0" by (rule toy_area_open)
  obtain res sv' where p: "board_post toy_crypto toy_key 9 (ascii ''ann'') (ascii ''Tech'') [] (ascii ''hi'') toy_service = (res, sv')"
    by fastforce
  have "trim_newlines (ascii ''hi'') = [104, 105]" "trim_space [104, 105] \<noteq> []" "length (ascii ''ann'') = 3" by code_simp+
  then have "\<exists>i. res = Inr i"
    unfolding post_taken_iff [OF toy_ledger toy_origin a(1) p] using a by (simp add: MaxBodyLen_def bindable_def)
  then show ?thesis using p by simp
qed

theorem post_outcome_witness:
  "\<exists>r. sv_published (snd (board_post toy_crypto toy_key 9 (ascii ''ann'') (ascii ''Tech'') [] (ascii ''hi'') toy_service)) =
         [(r_area r, r)] \<and> r_seq r = 1"
proof -
  have taken: "case fst (board_post toy_crypto toy_key 9 (ascii ''ann'') (ascii ''Tech'') [] (ascii ''hi'') toy_service) of
      Inl _ \<Rightarrow> False | Inr _ \<Rightarrow> True" by code_simp
  then obtain i sv' where p: "board_post toy_crypto toy_key 9 (ascii ''ann'') (ascii ''Tech'') [] (ascii ''hi'') toy_service = (Inr i, sv')"
    by (cases "board_post toy_crypto toy_key 9 (ascii ''ann'') (ascii ''Tech'') [] (ascii ''hi'') toy_service") (auto split: sum.splits)
  obtain area where a: "get_area (ascii ''Tech'') (sv_board toy_service) = Inr area" "fa_federated area"
    "area_high_water (fa_tag area) (bo_log (sv_board toy_service)) = 0" by (rule toy_area_open)
  have "sv_published toy_service = []" "sv_publishing toy_service" by (simp_all add: toy_service_def)
  then show ?thesis using post_outcome [OF toy_ledger p] a p by (auto simp: rec_coordinate_def)
qed

lemma trim_newlines_solid: "s \<noteq> [] \<Longrightarrow> last s \<noteq> 0x0A \<Longrightarrow> trim_newlines s = s"
  by (cases s rule: rev_cases) (simp_all add: trim_newlines_def)

theorem long_post_silences_area_witness:
  "\<exists>(area :: forum_area) (g :: gossip_log) sv1. board_post toy_crypto toy_key 9 (ascii ''ann'') (ascii ''Tech'') [] (replicate 8200 104) toy_service
         = (Inl (InRecord (RBodyLen 8205)), sv1) \<and>
     gl_db g = bo_log (sv_board (fold (service_step toy_crypto toy_key) [OpPost 10 (ascii ''ann'') (ascii ''Tech'') [] (ascii ''hi'')] sv1)) \<and>
     vv_get (gl_vector g (fa_tag area)) (node_key_id toy_crypto toy_key) = 0"
proof -
  let ?t = "replicate 8200 104 :: bytes"
  obtain area where a: "get_area (ascii ''Tech'') (sv_board toy_service) = Inr area"
    "may_write (ascii ''ann'') area (sv_board toy_service) = Inr ()"
    "area_high_water (fa_tag area) (bo_log (sv_board toy_service)) = 0" by (rule toy_area_open)
  have solid: "trim_newlines ?t = ?t" "trim_space ?t = ?t"
    by (intro trim_newlines_solid; simp) (rule trim_space_solid; simp add: is_space_def)
  have ann: "length (ascii ''ann'') = 3" by code_simp
  obtain body where body: "post_text (ascii ''ann'') [] ?t = Inr body"
    using post_text_iff(1) [of "ascii ''ann''" "[]" ?t] solid ann by auto
  have len: "length body = 8205" using post_text_iff(2) [OF body] solid ann by simp
  obtain q db where nx: "next_seq (fa_tag area) (bo_log (sv_board toy_service)) = (Inr q, db)"
    using a(3) by (simp add: next_seq_def Let_def area_high_water_def bindable_def)
  have "new_record toy_crypto toy_key 9 TypePost (fa_tag area) body toy_service = (Inl (InRecord (RBodyLen 8205)), on_log db toy_service)"
    using post_record_new(2) [OF toy_origin, of body] len nx by (simp add: new_record_def mint_def MaxBodyLen_def)
  then have p: "board_post toy_crypto toy_key 9 (ascii ''ann'') (ascii ''Tech'') [] ?t toy_service
      = (Inl (InRecord (RBodyLen 8205)), on_log db toy_service)"
    using a body by (simp add: board_post_def)
  let ?ops = "[OpPost 10 (ascii ''ann'') (ascii ''Tech'') [] (ascii ''hi'')]"
  let ?db = "bo_log (sv_board (fold (service_step toy_crypto toy_key) ?ops (on_log db toy_service)))"
  have "gl_db (new_gossip_log toy_crypto ?db) = ?db" by (simp add: new_gossip_log_def refresh_def split: prod.splits)
  from long_post_silences_area [OF toy_ledger a(1) p _ this]
  have "vv_get (gl_vector (new_gossip_log toy_crypto ?db) (fa_tag area)) (node_key_id toy_crypto toy_key) < 1" using a(3) by simp
  then have "vv_get (gl_vector (new_gossip_log toy_crypto ?db) (fa_tag area)) (node_key_id toy_crypto toy_key) = 0"
    using word_less_1 by blast
  with p \<open>gl_db (new_gossip_log toy_crypto ?db) = ?db\<close> show ?thesis
    by (intro exI [of _ area] exI [of _ "new_gossip_log toy_crypto ?db"] exI [of _ "on_log db toy_service"] conjI)
qed

end
