(* ===== verification/Wiring.thy ===== *)
theory Wiring
  imports GossipLog Bsmp
begin

text \<open>
  The engine as \<open>internal/cli/mesh_serve.go\<close> builds it for a running board: on the SQLite log, with
  the outbox of \<open>bsmp\<close>, which takes loss rates. The engine's theorems hold for it as for any
  environment; here is what they say of this outbox.
\<close>

text \<open>The engine only passes errors of its outbox on; \<open>code\<close> names them.\<close>

definition board_env ::
  "crypto \<Rightarrow> go_math \<Rightarrow> (gossip_log \<Rightarrow> int) \<Rightarrow> (bsmp_error \<Rightarrow> nat) \<Rightarrow> (nat \<Rightarrow> rat) \<Rightarrow> (gossip_log, 'l outbox) gossip_env" where
  "board_env c M clk code rnd =
     log_store_env c clk
       (\<lambda>to payload ob. case send_message to payload ob of (err, ob') \<Rightarrow> (map_option code err, ob'))
       (\<lambda>area recs ob. case send_records M (blake3 c) area recs ob of (err, ob') \<Rightarrow> (map_option code err, ob'))
       outbox_budget (Some (ob_loss, set_loss_rate)) rnd"

lemma board_env_sel [simp]:
  "ge_budget (board_env c M clk code rnd) = outbox_budget"
  "ge_loss_adapter (board_env c M clk code rnd) = Some (ob_loss, set_loss_rate)"
  by (simp_all add: board_env_def log_store_env_def)

text \<open>Loss rates change nothing but the loss rate, and leave it between zero and one half.\<close>

lemma tuned_outbox:
  "\<exists>x. tune (board_env c M clk code rnd) rates ob = ob\<lparr>ob_loss := x\<rparr> \<and> (rates \<noteq> [] \<longrightarrow> 0 \<le> x \<and> x \<le> maxLossRate)"
proof (cases rates rule: rev_cases)
  case Nil
  then show ?thesis by (intro exI [of _ "ob_loss ob"]) (simp add: tune_def)
next
  case (snoc rs r)
  have "\<exists>y. fold set_loss_rate rs ob = ob\<lparr>ob_loss := y\<rparr>" for rs
  proof (induction rs arbitrary: ob)
    case Nil
    show ?case by (rule exI [of _ "ob_loss ob"]) simp
  next
    case (Cons q qs)
    show ?case using Cons [of "set_loss_rate q ob"] by (auto simp: set_loss_rate_def Let_def)
  qed
  then obtain y where "fold set_loss_rate rs ob = ob\<lparr>ob_loss := y\<rparr>" by blast
  then show ?thesis
    by (intro exI [of _ "if r < 0 then 0 else if r > maxLossRate then maxLossRate else r"])
      (simp add: snoc tune_def set_loss_rate_def Let_def maxLossRate_def)
qed

lemma tune_outbox_state [simp]: "ob_state (tune (board_env c M clk code rnd) rates ob) = ob_state ob"
  using tuned_outbox [of c M clk code rnd rates ob] by auto

definition dry_outbox :: "(nat \<times> bytes list) outbox" where
  "dry_outbox = (toy_outbox open_link)\<lparr>ob_link := logged open_link 1413
     (\<lambda>_. \<lparr>bu_available = 9, bu_per_datagram = 3, bu_backpressure = True\<rparr>)\<rparr>"

definition dry_env :: "(gossip_log, (nat \<times> bytes list) outbox) gossip_env" where
  "dry_env = board_env toy_crypto toy_math (\<lambda>_. 9) (\<lambda>_. 1) (\<lambda>_. 0)"

definition dry_engine :: "(gossip_log, (nat \<times> bytes list) outbox) engine" where
  "dry_engine = engine_new dry_env 0 (copy_array [3]) toy_log dry_outbox default_config 0"

theorem no_send_without_budget_witness:
  "ob_state (eg_out (snd (engine_publish dry_env 0 zero_array [toy_rec 3] dry_engine))) = (0, []) \<and>
   ob_state (eg_out (snd (engine_tick dry_env 7200000000000 dry_engine))) = (0, []) \<and>
   (\<forall>peer b. ob_state (eg_out (snd (engine_receive dry_env 0 peer b dry_engine))) = (0, []))"
proof -
  have out: "eg_out dry_engine = dry_outbox" by (simp add: dry_engine_def engine_new_def split: prod.split)
  then have "\<not> can_send (ge_budget dry_env (eg_out dry_engine))"
    by (simp add: dry_env_def dry_outbox_def outbox_budget_def logged_def can_send_def)
  note silent = no_send_without_budget [OF this]
  have start: "ob_state dry_outbox = (0, [])" by (simp add: dry_outbox_def)
  have "ob_state (eg_out (snd (engine_receive dry_env 0 peer b dry_engine))) = (0, [])" for peer b
    using silent [THEN conjunct2, THEN conjunct2, of 0 peer b] start out unfolding dry_env_def by auto
  moreover have "eg_out (snd (engine_publish dry_env 0 zero_array [toy_rec 3] dry_engine)) = eg_out dry_engine"
    "eg_out (snd (engine_tick dry_env 7200000000000 dry_engine)) = eg_out dry_engine"
    using silent by blast+
  ultimately show ?thesis using out start by simp
qed

end
