(* ===== verification/Spec2Isabelle.thy ===== *)
theory Spec2Isabelle
  imports GossipWire Succession FountainDecoder Airtime Engine MemStore Exchange Governor Bundle Bsmp
    Discovery HandOff BoardService Wiring
begin

text \<open>
  The federation core of meshbbs, a bulletin board whose instances exchange signed records over
  Meshtastic radios. All source paths are below \<open>src/internal/\<close>.

  \<^bold>\<open>The program.\<close> A record (\<open>record\<close>) is a signed, sequenced entry of one node's log. A store keeps
  the logs it has by area, origin and sequence, with a vector (\<open>vv\<close>) of contiguous high-water
  marks per area. The gossip engine (\<open>gossip\<close>) compares digests of those vectors with its peers,
  asks for what it lacks in two steps (vector, then ranges) and applies what arrives. The engine
  is written against an interface; a running board gives it the SQLite log of \<open>store\<close>, the simulator
  the in-memory double of \<open>gossiptest\<close>. Local users write through the service of \<open>bbs\<close>, which mints
  records with numbers the store issues. Batches of
  records are packed (\<open>bundle\<close>), cut into fountain symbols (\<open>fountain\<close>) and sent by the outbox and
  reassembled by the inbox (\<open>bsmp\<close>). Nothing is transmitted that the airtime governor
  (\<open>governor\<close>, on the time-on-air model of \<open>airtime\<close>) has not admitted. The link of \<open>meshlink\<close>
  carries the packets through a Meshtastic radio, whose serial stream \<open>meshtastic\<close> reads, and finds
  out which radio number belongs to which node. Where there is no radio path, \<open>sneakernet\<close> carries
  the same bundles, and files, on a stick. Key rotations are resolved by the registry of
  \<open>succession\<close>.

  \<^bold>\<open>Theories and sources.\<close>
  \<^item> \<open>Prelude\<close>, \<open>GoMaps\<close>, \<open>Float64\<close>: what the sources use of Go and its library. Fixed arrays,
    big-endian integers, uvarints (terminating on \<open>unat\<close>), maps as finite maps, and \<open>float64\<close> as
    rationals rounded to 53 bits. \<open>Prelude\<close> states the contract of a codec (locales
    \<open>canonical_codec\<close>, \<open>checked_codec\<close>): what is written reads back, and only what is written is
    accepted.
  \<^item> \<open>VersionVector\<close> (\<open>vv/vv.go\<close>): the vector, its comparison, its merge as a join (locale
    \<open>merge_laws\<close>), the ranges one vector lacks of another, and the wire form.
  \<^item> \<open>GossipWire\<close> (\<open>gossip/digest.go\<close>, \<open>wire.go\<close>): the four messages of the protocol and the
    selection of ranges that fit one packet.
  \<^item> \<open>Labels\<close>, \<open>RecordBodies\<close>, \<open>DoorEvents\<close>, \<open>Records\<close> (\<open>record/*.go\<close>): text fields over the bytes of
    UTF-8, the payloads of each record type, and the record with its canonical bytes, signature
    and verification. BLAKE3, Ed25519 and their keys are arguments (\<open>crypto\<close>).
  \<^item> \<open>Succession\<close> (\<open>succession/succession.go\<close>): the registry with its guardrails as a state
    machine. A walk along hops takes at most the number of hops recorded.
  \<^item> \<open>Fountain\<close>, \<open>Gf2\<close>, \<open>FountainDecoder\<close> (\<open>fountain/codec.go\<close>): symbols and masks, elimination over
    GF(2), and the decoder. \<open>mask_fill\<close> draws 32 members a turn and so ends after \<open>k/32\<close> turns.
  \<^item> \<open>Airtime\<close> (\<open>airtime/airtime.go\<close>), \<open>Schedule\<close> (\<open>gossip/schedule.go\<close>), \<open>Governor\<close>
    (\<open>governor/governor.go\<close>): time on air, the pace of digests, and the token bucket with its
    reserves, area shares, duty cycle, quiet hours and backoff.
  \<^item> \<open>Engine\<close> (\<open>gossip/engine.go\<close>): the state machine of one node over an abstract store and outbox
    (record \<open>gossip_env\<close>).
  \<^item> \<open>MemStore\<close> (\<open>gossiptest/store.go\<close>): the log, its marks and its checker. The climb of the marks
    has fuel one above the number of records it can pass (\<open>climb_fuel\<close>), so it never runs out on
    a log with a gap; \<open>None\<close> stands for a loop of the code that does not end.
  \<^item> \<open>Exchange\<close>: the engine on its store. The store's contract is the locale \<open>gossip_store\<close>,
    interpreted on \<open>MemStore\<close>; runs of the engine are a step relation.
  \<^item> \<open>Bundle\<close> (\<open>bundle/bundle.go\<close>): the framing of a batch, and compression by a dictionary set
    whose zstd coder is an argument; \<open>new_dictionary\<close> gives its decoder the memory limit of the code,
    so what is said of decompression is said up to \<open>MaxDecompressed\<close>.
  \<^item> \<open>Bsmp\<close> (\<open>bsmp/outbox.go\<close>, \<open>inbox.go\<close>; \<open>RepairCount\<close> of \<open>fountain/codec.go\<close>): the transmission and
    reassembly of batches. Eviction ends because each turn removes an open block.
  \<^item> \<open>FrameStream\<close>, \<open>RadioConfig\<close> (\<open>meshtastic/frame.go\<close>, \<open>session.go\<close>, \<open>hammode\<close>): frames on the
    serial stream with resynchronisation, the configuration exchange, and the rule that a licensed
    operator's channel is in clear. The frame reader recurses on the bytes left.
  \<^item> \<open>PeerTable\<close>, \<open>MeshLink\<close>, \<open>MeshRuns\<close>, \<open>Discovery\<close> (\<open>meshlink/*.go\<close>): the table of radios with its
    rate limits, the link's entry points and timer, and what holds over every run of them, a run
    being any sequence of its entry points with any clock.
  \<^item> \<open>LogStore\<close> (\<open>store/records.go\<close>, \<open>seq.go\<close>, \<open>nodes.go\<close>): the tables of records, issued numbers and
    the roster; a statement is the function of the tables its text describes.
  \<^item> \<open>GossipLog\<close> (\<open>store/gossipstore.go\<close>), \<open>CatchUp\<close>: the adapter of the engine on that log (a second
    interpretation of \<open>gossip_store\<close>), its agreement with the in-memory double, and what an
    exchange between two boards achieves. The walk over the marks is a structural recursion on the
    rows in order.
  \<^item> \<open>InsertionSort\<close>, \<open>Carrier\<close> (\<open>sneakernet/carrier.go\<close>, \<open>stream.go\<close>, \<open>blobstore\<close>), \<open>HandOff\<close>
    (\<open>sneakernet/exchange.go\<close>): the manifest, the blobs, the file, and the export and import of one
    on a board's log.
  \<^item> \<open>Forum\<close> (\<open>store/forum.go\<close>, \<open>users.go\<close>), \<open>BoardService\<close> (\<open>bbs/bbs.go\<close>, \<open>doorevents.go\<close>): areas,
    post bodies, accounts and capabilities, and the operations that write records.
  \<^item> \<open>Wiring\<close> (\<open>cli/mesh_serve.go\<close>): the environment of the engine on a running board, that log with
    that outbox and its loss rates.

  \<^bold>\<open>What is shown.\<close> Of the formats: each decoder accepts exactly what its encoder writes, and one
  byte string stands for one value. Of the log: verification determines the record, the marks
  describe the log in every reachable state, slots never change, and merging vectors and
  applying records are independent of order. Of the protocol: of two nodes that differ at least
  one asks, an exchange makes progress whatever the limits per message, every run keeps the
  store sound and growing, and nothing is sent without budget. Of the transport: a fountain
  block is recovered from any symbols that determine it, a transmission resumes where it
  stopped, the inbox stays bounded, and on a clean link a batch arrives at the peer's engine.
  Of the governor: tokens, penalty and ceiling stay within their bounds, the charges of a run
  are bounded by elapsed time, and the duty cycle of any hour is kept. Of the mesh link: what it
  sends is paid for and within its share, a datagram is handed up under the node whose signed
  announcement its radio carries, and two links in reach come to know each other. Of the board's
  log: only verified records enter, a coordinate never gets a second record, a number is never
  issued twice, the adapter admits what the double admits, and of two boards the one behind
  catches up page by page, over the air or by a carrier. Of local posts: when one is taken, and
  what it then publishes. Some theorems state limits of the code: a post too long to
  carry stops its author's later posts in that area from travelling, and an older node record
  arriving late takes the roster entry back.

  \<^bold>\<open>Not modelled.\<close> Code that is I/O, rendering or a call into a library: serial ports, TCP and TLS
  sessions (\<open>iplink\<close>), terminals and servers (\<open>tui\<close>, \<open>web\<close>, SSH, Telnet, SFTP), configuration and
  command line, the child processes of doors, password hashing and sealed boxes, the network
  simulator and the tools that generate test vectors. Of \<open>store\<close>: files, direct messages, aliases,
  airtime shares, retention, doors and web sessions, which are further tables of the same kind.
  Of \<open>bbs\<close>: file rows, direct messages and keys for them. The radio survey only reports.
  The protobufs and the word list are generated. SQLite is modelled as far as the statements
  modelled use it; its failures are not. Cryptography, compression and random numbers are
  arguments, with the laws the code relies on as hypotheses. Locks make each operation atomic;
  goroutines are the order of the operations.
\<close>

end
